(* ===== verification/Mcpq_Prelude.thy ===== *)
theory Mcpq_Prelude
  imports Main "HOL-Library.Word" "HOL-Library.Monad_Syntax"
begin

text \<open>
  Shared vocabulary of the development: theorem collections, and the generic facts on
  lists, options and bits that the component theories use through the simplifier.

  Every kernel routine that can fail is a function into \<open>option\<close>: \<open>None\<close> means that the
  call does not come back to its caller, because it dereferences a NULL or freed pointer,
  trips a \<open>BUG_ON\<close>, takes a spinlock the same context already holds, unlinks a list node
  that is on no list, or loops forever. \<open>Some\<close> carries the kernel state after the call.
\<close>

named_theorems kdefs \<open>definitions of the small accessors and updaters of the state\<close>
named_theorems kframe \<open>what a routine leaves unchanged\<close>
named_theorems kspec \<open>behaviour of a routine under its precondition\<close>

text \<open>A check that the code performs with \<open>BUG_ON (not b)\<close>.\<close>

definition guardK :: "bool \<Rightarrow> 's \<Rightarrow> 's option" where
  "guardK b s = (if b then Some s else None)"

lemma guardK_True [simp]: "guardK True s = Some s"
  by (simp add: guardK_def)

lemma guardK_False [simp]: "guardK False s = None"
  by (simp add: guardK_def)

lemma guardK_eq_Some [simp]: "guardK b s = Some t \<longleftrightarrow> b \<and> t = s"
  by (auto simp: guardK_def)

lemma guardK_bind [simp]: "Option.bind (guardK b s) f = (if b then f s else None)"
  by (simp add: guardK_def)

text \<open>Running a routine over the elements of a list, stopping at the first failure.\<close>

fun forK :: "('a \<Rightarrow> 's \<Rightarrow> 's option) \<Rightarrow> 'a list \<Rightarrow> 's \<Rightarrow> 's option" where
  "forK f [] s = Some s"
| "forK f (x # xs) s = Option.bind (f x s) (forK f xs)"

lemma forK_append: "forK f (xs @ ys) s = Option.bind (forK f xs s) (forK f ys)"
  by (induction xs arbitrary: s) (auto split: Option.bind_splits)

lemma forK_invariant:
  assumes "forK f xs s = Some t" and "P s"
    and "\<And>x s t. x \<in> set xs \<Longrightarrow> P s \<Longrightarrow> f x s = Some t \<Longrightarrow> P t"
  shows "P t"
  using assms
proof (induction xs arbitrary: s)
  case (Cons x xs)
  from Cons.prems(1) obtain u where u: "f x s = Some u" "forK f xs u = Some t"
    by (auto split: Option.bind_splits)
  have "P u"
    by (rule Cons.prems(3) [OF _ Cons.prems(2) u(1)]) simp
  then show ?case
    by (rule Cons.IH [OF u(2)]) (rule Cons.prems(3), simp_all)
qed simp

lemma forK_total:
  assumes "P s"
    and "\<And>x s. x \<in> set xs \<Longrightarrow> P s \<Longrightarrow> \<exists>t. f x s = Some t \<and> P t"
  shows "\<exists>t. forK f xs s = Some t \<and> P t"
  using assms
proof (induction xs arbitrary: s)
  case (Cons x xs)
  from Cons.prems obtain u where u: "f x s = Some u" "P u"
    by fastforce
  from Cons.IH [OF u(2)] Cons.prems(2) u(1) show ?case
    by auto
qed simp

subsection \<open>Lists that hold each node at most once\<close>

lemma distinct_length_removeAll:
  "distinct xs \<Longrightarrow> x \<in> set xs \<Longrightarrow> Suc (length (removeAll x xs)) = length xs"
  by (induction xs) auto

lemma int_length_removeAll:
  "distinct xs \<Longrightarrow> x \<in> set xs \<Longrightarrow> int (length (removeAll x xs)) = int (length xs) - 1"
  using distinct_length_removeAll [of xs x] by linarith

lemma sum_list_map_removeAll:
  fixes f :: "'a \<Rightarrow> int"
  assumes "distinct xs" and "x \<in> set xs"
  shows "sum_list (map f (removeAll x xs)) = sum_list (map f xs) - f x"
  using assms by (induction xs) auto

lemma length_filter_removeAll:
  assumes "distinct xs" and "x \<in> set xs"
  shows "int (length (filter P (removeAll x xs))) =
    int (length (filter P xs)) - (if P x then 1 else 0)"
  using assms by (induction xs) auto

lemma filter_cong_on_set:
  "(\<And>x. x \<in> set xs \<Longrightarrow> P x = Q x) \<Longrightarrow> filter P xs = filter Q xs"
  by (rule filter_cong) auto

subsection \<open>Bits of a flag word\<close>

type_synonym ulong = "32 word"
type_synonym s8 = "8 word"

lemma bit_set_bit_word [simp]:
  fixes w :: ulong
  shows "bit (set_bit m w) n \<longleftrightarrow> (m = n \<and> n < 32) \<or> bit w n"
  by (auto simp: bit_set_bit_iff dest: bit_imp_le_length)

lemma bit_unset_bit_word [simp]:
  fixes w :: ulong
  shows "bit (unset_bit m w) n \<longleftrightarrow> m \<noteq> n \<and> bit w n"
  by (auto simp: bit_unset_bit_iff)

lemma set_bit_idem_word:
  fixes w :: ulong
  shows "bit w n \<Longrightarrow> set_bit n w = w"
  by (rule bit_eqI) auto

lemma unset_bit_idem_word:
  fixes w :: ulong
  shows "\<not> bit w n \<Longrightarrow> unset_bit n w = w"
  by (rule bit_eqI) auto

subsection \<open>Invariants of a step relation\<close>

text \<open>
  The contract between a transition system and a property that each of its steps keeps:
  the property holds wherever the system gets from a state where it holds. The component
  theories interpret it for their own step relation.
\<close>

locale stable_system =
  fixes step :: "'s \<Rightarrow> 's \<Rightarrow> bool"
    and inv :: "'s \<Rightarrow> bool"
  assumes step_inv: "step s t \<Longrightarrow> inv s \<Longrightarrow> inv t"
begin

lemma steps_inv: "step\<^sup>*\<^sup>* s t \<Longrightarrow> inv s \<Longrightarrow> inv t"
  by (induction rule: rtranclp_induct) (blast intro: step_inv)+

end

end
