(* ===== verification/Mm_Types.thy ===== *)
theory Mm_Types
  imports Mcpq_Prelude
begin

text \<open>
  The data of the memory manager: \<open>Linux/mm_types.h\<close> (\<open>struct page\<close>, the memory chains and
  their per-task collection), the flag bits of \<open>Linux/page-flags.h\<close>, and the zones, LRU
  list indices and counters of \<open>Linux/mmzone.h\<close>. Pointers are numbers: a \<open>struct page *\<close> is
  the page frame number of the page (\<open>mem_map\<close> is contiguous), so \<open>page + i\<close> is addition.
  Objects that are allocated and freed (chains, collections) live in partial maps; a pointer
  outside the domain is dangling.
  Enums on which the code computes (LRU lists, zone counters) are the numbers of the header.
\<close>

type_synonym page_ptr = nat
type_synonym chain_ptr = nat
type_synonym mcc_ptr = nat
type_synonym task_ptr = nat
type_synonym zone_ptr = nat

section \<open>Pages\<close>

datatype pageflags =
    PG_locked | PG_error | PG_referenced | PG_uptodate | PG_dirty | PG_lru | PG_active
  | PG_slab | PG_owner_priv_1 | PG_arch_1 | PG_reserved | PG_private | PG_private_2
  | PG_writeback | PG_head | PG_tail | PG_swapcache | PG_mappedtodisk | PG_reclaim
  | PG_swapbacked | PG_unevictable | PG_mlocked

text \<open>The value of the enumerator, with \<open>CONFIG_PAGEFLAGS_EXTENDED\<close> and \<open>CONFIG_MMU\<close>.\<close>

primrec pg_nr :: "pageflags \<Rightarrow> nat" where
  "pg_nr PG_locked = 0"
| "pg_nr PG_error = 1"
| "pg_nr PG_referenced = 2"
| "pg_nr PG_uptodate = 3"
| "pg_nr PG_dirty = 4"
| "pg_nr PG_lru = 5"
| "pg_nr PG_active = 6"
| "pg_nr PG_slab = 7"
| "pg_nr PG_owner_priv_1 = 8"
| "pg_nr PG_arch_1 = 9"
| "pg_nr PG_reserved = 10"
| "pg_nr PG_private = 11"
| "pg_nr PG_private_2 = 12"
| "pg_nr PG_writeback = 13"
| "pg_nr PG_head = 14"
| "pg_nr PG_tail = 15"
| "pg_nr PG_swapcache = 16"
| "pg_nr PG_mappedtodisk = 17"
| "pg_nr PG_reclaim = 18"
| "pg_nr PG_swapbacked = 19"
| "pg_nr PG_unevictable = 20"
| "pg_nr PG_mlocked = 21"

definition NR_PAGEFLAGS :: nat where
  "NR_PAGEFLAGS = 22"

lemma pg_nr_lt_NR [simp]: "pg_nr f < NR_PAGEFLAGS"
  by (cases f) (simp_all add: NR_PAGEFLAGS_def)

lemma pg_nr_lt_32 [simp]: "pg_nr f < 32"
  by (cases f) simp_all

lemma pg_nr_inj [simp]: "pg_nr f = pg_nr g \<longleftrightarrow> f = g"
  by (cases f; cases g) simp_all

text \<open>The flags in the order of their bits.\<close>

instantiation pageflags :: linorder
begin

definition less_eq_pageflags :: "pageflags \<Rightarrow> pageflags \<Rightarrow> bool" where
  "less_eq_pageflags f g \<longleftrightarrow> pg_nr f \<le> pg_nr g"

definition less_pageflags :: "pageflags \<Rightarrow> pageflags \<Rightarrow> bool" where
  "less_pageflags f g \<longleftrightarrow> pg_nr f < pg_nr g"

instance
  by standard (auto simp: less_eq_pageflags_def less_pageflags_def)

end

text \<open>
  \<open>page->mapping\<close>: NULL, an address space, or an anonymous mapping (low bit set).
\<close>

datatype mapping_t = NoMapping | FileMapping nat | AnonMapping nat

text \<open>
  \<open>page_count\<close> and \<open>page_mapcount\<close> are the raw atomics (\<open>_count\<close>, \<open>_mapcount\<close>), \<open>pg_comp_order\<close>
  the order a compound page stores behind its head. The list nodes \<open>lru\<close> and \<open>link\<close> of
  \<open>struct page\<close> are represented by the lists they are on, \<open>link_lock\<close> by the set of locks held.
\<close>

text \<open>
  Counters that the kernel keeps in an \<open>atomic_t\<close> or an \<open>atomic_long_t\<close> are the exact sums of what
  was added to them, as integers; the 32-bit fields hold these modulo \<open>2 ^ 32\<close>. Where a wrapped value
  could be read and matters (\<open>ref_counter\<close> of a chain, the statistics), the reading routine takes
  the low 32 bits.
\<close>

record page =
  pg_flags :: ulong
  pg_count :: int
  pg_mapcount :: int
  pg_private :: nat
  pg_mapping :: mapping_t
  pg_first_page :: page_ptr
  pg_comp_order :: nat
  pg_chain :: "chain_ptr option"

section \<open>Memory chains\<close>

datatype eviction_policy = MCEP_FIFO | MCEP_RAND | MCEP_LRU | MCEP_NRU | MCEP_MRU

record memory_chain_attr =
  max_links :: int
  is_bounded :: bool
  is_anchored :: bool
  attr_policy :: eviction_policy

record memory_chain =
  mc_id :: nat
  mc_attributes :: "memory_chain_attr option"
  mc_nr_links :: int
  mc_links :: "page_ptr list"
  mc_anchor :: "page_ptr option"
  mc_ref_counter :: int
  mc_delegate :: "page_ptr option"
  mc_evict_cnt :: int

record memory_chain_collection =
  mcc_count :: nat
  mcc_capacity :: nat
  mcc_chains :: "chain_ptr option list"

section \<open>Zones\<close>

text \<open>Sizes of the arrays in a zone, and the migrate types.\<close>

definition MAX_ORDER :: nat where "MAX_ORDER = 11"
definition MIGRATE_UNMOVABLE :: nat where "MIGRATE_UNMOVABLE = 0"
definition MIGRATE_RECLAIMABLE :: nat where "MIGRATE_RECLAIMABLE = 1"
definition MIGRATE_MOVABLE :: nat where "MIGRATE_MOVABLE = 2"
definition MIGRATE_PCPTYPES :: nat where "MIGRATE_PCPTYPES = 3"
definition MIGRATE_RESERVE :: nat where "MIGRATE_RESERVE = 3"
definition MIGRATE_ISOLATE :: nat where "MIGRATE_ISOLATE = 4"
definition MIGRATE_TYPES :: nat where "MIGRATE_TYPES = 5"

lemmas migrate_defs = MIGRATE_UNMOVABLE_def MIGRATE_RECLAIMABLE_def MIGRATE_MOVABLE_def
  MIGRATE_PCPTYPES_def MIGRATE_RESERVE_def MIGRATE_ISOLATE_def MIGRATE_TYPES_def

record free_area =
  fa_free_list :: "nat \<Rightarrow> page_ptr list"
  fa_nr_free :: int

text \<open>\<open>enum zone_stat_item\<close> (without \<open>CONFIG_NUMA\<close>) and \<open>enum lru_list\<close>.\<close>

type_synonym zone_stat_item = nat
type_synonym lru_list = nat

definition NR_FREE_PAGES :: zone_stat_item where "NR_FREE_PAGES = 0"
definition NR_LRU_BASE :: zone_stat_item where "NR_LRU_BASE = 1"
definition NR_INACTIVE_ANON :: zone_stat_item where "NR_INACTIVE_ANON = NR_LRU_BASE"
definition NR_ACTIVE_ANON :: zone_stat_item where "NR_ACTIVE_ANON = 2"
definition NR_INACTIVE_LINKED_ANON :: zone_stat_item where "NR_INACTIVE_LINKED_ANON = 3"
definition NR_ACTIVE_LINKED_ANON :: zone_stat_item where "NR_ACTIVE_LINKED_ANON = 4"
definition NR_INACTIVE_FILE :: zone_stat_item where "NR_INACTIVE_FILE = 5"
definition NR_ACTIVE_FILE :: zone_stat_item where "NR_ACTIVE_FILE = 6"
definition NR_INACTIVE_LINKED_FILE :: zone_stat_item where "NR_INACTIVE_LINKED_FILE = 7"
definition NR_ACTIVE_LINKED_FILE :: zone_stat_item where "NR_ACTIVE_LINKED_FILE = 8"
definition NR_UNEVICTABLE :: zone_stat_item where "NR_UNEVICTABLE = 9"
definition NR_MLOCK :: zone_stat_item where "NR_MLOCK = 10"
definition NR_ANON_PAGES :: zone_stat_item where "NR_ANON_PAGES = 11"
definition NR_FILE_MAPPED :: zone_stat_item where "NR_FILE_MAPPED = 12"
definition NR_FILE_PAGES :: zone_stat_item where "NR_FILE_PAGES = 13"
definition NR_FILE_DIRTY :: zone_stat_item where "NR_FILE_DIRTY = 14"
definition NR_WRITEBACK :: zone_stat_item where "NR_WRITEBACK = 15"
definition NR_SLAB_RECLAIMABLE :: zone_stat_item where "NR_SLAB_RECLAIMABLE = 16"
definition NR_SLAB_UNRECLAIMABLE :: zone_stat_item where "NR_SLAB_UNRECLAIMABLE = 17"
definition NR_PAGETABLE :: zone_stat_item where "NR_PAGETABLE = 18"
definition NR_KERNEL_STACK :: zone_stat_item where "NR_KERNEL_STACK = 19"
definition NR_UNSTABLE_NFS :: zone_stat_item where "NR_UNSTABLE_NFS = 20"
definition NR_BOUNCE :: zone_stat_item where "NR_BOUNCE = 21"
definition NR_VMSCAN_WRITE :: zone_stat_item where "NR_VMSCAN_WRITE = 22"
definition NR_WRITEBACK_TEMP :: zone_stat_item where "NR_WRITEBACK_TEMP = 23"
definition NR_ISOLATED_ANON :: zone_stat_item where "NR_ISOLATED_ANON = 24"
definition NR_ISOLATED_FILE :: zone_stat_item where "NR_ISOLATED_FILE = 25"
definition NR_SHMEM :: zone_stat_item where "NR_SHMEM = 26"
definition NR_DIRTIED :: zone_stat_item where "NR_DIRTIED = 27"
definition NR_WRITTEN :: zone_stat_item where "NR_WRITTEN = 28"
definition NR_ANON_TRANSPARENT_HUGEPAGES :: zone_stat_item where "NR_ANON_TRANSPARENT_HUGEPAGES = 29"
definition NR_VM_ZONE_STAT_ITEMS :: nat where "NR_VM_ZONE_STAT_ITEMS = 30"

lemmas zone_stat_defs = NR_FREE_PAGES_def NR_LRU_BASE_def NR_INACTIVE_ANON_def
  NR_ACTIVE_ANON_def NR_INACTIVE_LINKED_ANON_def NR_ACTIVE_LINKED_ANON_def
  NR_INACTIVE_FILE_def NR_ACTIVE_FILE_def NR_INACTIVE_LINKED_FILE_def
  NR_ACTIVE_LINKED_FILE_def NR_UNEVICTABLE_def NR_MLOCK_def
  NR_ANON_PAGES_def NR_FILE_MAPPED_def NR_FILE_PAGES_def NR_FILE_DIRTY_def NR_WRITEBACK_def
  NR_SLAB_RECLAIMABLE_def NR_SLAB_UNRECLAIMABLE_def NR_PAGETABLE_def NR_KERNEL_STACK_def
  NR_UNSTABLE_NFS_def NR_BOUNCE_def NR_VMSCAN_WRITE_def NR_WRITEBACK_TEMP_def
  NR_ISOLATED_ANON_def
  NR_ISOLATED_FILE_def NR_SHMEM_def NR_DIRTIED_def NR_WRITTEN_def NR_ANON_TRANSPARENT_HUGEPAGES_def
  NR_VM_ZONE_STAT_ITEMS_def

definition LRU_BASE :: lru_list where "LRU_BASE = 0"
definition LRU_ACTIVE :: lru_list where "LRU_ACTIVE = 1"
definition LRU_LINKED :: lru_list where "LRU_LINKED = 2"
definition LRU_FILE :: lru_list where "LRU_FILE = 4"

definition LRU_INACTIVE_ANON :: lru_list where
  "LRU_INACTIVE_ANON = LRU_BASE"
definition LRU_ACTIVE_ANON :: lru_list where
  "LRU_ACTIVE_ANON = LRU_BASE + LRU_ACTIVE"
definition LRU_INACTIVE_LINKED_ANON :: lru_list where
  "LRU_INACTIVE_LINKED_ANON = LRU_BASE + LRU_LINKED"
definition LRU_ACTIVE_LINKED_ANON :: lru_list where
  "LRU_ACTIVE_LINKED_ANON = LRU_BASE + LRU_ACTIVE + LRU_LINKED"
definition LRU_INACTIVE_FILE :: lru_list where
  "LRU_INACTIVE_FILE = LRU_BASE + LRU_FILE"
definition LRU_ACTIVE_FILE :: lru_list where
  "LRU_ACTIVE_FILE = LRU_BASE + LRU_FILE + LRU_ACTIVE"
definition LRU_INACTIVE_LINKED_FILE :: lru_list where
  "LRU_INACTIVE_LINKED_FILE = LRU_BASE + LRU_FILE + LRU_LINKED"
definition LRU_ACTIVE_LINKED_FILE :: lru_list where
  "LRU_ACTIVE_LINKED_FILE = LRU_BASE + LRU_FILE + LRU_ACTIVE + LRU_LINKED"
definition LRU_UNEVICTABLE :: lru_list where
  "LRU_UNEVICTABLE = 8"
definition NR_LRU_LISTS :: nat where
  "NR_LRU_LISTS = 9"

lemmas lru_list_defs = LRU_BASE_def LRU_ACTIVE_def LRU_LINKED_def LRU_FILE_def
  LRU_INACTIVE_ANON_def LRU_ACTIVE_ANON_def LRU_INACTIVE_LINKED_ANON_def
  LRU_ACTIVE_LINKED_ANON_def LRU_INACTIVE_FILE_def LRU_ACTIVE_FILE_def
  LRU_INACTIVE_LINKED_FILE_def LRU_ACTIVE_LINKED_FILE_def LRU_UNEVICTABLE_def
  NR_LRU_LISTS_def

definition is_file_lru :: "lru_list \<Rightarrow> bool" where
  "is_file_lru l \<longleftrightarrow> LRU_INACTIVE_FILE \<le> l \<and> l \<le> LRU_ACTIVE_LINKED_FILE"

definition is_active_lru :: "lru_list \<Rightarrow> bool" where
  "is_active_lru l \<longleftrightarrow> l = LRU_ACTIVE_ANON \<or> l = LRU_ACTIVE_FILE \<or>
     l = LRU_ACTIVE_LINKED_ANON \<or> l = LRU_ACTIVE_LINKED_FILE"

definition is_unevictable_lru :: "lru_list \<Rightarrow> bool" where
  "is_unevictable_lru l \<longleftrightarrow> l = LRU_UNEVICTABLE"

definition is_linked_lru :: "lru_list \<Rightarrow> bool" where
  "is_linked_lru l \<longleftrightarrow> l = LRU_INACTIVE_LINKED_ANON \<or> l = LRU_ACTIVE_LINKED_ANON \<or>
     l = LRU_INACTIVE_LINKED_FILE \<or> l = LRU_ACTIVE_LINKED_FILE"

definition for_each_lru :: "lru_list list" where
  "for_each_lru = [0..<NR_LRU_LISTS]"

definition for_each_evictable_lru :: "lru_list list" where
  "for_each_evictable_lru = [0..<Suc LRU_ACTIVE_LINKED_FILE]"

datatype zone_watermarks = WMARK_MIN | WMARK_LOW | WMARK_HIGH

record per_cpu_pages =
  pcp_count :: int
  pcp_high :: int
  pcp_batch :: int
  pcp_lists :: "nat \<Rightarrow> page_ptr list"

record per_cpu_pageset =
  ps_pcp :: per_cpu_pages
  ps_stat_threshold :: s8
  ps_vm_stat_diff :: "zone_stat_item \<Rightarrow> s8"

record zone_reclaim_stat =
  recent_rotated :: "nat \<Rightarrow> nat"
  recent_scanned :: "nat \<Rightarrow> nat"
  nr_saved_scan :: "lru_list \<Rightarrow> nat"

record zone =
  z_watermark :: "zone_watermarks \<Rightarrow> int"
  z_percpu_drift_mark :: int
  z_lowmem_reserve :: "nat \<Rightarrow> int"
  z_pageset :: "nat \<Rightarrow> per_cpu_pageset"
  z_all_unreclaimable :: bool
  z_free_area :: "nat \<Rightarrow> free_area"
  z_compact_considered :: nat
  z_compact_defer_shift :: nat
  z_lru :: "lru_list \<Rightarrow> page_ptr list"
  z_reclaim_stat :: zone_reclaim_stat
  z_pages_scanned :: nat
  z_flags :: ulong
  z_vm_stat :: "zone_stat_item \<Rightarrow> int"
  z_inactive_ratio :: nat
  z_start_pfn :: nat
  z_spanned_pages :: nat
  z_present_pages :: nat

section \<open>The kernel state\<close>

text \<open>
  \<open>k_held\<close> is the set of spinlocks held by the running context; taking one of them again is
  a self-deadlock. \<open>k_lru_add_pvecs\<close> and \<open>k_lru_rotate_pvecs\<close> are the per-CPU page vectors of
  \<open>swap.c\<close>, \<open>k_vm_events\<close> the event counters, \<open>k_vm_stat\<close> the global counters of \<open>vmstat.c\<close>,
  \<open>k_pageblock\<close> the bitmap \<open>pageblock_flags\<close> of each zone.
\<close>

datatype klock =
    ChainLock chain_ptr | LinkLock page_ptr | MccLock mcc_ptr
  | LruLock zone_ptr | ZoneLock zone_ptr

datatype vm_event =
    PGFREE | PGALLOC zone_ptr | PGACTIVATE | PGDEACTIVATE | PGROTATED | PGREFILL zone_ptr
  | UNEVICTABLE_PGMLOCKED | UNEVICTABLE_MLOCKFREED | UNEVICTABLE_PGRESCUED
  | UNEVICTABLE_PGCULLED | PGSCAN_KSWAPD zone_ptr | PGSCAN_DIRECT zone_ptr | PGSTEAL zone_ptr
  | KSWAPD_STEAL | SLABS_SCANNED | ALLOCSTALL | PAGEOUTRUN | KSWAPD_SKIP_CONGESTION_WAIT
  | PGSCAN_ZONE_RECLAIM_FAILED | KSWAPD_LOW_WMARK_HIT_QUICKLY | KSWAPD_HIGH_WMARK_HIT_QUICKLY
  | UNEVICTABLE_PGSCANNED | COMPACTSUCCESS | COMPACTFAIL

record kstate =
  k_pages :: "page_ptr \<Rightarrow> page"
  k_chains :: "chain_ptr \<Rightarrow> memory_chain option"
  k_mccs :: "mcc_ptr \<Rightarrow> memory_chain_collection option"
  k_task_mcc :: "task_ptr \<Rightarrow> mcc_ptr option"
  k_zones :: "zone_ptr \<Rightarrow> zone"
  k_held :: "klock set"
  k_lru_add_pvecs :: "nat \<Rightarrow> lru_list \<Rightarrow> page_ptr list"
  k_lru_rotate_pvecs :: "nat \<Rightarrow> page_ptr list"
  k_vm_events :: "nat \<Rightarrow> vm_event \<Rightarrow> int"
  k_vm_stat :: "zone_stat_item \<Rightarrow> int"
  k_pageblock :: "zone_ptr \<Rightarrow> nat \<Rightarrow> bool"

end
