(* ===== verification/Kernel_Prims.thy ===== *)
theory Kernel_Prims
  imports Mm_Types
begin

text \<open>
  The kernel primitives the modelled code is written in (bit operations, atomics, spinlocks,
  intrusive lists, event counters), as operations on the kernel state, and the environment
  record \<open>kenv\<close>: what the code calls outside this repository. Nothing in a definition of the
  development fixes what the environment does.
\<close>

section \<open>The environment\<close>

text \<open>
  A virtual memory area; a \<open>struct vm_area_struct *\<close> is the list of the area itself and its
  successors along \<open>vm_next\<close>, so NULL is the empty list. Addresses are 32-bit words.
\<close>

record vm_area =
  vm_start :: ulong
  vm_end :: ulong
  vm_flags :: ulong
  vm_prev :: "nat option"

datatype follow_result = FollowNull | FollowErr | FollowPage page_ptr

record kenv =
  page_zone :: "page_ptr \<Rightarrow> zone_ptr"
  hpage_nr_pages :: "page_ptr \<Rightarrow> int"
  pfn_valid_within :: "page_ptr \<Rightarrow> bool"
  mapping_unevictable :: "page_ptr \<Rightarrow> kstate \<Rightarrow> bool"
  try_to_release_page :: "page_ptr \<Rightarrow> kstate \<Rightarrow> kstate"
  pagevec_size :: nat
  cur_cpu :: nat
  online_cpus :: nat
  all_zones :: "zone_ptr list"
  pageblock_order :: nat
  PB_migrate :: nat
  PB_migrate_end :: nat
  NR_PAGEBLOCK_BITS :: nat
  page_group_by_mobility_disabled :: bool
  kmalloc_chain :: "kstate \<Rightarrow> chain_ptr option"
  kmalloc_mcc :: "kstate \<Rightarrow> mcc_ptr option"
  kmalloc_array :: "kstate \<Rightarrow> bool"
  find_vma :: "ulong \<Rightarrow> vm_area list"
  vma_stack_continue :: "nat option \<Rightarrow> ulong \<Rightarrow> bool"
  follow_page :: "vm_area \<Rightarrow> ulong \<Rightarrow> kstate \<Rightarrow> follow_result \<times> kstate"
  handle_mm_fault :: "vm_area \<Rightarrow> ulong \<Rightarrow> kstate \<Rightarrow> ulong \<times> kstate"
  mlock_vma_page :: "page_ptr \<Rightarrow> kstate \<Rightarrow> kstate option"
  munlock_vma_page :: "page_ptr \<Rightarrow> kstate \<Rightarrow> kstate option"
  page_referenced :: "page_ptr \<Rightarrow> kstate \<Rightarrow> (nat \<times> ulong) \<times> kstate"
  VM_FAULT_ERROR :: ulong
  VM_FAULT_RETRY :: ulong
  VM_GROWSDOWN :: ulong
  VM_LOCKED :: ulong
  VM_SPECIAL :: ulong
  VM_EXEC :: ulong
  PAGE_SHIFT :: nat

section \<open>Reading and updating the state\<close>

definition page_at :: "kstate \<Rightarrow> page_ptr \<Rightarrow> page" where
  "page_at s p = k_pages s p"

definition upd_page :: "page_ptr \<Rightarrow> (page \<Rightarrow> page) \<Rightarrow> kstate \<Rightarrow> kstate" where
  "upd_page p f s = s\<lparr>k_pages := (k_pages s)(p := f (k_pages s p))\<rparr>"

definition zone_at :: "kstate \<Rightarrow> zone_ptr \<Rightarrow> zone" where
  "zone_at s z = k_zones s z"

definition upd_zone :: "zone_ptr \<Rightarrow> (zone \<Rightarrow> zone) \<Rightarrow> kstate \<Rightarrow> kstate" where
  "upd_zone z f s = s\<lparr>k_zones := (k_zones s)(z := f (k_zones s z))\<rparr>"

text \<open>Following a chain pointer fails when the chain has been freed.\<close>

definition chain_at :: "kstate \<Rightarrow> chain_ptr \<Rightarrow> memory_chain option" where
  "chain_at s c = k_chains s c"

definition upd_chain ::
  "chain_ptr \<Rightarrow> (memory_chain \<Rightarrow> memory_chain) \<Rightarrow> kstate \<Rightarrow> kstate option" where
  "upd_chain c f s = (case k_chains s c of
      None \<Rightarrow> None
    | Some ch \<Rightarrow> Some (s\<lparr>k_chains := (k_chains s)(c \<mapsto> f ch)\<rparr>))"

definition kfree_chain :: "chain_ptr \<Rightarrow> kstate \<Rightarrow> kstate option" where
  "kfree_chain c s = (case k_chains s c of
      None \<Rightarrow> None
    | Some _ \<Rightarrow> Some (s\<lparr>k_chains := (k_chains s)(c := None)\<rparr>))"

section \<open>Spinlocks\<close>

definition spin_lock :: "klock \<Rightarrow> kstate \<Rightarrow> kstate option" where
  "spin_lock l s = (if l \<in> k_held s then None else Some (s\<lparr>k_held := insert l (k_held s)\<rparr>))"

definition spin_unlock :: "klock \<Rightarrow> kstate \<Rightarrow> kstate option" where
  "spin_unlock l s = (if l \<in> k_held s then Some (s\<lparr>k_held := k_held s - {l}\<rparr>) else None)"

text \<open>The lock of a chain reached through a pointer: NULL and freed chains have none.\<close>

definition spin_lock_chain :: "chain_ptr option \<Rightarrow> kstate \<Rightarrow> kstate option" where
  "spin_lock_chain c s = (case c of
      None \<Rightarrow> None
    | Some c \<Rightarrow> if chain_at s c = None then None else spin_lock (ChainLock c) s)"

definition spin_unlock_chain :: "chain_ptr option \<Rightarrow> kstate \<Rightarrow> kstate option" where
  "spin_unlock_chain c s = (case c of
      None \<Rightarrow> None
    | Some c \<Rightarrow> if chain_at s c = None then None else spin_unlock (ChainLock c) s)"

text \<open>\<open>spin_lock(&page->link_lock)\<close> through a page pointer that may be NULL.\<close>

definition spin_lock_link :: "page_ptr option \<Rightarrow> kstate \<Rightarrow> kstate option" where
  "spin_lock_link p s = (case p of None \<Rightarrow> None | Some p \<Rightarrow> spin_lock (LinkLock p) s)"

section \<open>Flag bits\<close>

definition test_bit :: "pageflags \<Rightarrow> page_ptr \<Rightarrow> kstate \<Rightarrow> bool" where
  "test_bit f p s = bit (pg_flags (page_at s p)) (pg_nr f)"

definition set_bit_k :: "pageflags \<Rightarrow> page_ptr \<Rightarrow> kstate \<Rightarrow> kstate" where
  "set_bit_k f p = upd_page p (\<lambda>pg. pg\<lparr>pg_flags := set_bit (pg_nr f) (pg_flags pg)\<rparr>)"

definition clear_bit_k :: "pageflags \<Rightarrow> page_ptr \<Rightarrow> kstate \<Rightarrow> kstate" where
  "clear_bit_k f p = upd_page p (\<lambda>pg. pg\<lparr>pg_flags := unset_bit (pg_nr f) (pg_flags pg)\<rparr>)"

definition test_and_set_bit :: "pageflags \<Rightarrow> page_ptr \<Rightarrow> kstate \<Rightarrow> bool \<times> kstate" where
  "test_and_set_bit f p s = (test_bit f p s, set_bit_k f p s)"

definition test_and_clear_bit :: "pageflags \<Rightarrow> page_ptr \<Rightarrow> kstate \<Rightarrow> bool \<times> kstate" where
  "test_and_clear_bit f p s = (test_bit f p s, clear_bit_k f p s)"

section \<open>Atomics and events\<close>

definition add_ref :: "chain_ptr \<Rightarrow> int \<Rightarrow> kstate \<Rightarrow> kstate option" where
  "add_ref c d = upd_chain c (\<lambda>ch. ch\<lparr>mc_ref_counter := mc_ref_counter ch + d\<rparr>)"

definition count_vm_events :: "kenv \<Rightarrow> vm_event \<Rightarrow> int \<Rightarrow> kstate \<Rightarrow> kstate" where
  "count_vm_events E e n s = s\<lparr>k_vm_events := (k_vm_events s)
     (cur_cpu E := (k_vm_events s (cur_cpu E))(e := k_vm_events s (cur_cpu E) e + n))\<rparr>"

text \<open>
  \<open>get_page\<close>, \<open>get_page_unless_zero\<close> and \<open>put_page_testzero\<close> on the reference count of a page.
\<close>

definition get_page :: "page_ptr \<Rightarrow> kstate \<Rightarrow> kstate" where
  "get_page p = upd_page p (\<lambda>pg. pg\<lparr>pg_count := pg_count pg + 1\<rparr>)"

definition get_page_unless_zero :: "page_ptr \<Rightarrow> kstate \<Rightarrow> bool \<times> kstate" where
  "get_page_unless_zero p s =
     (if pg_count (page_at s p) = 0 then (False, s) else (True, get_page p s))"

definition put_page_testzero :: "page_ptr \<Rightarrow> kstate \<Rightarrow> (bool \<times> kstate) option" where
  "put_page_testzero p s =
     (if pg_count (page_at s p) = 0 then None
      else let s' = upd_page p (\<lambda>pg. pg\<lparr>pg_count := pg_count pg - 1\<rparr>) s
           in Some (pg_count (page_at s' p) = 0, s'))"

section \<open>Facts for the simplifier\<close>

lemmas kprim_defs [kdefs] = page_at_def upd_page_def zone_at_def upd_zone_def chain_at_def
  upd_chain_def add_ref_def count_vm_events_def set_bit_k_def clear_bit_k_def get_page_def

lemma test_bit_set_bit [simp]:
  "test_bit f p (set_bit_k g q s) \<longleftrightarrow> (f = g \<and> p = q) \<or> test_bit f p s"
  by (auto simp: test_bit_def set_bit_k_def upd_page_def page_at_def)

lemma test_bit_clear_bit [simp]:
  "test_bit f p (clear_bit_k g q s) \<longleftrightarrow> \<not> (f = g \<and> p = q) \<and> test_bit f p s"
  by (auto simp: test_bit_def clear_bit_k_def upd_page_def page_at_def)

lemma k_upd_page [simp]:
  "k_chains (upd_page p f s) = k_chains s" "k_zones (upd_page p f s) = k_zones s"
  "k_held (upd_page p f s) = k_held s" "k_mccs (upd_page p f s) = k_mccs s"
  "k_task_mcc (upd_page p f s) = k_task_mcc s"
  "k_lru_add_pvecs (upd_page p f s) = k_lru_add_pvecs s"
  "k_lru_rotate_pvecs (upd_page p f s) = k_lru_rotate_pvecs s"
  "k_vm_events (upd_page p f s) = k_vm_events s"
  "k_vm_stat (upd_page p f s) = k_vm_stat s" "k_pageblock (upd_page p f s) = k_pageblock s"
  by (simp_all add: upd_page_def)

lemma k_upd_zone [simp]:
  "k_chains (upd_zone z f s) = k_chains s" "k_pages (upd_zone z f s) = k_pages s"
  "k_held (upd_zone z f s) = k_held s" "k_mccs (upd_zone z f s) = k_mccs s"
  "k_task_mcc (upd_zone z f s) = k_task_mcc s"
  "k_lru_add_pvecs (upd_zone z f s) = k_lru_add_pvecs s"
  "k_lru_rotate_pvecs (upd_zone z f s) = k_lru_rotate_pvecs s"
  "k_vm_events (upd_zone z f s) = k_vm_events s"
  "k_vm_stat (upd_zone z f s) = k_vm_stat s" "k_pageblock (upd_zone z f s) = k_pageblock s"
  by (simp_all add: upd_zone_def)

lemma count_vm_events_frame [simp]:
  "k_chains (count_vm_events E e n s) = k_chains s" "k_pages (count_vm_events E e n s) = k_pages s"
  "k_held (count_vm_events E e n s) = k_held s" "k_mccs (count_vm_events E e n s) = k_mccs s"
  "k_task_mcc (count_vm_events E e n s) = k_task_mcc s"
  "k_zones (count_vm_events E e n s) = k_zones s"
  "k_lru_add_pvecs (count_vm_events E e n s) = k_lru_add_pvecs s"
  "k_lru_rotate_pvecs (count_vm_events E e n s) = k_lru_rotate_pvecs s"
  "page_at (count_vm_events E e n s) p = page_at s p"
  "zone_at (count_vm_events E e n s) z = zone_at s z"
  "chain_at (count_vm_events E e n s) c = chain_at s c"
  "test_bit f p (count_vm_events E e n s) = test_bit f p s"
  by (simp_all add: count_vm_events_def page_at_def zone_at_def chain_at_def test_bit_def)

lemma k_set_bit [simp]:
  "k_chains (set_bit_k f p s) = k_chains s" "k_zones (set_bit_k f p s) = k_zones s"
  "k_held (set_bit_k f p s) = k_held s" "k_mccs (set_bit_k f p s) = k_mccs s"
  "k_task_mcc (set_bit_k f p s) = k_task_mcc s"
  "k_chains (clear_bit_k f p s) = k_chains s" "k_zones (clear_bit_k f p s) = k_zones s"
  "k_held (clear_bit_k f p s) = k_held s" "k_mccs (clear_bit_k f p s) = k_mccs s"
  "k_task_mcc (clear_bit_k f p s) = k_task_mcc s"
  by (simp_all add: set_bit_k_def clear_bit_k_def)

lemma page_at_upd_page: "page_at (upd_page p f s) q = (if p = q then f (page_at s q) else page_at s q)"
  by (auto simp: page_at_def upd_page_def)

lemma page_at_upd_zone [simp]: "page_at (upd_zone z f s) p = page_at s p"
  by (simp add: page_at_def)

lemma zone_at_upd_zone: "zone_at (upd_zone z f s) y = (if z = y then f (zone_at s y) else zone_at s y)"
  by (auto simp: zone_at_def upd_zone_def)

lemma zone_at_upd_page [simp]: "zone_at (upd_page p f s) z = zone_at s z"
  by (simp add: zone_at_def)

lemma pg_chain_bits [simp]:
  "pg_chain (page_at (set_bit_k f p s) q) = pg_chain (page_at s q)"
  "pg_chain (page_at (clear_bit_k f p s) q) = pg_chain (page_at s q)"
  "pg_count (page_at (set_bit_k f p s) q) = pg_count (page_at s q)"
  "pg_count (page_at (clear_bit_k f p s) q) = pg_count (page_at s q)"
  by (simp_all add: set_bit_k_def clear_bit_k_def page_at_upd_page)

lemma test_bit_upd_zone [simp]: "test_bit f p (upd_zone z g s) = test_bit f p s"
  by (simp add: test_bit_def)

lemma test_bit_cong: "k_pages s = k_pages t \<Longrightarrow> test_bit f p s = test_bit f p t"
  by (simp add: test_bit_def page_at_def)

lemma spin_lock_eq_Some [simp]:
  "spin_lock l s = Some t \<longleftrightarrow> l \<notin> k_held s \<and> t = s\<lparr>k_held := insert l (k_held s)\<rparr>"
  by (auto simp: spin_lock_def)

lemma spin_unlock_eq_Some [simp]:
  "spin_unlock l s = Some t \<longleftrightarrow> l \<in> k_held s \<and> t = s\<lparr>k_held := k_held s - {l}\<rparr>"
  by (auto simp: spin_unlock_def)

lemma spin_lock_free [simp]:
  "l \<notin> k_held s \<Longrightarrow> spin_lock l s = Some (s\<lparr>k_held := insert l (k_held s)\<rparr>)"
  by (simp add: spin_lock_def)

lemma spin_unlock_held [simp]:
  "l \<in> k_held s \<Longrightarrow> spin_unlock l s = Some (s\<lparr>k_held := k_held s - {l}\<rparr>)"
  by (simp add: spin_unlock_def)

lemma insert_minus_held [simp]: "l \<notin> H \<Longrightarrow> insert l H - {l} = H"
  by simp

text \<open>Reading the state after a change of the lock set.\<close>

lemma k_held_frame [simp]:
  "page_at (s\<lparr>k_held := H\<rparr>) p = page_at s p" "chain_at (s\<lparr>k_held := H\<rparr>) c = chain_at s c"
  "zone_at (s\<lparr>k_held := H\<rparr>) z = zone_at s z" "test_bit f p (s\<lparr>k_held := H\<rparr>) = test_bit f p s"
  by (simp_all add: page_at_def chain_at_def zone_at_def test_bit_def)

text \<open>Each reader depends on one field of the state.\<close>

lemma reader_frame [simp]:
  "page_at (s\<lparr>k_chains := X_k_chains\<rparr>) p = page_at s p"
  "page_at (s\<lparr>k_mccs := X_k_mccs\<rparr>) p = page_at s p"
  "page_at (s\<lparr>k_task_mcc := X_k_task_mcc\<rparr>) p = page_at s p"
  "page_at (s\<lparr>k_zones := X_k_zones\<rparr>) p = page_at s p"
  "page_at (s\<lparr>k_lru_add_pvecs := X_k_lru_add_pvecs\<rparr>) p = page_at s p"
  "page_at (s\<lparr>k_lru_rotate_pvecs := X_k_lru_rotate_pvecs\<rparr>) p = page_at s p"
  "page_at (s\<lparr>k_vm_events := X_k_vm_events\<rparr>) p = page_at s p"
  "page_at (s\<lparr>k_vm_stat := X_k_vm_stat\<rparr>) p = page_at s p"
  "page_at (s\<lparr>k_pageblock := X_k_pageblock\<rparr>) p = page_at s p"
  "chain_at (s\<lparr>k_pages := X_k_pages\<rparr>) c = chain_at s c"
  "chain_at (s\<lparr>k_mccs := X_k_mccs\<rparr>) c = chain_at s c"
  "chain_at (s\<lparr>k_task_mcc := X_k_task_mcc\<rparr>) c = chain_at s c"
  "chain_at (s\<lparr>k_zones := X_k_zones\<rparr>) c = chain_at s c"
  "chain_at (s\<lparr>k_lru_add_pvecs := X_k_lru_add_pvecs\<rparr>) c = chain_at s c"
  "chain_at (s\<lparr>k_lru_rotate_pvecs := X_k_lru_rotate_pvecs\<rparr>) c = chain_at s c"
  "chain_at (s\<lparr>k_vm_events := X_k_vm_events\<rparr>) c = chain_at s c"
  "chain_at (s\<lparr>k_vm_stat := X_k_vm_stat\<rparr>) c = chain_at s c"
  "chain_at (s\<lparr>k_pageblock := X_k_pageblock\<rparr>) c = chain_at s c"
  "zone_at (s\<lparr>k_pages := X_k_pages\<rparr>) z = zone_at s z"
  "zone_at (s\<lparr>k_chains := X_k_chains\<rparr>) z = zone_at s z"
  "zone_at (s\<lparr>k_mccs := X_k_mccs\<rparr>) z = zone_at s z"
  "zone_at (s\<lparr>k_task_mcc := X_k_task_mcc\<rparr>) z = zone_at s z"
  "zone_at (s\<lparr>k_lru_add_pvecs := X_k_lru_add_pvecs\<rparr>) z = zone_at s z"
  "zone_at (s\<lparr>k_lru_rotate_pvecs := X_k_lru_rotate_pvecs\<rparr>) z = zone_at s z"
  "zone_at (s\<lparr>k_vm_events := X_k_vm_events\<rparr>) z = zone_at s z"
  "zone_at (s\<lparr>k_vm_stat := X_k_vm_stat\<rparr>) z = zone_at s z"
  "zone_at (s\<lparr>k_pageblock := X_k_pageblock\<rparr>) z = zone_at s z"
  "test_bit f p (s\<lparr>k_chains := X_k_chains\<rparr>) = test_bit f p s"
  "test_bit f p (s\<lparr>k_mccs := X_k_mccs\<rparr>) = test_bit f p s"
  "test_bit f p (s\<lparr>k_task_mcc := X_k_task_mcc\<rparr>) = test_bit f p s"
  "test_bit f p (s\<lparr>k_zones := X_k_zones\<rparr>) = test_bit f p s"
  "test_bit f p (s\<lparr>k_lru_add_pvecs := X_k_lru_add_pvecs\<rparr>) = test_bit f p s"
  "test_bit f p (s\<lparr>k_lru_rotate_pvecs := X_k_lru_rotate_pvecs\<rparr>) = test_bit f p s"
  "test_bit f p (s\<lparr>k_vm_events := X_k_vm_events\<rparr>) = test_bit f p s"
  "test_bit f p (s\<lparr>k_vm_stat := X_k_vm_stat\<rparr>) = test_bit f p s"
  "test_bit f p (s\<lparr>k_pageblock := X_k_pageblock\<rparr>) = test_bit f p s"
  by (simp_all add: page_at_def chain_at_def zone_at_def test_bit_def)

lemma chain_at_bits [simp]:
  "chain_at (set_bit_k f p s) c = chain_at s c" "chain_at (clear_bit_k f p s) c = chain_at s c"
  "zone_at (set_bit_k f p s) z = zone_at s z" "zone_at (clear_bit_k f p s) z = zone_at s z"
  "chain_at (upd_page p g s) c = chain_at s c" "chain_at (upd_zone z h s) c = chain_at s c"
  by (simp_all add: chain_at_def zone_at_def)

lemma upd_page_held [simp]: "upd_page p f (s\<lparr>k_held := H\<rparr>) = (upd_page p f s)\<lparr>k_held := H\<rparr>"
  by (simp add: upd_page_def)

lemma upd_zone_held [simp]: "upd_zone z f (s\<lparr>k_held := H\<rparr>) = (upd_zone z f s)\<lparr>k_held := H\<rparr>"
  by (simp add: upd_zone_def)

lemma bits_held [simp]:
  "set_bit_k f p (s\<lparr>k_held := H\<rparr>) = (set_bit_k f p s)\<lparr>k_held := H\<rparr>"
  "clear_bit_k f p (s\<lparr>k_held := H\<rparr>) = (clear_bit_k f p s)\<lparr>k_held := H\<rparr>"
  by (simp_all add: set_bit_k_def clear_bit_k_def)

lemma upd_chain_held [simp]:
  "upd_chain c f (s\<lparr>k_held := H\<rparr>) = map_option (\<lambda>t. t\<lparr>k_held := H\<rparr>) (upd_chain c f s)"
  by (auto simp: upd_chain_def split: option.splits)

lemma add_ref_held [simp]:
  "add_ref c d (s\<lparr>k_held := H\<rparr>) = map_option (\<lambda>t. t\<lparr>k_held := H\<rparr>) (add_ref c d s)"
  by (simp add: add_ref_def)

lemma set_clear_bit_idem [simp]:
  "test_bit f p s \<Longrightarrow> set_bit_k f p s = s" "\<not> test_bit f p s \<Longrightarrow> clear_bit_k f p s = s"
  by (simp_all add: set_bit_k_def clear_bit_k_def upd_page_def test_bit_def page_at_def
      set_bit_idem_word unset_bit_idem_word)

section \<open>A small machine\<close>

text \<open>
  One zone, one CPU, pages of 4096 bytes and an address space with two areas, on which the
  theorems of the development are run. Allocations take the first unused number.
\<close>

definition sample_page :: page where
  "sample_page = \<lparr>pg_flags = 0, pg_count = 1, pg_mapcount = - 1, pg_private = 0,
     pg_mapping = NoMapping, pg_first_page = 0, pg_comp_order = 0, pg_chain = None\<rparr>"

definition sample_zone :: zone where
  "sample_zone = \<lparr>z_watermark = (\<lambda>_. 0), z_percpu_drift_mark = 0, z_lowmem_reserve = (\<lambda>_. 0),
     z_pageset = (\<lambda>_. \<lparr>ps_pcp = \<lparr>pcp_count = 0, pcp_high = 6, pcp_batch = 1, pcp_lists = (\<lambda>_. [])\<rparr>,
        ps_stat_threshold = 10, ps_vm_stat_diff = (\<lambda>_. 0)\<rparr>),
     z_all_unreclaimable = False, z_free_area = (\<lambda>_. \<lparr>fa_free_list = (\<lambda>_. []), fa_nr_free = 0\<rparr>),
     z_compact_considered = 0, z_compact_defer_shift = 0, z_lru = (\<lambda>_. []),
     z_reclaim_stat = \<lparr>recent_rotated = (\<lambda>_. 0), recent_scanned = (\<lambda>_. 0), nr_saved_scan = (\<lambda>_. 0)\<rparr>,
     z_pages_scanned = 0, z_flags = 0, z_vm_stat = (\<lambda>_. 0), z_inactive_ratio = 1,
     z_start_pfn = 0, z_spanned_pages = 4096, z_present_pages = 4096\<rparr>"

definition sample_state :: kstate where
  "sample_state = \<lparr>k_pages = (\<lambda>_. sample_page), k_chains = (\<lambda>_. None), k_mccs = (\<lambda>_. None),
     k_task_mcc = (\<lambda>_. None), k_zones = (\<lambda>_. sample_zone), k_held = {},
     k_lru_add_pvecs = (\<lambda>_ _. []), k_lru_rotate_pvecs = (\<lambda>_. []), k_vm_events = (\<lambda>_ _. 0),
     k_vm_stat = (\<lambda>_. 0), k_pageblock = (\<lambda>_ b. b mod 3 = 1)\<rparr>"

definition sample_areas :: "vm_area list" where
  "sample_areas = [\<lparr>vm_start = 0x1000, vm_end = 0x3000, vm_flags = 0, vm_prev = None\<rparr>,
     \<lparr>vm_start = 0x5000, vm_end = 0x6000, vm_flags = 0, vm_prev = Some 0\<rparr>]"

definition sample_env :: kenv where
  "sample_env = \<lparr>page_zone = (\<lambda>_. 0), hpage_nr_pages = (\<lambda>_. 1), pfn_valid_within = (\<lambda>_. True),
     mapping_unevictable = (\<lambda>_ _. False), try_to_release_page = (\<lambda>_ s. s), pagevec_size = 14,
     cur_cpu = 0, online_cpus = 1, all_zones = [0], pageblock_order = 10,
     PB_migrate = 0, PB_migrate_end = 2, NR_PAGEBLOCK_BITS = 3,
     page_group_by_mobility_disabled = False,
     kmalloc_chain = (\<lambda>s. find (\<lambda>c. k_chains s c = None) [1 ..< 1000]),
     kmalloc_mcc = (\<lambda>s. find (\<lambda>m. k_mccs s m = None) [1 ..< 1000]),
     kmalloc_array = (\<lambda>_. True),
     find_vma = (\<lambda>a. dropWhile (\<lambda>v. vm_end v \<le> a) sample_areas),
     vma_stack_continue = (\<lambda>_ _. False),
     follow_page = (\<lambda>v a s. (FollowPage (unat a div 4096), s)),
     handle_mm_fault = (\<lambda>v a s. (0, s)),
     mlock_vma_page = (\<lambda>_ s. Some s), munlock_vma_page = (\<lambda>_ s. Some s),
     page_referenced = (\<lambda>_ s. ((0, 0), s)),
     VM_FAULT_ERROR = 0x33, VM_FAULT_RETRY = 0x400, VM_GROWSDOWN = 0x100, VM_LOCKED = 0x2000,
     VM_SPECIAL = 0x400, VM_EXEC = 4, PAGE_SHIFT = 12\<rparr>"

text \<open>The same machine with task 1 owning a chain of the pages 7 and 8, in slot 0.\<close>

definition linked_state :: kstate where
  "linked_state = sample_state\<lparr>
     k_pages := (\<lambda>p. if p = 7 \<or> p = 8 then sample_page\<lparr>pg_chain := Some 1\<rparr> else sample_page),
     k_chains := [1 \<mapsto> \<lparr>mc_id = 0, mc_attributes = None, mc_nr_links = 2, mc_links = [7, 8],
        mc_anchor = None, mc_ref_counter = 0, mc_delegate = None, mc_evict_cnt = 0\<rparr>],
     k_mccs := [1 \<mapsto> \<lparr>mcc_count = 1, mcc_capacity = 255,
        mcc_chains = (replicate 255 None)[0 := Some 1]\<rparr>],
     k_task_mcc := [1 \<mapsto> 1]\<rparr>"

lemmas sample_defs = sample_env_def sample_state_def sample_zone_def sample_page_def
  sample_areas_def

end
