(* ===== verification/Page_Flags.thy ===== *)
theory Page_Flags
  imports Kernel_Prims
begin

unbundle bit_operations_syntax

text \<open>
  \<open>Linux/page-flags.h\<close>: the predicates and setters that the header's macros generate for the
  flag bits, the masks checked when a page is freed or handed out, and the overridden
  operations on the referenced bit. In this kernel \<open>PageReferenced\<close> answers for the whole
  memory chain of a page: a page of a chain counts as referenced while the chain's
  \<open>ref_counter\<close> is not 0. The operations prefixed \<open>k__\<close> are the header's \<open>__\<close> versions, which
  see the page's own bit only.
\<close>

section \<open>Generated accessors\<close>

abbreviation PageLocked :: "page_ptr \<Rightarrow> kstate \<Rightarrow> bool" where
  "PageLocked \<equiv> test_bit PG_locked"
abbreviation PageDirty :: "page_ptr \<Rightarrow> kstate \<Rightarrow> bool" where
  "PageDirty \<equiv> test_bit PG_dirty"
abbreviation PageLRU :: "page_ptr \<Rightarrow> kstate \<Rightarrow> bool" where
  "PageLRU \<equiv> test_bit PG_lru"
abbreviation SetPageLRU :: "page_ptr \<Rightarrow> kstate \<Rightarrow> kstate" where
  "SetPageLRU \<equiv> set_bit_k PG_lru"
abbreviation ClearPageLRU :: "page_ptr \<Rightarrow> kstate \<Rightarrow> kstate" where
  "ClearPageLRU \<equiv> clear_bit_k PG_lru"
abbreviation PageActive :: "page_ptr \<Rightarrow> kstate \<Rightarrow> bool" where
  "PageActive \<equiv> test_bit PG_active"
abbreviation SetPageActive :: "page_ptr \<Rightarrow> kstate \<Rightarrow> kstate" where
  "SetPageActive \<equiv> set_bit_k PG_active"
abbreviation ClearPageActive :: "page_ptr \<Rightarrow> kstate \<Rightarrow> kstate" where
  "ClearPageActive \<equiv> clear_bit_k PG_active"
abbreviation TestClearPageActive :: "page_ptr \<Rightarrow> kstate \<Rightarrow> bool \<times> kstate" where
  "TestClearPageActive \<equiv> test_and_clear_bit PG_active"
abbreviation PageReserved :: "page_ptr \<Rightarrow> kstate \<Rightarrow> bool" where
  "PageReserved \<equiv> test_bit PG_reserved"
abbreviation ClearPageReserved :: "page_ptr \<Rightarrow> kstate \<Rightarrow> kstate" where
  "ClearPageReserved \<equiv> clear_bit_k PG_reserved"
abbreviation PageSwapBacked :: "page_ptr \<Rightarrow> kstate \<Rightarrow> bool" where
  "PageSwapBacked \<equiv> test_bit PG_swapbacked"
abbreviation PageWriteback :: "page_ptr \<Rightarrow> kstate \<Rightarrow> bool" where
  "PageWriteback \<equiv> test_bit PG_writeback"
abbreviation PageSwapCache :: "page_ptr \<Rightarrow> kstate \<Rightarrow> bool" where
  "PageSwapCache \<equiv> test_bit PG_swapcache"
abbreviation PageUnevictable :: "page_ptr \<Rightarrow> kstate \<Rightarrow> bool" where
  "PageUnevictable \<equiv> test_bit PG_unevictable"
abbreviation SetPageUnevictable :: "page_ptr \<Rightarrow> kstate \<Rightarrow> kstate" where
  "SetPageUnevictable \<equiv> set_bit_k PG_unevictable"
abbreviation ClearPageUnevictable :: "page_ptr \<Rightarrow> kstate \<Rightarrow> kstate" where
  "ClearPageUnevictable \<equiv> clear_bit_k PG_unevictable"
abbreviation PageMlocked :: "page_ptr \<Rightarrow> kstate \<Rightarrow> bool" where
  "PageMlocked \<equiv> test_bit PG_mlocked"
abbreviation TestSetPageMlocked :: "page_ptr \<Rightarrow> kstate \<Rightarrow> bool \<times> kstate" where
  "TestSetPageMlocked \<equiv> test_and_set_bit PG_mlocked"
abbreviation TestClearPageMlocked :: "page_ptr \<Rightarrow> kstate \<Rightarrow> bool \<times> kstate" where
  "TestClearPageMlocked \<equiv> test_and_clear_bit PG_mlocked"
abbreviation PageHead :: "page_ptr \<Rightarrow> kstate \<Rightarrow> bool" where
  "PageHead \<equiv> test_bit PG_head"
abbreviation PageTail :: "page_ptr \<Rightarrow> kstate \<Rightarrow> bool" where
  "PageTail \<equiv> test_bit PG_tail"

text \<open>Memory barriers have no effect on a sequential state.\<close>

definition PageUptodate :: "page_ptr \<Rightarrow> kstate \<Rightarrow> bool" where
  "PageUptodate p s = test_bit PG_uptodate p s"

definition SetPageUptodate :: "page_ptr \<Rightarrow> kstate \<Rightarrow> kstate" where
  "SetPageUptodate p s = set_bit_k PG_uptodate p s"

section \<open>Masks\<close>

definition pg_mask :: "pageflags \<Rightarrow> ulong" where
  "pg_mask f = push_bit (pg_nr f) 1"

definition PageCompound :: "page_ptr \<Rightarrow> kstate \<Rightarrow> bool" where
  "PageCompound p s \<longleftrightarrow> pg_flags (page_at s p) AND (pg_mask PG_head OR pg_mask PG_tail) \<noteq> 0"

definition PAGE_FLAGS_CHECK_AT_FREE :: ulong where
  "PAGE_FLAGS_CHECK_AT_FREE = pg_mask PG_lru OR pg_mask PG_locked OR pg_mask PG_private OR
     pg_mask PG_private_2 OR pg_mask PG_writeback OR pg_mask PG_reserved OR pg_mask PG_slab OR
     pg_mask PG_swapcache OR pg_mask PG_active OR pg_mask PG_unevictable OR pg_mask PG_mlocked"

definition PAGE_FLAGS_CHECK_AT_PREP :: ulong where
  "PAGE_FLAGS_CHECK_AT_PREP = push_bit NR_PAGEFLAGS 1 - 1"

definition PAGE_FLAGS_PRIVATE :: ulong where
  "PAGE_FLAGS_PRIVATE = pg_mask PG_private OR pg_mask PG_private_2"

definition page_has_private :: "page_ptr \<Rightarrow> kstate \<Rightarrow> bool" where
  "page_has_private p s \<longleftrightarrow> pg_flags (page_at s p) AND PAGE_FLAGS_PRIVATE \<noteq> 0"

lemma bit_pg_mask [simp]: "bit (pg_mask f) n \<longleftrightarrow> n = pg_nr f"
proof -
  have "pg_mask f = 2 ^ pg_nr f"
    by (simp add: pg_mask_def push_bit_eq_mult)
  moreover have "bit (2 ^ pg_nr f :: ulong) n \<longleftrightarrow> n = pg_nr f"
    using pg_nr_lt_32 [of f] by (auto simp: bit_exp_iff)
  ultimately show ?thesis
    by simp
qed

lemma word_and_eq_0_iff: "(w AND m = 0) \<longleftrightarrow> (\<forall>n. \<not> (bit w n \<and> bit (m :: ulong) n))"
proof
  assume w: "w AND m = 0"
  show "\<forall>n. \<not> (bit w n \<and> bit m n)"
  proof (intro allI notI)
    fix n assume "bit w n \<and> bit m n"
    then have "bit (w AND m) n" by (simp add: bit_and_iff)
    with w show False by simp
  qed
qed (rule bit_eqI, auto simp: bit_and_iff)

lemma PageCompound_iff: "PageCompound p s \<longleftrightarrow> PageHead p s \<or> PageTail p s"
  by (auto simp: PageCompound_def word_and_eq_0_iff bit_or_iff test_bit_def)

lemma page_has_private_iff:
  "page_has_private p s \<longleftrightarrow> test_bit PG_private p s \<or> test_bit PG_private_2 p s"
  by (auto simp: page_has_private_def PAGE_FLAGS_PRIVATE_def word_and_eq_0_iff bit_or_iff
      test_bit_def)

definition flags_checked_at_free :: "pageflags list" where
  "flags_checked_at_free = [PG_lru, PG_locked, PG_private, PG_private_2, PG_writeback,
     PG_reserved, PG_slab, PG_swapcache, PG_active, PG_unevictable, PG_mlocked]"

lemma CHECK_AT_FREE_iff:
  "pg_flags (page_at s p) AND PAGE_FLAGS_CHECK_AT_FREE \<noteq> 0 \<longleftrightarrow>
     (\<exists>f \<in> set flags_checked_at_free. test_bit f p s)"
  by (auto simp: PAGE_FLAGS_CHECK_AT_FREE_def flags_checked_at_free_def word_and_eq_0_iff
      bit_or_iff test_bit_def)

lemma bit_CHECK_AT_PREP [simp]: "bit PAGE_FLAGS_CHECK_AT_PREP n \<longleftrightarrow> n < NR_PAGEFLAGS"
proof -
  have m: "PAGE_FLAGS_CHECK_AT_PREP = mask NR_PAGEFLAGS"
    by (simp add: PAGE_FLAGS_CHECK_AT_PREP_def mask_eq_exp_minus_1 NR_PAGEFLAGS_def)
  show ?thesis
    unfolding m bit_mask_iff by (auto simp: NR_PAGEFLAGS_def)
qed

lemma CHECK_AT_PREP_iff:
  "pg_flags (page_at s p) AND PAGE_FLAGS_CHECK_AT_PREP \<noteq> 0 \<Longrightarrow>
     \<exists>n < NR_PAGEFLAGS. bit (pg_flags (page_at s p)) n"
  by (auto simp: word_and_eq_0_iff)

section \<open>The referenced bit of a page and of its chain\<close>

definition PageLinked :: "page_ptr \<Rightarrow> kstate \<Rightarrow> bool" where
  "PageLinked p s \<longleftrightarrow> pg_chain (page_at s p) \<noteq> None"

text \<open>
  \<open>ref_counter\<close> is an \<open>atomic_t\<close>, 32 bits wide. \<open>mc_ref_counter\<close> is the exact sum of the numbers
  added to it, whose low 32 bits the field holds, and \<open>atomic_read\<close> is the signed value the code
  reads from them: wrapping at every update instead makes no difference to what is read.
\<close>

definition atomic_read :: "int \<Rightarrow> int" where
  "atomic_read x = signed_take_bit 31 x"

lemma atomic_read_add [simp]: "atomic_read (atomic_read x + d) = atomic_read (x + d)"
proof -
  have "take_bit 32 (signed_take_bit 31 x) = take_bit 32 x"
    by (simp add: take_bit_signed_take_bit)
  then have "take_bit 32 (signed_take_bit 31 x + d) = take_bit 32 (x + d)"
    by (metis take_bit_add)
  then show ?thesis
    using signed_take_bit_eq_iff_take_bit_eq [of 31 "signed_take_bit 31 x + d" "x + d"]
    by (simp add: atomic_read_def)
qed

lemma atomic_read_add2 [simp]: "atomic_read (d + atomic_read x) = atomic_read (d + x)"
  using atomic_read_add [of x d] by (simp add: add.commute)

lemma atomic_read_less: "atomic_read x < 2 ^ 31" "- (2 ^ 31) \<le> atomic_read x"
  unfolding atomic_read_def
  by (rule signed_take_bit_int_less_exp, rule signed_take_bit_int_greater_eq_minus_exp)

lemma atomic_read_small [simp]: "- (2 ^ 31) \<le> x \<Longrightarrow> x < 2 ^ 31 \<Longrightarrow> atomic_read x = x"
  by (simp add: atomic_read_def signed_take_bit_int_eq_self)

lemma atomic_read_0_iff: "atomic_read x = 0 \<longleftrightarrow> 2 ^ 32 dvd x"
  using signed_take_bit_eq_iff_take_bit_eq [of 31 x 0]
  by (simp add: atomic_read_def take_bit_eq_0_iff)

lemma atomic_read_zeroD: "atomic_read x = 0 \<Longrightarrow> 0 \<le> x \<Longrightarrow> x < 2 ^ 32 \<Longrightarrow> x = 0"
  using zdvd_not_zless [of x "2 ^ 32"] unfolding atomic_read_0_iff by fastforce

text \<open>\<open>atomic_read(&page->chain->ref_counter)\<close>, and the same field increased by a number.\<close>

definition read_ref :: "page_ptr \<Rightarrow> kstate \<Rightarrow> int option" where
  "read_ref p s = Option.bind (pg_chain (page_at s p))
     (\<lambda>c. map_option (\<lambda>ch. atomic_read (mc_ref_counter ch)) (chain_at s c))"

definition add_page_ref :: "page_ptr \<Rightarrow> int \<Rightarrow> kstate \<Rightarrow> kstate option" where
  "add_page_ref p d s = Option.bind (pg_chain (page_at s p)) (\<lambda>c. add_ref c d s)"

abbreviation k__SetPageReferenced :: "page_ptr \<Rightarrow> kstate \<Rightarrow> kstate" where
  "k__SetPageReferenced \<equiv> set_bit_k PG_referenced"
abbreviation k__PageReferenced :: "page_ptr \<Rightarrow> kstate \<Rightarrow> bool" where
  "k__PageReferenced \<equiv> test_bit PG_referenced"
abbreviation k__ClearPageReferenced :: "page_ptr \<Rightarrow> kstate \<Rightarrow> kstate" where
  "k__ClearPageReferenced \<equiv> clear_bit_k PG_referenced"

definition PageReferenced :: "page_ptr \<Rightarrow> kstate \<Rightarrow> (int \<times> kstate) option" where
  "PageReferenced p s =
     (let r = of_bool (test_bit PG_referenced p s) in
      if r \<noteq> 0 then Some (r, s)
      else do {
        s \<leftarrow> spin_lock (LinkLock p) s;
        r \<leftarrow> (if PageLinked p s then read_ref p s else Some r);
        s \<leftarrow> spin_unlock (LinkLock p) s;
        Some (r, s)
      })"

definition SetPageReferenced :: "page_ptr \<Rightarrow> kstate \<Rightarrow> kstate option" where
  "SetPageReferenced p s = do {
     let s = set_bit_k PG_referenced p s;
     s \<leftarrow> spin_lock (LinkLock p) s;
     s \<leftarrow> (if PageLinked p s then add_page_ref p 1 s else Some s);
     spin_unlock (LinkLock p) s
   }"

definition ClearPageReferenced :: "page_ptr \<Rightarrow> kstate \<Rightarrow> kstate option" where
  "ClearPageReferenced p s = do {
     let (is_set, s) = test_and_clear_bit PG_referenced p s;
     s \<leftarrow> spin_lock (LinkLock p) s;
     s \<leftarrow> (if is_set \<and> PageLinked p s then add_page_ref p (- 1) s else Some s);
     spin_unlock (LinkLock p) s
   }"

definition TestClearPageReferenced :: "page_ptr \<Rightarrow> kstate \<Rightarrow> (int \<times> kstate) option" where
  "TestClearPageReferenced p s = do {
     let (was_set, s) = test_and_clear_bit PG_referenced p s;
     let v = of_bool was_set;
     s \<leftarrow> spin_lock (LinkLock p) s;
     (v, s) \<leftarrow> (if PageLinked p s then do {
         s \<leftarrow> (if v \<noteq> 0 then add_page_ref p (- 1) s else Some s);
         r \<leftarrow> read_ref p s;
         Some (v OR r, s)
       } else Some (v, s));
     s \<leftarrow> spin_unlock (LinkLock p) s;
     Some (v, s)
   }"

subsection \<open>What the operations compute\<close>

text \<open>
  A page is \<open>sound\<close> when its chain pointer does not dangle and its link lock is free; the
  operations then return. \<open>chain_ref\<close> is the counter they consult, \<open>bump_ref\<close> its update.
\<close>

definition linked_live :: "page_ptr \<Rightarrow> kstate \<Rightarrow> bool" where
  "linked_live p s \<longleftrightarrow> (\<forall>c. pg_chain (page_at s p) = Some c \<longrightarrow> chain_at s c \<noteq> None)"

definition link_free :: "page_ptr \<Rightarrow> kstate \<Rightarrow> bool" where
  "link_free p s \<longleftrightarrow> LinkLock p \<notin> k_held s \<and> linked_live p s"

definition chain_ref :: "page_ptr \<Rightarrow> kstate \<Rightarrow> int" where
  "chain_ref p s = (case pg_chain (page_at s p) of None \<Rightarrow> 0
     | Some c \<Rightarrow> (case chain_at s c of None \<Rightarrow> 0 | Some ch \<Rightarrow> atomic_read (mc_ref_counter ch)))"

definition upd_chain_of :: "page_ptr \<Rightarrow> (memory_chain \<Rightarrow> memory_chain) \<Rightarrow> kstate \<Rightarrow> kstate" where
  "upd_chain_of p f s = (case pg_chain (page_at s p) of None \<Rightarrow> s
     | Some c \<Rightarrow> (case k_chains s c of None \<Rightarrow> s
         | Some ch \<Rightarrow> s\<lparr>k_chains := (k_chains s)(c \<mapsto> f ch)\<rparr>))"

definition bump_ref :: "page_ptr \<Rightarrow> int \<Rightarrow> kstate \<Rightarrow> kstate" where
  "bump_ref p d = upd_chain_of p (\<lambda>ch. ch\<lparr>mc_ref_counter := mc_ref_counter ch + d\<rparr>)"

lemma upd_chain_of_frame [simp]:
  "k_pages (upd_chain_of p f s) = k_pages s" "k_held (upd_chain_of p f s) = k_held s"
  "k_zones (upd_chain_of p f s) = k_zones s" "k_mccs (upd_chain_of p f s) = k_mccs s"
  "k_task_mcc (upd_chain_of p f s) = k_task_mcc s"
  "page_at (upd_chain_of p f s) q = page_at s q"
  "zone_at (upd_chain_of p f s) z = zone_at s z"
  "test_bit g q (upd_chain_of p f s) = test_bit g q s"
  "k_vm_events (upd_chain_of p f s) = k_vm_events s"
  by (auto simp: upd_chain_of_def page_at_def zone_at_def test_bit_def split: option.splits)

lemma bump_ref_frame [simp]:
  "k_pages (bump_ref p d s) = k_pages s" "k_held (bump_ref p d s) = k_held s"
  "k_zones (bump_ref p d s) = k_zones s" "k_mccs (bump_ref p d s) = k_mccs s"
  "k_task_mcc (bump_ref p d s) = k_task_mcc s"
  "page_at (bump_ref p d s) q = page_at s q" "zone_at (bump_ref p d s) z = zone_at s z"
  "test_bit g q (bump_ref p d s) = test_bit g q s"
  by (simp_all add: bump_ref_def)

lemma add_page_ref_Some:
  "PageLinked p s \<Longrightarrow> linked_live p s \<Longrightarrow> add_page_ref p d s = Some (bump_ref p d s)"
  by (auto simp: add_page_ref_def PageLinked_def linked_live_def bump_ref_def upd_chain_of_def
      add_ref_def upd_chain_def chain_at_def split: option.splits)

lemma bump_ref_unlinked [simp]: "\<not> PageLinked p s \<Longrightarrow> bump_ref p d s = s"
  by (simp add: bump_ref_def upd_chain_of_def PageLinked_def)

lemma read_ref_Some:
  "PageLinked p s \<Longrightarrow> linked_live p s \<Longrightarrow> read_ref p s = Some (chain_ref p s)"
  by (auto simp: read_ref_def PageLinked_def linked_live_def chain_ref_def)

lemma chain_ref_bump:
  "PageLinked p s \<Longrightarrow> linked_live p s \<Longrightarrow> chain_ref p (bump_ref p d s) = atomic_read (chain_ref p s + d)"
  by (auto simp: chain_ref_def bump_ref_def upd_chain_of_def PageLinked_def linked_live_def
      chain_at_def page_at_def split: option.splits)

lemma chain_ref_unlinked [simp]: "\<not> PageLinked p s \<Longrightarrow> chain_ref p s = 0"
  by (simp add: chain_ref_def PageLinked_def)

lemma PageLinked_frame [simp]:
  "PageLinked p (set_bit_k f q s) = PageLinked p s"
  "PageLinked p (clear_bit_k f q s) = PageLinked p s"
  "PageLinked p (s\<lparr>k_held := H\<rparr>) = PageLinked p s"
  "PageLinked p (bump_ref q d s) = PageLinked p s"
  by (simp_all add: PageLinked_def)

lemma linked_live_frame [simp]:
  "linked_live p (set_bit_k f q s) = linked_live p s"
  "linked_live p (clear_bit_k f q s) = linked_live p s"
  "linked_live p (s\<lparr>k_held := H\<rparr>) = linked_live p s"
  "linked_live p (bump_ref q d s) = linked_live p s"
  by (auto simp: linked_live_def chain_at_def bump_ref_def upd_chain_of_def
      split: option.splits)

lemma chain_ref_frame [simp]:
  "chain_ref p (set_bit_k f q s) = chain_ref p s"
  "chain_ref p (clear_bit_k f q s) = chain_ref p s"
  "chain_ref p (s\<lparr>k_held := H\<rparr>) = chain_ref p s"
  by (simp_all add: chain_ref_def split: option.split)

lemma upd_chain_of_held [simp]:
  "upd_chain_of p f (s\<lparr>k_held := H\<rparr>) = (upd_chain_of p f s)\<lparr>k_held := H\<rparr>"
  by (auto simp: upd_chain_of_def split: option.splits)

lemma bump_ref_held [simp]: "bump_ref p d (s\<lparr>k_held := H\<rparr>) = (bump_ref p d s)\<lparr>k_held := H\<rparr>"
  by (simp add: bump_ref_def)

lemma k_held_id [simp]: "H = k_held s \<Longrightarrow> s\<lparr>k_held := H\<rparr> = s"
  by simp

lemma SetPageReferenced_eq [kspec]:
  assumes "link_free p s"
  shows "SetPageReferenced p s = Some (bump_ref p 1 (k__SetPageReferenced p s))"
  using assms
  by (auto simp: SetPageReferenced_def link_free_def add_page_ref_Some)

lemma ClearPageReferenced_eq [kspec]:
  assumes "link_free p s"
  shows "ClearPageReferenced p s =
    Some (if k__PageReferenced p s then bump_ref p (- 1) (k__ClearPageReferenced p s) else s)"
  using assms
  by (auto simp: ClearPageReferenced_def link_free_def add_page_ref_Some test_and_clear_bit_def)

lemma PageReferenced_eq [kspec]:
  assumes "link_free p s"
  shows "PageReferenced p s = Some (if k__PageReferenced p s then 1 else chain_ref p s, s)"
  using assms
  by (auto simp: PageReferenced_def link_free_def read_ref_Some)

lemma TestClearPageReferenced_eq [kspec]:
  assumes "link_free p s"
  shows "TestClearPageReferenced p s = Some (let
      b = k__PageReferenced p s;
      t = (if b then bump_ref p (- 1) (k__ClearPageReferenced p s) else s)
    in (of_bool b OR chain_ref p t, t))"
  using assms
  by (cases "PageLinked p s")
    (auto simp: TestClearPageReferenced_def link_free_def add_page_ref_Some read_ref_Some
      test_and_clear_bit_def Let_def)

end
