(* ===== verification/Chain_Ops.thy ===== *)
theory Chain_Ops
  imports Page_Flags
begin

text \<open>
  The static routines of \<open>Linux/mchain.c\<close> and of the exit path of \<open>Linux/exit.c\<close> that build,
  link, unlink and tear down memory chains, and an abstract specification of them. The
  specification (\<open>chain_view\<close>) keeps what the memory chains are about: the chains, the chain of
  each page and the referenced bit of each page. Every routine is proved to act on the view as
  its abstract operation does, and every abstract operation to keep the invariant \<open>chains_ok\<close>.
\<close>

section \<open>The routines\<close>

text \<open>
  \<open>list_del(&pg->link)\<close> and \<open>list_add(&pg->link, &chain->links)\<close>. The node is expected on the
  list of the given chain; deleting a node that is not there follows poisoned links.
\<close>

definition link_list_del :: "chain_ptr \<Rightarrow> page_ptr \<Rightarrow> kstate \<Rightarrow> kstate option" where
  "link_list_del c pg s = do {
     ch \<leftarrow> chain_at s c;
     if pg \<in> set (mc_links ch)
     then upd_chain c (\<lambda>ch. ch\<lparr>mc_links := removeAll pg (mc_links ch)\<rparr>) s
     else None
   }"

definition link_list_add :: "page_ptr \<Rightarrow> chain_ptr \<Rightarrow> kstate \<Rightarrow> kstate option" where
  "link_list_add pg c = upd_chain c (\<lambda>ch. ch\<lparr>mc_links := pg # mc_links ch\<rparr>)"

definition set_page_chain :: "page_ptr \<Rightarrow> chain_ptr option \<Rightarrow> kstate \<Rightarrow> kstate" where
  "set_page_chain pg c = upd_page pg (\<lambda>p. p\<lparr>pg_chain := c\<rparr>)"

definition MAX_NUM_CHAINS :: nat where
  "MAX_NUM_CHAINS = 255"

definition MEMORY_CHAIN_IS_FULL :: "memory_chain \<Rightarrow> bool" where
  "MEMORY_CHAIN_IS_FULL ch = (case mc_attributes ch of
      Some a \<Rightarrow> (if is_bounded a then mc_nr_links ch \<ge> max_links a else False)
    | None \<Rightarrow> False)"

definition upd_mcc ::
  "mcc_ptr \<Rightarrow> (memory_chain_collection \<Rightarrow> memory_chain_collection) \<Rightarrow> kstate \<Rightarrow> kstate option" where
  "upd_mcc m f s = (case k_mccs s m of
      None \<Rightarrow> None
    | Some r \<Rightarrow> Some (s\<lparr>k_mccs := (k_mccs s)(m \<mapsto> f r)\<rparr>))"

text \<open>Storing through the pointers that \<open>kmalloc\<close> returned; it returns NULL when it fails.\<close>

definition k__init_mcc :: "kenv \<Rightarrow> task_ptr \<Rightarrow> kstate \<Rightarrow> kstate option" where
  "k__init_mcc E tsk s = do {
     mcc \<leftarrow> kmalloc_mcc E s;
     (if kmalloc_array E s then Some () else None);
     let r = \<lparr>mcc_count = 0, mcc_capacity = MAX_NUM_CHAINS,
              mcc_chains = replicate MAX_NUM_CHAINS None\<rparr>;
     Some (s\<lparr>k_mccs := (k_mccs s)(mcc \<mapsto> r), k_task_mcc := (k_task_mcc s)(tsk \<mapsto> mcc)\<rparr>)
   }"

definition k__new_mem_chain :: "kenv \<Rightarrow> nat \<Rightarrow> kstate \<Rightarrow> (chain_ptr \<times> kstate) option" where
  "k__new_mem_chain E ident s = do {
     chain \<leftarrow> kmalloc_chain E s;
     let ch = \<lparr>mc_id = ident, mc_attributes = None, mc_nr_links = 0, mc_links = [],
        mc_anchor = None, mc_ref_counter = 0, mc_delegate = None, mc_evict_cnt = 0\<rparr>;
     Some (chain, s\<lparr>k_chains := (k_chains s)(chain \<mapsto> ch)\<rparr>)
   }"

definition k__reset_page :: "page_ptr \<Rightarrow> bool \<Rightarrow> kstate \<Rightarrow> kstate option" where
  "k__reset_page page clr_flgs s =
     (let chain = pg_chain (page_at s page);
          s = set_page_chain page None s
      in if clr_flgs \<and> k__PageReferenced page s
         then (let s = k__ClearPageReferenced page s
               in case chain of None \<Rightarrow> None | Some c \<Rightarrow> add_ref c (- 1) s)
         else Some s)"

definition k__unlink_page :: "kenv \<Rightarrow> page_ptr \<Rightarrow> kstate \<Rightarrow> kstate option" where
  "k__unlink_page E pg s = (case pg_chain (page_at s pg) of
      None \<Rightarrow> Some s
    | Some chain \<Rightarrow> do {
        s \<leftarrow> link_list_del chain pg s;
        ch \<leftarrow> chain_at s chain;
        s \<leftarrow> (if mc_anchor ch = Some pg then do {
            s \<leftarrow> munlock_vma_page E pg s;
            upd_chain chain (\<lambda>ch. ch\<lparr>mc_anchor := None\<rparr>) s
          } else Some s);
        ch \<leftarrow> chain_at s chain;
        s \<leftarrow> (if mc_delegate ch = Some pg
               then upd_chain chain (\<lambda>ch. ch\<lparr>mc_delegate := None\<rparr>) s else Some s);
        s \<leftarrow> upd_chain chain (\<lambda>ch. ch\<lparr>mc_nr_links := mc_nr_links ch - 1\<rparr>) s;
        s \<leftarrow> (if k__PageReferenced pg s then add_ref chain (- 1) s else Some s);
        k__reset_page pg False s
      })"

definition k__evict_page :: "chain_ptr \<Rightarrow> page_ptr option" where
  "k__evict_page chain = None"

definition k__link_page ::
  "kenv \<Rightarrow> chain_ptr \<Rightarrow> page_ptr \<Rightarrow> kstate \<Rightarrow> (page_ptr option \<times> kstate) option" where
  "k__link_page E chain pg s =
     (if pg_chain (page_at s pg) = Some chain then Some (None, s)
      else do {
        s \<leftarrow> (if pg_chain (page_at s pg) \<noteq> None then do {
            s \<leftarrow> spin_lock_chain (pg_chain (page_at s pg)) s;
            s \<leftarrow> k__unlink_page E pg s;
            spin_unlock_chain (pg_chain (page_at s pg)) s
          } else Some s);
        ch \<leftarrow> chain_at s chain;
        (victim, s) \<leftarrow> (if MEMORY_CHAIN_IS_FULL ch then do {
            let victim = k__evict_page chain;
            s \<leftarrow> spin_lock_link victim s;
            v \<leftarrow> victim;
            s \<leftarrow> k__unlink_page E v s;
            s \<leftarrow> spin_unlock (LinkLock v) s;
            Some (victim, s)
          } else Some (None, s));
        let s = set_page_chain pg (Some chain) s;
        s \<leftarrow> link_list_add pg chain s;
        s \<leftarrow> upd_chain chain (\<lambda>ch. ch\<lparr>mc_nr_links := mc_nr_links ch + 1\<rparr>) s;
        s \<leftarrow> (if k__PageReferenced pg s then add_ref chain 1 s else Some s);
        Some (victim, s)
      })"

text \<open>Reading the slot array; an index past its end is out of bounds.\<close>

definition array_read :: "'a list \<Rightarrow> nat \<Rightarrow> 'a option" where
  "array_read xs i = (if i < length xs then Some (xs ! i) else None)"

function find_free_slot_from :: "chain_ptr option list \<Rightarrow> nat \<Rightarrow> nat \<Rightarrow> int option" where
  "find_free_slot_from array len slot =
     (if slot < len then do {
        x \<leftarrow> array_read array slot;
        if x = None then Some (int slot) else do {
        let slot = slot + 1;
        x \<leftarrow> array_read array slot;
        if x = None then Some (int slot) else do {
        let slot = slot + 1;
        x \<leftarrow> array_read array slot;
        if x = None then Some (int slot) else do {
        let slot = slot + 1;
        x \<leftarrow> array_read array slot;
        if x = None then Some (int slot) else do {
        let slot = slot + 1;
        x \<leftarrow> array_read array slot;
        if x = None then Some (int slot)
        else find_free_slot_from array len (slot + 1) }}}}
      } else Some (- 1))"
  by auto
termination
  by (relation "measure (\<lambda>(array, len, slot). len - slot)") auto

declare find_free_slot_from.simps [simp del]

definition k__find_free_slot :: "chain_ptr option list \<Rightarrow> nat \<Rightarrow> int option" where
  "k__find_free_slot array len = find_free_slot_from array len 0"

text \<open>
  \<open>__unlink_chain\<close>: the loop runs over the list as it stands at entry (the safe iterator
  remembers the next node). Its body, and the reset of the chain after it.
\<close>

definition unlink_chain_body :: "chain_ptr \<Rightarrow> page_ptr \<Rightarrow> kstate \<Rightarrow> kstate option" where
  "unlink_chain_body chain page s = do {
     s \<leftarrow> spin_lock (LinkLock page) s;
     s \<leftarrow> link_list_del chain page s;
     s \<leftarrow> k__reset_page page True s;
     spin_unlock (LinkLock page) s
   }"

definition k__unlink_chain :: "kenv \<Rightarrow> chain_ptr \<Rightarrow> kstate \<Rightarrow> kstate option" where
  "k__unlink_chain E chain s = do {
     ch \<leftarrow> chain_at s chain;
     s \<leftarrow> forK (unlink_chain_body chain) (mc_links ch) s;
     ch \<leftarrow> chain_at s chain;
     s \<leftarrow> (case mc_anchor ch of Some a \<Rightarrow> munlock_vma_page E a s | None \<Rightarrow> Some s);
     upd_chain chain (\<lambda>ch. ch\<lparr>mc_links := [], mc_anchor := None, mc_delegate := None,
        mc_nr_links := 0, mc_ref_counter := 0\<rparr>) s
   }"

text \<open>The variant of the exit path.\<close>

definition unlink_fast_body :: "chain_ptr \<Rightarrow> page_ptr \<Rightarrow> kstate \<Rightarrow> kstate option" where
  "unlink_fast_body chain page s = do {
     s \<leftarrow> spin_lock (LinkLock page) s;
     let s = set_page_chain page None s;
     s \<leftarrow> link_list_del chain page s;
     spin_unlock (LinkLock page) s
   }"

definition unlink_chain_fast :: "chain_ptr \<Rightarrow> kstate \<Rightarrow> kstate option" where
  "unlink_chain_fast chain s = do {
     s \<leftarrow> spin_lock_chain (Some chain) s;
     ch \<leftarrow> chain_at s chain;
     s \<leftarrow> forK (unlink_fast_body chain) (mc_links ch) s;
     spin_unlock_chain (Some chain) s
   }"

section \<open>The abstract view\<close>

record chain_view =
  v_chains :: "chain_ptr \<Rightarrow> memory_chain option"
  v_chain_of :: "page_ptr \<Rightarrow> chain_ptr option"
  v_ref :: "page_ptr \<Rightarrow> bool"

definition view :: "kstate \<Rightarrow> chain_view" where
  "view s = \<lparr>v_chains = k_chains s, v_chain_of = (\<lambda>p. pg_chain (page_at s p)),
     v_ref = (\<lambda>p. k__PageReferenced p s)\<rparr>"

text \<open>
  A chain is in order when its list has no duplicates, its length is \<open>nr_links\<close>, every page on
  it points back, the anchor and the delegate are on it, and \<open>ref_counter\<close> is at least the
  number of its pages with the referenced bit. All chains are in order and a page that points
  to a chain is on the list of that chain.
\<close>

definition chain_ok :: "chain_view \<Rightarrow> chain_ptr \<Rightarrow> memory_chain \<Rightarrow> bool" where
  "chain_ok v c ch \<longleftrightarrow>
     distinct (mc_links ch)
   \<and> mc_nr_links ch = int (length (mc_links ch))
   \<and> (\<forall>p \<in> set (mc_links ch). v_chain_of v p = Some c)
   \<and> set_option (mc_anchor ch) \<subseteq> set (mc_links ch)
   \<and> set_option (mc_delegate ch) \<subseteq> set (mc_links ch)
   \<and> int (length (filter (v_ref v) (mc_links ch))) \<le> mc_ref_counter ch
   \<and> mc_attributes ch = None"

definition chains_ok :: "chain_view \<Rightarrow> bool" where
  "chains_ok v \<longleftrightarrow>
     (\<forall>c ch. v_chains v c = Some ch \<longrightarrow> chain_ok v c ch)
   \<and> (\<forall>p c. v_chain_of v p = Some c \<longrightarrow> (\<exists>ch. v_chains v c = Some ch \<and> p \<in> set (mc_links ch)))"

definition v_upd :: "chain_ptr \<Rightarrow> (memory_chain \<Rightarrow> memory_chain) \<Rightarrow> chain_view \<Rightarrow> chain_view" where
  "v_upd c f v = (case v_chains v c of None \<Rightarrow> v
     | Some ch \<Rightarrow> v\<lparr>v_chains := (v_chains v)(c \<mapsto> f ch)\<rparr>)"

definition chain_without :: "page_ptr \<Rightarrow> bool \<Rightarrow> memory_chain \<Rightarrow> memory_chain" where
  "chain_without p r ch = ch\<lparr>mc_links := removeAll p (mc_links ch),
     mc_anchor := (if mc_anchor ch = Some p then None else mc_anchor ch),
     mc_delegate := (if mc_delegate ch = Some p then None else mc_delegate ch),
     mc_nr_links := mc_nr_links ch - 1,
     mc_ref_counter := mc_ref_counter ch - of_bool r\<rparr>"

definition chain_with :: "page_ptr \<Rightarrow> bool \<Rightarrow> memory_chain \<Rightarrow> memory_chain" where
  "chain_with p r ch = ch\<lparr>mc_links := p # mc_links ch, mc_nr_links := mc_nr_links ch + 1,
     mc_ref_counter := mc_ref_counter ch + of_bool r\<rparr>"

definition chain_cleared :: "memory_chain \<Rightarrow> memory_chain" where
  "chain_cleared ch = ch\<lparr>mc_links := [], mc_anchor := None, mc_delegate := None,
     mc_nr_links := 0, mc_ref_counter := 0\<rparr>"

definition v_unlink :: "page_ptr \<Rightarrow> chain_view \<Rightarrow> chain_view" where
  "v_unlink p v = (case v_chain_of v p of None \<Rightarrow> v
     | Some c \<Rightarrow> (v_upd c (chain_without p (v_ref v p)) v)\<lparr>v_chain_of := (v_chain_of v)(p := None)\<rparr>)"

definition v_link :: "chain_ptr \<Rightarrow> page_ptr \<Rightarrow> chain_view \<Rightarrow> chain_view" where
  "v_link c p v = (v_upd c (chain_with p (v_ref v p)) v)\<lparr>v_chain_of := (v_chain_of v)(p \<mapsto> c)\<rparr>"

definition v_anchor :: "chain_ptr \<Rightarrow> page_ptr \<Rightarrow> chain_view \<Rightarrow> chain_view" where
  "v_anchor c p = v_upd c (\<lambda>ch. ch\<lparr>mc_anchor := Some p\<rparr>)"

definition links_of :: "chain_view \<Rightarrow> chain_ptr \<Rightarrow> page_ptr list" where
  "links_of v c = (case v_chains v c of None \<Rightarrow> [] | Some ch \<Rightarrow> mc_links ch)"

text \<open>Clearing a chain: with the referenced bits of its pages cleared, or left alone.\<close>

definition v_clear :: "bool \<Rightarrow> chain_ptr \<Rightarrow> chain_view \<Rightarrow> chain_view" where
  "v_clear refs c v = (v_upd c chain_cleared v)
     \<lparr>v_chain_of := (\<lambda>p. if p \<in> set (links_of v c) then None else v_chain_of v p),
      v_ref := (\<lambda>p. if refs \<and> p \<in> set (links_of v c) then False else v_ref v p)\<rparr>"

definition v_free :: "chain_ptr \<Rightarrow> chain_view \<Rightarrow> chain_view" where
  "v_free c v = v\<lparr>v_chains := (v_chains v)(c := None)\<rparr>"

definition v_new :: "chain_ptr \<Rightarrow> nat \<Rightarrow> chain_view \<Rightarrow> chain_view" where
  "v_new c i v = v\<lparr>v_chains := (v_chains v)(c \<mapsto>
     \<lparr>mc_id = i, mc_attributes = None, mc_nr_links = 0, mc_links = [],
        mc_anchor = None, mc_ref_counter = 0, mc_delegate = None, mc_evict_cnt = 0\<rparr>)\<rparr>"

text \<open>Setting and clearing the referenced bit of a page, with its chain's counter.\<close>

definition v_bump :: "page_ptr \<Rightarrow> int \<Rightarrow> chain_view \<Rightarrow> chain_view" where
  "v_bump p d v = (case v_chain_of v p of None \<Rightarrow> v
     | Some c \<Rightarrow> v_upd c (\<lambda>ch. ch\<lparr>mc_ref_counter := mc_ref_counter ch + d\<rparr>) v)"

definition v_set_ref :: "page_ptr \<Rightarrow> bool \<Rightarrow> chain_view \<Rightarrow> chain_view" where
  "v_set_ref p b v = v\<lparr>v_ref := (v_ref v)(p := b)\<rparr>"

definition v_touch :: "page_ptr \<Rightarrow> chain_view \<Rightarrow> chain_view" where
  "v_touch p v = (case v_chain_of v p of None \<Rightarrow> v
     | Some c \<Rightarrow> v_upd c (\<lambda>ch. ch\<lparr>mc_ref_counter := mc_nr_links ch, mc_delegate := Some p\<rparr>) v)"

section \<open>The abstract operations keep the invariant\<close>

lemma v_upd_sel [simp]:
  "v_chain_of (v_upd c f v) = v_chain_of v" "v_ref (v_upd c f v) = v_ref v"
  "v_chains (v_upd c f v) c' =
     (if c' = c then map_option f (v_chains v c) else v_chains v c')"
  by (auto simp: v_upd_def split: option.splits)

lemma chains_okD:
  assumes "chains_ok v" and "v_chains v c = Some ch"
  shows "distinct (mc_links ch)" "mc_nr_links ch = int (length (mc_links ch))"
    "\<And>p. p \<in> set (mc_links ch) \<Longrightarrow> v_chain_of v p = Some c"
    "\<And>p. mc_anchor ch = Some p \<Longrightarrow> p \<in> set (mc_links ch)"
    "\<And>p. mc_delegate ch = Some p \<Longrightarrow> p \<in> set (mc_links ch)"
    "int (length (filter (v_ref v) (mc_links ch))) \<le> mc_ref_counter ch"
    "mc_attributes ch = None"
  using assms by (auto simp: chains_ok_def chain_ok_def)

lemma chains_ok_ex:
  "chains_ok v \<Longrightarrow> v_chain_of v p = Some c \<Longrightarrow>
     \<exists>ch. v_chains v c = Some ch \<and> p \<in> set (mc_links ch)"
  by (simp add: chains_ok_def)

lemma chains_ok_member:
  assumes "chains_ok v" and "v_chain_of v p = Some c"
  obtains ch where "v_chains v c = Some ch" "p \<in> set (mc_links ch)"
  using chains_ok_ex [OF assms] by blast

lemma links_of_iff: "chains_ok v \<Longrightarrow> p \<in> set (links_of v c) \<longleftrightarrow> v_chain_of v p = Some c"
  using chains_ok_ex [of v p c]
  by (cases "v_chains v c") (auto simp: links_of_def intro: chains_okD(3))

text \<open>
  To show that all chains are in order after a change of one of them, it is enough to look at
  that chain, if the pages of the others keep their chain pointer and gain no referenced bit.
\<close>

lemma filter_length_mono:
  "(\<And>x. x \<in> set xs \<Longrightarrow> P x \<Longrightarrow> Q x) \<Longrightarrow> length (filter P xs) \<le> length (filter Q xs)"
  by (induction xs) auto

lemma chain_ok_other:
  assumes "chain_ok v c ch"
    and "\<And>p. p \<in> set (mc_links ch) \<Longrightarrow> v_chain_of w p = v_chain_of v p \<and> (v_ref w p \<longrightarrow> v_ref v p)"
  shows "chain_ok w c ch"
proof -
  have "length (filter (v_ref w) (mc_links ch)) \<le> length (filter (v_ref v) (mc_links ch))"
    by (rule filter_length_mono) (use assms in auto)
  with assms show ?thesis
    by (auto simp: chain_ok_def)
qed

lemma chains_ok_unlink: "chains_ok v \<Longrightarrow> chains_ok (v_unlink p v)"
proof (cases "v_chain_of v p")
  case (Some c)
  assume ok: "chains_ok v"
  from ok Some obtain ch where ch: "v_chains v c = Some ch" "p \<in> set (mc_links ch)"
    by (rule chains_ok_member)
  let ?w = "v_unlink p v"
  have w: "v_chains ?w c' = (if c' = c then Some (chain_without p (v_ref v p) ch) else v_chains v c')"
    "v_chain_of ?w = (v_chain_of v)(p := None)" "v_ref ?w = v_ref v" for c'
    using Some ch by (simp_all add: v_unlink_def)
  note d = chains_okD [OF ok ch(1)]
  have "chain_ok ?w c (chain_without p (v_ref v p) ch)"
    using d ch(2) length_filter_removeAll [OF d(1) ch(2), of "v_ref v"]
      int_length_removeAll [OF d(1) ch(2)]
    by (auto simp: chain_ok_def chain_without_def w distinct_removeAll)
  moreover have "chain_ok ?w c' ch'" if "c' \<noteq> c" "v_chains v c' = Some ch'" for c' ch'
  proof (rule chain_ok_other)
    show "chain_ok v c' ch'" using ok that by (auto simp: chains_ok_def)
    fix q assume "q \<in> set (mc_links ch')"
    with chains_okD(3) [OF ok that(2)] that(1) Some have "q \<noteq> p" by auto
    then show "v_chain_of ?w q = v_chain_of v q \<and> (v_ref ?w q \<longrightarrow> v_ref v q)"
      by (simp add: w)
  qed
  moreover have "\<exists>ch'. v_chains ?w c' = Some ch' \<and> q \<in> set (mc_links ch')"
    if "v_chain_of ?w q = Some c'" for q c'
    using that chains_ok_ex [OF ok, of q c'] ch(1)
    by (auto simp: w chain_without_def split: if_splits)
  ultimately show ?thesis
    by (auto simp: chains_ok_def w)
qed (simp add: v_unlink_def)

lemma chains_ok_link:
  assumes ok: "chains_ok v" and p: "v_chain_of v p = None" and c: "v_chains v c = Some ch"
  shows "chains_ok (v_link c p v)"
proof -
  let ?w = "v_link c p v"
  have w: "v_chains ?w c' = (if c' = c then Some (chain_with p (v_ref v p) ch) else v_chains v c')"
    "v_chain_of ?w = (v_chain_of v)(p \<mapsto> c)" "v_ref ?w = v_ref v" for c'
    using c by (simp_all add: v_link_def)
  note d = chains_okD [OF ok c]
  have fresh: "p \<notin> set (mc_links ch')" if "v_chains v c' = Some ch'" for c' ch'
    using chains_okD(3) [OF ok that] p by auto
  have "chain_ok ?w c (chain_with p (v_ref v p) ch)"
    using d fresh [OF c] by (auto simp: chain_ok_def chain_with_def w)
  moreover have "chain_ok ?w c' ch'" if "c' \<noteq> c" "v_chains v c' = Some ch'" for c' ch'
  proof (rule chain_ok_other)
    show "chain_ok v c' ch'" using ok that by (auto simp: chains_ok_def)
  qed (use fresh [OF that(2)] in \<open>auto simp: w\<close>)
  moreover have "\<exists>ch'. v_chains ?w c' = Some ch' \<and> q \<in> set (mc_links ch')"
    if "v_chain_of ?w q = Some c'" for q c'
    using that chains_ok_ex [OF ok, of q c'] c
    by (auto simp: w chain_with_def split: if_splits)
  ultimately show ?thesis
    by (auto simp: chains_ok_def w)
qed

text \<open>A change of one chain that leaves its list alone.\<close>

lemma chains_ok_upd:
  assumes ok: "chains_ok v"
    and f: "\<And>ch. v_chains v c = Some ch \<Longrightarrow>
      mc_links (f ch) = mc_links ch \<and> mc_nr_links (f ch) = mc_nr_links ch
      \<and> set_option (mc_anchor (f ch)) \<subseteq> set (mc_links ch)
      \<and> set_option (mc_delegate (f ch)) \<subseteq> set (mc_links ch)
      \<and> mc_attributes (f ch) = mc_attributes ch
      \<and> int (length (filter (v_ref v) (mc_links ch))) \<le> mc_ref_counter (f ch)"
  shows "chains_ok (v_upd c f v)"
proof -
  have "chain_ok (v_upd c f v) c' ch'" if "v_chains (v_upd c f v) c' = Some ch'" for c' ch'
  proof (cases "c' = c")
    case True
    with that obtain ch where ch: "v_chains v c = Some ch" "ch' = f ch" by auto
    note d = chains_okD [OF ok ch(1)]
    from True d f [OF ch(1)] ch(2) show ?thesis
      by (simp add: chain_ok_def)
  next
    case False
    with that ok show ?thesis
      by (auto simp: chains_ok_def chain_ok_def)
  qed
  moreover have "\<exists>ch'. v_chains (v_upd c f v) c' = Some ch' \<and> q \<in> set (mc_links ch')"
    if q: "v_chain_of v q = Some c'" for q c'
  proof -
    from ok q obtain ch where ch: "v_chains v c' = Some ch" "q \<in> set (mc_links ch)"
      by (rule chains_ok_member)
    with f show ?thesis by (cases "c' = c") auto
  qed
  ultimately show ?thesis
    by (simp add: chains_ok_def)
qed

lemma chains_ok_anchor:
  "chains_ok v \<Longrightarrow> p \<in> set (links_of v c) \<Longrightarrow> chains_ok (v_anchor c p v)"
  unfolding v_anchor_def
  by (rule chains_ok_upd) (auto simp: links_of_def dest: chains_okD)

lemma chains_ok_touch: "chains_ok v \<Longrightarrow> chains_ok (v_touch p v)"
proof (cases "v_chain_of v p")
  case (Some c)
  assume ok: "chains_ok v"
  have "chains_ok (v_upd c (\<lambda>ch. ch\<lparr>mc_ref_counter := mc_nr_links ch, mc_delegate := Some p\<rparr>) v)"
  proof (rule chains_ok_upd [OF ok])
    fix ch assume ch: "v_chains v c = Some ch"
    note d = chains_okD [OF ok ch]
    from ok Some ch have "p \<in> set (mc_links ch)"
      by (auto elim!: chains_ok_member)
    with d show "mc_links (ch\<lparr>mc_ref_counter := mc_nr_links ch, mc_delegate := Some p\<rparr>) = mc_links ch
      \<and> mc_nr_links (ch\<lparr>mc_ref_counter := mc_nr_links ch, mc_delegate := Some p\<rparr>) = mc_nr_links ch
      \<and> set_option (mc_anchor (ch\<lparr>mc_ref_counter := mc_nr_links ch, mc_delegate := Some p\<rparr>)) \<subseteq> set (mc_links ch)
      \<and> set_option (mc_delegate (ch\<lparr>mc_ref_counter := mc_nr_links ch, mc_delegate := Some p\<rparr>)) \<subseteq> set (mc_links ch)
      \<and> mc_attributes (ch\<lparr>mc_ref_counter := mc_nr_links ch, mc_delegate := Some p\<rparr>) = mc_attributes ch
      \<and> int (length (filter (v_ref v) (mc_links ch)))
          \<le> mc_ref_counter (ch\<lparr>mc_ref_counter := mc_nr_links ch, mc_delegate := Some p\<rparr>)"
      by auto
  qed
  with Some show ?thesis by (simp add: v_touch_def)
qed (simp add: v_touch_def)

text \<open>The referenced bit of a page and the counter of its chain change together.\<close>

lemma count_ref_upd:
  assumes "distinct xs"
  shows "int (length (filter (r(p := b)) xs)) =
    int (length (filter r xs)) + (if p \<in> set xs then of_bool b - of_bool (r p) else 0)"
  using assms by (induction xs) auto

lemma chains_ok_ref:
  assumes ok: "chains_ok v" and d: "of_bool b - of_bool (v_ref v p) \<le> d"
  shows "chains_ok (v_bump p d (v_set_ref p b v))"
proof -
  let ?w = "v_bump p d (v_set_ref p b v)"
  have w: "v_chain_of ?w = v_chain_of v" "v_ref ?w = (v_ref v)(p := b)"
    by (simp_all add: v_bump_def v_set_ref_def split: option.split)
  have wc: "v_chains ?w c = (if v_chain_of v p = Some c
      then map_option (\<lambda>ch. ch\<lparr>mc_ref_counter := mc_ref_counter ch + d\<rparr>) (v_chains v c)
      else v_chains v c)" for c
    by (auto simp: v_bump_def v_set_ref_def v_upd_def split: option.splits)
  have "chain_ok ?w c ch'" if c: "v_chains ?w c = Some ch'" for c ch'
  proof (cases "v_chain_of v p = Some c")
    case True
    with c obtain ch where ch: "v_chains v c = Some ch"
      "ch' = ch\<lparr>mc_ref_counter := mc_ref_counter ch + d\<rparr>"
      by (auto simp: wc)
    note D = chains_okD [OF ok ch(1)]
    have "p \<in> set (mc_links ch)"
      using chains_ok_ex [OF ok True] ch(1) by simp
    then show ?thesis
      using D d ch(2) count_ref_upd [OF D(1), of "v_ref v" p b]
      by (auto simp: chain_ok_def w split: if_splits)
  next
    case False
    then have ch': "v_chains v c = Some ch'" using c by (simp add: wc)
    show ?thesis
    proof (rule chain_ok_other)
      show "chain_ok v c ch'" using ok ch' by (auto simp: chains_ok_def)
      fix q assume "q \<in> set (mc_links ch')"
      with chains_okD(3) [OF ok ch'] False have "q \<noteq> p" by auto
      then show "v_chain_of ?w q = v_chain_of v q \<and> (v_ref ?w q \<longrightarrow> v_ref v q)"
        by (simp add: w)
    qed
  qed
  moreover have "\<exists>ch'. v_chains ?w c = Some ch' \<and> q \<in> set (mc_links ch')"
    if q: "v_chain_of ?w q = Some c" for q c
    using chains_ok_ex [OF ok, of q c] q by (auto simp: wc w)
  ultimately show ?thesis
    by (simp add: chains_ok_def)
qed

lemma v_bump_0 [simp]: "v_bump p 0 v = v"
  by (auto simp: v_bump_def v_upd_def map_upd_triv split: option.split)

lemma chains_ok_drop_ref: "chains_ok v \<Longrightarrow> chains_ok (v_set_ref p False v)"
  using chains_ok_ref [of v False p 0] by simp

lemma chains_ok_clear: "chains_ok v \<Longrightarrow> chains_ok (v_clear r c v)"
proof -
  assume ok: "chains_ok v"
  let ?w = "v_clear r c v"
  have w: "v_chains ?w c' = (if c' = c then map_option chain_cleared (v_chains v c) else v_chains v c')"
    "v_chain_of ?w q = (if v_chain_of v q = Some c then None else v_chain_of v q)"
    "v_ref ?w q \<Longrightarrow> v_ref v q" for c' q
    using links_of_iff [OF ok] by (auto simp: v_clear_def split: if_splits)
  have "chain_ok ?w c' ch'" if c': "v_chains ?w c' = Some ch'" for c' ch'
  proof (cases "c' = c")
    case True
    with c' obtain ch where ch: "v_chains v c = Some ch" "ch' = chain_cleared ch"
      by (auto simp: w)
    with chains_okD [OF ok ch(1)] show ?thesis
      by (simp add: chain_ok_def chain_cleared_def)
  next
    case False
    then have ch': "v_chains v c' = Some ch'" using c' by (simp add: w)
    show ?thesis
    proof (rule chain_ok_other)
      show "chain_ok v c' ch'" using ok ch' by (auto simp: chains_ok_def)
      fix q assume "q \<in> set (mc_links ch')"
      with chains_okD(3) [OF ok ch'] False w(3) [of q]
      show "v_chain_of ?w q = v_chain_of v q \<and> (v_ref ?w q \<longrightarrow> v_ref v q)"
        by (simp add: w(2))
    qed
  qed
  moreover have "\<exists>ch'. v_chains ?w c' = Some ch' \<and> q \<in> set (mc_links ch')"
    if q: "v_chain_of ?w q = Some c'" for q c'
    using chains_ok_ex [OF ok, of q c'] q by (auto simp: w(1,2) split: if_splits)
  ultimately show ?thesis
    by (simp add: chains_ok_def)
qed

lemma chains_ok_free:
  assumes ok: "chains_ok v" and "links_of v c = []"
  shows "chains_ok (v_free c v)"
proof -
  have "v_chain_of v q \<noteq> Some c" for q
    using links_of_iff [OF ok, of q c] assms(2) by auto
  note out = this
  have "chain_ok (v_free c v) c' ch'" if "v_chains (v_free c v) c' = Some ch'" for c' ch'
    using that ok by (auto simp: v_free_def chains_ok_def chain_ok_def split: if_splits)
  moreover have "\<exists>ch'. v_chains (v_free c v) c' = Some ch' \<and> q \<in> set (mc_links ch')"
    if "v_chain_of (v_free c v) q = Some c'" for q c'
    using that chains_ok_ex [OF ok, of q c'] out [of q] by (auto simp: v_free_def)
  ultimately show ?thesis
    by (simp add: chains_ok_def)
qed

lemma chains_ok_new:
  assumes ok: "chains_ok v" and c: "v_chains v c = None"
  shows "chains_ok (v_new c i v)"
  using assms
  by (fastforce simp: chains_ok_def v_new_def chain_ok_def)

lemmas chains_ok_intros = chains_ok_unlink chains_ok_link chains_ok_anchor chains_ok_touch
  chains_ok_ref chains_ok_drop_ref chains_ok_clear chains_ok_free chains_ok_new

text \<open>The chains that exist, with their identifiers.\<close>

definition v_ids :: "chain_view \<Rightarrow> chain_ptr \<Rightarrow> nat option" where
  "v_ids v c = map_option mc_id (v_chains v c)"

lemma v_ids_upd: "(\<And>ch. mc_id (f ch) = mc_id ch) \<Longrightarrow> v_ids (v_upd c f v) = v_ids v"
  by (auto simp: v_ids_def fun_eq_iff map_option.compositionality comp_def)

lemma v_ids_ops [simp]:
  "v_ids (v_bump p d v) = v_ids v" "v_ids (v_set_ref p b v) = v_ids v" "v_ids (v_touch p v) = v_ids v"
  "v_ids (v_unlink p v) = v_ids v" "v_ids (v_link c p v) = v_ids v" "v_ids (v_anchor c p v) = v_ids v"
  "v_ids (v_clear b c v) = v_ids v"
  by (auto simp: v_ids_def fun_eq_iff v_unlink_def v_link_def v_anchor_def v_clear_def v_bump_def
      v_set_ref_def v_touch_def
      chain_without_def chain_with_def chain_cleared_def map_option.compositionality comp_def
      split: option.split)

section \<open>The routines refine the abstract operations\<close>

text \<open>
  What the modelled routines need of \<open>mlock_vma_page\<close> and \<open>munlock_vma_page\<close> (\<open>mm/mlock.c\<close>,
  outside the repository): if they return, they have not touched memory chains, referenced
  bits, collections or the locks held.
\<close>

definition chain_quiet :: "kstate \<Rightarrow> kstate \<Rightarrow> bool" where
  "chain_quiet s t \<longleftrightarrow> view t = view s \<and> k_mccs t = k_mccs s \<and> k_task_mcc t = k_task_mcc s
     \<and> k_held t = k_held s"

definition mlock_quiet :: "kenv \<Rightarrow> bool" where
  "mlock_quiet E \<longleftrightarrow>
     (\<forall>p s t. mlock_vma_page E p s = Some t \<longrightarrow> chain_quiet s t)
   \<and> (\<forall>p s t. munlock_vma_page E p s = Some t \<longrightarrow> chain_quiet s t)"

lemma chain_quiet_refl [simp]: "chain_quiet s s"
  by (simp add: chain_quiet_def)

lemma chain_quiet_trans: "chain_quiet s t \<Longrightarrow> chain_quiet t u \<Longrightarrow> chain_quiet s u"
  by (simp add: chain_quiet_def)

text \<open>What a chain routine leaves alone beside the view.\<close>

definition same_rest :: "kstate \<Rightarrow> kstate \<Rightarrow> bool" where
  "same_rest s t \<longleftrightarrow> k_mccs t = k_mccs s \<and> k_task_mcc t = k_task_mcc s \<and> k_held t = k_held s"

lemma same_rest_refl [simp]: "same_rest s s"
  by (simp add: same_rest_def)

lemma same_rest_trans: "same_rest s t \<Longrightarrow> same_rest t u \<Longrightarrow> same_rest s u"
  by (simp add: same_rest_def)

lemma view_sel [simp]:
  "v_chains (view s) = k_chains s" "v_chain_of (view s) p = pg_chain (page_at s p)"
  "v_ref (view s) p = k__PageReferenced p s"
  by (simp_all add: view_def)

lemma view_held [simp]: "view (s\<lparr>k_held := H\<rparr>) = view s"
  by (simp add: view_def)

lemma view_upd_zone [simp]: "view (upd_zone z f s) = view s"
  by (simp add: view_def)

lemma view_events [simp]: "view (count_vm_events E e n s) = view s"
  by (simp add: view_def)

lemma view_other_bits [simp]:
  "f \<noteq> PG_referenced \<Longrightarrow> view (set_bit_k f p s) = view s"
  "f \<noteq> PG_referenced \<Longrightarrow> view (clear_bit_k f p s) = view s"
  by (simp_all add: view_def)

lemma view_ref_bits [simp]:
  "view (k__SetPageReferenced p s) = v_set_ref p True (view s)"
  "view (k__ClearPageReferenced p s) = v_set_ref p False (view s)"
  by (auto simp: view_def v_set_ref_def fun_eq_iff)

lemma view_set_page_chain [simp]:
  "view (set_page_chain p c s) = (view s)\<lparr>v_chain_of := (v_chain_of (view s))(p := c)\<rparr>"
  by (auto simp: view_def set_page_chain_def page_at_upd_page test_bit_def fun_eq_iff)

lemma set_page_chain_sel [simp]:
  "k_chains (set_page_chain p c s) = k_chains s" "k_held (set_page_chain p c s) = k_held s"
  "k_mccs (set_page_chain p c s) = k_mccs s" "k_task_mcc (set_page_chain p c s) = k_task_mcc s"
  "chain_at (set_page_chain p c s) c' = chain_at s c'"
  "test_bit f q (set_page_chain p c s) = test_bit f q s"
  "pg_chain (page_at (set_page_chain p c s) q) = (if q = p then c else pg_chain (page_at s q))"
  by (simp_all add: set_page_chain_def page_at_upd_page test_bit_def)

lemma upd_chain_cases:
  assumes "upd_chain c f s = Some t"
  shows "k_chains s c \<noteq> None" "view t = v_upd c f (view s)" "same_rest s t"
    "k_pages t = k_pages s" "k_zones t = k_zones s"
    "chain_at t c' = (if c' = c then map_option f (chain_at s c) else chain_at s c')"
    "test_bit g p t = test_bit g p s" "page_at t p = page_at s p"
    "k_held t = k_held s"
  using assms
  by (auto simp: upd_chain_def v_upd_def view_def same_rest_def chain_at_def page_at_def
      test_bit_def split: option.splits)

lemma upd_chain_live: "k_chains s c = Some ch \<Longrightarrow> \<exists>t. upd_chain c f s = Some t"
  by (simp add: upd_chain_def)

lemma v_upd_v_upd [simp]: "v_upd c f (v_upd c g v) = v_upd c (f \<circ> g) v"
  by (auto simp: v_upd_def split: option.splits)

lemma v_upd_cong:
  "v_chains v c = Some ch \<Longrightarrow> f ch = g ch \<Longrightarrow> v_upd c f v = v_upd c g v"
  by (simp add: v_upd_def)

lemma v_upd_chain_of [simp]:
  "v_upd c f (v\<lparr>v_chain_of := m\<rparr>) = (v_upd c f v)\<lparr>v_chain_of := m\<rparr>"
  "v_upd c f (v\<lparr>v_ref := r\<rparr>) = (v_upd c f v)\<lparr>v_ref := r\<rparr>"
  by (auto simp: v_upd_def split: option.splits)

lemma unlink_page_refines:
  assumes "k__unlink_page E p s = Some t" and "mlock_quiet E"
  shows "view t = v_unlink p (view s) \<and> same_rest s t"
proof (cases "pg_chain (page_at s p)")
  case None
  with assms(1) show ?thesis
    by (simp add: k__unlink_page_def v_unlink_def)
next
  case (Some c)
  from assms(1) Some obtain ch s1 s2 s3 s4 s5 where
    1: "chain_at s c = Some ch" "p \<in> set (mc_links ch)"
      "upd_chain c (\<lambda>ch. ch\<lparr>mc_links := removeAll p (mc_links ch)\<rparr>) s = Some s1"
    and 2: "(if mc_anchor ch = Some p then Option.bind (munlock_vma_page E p s1)
        (upd_chain c (\<lambda>ch. ch\<lparr>mc_anchor := None\<rparr>)) else Some s1) = Some s2"
    and 3: "(if mc_delegate (the (chain_at s2 c)) = Some p
        then upd_chain c (\<lambda>ch. ch\<lparr>mc_delegate := None\<rparr>) s2 else Some s2) = Some s3"
    and 4: "upd_chain c (\<lambda>ch. ch\<lparr>mc_nr_links := mc_nr_links ch - 1\<rparr>) s3 = Some s4"
    and 5: "(if k__PageReferenced p s4 then add_ref c (- 1) s4 else Some s4) = Some s5"
    and 6: "k__reset_page p False s5 = Some t"
    by (auto simp: k__unlink_page_def link_list_del_def upd_chain_cases(6)
        split: Option.bind_splits if_splits)
  have v1: "view s1 = v_upd c (\<lambda>ch. ch\<lparr>mc_links := removeAll p (mc_links ch)\<rparr>) (view s)"
    "same_rest s s1"
    using upd_chain_cases(2,3) [OF 1(3)] by simp_all
  have v2: "view s2 = v_upd c (\<lambda>ch. ch\<lparr>mc_links := removeAll p (mc_links ch),
      mc_anchor := (if mc_anchor ch = Some p then None else mc_anchor ch)\<rparr>) (view s)
      \<and> same_rest s s2"
  proof (cases "mc_anchor ch = Some p")
    case True
    with 2 obtain u where u: "munlock_vma_page E p s1 = Some u"
      "upd_chain c (\<lambda>ch. ch\<lparr>mc_anchor := None\<rparr>) u = Some s2"
      by (auto split: Option.bind_splits)
    from u(1) assms(2) have "view u = view s1" "same_rest s1 u"
      by (auto simp: mlock_quiet_def chain_quiet_def same_rest_def)
    with v1 upd_chain_cases(2,3) [OF u(2)] 1(1) True show ?thesis
      by (auto simp: chain_at_def same_rest_def intro!: v_upd_cong)
  next
    case False
    with 2 v1 1(1) show ?thesis
      by (auto simp: chain_at_def intro!: v_upd_cong)
  qed
  let ?f = "\<lambda>ch. ch\<lparr>mc_links := removeAll p (mc_links ch),
      mc_anchor := (if mc_anchor ch = Some p then None else mc_anchor ch)\<rparr>"
  have "chain_at s2 c = v_chains (view s2) c"
    by (simp add: chain_at_def)
  also have "\<dots> = Some (?f ch)"
    using v2 1(1) by (simp add: chain_at_def)
  finally have ch2: "chain_at s2 c = Some (?f ch)" .
  have v3: "view s3 = v_upd c (\<lambda>ch. (?f ch)
      \<lparr>mc_delegate := (if mc_delegate ch = Some p then None else mc_delegate ch)\<rparr>) (view s)
      \<and> same_rest s s3"
  proof (cases "mc_delegate ch = Some p")
    case True
    with 3 ch2 have "upd_chain c (\<lambda>ch. ch\<lparr>mc_delegate := None\<rparr>) s2 = Some s3"
      by simp
    from upd_chain_cases(2,3) [OF this] v2 1(1) True show ?thesis
      by (auto simp: chain_at_def same_rest_def intro!: v_upd_cong)
  next
    case False
    with 3 ch2 v2 1(1) show ?thesis
      by (auto simp: chain_at_def intro!: v_upd_cong)
  qed
  have ref: "k__PageReferenced p s4 = v_ref (view s) p"
    using upd_chain_cases(2) [OF 4] v3 by (simp flip: view_sel(3))
  have v5: "view s5 = v_upd c (chain_without p (v_ref (view s) p)) (view s) \<and> same_rest s s5"
  proof (cases "v_ref (view s) p")
    case True
    with 5 ref have "add_ref c (- 1) s4 = Some s5" by simp
    from upd_chain_cases(2,3) [OF this [unfolded add_ref_def]] upd_chain_cases(2,3) [OF 4] v3 1(1) True
    show ?thesis
      by (auto simp: chain_at_def same_rest_def chain_without_def intro!: v_upd_cong)
  next
    case False
    with 5 ref upd_chain_cases(2,3) [OF 4] v3 1(1) show ?thesis
      by (auto simp: chain_at_def same_rest_def chain_without_def intro!: v_upd_cong)
  qed
  from 6 have t: "t = set_page_chain p None s5"
    by (simp add: k__reset_page_def)
  show ?thesis
    using v5 Some by (simp add: t v_unlink_def same_rest_def)
qed

lemma link_page_foreign:
  assumes "pg_chain (page_at s p) = Some d" and "d \<noteq> c"
  shows "k__link_page E c p s = None"
proof -
  have unlinked: "pg_chain (page_at t p) = None" if "k__unlink_page E p u = Some t" for t u
    using that
    by (auto simp: k__unlink_page_def k__reset_page_def
        split: option.splits Option.bind_splits if_splits)
  show ?thesis
    using assms
    by (auto simp: k__link_page_def spin_unlock_chain_def unlinked
        split: Option.bind_splits)
qed

text \<open>
  C9. Linking a page that is on another chain never returns: \<open>__unlink_page\<close> resets the page's
  chain pointer, and the \<open>spin_unlock(&pg->chain->lock)\<close> that follows it in \<open>__link_page\<close>
  dereferences that NULL pointer. So a page can only be moved to another chain after it was
  unlinked by other means.
\<close>

theorem link_page_of_other_chain_fails:
  assumes "pg_chain (page_at s p) = Some d" and "d \<noteq> c"
  shows "k__link_page E c p s = None"
  using assms by (rule link_page_foreign)

lemma link_page_cases:
  assumes "k__link_page E c p s = Some (r, t)" and "chains_ok (view s)"
  shows "r = None \<and> same_rest s t \<and> (pg_chain (page_at s p) = Some c \<and> t = s
    \<or> pg_chain (page_at s p) = None \<and> k_chains s c \<noteq> None \<and> view t = v_link c p (view s))"
proof (cases "pg_chain (page_at s p)")
  case (Some d)
  with assms(1) link_page_foreign [OF Some, of c E] show ?thesis
    by (cases "d = c") (auto simp: k__link_page_def)
next
  case None
  from assms(1) None obtain ch where ch: "chain_at s c = Some ch"
    by (auto simp: k__link_page_def split: Option.bind_splits)
  with assms(2) have att: "mc_attributes ch = None"
    by (auto simp: chain_at_def intro: chains_okD(7) [of "view s" c])
  let ?s0 = "set_page_chain p (Some c) s"
  from assms(1) None ch att obtain s1 s2 where
    1: "upd_chain c (\<lambda>ch. ch\<lparr>mc_links := p # mc_links ch\<rparr>) ?s0 = Some s1"
    and 2: "upd_chain c (\<lambda>ch. ch\<lparr>mc_nr_links := mc_nr_links ch + 1\<rparr>) s1 = Some s2"
    and 3: "(if k__PageReferenced p s2 then add_ref c 1 s2 else Some s2) = Some t"
    and r: "r = None"
    by (auto simp: k__link_page_def MEMORY_CHAIN_IS_FULL_def link_list_add_def Let_def
        split: Option.bind_splits)
  have ref: "k__PageReferenced p s2 = k__PageReferenced p s"
    using upd_chain_cases(7) [OF 1] upd_chain_cases(7) [OF 2] by simp
  have v2: "view s2 = v_upd c (\<lambda>ch. ch\<lparr>mc_links := p # mc_links ch,
      mc_nr_links := mc_nr_links ch + 1\<rparr>) (view ?s0) \<and> same_rest ?s0 s2"
    using upd_chain_cases(2,3) [OF 1] upd_chain_cases(2,3) [OF 2]
    by (simp add: same_rest_def comp_def)
  have "view t = v_upd c (chain_with p (k__PageReferenced p s)) (view ?s0) \<and> same_rest ?s0 t"
  proof (cases "k__PageReferenced p s")
    case True
    with 3 ref have "add_ref c 1 s2 = Some t" by simp
    from upd_chain_cases(2,3) [OF this [unfolded add_ref_def]] v2 True show ?thesis
      by (simp add: same_rest_def chain_with_def [abs_def] comp_def)
  next
    case False
    with 3 ref v2 show ?thesis
      by (simp add: same_rest_def chain_with_def [abs_def])
  qed
  then show ?thesis
    using None ch r by (simp add: v_link_def same_rest_def chain_at_def fun_upd_def)
qed

lemma link_page_total:
  assumes "pg_chain (page_at s p) \<in> {None, Some c}" and "k_chains s c \<noteq> None"
    and "chains_ok (view s)"
  shows "\<exists>t. k__link_page E c p s = Some (None, t)"
proof (cases "pg_chain (page_at s p)")
  case None
  obtain ch where ch: "k_chains s c = Some ch" using assms(2) by auto
  with assms(3) have "mc_attributes ch = None"
    by (auto intro: chains_okD(7) [of "view s" c])
  with None ch show ?thesis
    by (simp add: k__link_page_def MEMORY_CHAIN_IS_FULL_def link_list_add_def upd_chain_def
        add_ref_def chain_at_def Let_def)
qed (use assms in \<open>simp add: k__link_page_def\<close>)

subsection \<open>Tearing a chain down\<close>

text \<open>The chain and the pages after the pages \<open>xs\<close> of the list have been taken off.\<close>

definition v_off :: "bool \<Rightarrow> chain_ptr \<Rightarrow> page_ptr list \<Rightarrow> chain_view \<Rightarrow> chain_view \<Rightarrow> bool" where
  "v_off refs c xs v w \<longleftrightarrow>
     (\<forall>c'. c' \<noteq> c \<longrightarrow> v_chains w c' = v_chains v c')
   \<and> (\<forall>ch. v_chains v c = Some ch \<longrightarrow> (\<exists>r. v_chains w c = Some (ch
        \<lparr>mc_links := filter (\<lambda>p. p \<notin> set xs) (mc_links ch), mc_ref_counter := r\<rparr>)))
   \<and> (\<forall>p. v_chain_of w p = (if p \<in> set xs then None else v_chain_of v p))
   \<and> (\<forall>p. v_ref w p = (if refs \<and> p \<in> set xs then False else v_ref v p))"

lemma ref_counter_upd_ex [simp]:
  "\<exists>r. ch\<lparr>mc_links := xs, mc_ref_counter := a\<rparr> = ch\<lparr>mc_links := xs, mc_ref_counter := r\<rparr>"
  "\<exists>r. ch = ch\<lparr>mc_ref_counter := r\<rparr>"
  by blast (rule exI [where x = "mc_ref_counter ch"], simp)

lemma removeAll_filter: "removeAll x (filter P xs) = filter (\<lambda>y. P y \<and> y \<noteq> x) xs"
  by (induction xs) auto

lemma v_off_step:
  assumes "v_off refs c xs v w"
    and "w' = (v_upd c (\<lambda>ch. ch\<lparr>mc_links := removeAll x (mc_links ch),
        mc_ref_counter := mc_ref_counter ch + d\<rparr>) w)
      \<lparr>v_chain_of := (v_chain_of w)(x := None), v_ref := (if refs then (v_ref w)(x := False) else v_ref w)\<rparr>"
  shows "v_off refs c (x # xs) v w'"
  using assms by (auto simp: v_off_def removeAll_filter conj_commute)

lemma v_off_all:
  assumes "v_off refs c xs v w" and "v_chains v c = Some ch" and "set xs = set (mc_links ch)"
  shows "v_upd c chain_cleared w = v_clear refs c v"
proof -
  from assms obtain r where "v_chains w c = Some (ch\<lparr>mc_links := [], mc_ref_counter := r\<rparr>)"
    by (auto simp: v_off_def)
  moreover have "v_chains w c' = v_chains v c'" if "c' \<noteq> c" for c'
    using assms that by (auto simp: v_off_def)
  ultimately show ?thesis
    using assms
    by (auto simp: v_off_def v_clear_def links_of_def v_upd_def chain_cleared_def fun_eq_iff)
qed

lemma link_list_del_cases:
  assumes "link_list_del c p s = Some t"
  shows "view t = v_upd c (\<lambda>ch. ch\<lparr>mc_links := removeAll p (mc_links ch)\<rparr>) (view s)"
    "same_rest s t"
  using assms upd_chain_cases(2,3)
  by (auto simp: link_list_del_def split: Option.bind_splits if_splits)

lemma reset_page_cases:
  assumes "k__reset_page p True s = Some t" and "pg_chain (page_at s p) = Some c"
  shows "view t = (v_upd c (\<lambda>ch. ch\<lparr>mc_ref_counter := mc_ref_counter ch - of_bool (k__PageReferenced p s)\<rparr>)
      (view s))\<lparr>v_chain_of := (v_chain_of (view s))(p := None), v_ref := (v_ref (view s))(p := False)\<rparr>
    \<and> same_rest s t"
proof (cases "k__PageReferenced p s")
  case True
  with assms have "add_ref c (- 1) (k__ClearPageReferenced p (set_page_chain p None s)) = Some t"
    by (simp add: k__reset_page_def Let_def)
  from upd_chain_cases(2,3) [OF this [unfolded add_ref_def]] True show ?thesis
    by (simp add: v_set_ref_def same_rest_def)
next
  case False
  with assms have "t = set_page_chain p None s"
    by (simp add: k__reset_page_def)
  moreover have "v_upd c (\<lambda>ch. ch) v = v" for v
    by (simp add: v_upd_def map_upd_triv split: option.split)
  ultimately show ?thesis
    using False by (auto simp: same_rest_def fun_eq_iff)
qed

lemma unlink_body_cases:
  assumes "unlink_chain_body c p s = Some t" and "v_off True c xs v (view s)"
    and "pg_chain (page_at s p) = Some c"
  shows "v_off True c (p # xs) v (view t) \<and> same_rest s t"
proof -
  let ?s0 = "s\<lparr>k_held := insert (LinkLock p) (k_held s)\<rparr>"
  from assms(1) obtain s1 s2 where free: "LinkLock p \<notin> k_held s"
    and 1: "link_list_del c p ?s0 = Some s1" and 2: "k__reset_page p True s1 = Some s2"
    and 3: "spin_unlock (LinkLock p) s2 = Some t"
    by (auto simp: unlink_chain_body_def split: Option.bind_splits)
  note v1 = link_list_del_cases [OF 1]
  have "pg_chain (page_at s1 p) = Some c" "k__PageReferenced p s1 = k__PageReferenced p s"
    using v1(1) assms(3) by (simp_all flip: view_sel(2,3))
  note v2 = reset_page_cases [OF 2 this(1)]
  have v: "view t = (v_upd c (\<lambda>ch. ch\<lparr>mc_links := removeAll p (mc_links ch),
        mc_ref_counter := mc_ref_counter ch + (- of_bool (k__PageReferenced p s1))\<rparr>) (view s))
      \<lparr>v_chain_of := (v_chain_of (view s))(p := None),
        v_ref := (if True then (v_ref (view s))(p := False) else v_ref (view s))\<rparr>"
    using v1(1) v2 3 by (simp add: comp_def)
  have "same_rest s t"
    using v1(2) v2 3 free by (auto simp: same_rest_def)
  with v_off_step [OF assms(2) v] show ?thesis
    by simp
qed

lemma fast_body_cases:
  assumes "unlink_fast_body c p s = Some t" and "v_off False c xs v (view s)"
  shows "v_off False c (p # xs) v (view t) \<and> same_rest s t"
proof -
  let ?s0 = "set_page_chain p None (s\<lparr>k_held := insert (LinkLock p) (k_held s)\<rparr>)"
  from assms(1) obtain s1 where free: "LinkLock p \<notin> k_held s"
    and 1: "link_list_del c p ?s0 = Some s1" and 3: "spin_unlock (LinkLock p) s1 = Some t"
    by (auto simp: unlink_fast_body_def split: Option.bind_splits)
  note v1 = link_list_del_cases [OF 1]
  have v: "view t = (v_upd c (\<lambda>ch. ch\<lparr>mc_links := removeAll p (mc_links ch),
        mc_ref_counter := mc_ref_counter ch + 0\<rparr>) (view s))
      \<lparr>v_chain_of := (v_chain_of (view s))(p := None), v_ref := v_ref (view s)\<rparr>"
    using v1(1) 3 by (auto simp: comp_def fun_eq_iff)
  have "same_rest s t"
    using v1(2) 3 free by (auto simp: same_rest_def)
  with v_off_step [OF assms(2), of "view t" p 0] v show ?thesis
    by simp
qed

text \<open>The loop, for a body that takes one page off; both teardown routines are instances.\<close>

lemma unlink_loop:
  assumes "forK body xs s = Some t" and "v_off refs c ys v (view s)" and "distinct xs"
    and "set xs \<inter> set ys = {}" and "\<And>p. p \<in> set xs \<Longrightarrow> v_chain_of v p = Some c"
    and body: "\<And>p ys s t. body p s = Some t \<Longrightarrow> v_off refs c ys v (view s) \<Longrightarrow>
      pg_chain (page_at s p) = Some c \<Longrightarrow> v_off refs c (p # ys) v (view t) \<and> same_rest s t"
  shows "v_off refs c (rev xs @ ys) v (view t) \<and> same_rest s t"
  using assms(1-5)
proof (induction xs arbitrary: s ys)
  case (Cons p xs)
  from Cons.prems(1) obtain u where u: "body p s = Some u" "forK body xs u = Some t"
    by (auto split: Option.bind_splits)
  have "pg_chain (page_at s p) = Some c"
    using Cons.prems(2,4,5) by (auto simp: v_off_def simp flip: view_sel(2))
  with body [OF u(1) Cons.prems(2)] have 1: "v_off refs c (p # ys) v (view u)" "same_rest s u"
    by auto
  have "v_off refs c (rev xs @ p # ys) v (view t) \<and> same_rest u t"
    by (rule Cons.IH [OF u(2) 1(1)]) (use Cons.prems in auto)
  with 1(2) show ?case
    by (auto intro: same_rest_trans)
qed simp

lemma v_off_Nil [simp]: "v_off refs c [] v v"
  by (simp add: v_off_def)

lemma unlink_chain_refines:
  assumes "k__unlink_chain E c s = Some t" and "chains_ok (view s)" and "mlock_quiet E"
  shows "view t = v_clear True c (view s) \<and> same_rest s t"
proof -
  from assms(1) obtain ch s1 ch1 s2 where ch: "chain_at s c = Some ch"
    and 1: "forK (unlink_chain_body c) (mc_links ch) s = Some s1"
    and ch1: "chain_at s1 c = Some ch1"
    and 2: "(case mc_anchor ch1 of Some a \<Rightarrow> munlock_vma_page E a s1 | None \<Rightarrow> Some s1) = Some s2"
    and 3: "upd_chain c (\<lambda>ch. ch\<lparr>mc_links := [], mc_anchor := None, mc_delegate := None,
        mc_nr_links := 0, mc_ref_counter := 0\<rparr>) s2 = Some t"
    by (auto simp: k__unlink_chain_def split: Option.bind_splits)
  have vch: "v_chains (view s) c = Some ch"
    using ch by (simp add: chain_at_def)
  note d = chains_okD [OF assms(2) vch]
  have off: "v_off True c (rev (mc_links ch) @ []) (view s) (view s1) \<and> same_rest s s1"
    by (rule unlink_loop [OF 1]) (use d unlink_body_cases in auto)
  have "chain_quiet s1 s2"
    using 2 assms(3) by (auto simp: mlock_quiet_def split: option.splits)
  then have "view t = v_upd c chain_cleared (view s1)" "same_rest s t"
    using upd_chain_cases(2,3) [OF 3] off
    by (auto simp: chain_quiet_def same_rest_def chain_cleared_def [abs_def])
  with off v_off_all [OF conjunct1 [OF off] vch] show ?thesis
    by simp
qed

lemma unlink_chain_fast_refines:
  assumes "unlink_chain_fast c s = Some t" and "chains_ok (view s)"
  shows "v_free c (view t) = v_free c (v_clear False c (view s)) \<and> same_rest s t"
proof -
  let ?s0 = "s\<lparr>k_held := insert (ChainLock c) (k_held s)\<rparr>"
  from assms(1) obtain ch s1 where ch: "chain_at s c = Some ch" and free: "ChainLock c \<notin> k_held s"
    and 1: "forK (unlink_fast_body c) (mc_links ch) ?s0 = Some s1"
    and 3: "spin_unlock (ChainLock c) s1 = Some t"
    by (auto simp: unlink_chain_fast_def spin_lock_chain_def spin_unlock_chain_def
        split: Option.bind_splits if_splits)
  have vch: "v_chains (view s) c = Some ch"
    using ch by (simp add: chain_at_def)
  note d = chains_okD [OF assms(2) vch]
  have off: "v_off False c (rev (mc_links ch) @ []) (view s) (view s1) \<and> same_rest ?s0 s1"
    by (rule unlink_loop [OF 1]) (use d fast_body_cases in auto)
  have "v_free c (v_upd c chain_cleared (view s1)) = v_free c (view s1)"
    by (auto simp: v_free_def v_upd_def split: option.split)
  moreover have "view t = view s1"
    using 3 by auto
  moreover have "same_rest s t"
    using off 3 free by (auto simp: same_rest_def)
  ultimately show ?thesis
    using v_off_all [OF conjunct1 [OF off] vch] by simp
qed

text \<open>The teardown loops finish when no link lock of a page of the chain is held.\<close>

definition chain_unlocked :: "chain_ptr \<Rightarrow> kstate \<Rightarrow> bool" where
  "chain_unlocked c s \<longleftrightarrow> (\<forall>p \<in> set (links_of (view s) c). LinkLock p \<notin> k_held s)"

lemma link_list_del_live:
  "chain_at s c = Some ch \<Longrightarrow> p \<in> set (mc_links ch) \<Longrightarrow> \<exists>t. link_list_del c p s = Some t"
  by (simp add: link_list_del_def upd_chain_def chain_at_def)

lemma unlink_body_live:
  assumes "chain_at s c = Some ch" and "p \<in> set (mc_links ch)" and "LinkLock p \<notin> k_held s"
    and "pg_chain (page_at s p) = Some c"
  shows "\<exists>t. unlink_chain_body c p s = Some t"
proof -
  let ?s0 = "s\<lparr>k_held := insert (LinkLock p) (k_held s)\<rparr>"
  obtain s1 where 1: "link_list_del c p ?s0 = Some s1"
    using link_list_del_live [of ?s0 c ch p] assms(1,2) by auto
  note v = link_list_del_cases [OF 1]
  have "k_chains s1 c \<noteq> None" "pg_chain (page_at s1 p) = Some c"
    using v(1) assms(1,4) by (simp_all add: chain_at_def flip: view_sel(1,2))
  then obtain s2 where 2: "k__reset_page p True s1 = Some s2"
    by (cases "k__PageReferenced p s1")
      (auto simp: k__reset_page_def add_ref_def upd_chain_def Let_def)
  have "LinkLock p \<in> k_held s2"
    using v(2) reset_page_cases [OF 2 \<open>pg_chain (page_at s1 p) = Some c\<close>]
    by (simp add: same_rest_def)
  with 1 2 assms(3) show ?thesis
    by (simp add: unlink_chain_body_def)
qed

lemma fast_body_live:
  assumes "chain_at s c = Some ch" and "p \<in> set (mc_links ch)" and "LinkLock p \<notin> k_held s"
  shows "\<exists>t. unlink_fast_body c p s = Some t"
proof -
  let ?s0 = "set_page_chain p None (s\<lparr>k_held := insert (LinkLock p) (k_held s)\<rparr>)"
  obtain s1 where 1: "link_list_del c p ?s0 = Some s1"
    using link_list_del_live [of ?s0 c ch p] assms(1,2) by auto
  with link_list_del_cases(2) [OF 1] assms(3) show ?thesis
    by (simp add: unlink_fast_body_def same_rest_def)
qed

lemma unlink_loop_live:
  assumes "v_off refs c ys v (view s)" and "distinct xs" and "set xs \<inter> set ys = {}"
    and ch: "v_chains v c = Some ch" and "set xs \<subseteq> set (mc_links ch)"
    and "\<And>p. p \<in> set xs \<Longrightarrow> v_chain_of v p = Some c \<and> LinkLock p \<notin> k_held s"
    and body: "\<And>p ys s t. body p s = Some t \<Longrightarrow> v_off refs c ys v (view s) \<Longrightarrow>
      pg_chain (page_at s p) = Some c \<Longrightarrow> v_off refs c (p # ys) v (view t) \<and> same_rest s t"
    and live: "\<And>p s ch. chain_at s c = Some ch \<Longrightarrow> p \<in> set (mc_links ch) \<Longrightarrow>
      LinkLock p \<notin> k_held s \<Longrightarrow> pg_chain (page_at s p) = Some c \<Longrightarrow> \<exists>t. body p s = Some t"
  shows "\<exists>t. forK body xs s = Some t"
  using assms(1-3,5,6)
proof (induction xs arbitrary: s ys)
  case (Cons p xs)
  from Cons.prems(1) ch obtain r where r: "chain_at s c = Some (ch
      \<lparr>mc_links := filter (\<lambda>p. p \<notin> set ys) (mc_links ch), mc_ref_counter := r\<rparr>)"
    by (auto simp: v_off_def chain_at_def)
  have pc: "pg_chain (page_at s p) = Some c"
    using Cons.prems(1,3,5) by (auto simp: v_off_def simp flip: view_sel(2))
  have "p \<in> set (filter (\<lambda>p. p \<notin> set ys) (mc_links ch))" "LinkLock p \<notin> k_held s"
    using Cons.prems(3-5) by auto
  with live [OF r _ _ pc] obtain u where u: "body p s = Some u"
    by auto
  from body [OF u Cons.prems(1) pc] have "v_off refs c (p # ys) v (view u)" "same_rest s u"
    by auto
  with Cons.prems have "\<exists>t. forK body xs u = Some t"
    by (intro Cons.IH [of "p # ys"]) (auto simp: same_rest_def)
  with u show ?case by simp
qed simp

lemma unlink_chain_total:
  assumes ok: "chains_ok (view s)" and ch: "k_chains s c = Some ch" and "chain_unlocked c s"
    and "mlock_quiet E"
    and mu: "\<And>a u. mc_anchor ch = Some a \<Longrightarrow> same_rest s u \<Longrightarrow> \<exists>t. munlock_vma_page E a u = Some t"
  shows "\<exists>t. k__unlink_chain E c s = Some t"
proof -
  have vch: "v_chains (view s) c = Some ch"
    using ch by simp
  note d = chains_okD [OF ok vch]
  have free: "LinkLock p \<notin> k_held s" if "p \<in> set (mc_links ch)" for p
    using assms(3) that ch by (simp add: chain_unlocked_def links_of_def)
  have "\<exists>t. forK (unlink_chain_body c) (mc_links ch) s = Some t"
    by (rule unlink_loop_live [OF v_off_Nil d(1) _ vch _ _ unlink_body_cases unlink_body_live])
      (use d free in auto)
  then obtain s1 where 1: "forK (unlink_chain_body c) (mc_links ch) s = Some s1"
    by blast
  have off: "v_off True c (rev (mc_links ch) @ []) (view s) (view s1) \<and> same_rest s s1"
    by (rule unlink_loop [OF 1]) (use d unlink_body_cases in auto)
  then obtain ch1 where ch1: "chain_at s1 c = Some ch1" "mc_anchor ch1 = mc_anchor ch"
    using vch by (auto simp: v_off_def chain_at_def)
  obtain s2 where 2: "(case mc_anchor ch1 of Some a \<Rightarrow> munlock_vma_page E a s1 | None \<Rightarrow> Some s1) = Some s2"
    using mu [of _ s1] off ch1(2) by (cases "mc_anchor ch") auto
  have "chain_quiet s1 s2"
    using 2 assms(4) by (auto simp: mlock_quiet_def split: option.splits)
  then have "k_chains s2 c = Some ch1"
    using ch1(1) by (simp add: chain_quiet_def chain_at_def flip: view_sel(1))
  with 1 2 ch ch1(1) show ?thesis
    by (simp add: k__unlink_chain_def chain_at_def upd_chain_def)
qed

lemma unlink_chain_fast_total:
  assumes ok: "chains_ok (view s)" and ch: "k_chains s c = Some ch" and "chain_unlocked c s"
    and "ChainLock c \<notin> k_held s"
  shows "\<exists>t. unlink_chain_fast c s = Some t"
proof -
  let ?s0 = "s\<lparr>k_held := insert (ChainLock c) (k_held s)\<rparr>"
  have vch: "v_chains (view ?s0) c = Some ch"
    using ch by simp
  note d = chains_okD [OF ok, of c ch]
  have free: "LinkLock p \<notin> k_held ?s0" if "p \<in> set (mc_links ch)" for p
    using assms(3) that ch by (simp add: chain_unlocked_def links_of_def)
  have "\<exists>t. forK (unlink_fast_body c) (mc_links ch) ?s0 = Some t"
  proof (rule unlink_loop_live [where refs = False and ys = "[]" and c = c, OF v_off_Nil _ _ vch])
    show "v_off False c (p # ys) (view ?s0) (view t) \<and> same_rest s t"
      if "unlink_fast_body c p s = Some t" "v_off False c ys (view ?s0) (view s)" for p ys s t
      using fast_body_cases [OF that] .
    show "\<exists>t. unlink_fast_body c p s = Some t"
      if "chain_at s c = Some ch" "p \<in> set (mc_links ch)" "LinkLock p \<notin> k_held s" for p s ch
      using fast_body_live [OF that] .
  qed (use d ch free in auto)
  then obtain s1 where 1: "forK (unlink_fast_body c) (mc_links ch) ?s0 = Some s1"
    by blast
  have off: "v_off False c (rev (mc_links ch) @ []) (view s) (view s1) \<and> same_rest ?s0 s1"
    by (rule unlink_loop [OF 1]) (use d ch fast_body_cases in auto)
  then have "chain_at s1 c \<noteq> None" "ChainLock c \<in> k_held s1"
    using ch by (auto simp: v_off_def chain_at_def same_rest_def)
  with 1 ch assms(4) show ?thesis
    by (simp add: unlink_chain_fast_def spin_lock_chain_def spin_unlock_chain_def chain_at_def)
qed

section \<open>The first free slot\<close>

primrec first_free :: "'a option list \<Rightarrow> nat \<Rightarrow> int" where
  "first_free [] n = - 1"
| "first_free (x # xs) n = (if x = None then int n else first_free xs (Suc n))"

lemma first_free_cases:
  "(first_free xs n = - 1 \<and> None \<notin> set xs) \<or>
   (\<exists>i < length xs. first_free xs n = int (n + i) \<and> xs ! i = None \<and> (\<forall>j < i. xs ! j \<noteq> None))"
proof (induction xs arbitrary: n)
  case (Cons x xs)
  show ?case
  proof (cases "x = None")
    case False
    from Cons.IH [of "Suc n"] show ?thesis
    proof (elim disjE exE conjE)
      fix i assume i: "i < length xs" "first_free xs (Suc n) = int (Suc n + i)" "xs ! i = None"
        "\<forall>j < i. xs ! j \<noteq> None"
      then have "\<forall>j < Suc i. (x # xs) ! j \<noteq> None"
        using False by (auto simp: less_Suc_eq_0_disj)
      with i False show ?thesis
        by (intro disjI2 exI [of _ "Suc i"]) auto
    qed (use False in auto)
  qed auto
qed simp

lemma five_more:
  assumes "5 dvd length xs" and "xs \<noteq> []"
  obtains a b c d e ys where "xs = a # b # c # d # e # ys" "5 dvd length ys"
proof -
  from assms have "5 \<le> length xs"
    by (auto intro: dvd_imp_le)
  then obtain a b c d e ys where "xs = a # b # c # d # e # ys"
    by (auto simp: numeral_eq_Suc Suc_le_length_iff)
  moreover from this assms(1) have "5 dvd length ys"
    by simp presburger
  ultimately show ?thesis
    by (rule that)
qed

lemma find_free_slot_from_eq:
  "5 dvd length xs \<Longrightarrow> find_free_slot_from (pre @ xs) (length (pre @ xs)) (length pre) =
     Some (first_free xs (length pre))"
proof (induction xs arbitrary: pre rule: length_induct)
  case (1 xs)
  show ?case
  proof (cases "xs = []")
    case False
    with "1.prems" obtain a b c d e ys where xs: "xs = a # b # c # d # e # ys" "5 dvd length ys"
      by (rule five_more)
    have "find_free_slot_from ((pre @ [a, b, c, d, e]) @ ys)
        (length ((pre @ [a, b, c, d, e]) @ ys)) (length (pre @ [a, b, c, d, e])) =
      Some (first_free ys (length (pre @ [a, b, c, d, e])))"
      using "1.IH" [rule_format, of ys "pre @ [a, b, c, d, e]"] xs by simp
    then show ?thesis
      by (subst find_free_slot_from.simps)
        (simp add: xs(1) array_read_def nth_append Let_def eval_nat_numeral)
  qed (simp add: find_free_slot_from.simps)
qed

text \<open>
  On a slot array whose length is a multiple of five (the constraint stated above
  \<open>__find_free_slot\<close>, met by the 255 slots of a collection) the unrolled search reads inside
  the array and returns the first free slot, and -1 exactly when there is none.
\<close>

theorem find_free_slot_first:
  assumes "5 dvd length array"
  shows "\<exists>r. k__find_free_slot array (length array) = Some r
    \<and> (r = - 1 \<and> None \<notin> set array
      \<or> (\<exists>i < length array. r = int i \<and> array ! i = None \<and> (\<forall>j < i. array ! j \<noteq> None)))"
  using find_free_slot_from_eq [of array "[]"] first_free_cases [of array 0] assms
  by (simp add: k__find_free_slot_def)

theorem find_free_slot_first_witness:
  "\<exists>r. k__find_free_slot [Some 3, None, Some 4, None, Some 5] 5 = Some r
    \<and> (r = - 1 \<and> None \<notin> set [Some (3 :: nat), None, Some 4, None, Some 5]
      \<or> (\<exists>i < 5. r = int i \<and> [Some (3 :: nat), None, Some 4, None, Some 5] ! i = None
          \<and> (\<forall>j < i. [Some (3 :: nat), None, Some 4, None, Some 5] ! j \<noteq> None)))"
  using find_free_slot_first [of "[Some 3, None, Some 4, None, Some 5]"]
  by (simp add: numeral_eq_Suc)

section \<open>The contract of an owner map\<close>

text \<open>
  What the users of the memory chains rely on: at most one owner for each page, changed by
  linking and unlinking that page only. \<open>join\<close> is \<open>__link_page\<close> seen from outside.
\<close>

locale owner_map =
  fixes ok :: "'v \<Rightarrow> bool"
    and owner :: "'v \<Rightarrow> page_ptr \<Rightarrow> 'c option"
    and live :: "'v \<Rightarrow> 'c \<Rightarrow> bool"
    and unlink :: "page_ptr \<Rightarrow> 'v \<Rightarrow> 'v"
    and link :: "'c \<Rightarrow> page_ptr \<Rightarrow> 'v \<Rightarrow> 'v"
  assumes ok_unlink: "ok v \<Longrightarrow> ok (unlink p v)"
    and owner_unlink: "ok v \<Longrightarrow> owner (unlink p v) q = (if q = p then None else owner v q)"
    and live_unlink: "ok v \<Longrightarrow> live (unlink p v) c = live v c"
    and ok_link: "ok v \<Longrightarrow> live v c \<Longrightarrow> owner v p = None \<Longrightarrow> ok (link c p v)"
    and owner_link: "ok v \<Longrightarrow> live v c \<Longrightarrow> owner v p = None \<Longrightarrow>
      owner (link c p v) q = (if q = p then Some c else owner v q)"
    and live_link: "ok v \<Longrightarrow> live v c \<Longrightarrow> owner v p = None \<Longrightarrow> live (link c p v) d = live v d"
begin

definition join :: "'c \<Rightarrow> page_ptr \<Rightarrow> 'v \<Rightarrow> 'v" where
  "join c p v = (if owner v p = Some c then v else link c p v)"

lemma join_spec:
  assumes "ok v" and "live v c" and "owner v p \<in> {None, Some c}"
  shows "ok (join c p v) \<and> live (join c p v) c
    \<and> owner (join c p v) q = (if q = p then Some c else owner v q)"
  using assms by (auto simp: join_def ok_link owner_link live_link)

lemma unlink_all:
  "ok v \<Longrightarrow> ok (fold unlink ps v)
     \<and> owner (fold unlink ps v) q = (if q \<in> set ps then None else owner v q)"
  by (induction ps arbitrary: v) (auto simp: ok_unlink owner_unlink)

lemma join_all:
  assumes "ok v" and "live v c" and "\<And>p. p \<in> set ps \<Longrightarrow> owner v p \<in> {None, Some c}"
  shows "ok (fold (join c) ps v) \<and> live (fold (join c) ps v) c
    \<and> owner (fold (join c) ps v) q = (if q \<in> set ps then Some c else owner v q)"
  using assms
proof (induction ps arbitrary: v)
  case (Cons p ps)
  have 1: "ok (join c p v)" "live (join c p v) c"
    and o1: "\<And>q. owner (join c p v) q = (if q = p then Some c else owner v q)"
    using join_spec [of v c p] Cons.prems by auto
  have "ok (fold (join c) ps (join c p v)) \<and> live (fold (join c) ps (join c p v)) c
    \<and> owner (fold (join c) ps (join c p v)) q = (if q \<in> set ps then Some c else owner (join c p v) q)"
    by (rule Cons.IH) (use 1 o1 Cons.prems(3) in auto)
  then show ?case
    by (simp add: o1)
qed simp

lemma unlink_link: "ok v \<Longrightarrow> live v c \<Longrightarrow> owner v p = None \<Longrightarrow>
    owner (unlink p (link c p v)) = owner v"
  by (auto simp: ok_link owner_link owner_unlink fun_eq_iff)

end

lemma v_unlink_sel:
  "v_chain_of (v_unlink p v) q = (if q = p then None else v_chain_of v q)"
  "v_chains (v_unlink p v) c = None \<longleftrightarrow> v_chains v c = None"
  "v_ref (v_unlink p v) = v_ref v"
  by (auto simp: v_unlink_def split: option.split)

lemma v_link_sel:
  "v_chain_of (v_link c p v) q = (if q = p then Some c else v_chain_of v q)"
  "v_chains (v_link c p v) d = None \<longleftrightarrow> v_chains v d = None"
  "v_ref (v_link c p v) = v_ref v"
  by (auto simp: v_link_def)

interpretation chains: owner_map chains_ok v_chain_of "\<lambda>v c. v_chains v c \<noteq> None" v_unlink v_link
  by unfold_locales (auto simp: chains_ok_unlink chains_ok_link v_unlink_sel v_link_sel)

text \<open>\<open>__link_page\<close> and \<open>__unlink_page\<close> implement the contract's operations.\<close>

lemma link_page_join:
  assumes "k__link_page E c p s = Some (r, t)" and "chains_ok (view s)"
  shows "r = None \<and> same_rest s t \<and> pg_chain (page_at s p) \<in> {None, Some c} \<and> k_chains s c \<noteq> None
    \<and> view t = chains.join c p (view s) \<and> chains_ok (view t)"
proof -
  from link_page_cases [OF assms] have c: "r = None" "same_rest s t"
    "pg_chain (page_at s p) \<in> {None, Some c}" "view t = chains.join c p (view s)"
    by (auto simp: chains.join_def)
  moreover have "k_chains s c \<noteq> None"
    using link_page_cases [OF assms] chains_ok_ex [OF assms(2), of p c] by auto
  ultimately show ?thesis
    using chains.join_spec [of "view s" c p] assms(2) by auto
qed

lemma unlink_page_total:
  assumes "chains_ok (view s)"
    and a: "\<And>c ch. pg_chain (page_at s p) = Some c \<Longrightarrow> k_chains s c = Some ch \<Longrightarrow> mc_anchor ch \<noteq> Some p"
  shows "\<exists>t. k__unlink_page E p s = Some t"
proof (cases "pg_chain (page_at s p)")
  case (Some c)
  with chains_ok_ex [OF assms(1), of p c] obtain ch where
    "k_chains s c = Some ch" "p \<in> set (mc_links ch)" by auto
  with Some a show ?thesis
    by (simp add: k__unlink_page_def link_list_del_def upd_chain_def chain_at_def add_ref_def
        k__reset_page_def)
qed (simp add: k__unlink_page_def)

text \<open>
  C11. Unlinking a page through \<open>__unlink_page\<close>, with all chains in order: the page leaves its
  chain and no other page is affected, the chain's length and referenced count are adjusted,
  an anchor or delegate that was the page is reset, and all chains are in order again. It
  returns for every page whose chain has another anchor.
\<close>

theorem unlink_page_correct:
  assumes "mlock_quiet E" and "chains_ok (view s)"
  shows "(\<forall>t. k__unlink_page E p s = Some t \<longrightarrow>
      chains_ok (view t) \<and> view t = v_unlink p (view s)
      \<and> (\<forall>q. pg_chain (page_at t q) = (if q = p then None else pg_chain (page_at s q)))
      \<and> k_held t = k_held s)
    \<and> ((\<forall>c ch. pg_chain (page_at s p) = Some c \<longrightarrow> k_chains s c = Some ch \<longrightarrow> mc_anchor ch \<noteq> Some p)
      \<longrightarrow> k__unlink_page E p s \<noteq> None)"
proof (intro conjI impI allI)
  fix t assume "k__unlink_page E p s = Some t"
  from unlink_page_refines [OF this assms(1)]
  have v: "view t = v_unlink p (view s)" "same_rest s t" by auto
  then show "view t = v_unlink p (view s)" "k_held t = k_held s"
    by (simp_all add: same_rest_def)
  show "chains_ok (view t)"
    by (simp add: v chains_ok_unlink assms(2))
  show "pg_chain (page_at t q) = (if q = p then None else pg_chain (page_at s q))" for q
    using chains.owner_unlink [OF assms(2), of p q] by (simp add: v flip: view_sel(2))
next
  assume "\<forall>c ch. pg_chain (page_at s p) = Some c \<longrightarrow> k_chains s c = Some ch \<longrightarrow> mc_anchor ch \<noteq> Some p"
  with unlink_page_total [OF assms(2), of p E] show "k__unlink_page E p s \<noteq> None"
    by auto
qed

text \<open>
  C10. Linking a page, with all chains in order: the call returns exactly when the page is on no
  chain or on this one, and then the page is on this chain, no other page has moved, nothing
  was evicted and all chains are in order.
\<close>

theorem link_page_correct:
  assumes "chains_ok (view s)" and "k_chains s c \<noteq> None"
  shows "(k__link_page E c p s \<noteq> None) = (pg_chain (page_at s p) \<in> {None, Some c})
    \<and> (\<forall>r t. k__link_page E c p s = Some (r, t) \<longrightarrow>
      r = None \<and> chains_ok (view t)
      \<and> (\<forall>q. pg_chain (page_at t q) = (if q = p then Some c else pg_chain (page_at s q))))"
proof (intro conjI allI impI)
  show "(k__link_page E c p s \<noteq> None) = (pg_chain (page_at s p) \<in> {None, Some c})"
  proof
    assume "k__link_page E c p s \<noteq> None"
    then show "pg_chain (page_at s p) \<in> {None, Some c}"
      using link_page_join [OF _ assms(1), of E c p] by auto
  qed (use link_page_total [OF _ assms(2,1), of p E] in auto)
  fix r t assume "k__link_page E c p s = Some (r, t)"
  from link_page_join [OF this assms(1)] show "r = None" "chains_ok (view t)"
    "pg_chain (page_at t q) = (if q = p then Some c else pg_chain (page_at s q))" for q
    using chains.join_spec [of "view s" c p q] assms by (auto simp flip: view_sel(2))
qed

section \<open>The referenced bit\<close>

lemma view_bump [simp]: "view (bump_ref p d s) = v_bump p d (view s)"
  by (auto simp: view_def bump_ref_def upd_chain_of_def v_bump_def v_upd_def fun_eq_iff
      split: option.splits)

lemma chains_ok_live: "chains_ok (view s) \<Longrightarrow> linked_live p s"
  using chains_ok_ex [of "view s" p] by (auto simp: linked_live_def chain_at_def)

text \<open>
  C12. The overridden operations on the referenced bit keep all chains in order, in particular
  the bound of \<open>ref_counter\<close> from below by the referenced pages of the chain. When
  \<open>PageReferenced\<close> answers 0 for a page, the page itself has its bit clear, and as long as the
  references counted for its chain, the leaked ones included, are fewer than \<open>2 ^ 32\<close>, no page of
  that chain has its bit set. Beyond that the 32-bit counter can read 0 on a chain in use.
\<close>

theorem referenced_bit_sound:
  assumes "chains_ok (view s)" and "LinkLock p \<notin> k_held s"
  shows "(\<exists>t. SetPageReferenced p s = Some t \<and> chains_ok (view t) \<and> k__PageReferenced p t)
    \<and> (\<exists>t. ClearPageReferenced p s = Some t \<and> chains_ok (view t) \<and> \<not> k__PageReferenced p t)
    \<and> (\<exists>v t. TestClearPageReferenced p s = Some (v, t) \<and> chains_ok (view t))
    \<and> (\<exists>r. PageReferenced p s = Some (r, s) \<and> (r = 0 \<longrightarrow>
        \<not> k__PageReferenced p s \<and>
        (\<forall>c ch q. pg_chain (page_at s p) = Some c \<longrightarrow> k_chains s c = Some ch \<longrightarrow>
          mc_ref_counter ch < 2 ^ 32 \<longrightarrow> pg_chain (page_at s q) = Some c \<longrightarrow>
          \<not> k__PageReferenced q s)))"
proof -
  have free: "link_free p s"
    using assms by (simp add: link_free_def chains_ok_live)
  have set: "chains_ok (v_bump p 1 (v_set_ref p True (view s)))"
    by (rule chains_ok_ref [OF assms(1)]) simp
  have clear: "chains_ok (v_bump p (- 1) (v_set_ref p False (view s)))" if "k__PageReferenced p s"
    by (rule chains_ok_ref [OF assms(1)]) (use that in simp)
  have zero: "\<not> k__PageReferenced q s" if "\<not> k__PageReferenced p s" "chain_ref p s = 0"
    "pg_chain (page_at s p) = Some c" and ch: "k_chains s c = Some ch"
    and "mc_ref_counter ch < 2 ^ 32" "pg_chain (page_at s q) = Some c" for c ch q
  proof -
    have "0 \<le> mc_ref_counter ch"
      using chains_okD(6) [OF assms(1), of c ch] ch by simp
    with that have "mc_ref_counter ch = 0"
      by (auto simp: chain_ref_def chain_at_def intro: atomic_read_zeroD)
    with chains_okD(6) [OF assms(1), of c ch] ch have "filter (v_ref (view s)) (mc_links ch) = []"
      by simp
    moreover from chains_ok_ex [OF assms(1), of q c] that(6) ch have "q \<in> set (mc_links ch)"
      by auto
    ultimately show ?thesis
      by (auto simp: filter_empty_conv)
  qed
  show ?thesis
    unfolding SetPageReferenced_eq [OF free] ClearPageReferenced_eq [OF free]
      PageReferenced_eq [OF free] TestClearPageReferenced_eq [OF free]
    using set clear zero assms(1)
    by (auto simp: Let_def split: if_splits)
qed

text \<open>
  \<open>SetPageReferenced\<close> counts also when the bit was set already, so nothing bounds the counter:
  after \<open>2 ^ 32\<close> of its calls on one page the counter reads what it read before, and where that
  was 0 the code takes the chain of a page in use for idle.
\<close>

fun set_referenced :: "nat \<Rightarrow> page_ptr \<Rightarrow> kstate \<Rightarrow> kstate option" where
  "set_referenced 0 p s = Some s"
| "set_referenced (Suc n) p s = Option.bind (SetPageReferenced p s) (set_referenced n p)"

lemma set_referenced_spec:
  assumes "link_free p s" and "PageLinked p s"
  shows "\<exists>t. set_referenced n p s = Some t \<and> link_free p t \<and> PageLinked p t
    \<and> chain_ref p t = atomic_read (chain_ref p s + int n)
    \<and> k__PageReferenced p t = (0 < n \<or> k__PageReferenced p s)"
  using assms
proof (induction n arbitrary: s)
  case 0
  have "atomic_read (chain_ref p s) = chain_ref p s"
    by (auto simp: chain_ref_def atomic_read_def split: option.split)
  with 0 show ?case by simp
next
  case (Suc n)
  let ?t = "bump_ref p 1 (k__SetPageReferenced p s)"
  have "link_free p ?t" "PageLinked p ?t" using Suc.prems by (simp_all add: link_free_def)
  from Suc.IH [OF this] show ?case
    using Suc.prems by (auto simp: SetPageReferenced_eq chain_ref_bump link_free_def ac_simps)
qed

lemma ref_counter_wraps:
  assumes "link_free p s" and "PageLinked p s" and "chain_ref p s = 0"
  shows "\<exists>t. set_referenced (2 ^ 32) p s = Some t \<and> k__PageReferenced p t \<and> chain_ref p t = 0"
proof -
  have "atomic_read (2 ^ 32) = 0" by (simp add: atomic_read_0_iff)
  then show ?thesis using set_referenced_spec [OF assms(1,2), of "2 ^ 32"] assms(3) by auto
qed

section \<open>The theorems on the small machine\<close>

lemma sample_mlock_quiet: "mlock_quiet sample_env"
  by (simp add: mlock_quiet_def sample_env_def)

lemma linked_chains_ok: "chains_ok (view linked_state)"
  by (auto simp: chains_ok_def chain_ok_def linked_state_def page_at_def test_bit_def sample_defs)

lemma linked_state_sel:
  "pg_chain (page_at linked_state p) = (if p = 7 \<or> p = 8 then Some 1 else None)"
  "k_chains linked_state 1 \<noteq> None" "k_held linked_state = {}"
  by (simp_all add: linked_state_def page_at_def sample_defs)

theorem link_page_of_other_chain_fails_witness: "k__link_page sample_env 2 7 linked_state = None"
  using link_page_of_other_chain_fails [of linked_state 7 1 2] by (simp add: linked_state_sel)

theorem unlink_page_correct_witness:
  "\<exists>t. k__unlink_page sample_env 7 linked_state = Some t \<and> chains_ok (view t)
     \<and> pg_chain (page_at t 7) = None \<and> pg_chain (page_at t 8) = Some 1"
proof -
  have "\<forall>c ch. pg_chain (page_at linked_state 7) = Some c \<longrightarrow> k_chains linked_state c = Some ch \<longrightarrow>
      mc_anchor ch \<noteq> Some 7"
    by (auto simp: linked_state_def page_at_def)
  with unlink_page_correct [OF sample_mlock_quiet linked_chains_ok, of 7] show ?thesis
    by (auto simp: linked_state_sel)
qed

theorem link_page_correct_witness:
  "\<exists>t. k__link_page sample_env 1 9 linked_state = Some (None, t) \<and> chains_ok (view t)
     \<and> pg_chain (page_at t 9) = Some 1 \<and> pg_chain (page_at t 10) = None"
  using link_page_correct [OF linked_chains_ok linked_state_sel(2), of sample_env 9]
  by (auto simp: linked_state_sel)

theorem referenced_bit_sound_witness:
  "\<exists>t. SetPageReferenced 7 linked_state = Some t \<and> chains_ok (view t) \<and> k__PageReferenced 7 t"
  using referenced_bit_sound [OF linked_chains_ok, of 7] by (simp add: linked_state_sel)

end
