(* ===== verification/Vm_Stat.thy ===== *)
theory Vm_Stat
  imports Kernel_Prims
begin

text \<open>
  \<open>Linux/vmstat.c\<close>: the zone counters. Each CPU collects changes of a counter in a signed
  byte (\<open>vm_stat_diff\<close>) and adds it to the zone's and the global counter when it passes the
  CPU's threshold. The true value of a counter is the zone's value plus the bytes of all CPUs
  (\<open>zone_count\<close>). The theory gives the routines, the contract \<open>zone_counter\<close> they meet, the
  bounds on the bytes, and the derived indices on free memory.
\<close>

section \<open>Event counters\<close>

definition sum_vm_events :: "kenv \<Rightarrow> kstate \<Rightarrow> vm_event \<Rightarrow> int" where
  "sum_vm_events E s e = (\<Sum>cpu \<leftarrow> [0..<online_cpus E]. k_vm_events s cpu e)"

definition vm_events_fold_cpu :: "kenv \<Rightarrow> nat \<Rightarrow> kstate \<Rightarrow> kstate" where
  "vm_events_fold_cpu E cpu s =
     (let fold = k_vm_events s cpu;
          ev = (k_vm_events s)(cur_cpu E := (\<lambda>e. k_vm_events s (cur_cpu E) e + fold e))
      in s\<lparr>k_vm_events := ev(cpu := (\<lambda>e. 0))\<rparr>)"

section \<open>Thresholds\<close>

text \<open>\<open>fls\<close>: the position of the most significant bit, from 1; 0 for 0.\<close>

fun fls :: "nat \<Rightarrow> nat" where
  "fls n = (if n = 0 then 0 else Suc (fls (n div 2)))"

declare fls.simps [simp del]

definition calculate_pressure_threshold :: "kenv \<Rightarrow> zone \<Rightarrow> int" where
  "calculate_pressure_threshold E z =
     (let watermark_distance = (word_of_int (z_watermark z WMARK_LOW - z_watermark z WMARK_MIN) :: ulong);
          threshold = max 1 (sint (watermark_distance div of_nat (online_cpus E)))
      in min 125 threshold)"

definition calculate_normal_threshold :: "kenv \<Rightarrow> zone \<Rightarrow> int" where
  "calculate_normal_threshold E z =
     (let mem = z_present_pages z div 2 ^ (27 - PAGE_SHIFT E);
          threshold = 2 * int (fls (online_cpus E)) * (1 + int (fls mem))
      in min 125 threshold)"

definition populated_zone :: "zone \<Rightarrow> bool" where
  "populated_zone z \<longleftrightarrow> z_present_pages z \<noteq> 0"

definition for_each_populated_zone :: "kenv \<Rightarrow> kstate \<Rightarrow> zone_ptr list" where
  "for_each_populated_zone E s = filter (\<lambda>z. populated_zone (zone_at s z)) (all_zones E)"

definition set_stat_threshold :: "nat \<Rightarrow> int \<Rightarrow> zone \<Rightarrow> zone" where
  "set_stat_threshold n t z =
     z\<lparr>z_pageset := (\<lambda>cpu. if cpu < n
         then (z_pageset z cpu)\<lparr>ps_stat_threshold := word_of_int t\<rparr> else z_pageset z cpu)\<rparr>"

definition refresh_zone_stat_threshold :: "kenv \<Rightarrow> zone \<Rightarrow> zone" where
  "refresh_zone_stat_threshold E z =
     (let threshold = calculate_normal_threshold E z;
          z = set_stat_threshold (online_cpus E) threshold z;
          tolerate_drift = (z_watermark z WMARK_LOW - z_watermark z WMARK_MIN) mod 2 ^ 32;
          max_drift = int (online_cpus E) * threshold
      in if max_drift > tolerate_drift
         then z\<lparr>z_percpu_drift_mark := z_watermark z WMARK_HIGH + max_drift\<rparr> else z)"

definition refresh_zone_stat_thresholds :: "kenv \<Rightarrow> kstate \<Rightarrow> kstate" where
  "refresh_zone_stat_thresholds E s =
     fold (\<lambda>z. upd_zone z (refresh_zone_stat_threshold E)) (for_each_populated_zone E s) s"

definition set_pgdat_percpu_threshold ::
  "kenv \<Rightarrow> nat \<Rightarrow> zone_ptr list \<Rightarrow> (zone \<Rightarrow> int) \<Rightarrow> kstate \<Rightarrow> kstate" where
  "set_pgdat_percpu_threshold E possible_cpus node_zones calculate_pressure s =
     fold (\<lambda>z. upd_zone z (\<lambda>zn. if z_percpu_drift_mark zn = 0 then zn
         else set_stat_threshold possible_cpus (calculate_pressure zn) zn)) node_zones s"

section \<open>Updating a counter\<close>

text \<open>
  \<open>vm_stat\<close> of a zone and of the machine is an \<open>atomic_long_t\<close> of 32 bits; \<open>z_vm_stat\<close> and
  \<open>k_vm_stat\<close> are the exact counts, of which it holds the low 32 bits. The amounts added are numbers
  of pages of one operation, so the \<open>int\<close> and the \<open>long\<close> they are added up in do not overflow; the
  8-bit difference of a CPU is kept at its width. \<open>zone_page_state_add\<close> adds to the zone's and to the global counter (as the comment above
  \<open>refresh_cpu_vm_stats\<close> describes it).
\<close>

definition zone_page_state_add :: "int \<Rightarrow> zone_ptr \<Rightarrow> zone_stat_item \<Rightarrow> kstate \<Rightarrow> kstate" where
  "zone_page_state_add x z item s =
     (upd_zone z (\<lambda>zn. zn\<lparr>z_vm_stat := (z_vm_stat zn)(item := z_vm_stat zn item + x)\<rparr>) s)
       \<lparr>k_vm_stat := (k_vm_stat s)(item := k_vm_stat s item + x)\<rparr>"

definition this_cpu_diff :: "kenv \<Rightarrow> zone_ptr \<Rightarrow> zone_stat_item \<Rightarrow> kstate \<Rightarrow> s8" where
  "this_cpu_diff E z item s = ps_vm_stat_diff (z_pageset (zone_at s z) (cur_cpu E)) item"

definition this_cpu_threshold :: "kenv \<Rightarrow> zone_ptr \<Rightarrow> kstate \<Rightarrow> s8" where
  "this_cpu_threshold E z s = ps_stat_threshold (z_pageset (zone_at s z) (cur_cpu E))"

definition write_diff :: "nat \<Rightarrow> zone_stat_item \<Rightarrow> s8 \<Rightarrow> zone \<Rightarrow> zone" where
  "write_diff cpu item v zn =
     zn\<lparr>z_pageset := (z_pageset zn)(cpu := (z_pageset zn cpu)
         \<lparr>ps_vm_stat_diff := (ps_vm_stat_diff (z_pageset zn cpu))(item := v)\<rparr>)\<rparr>"

definition k__mod_zone_page_state ::
  "kenv \<Rightarrow> zone_ptr \<Rightarrow> zone_stat_item \<Rightarrow> int \<Rightarrow> kstate \<Rightarrow> kstate" where
  "k__mod_zone_page_state E z item delta s =
     (let x = delta + sint (this_cpu_diff E z item s);
          t = sint (this_cpu_threshold E z s);
          (x, s) = (if x > t \<or> x < - t then (0, zone_page_state_add x z item s) else (x, s))
      in upd_zone z (write_diff (cur_cpu E) item (word_of_int x)) s)"

definition k__inc_zone_state :: "kenv \<Rightarrow> zone_ptr \<Rightarrow> zone_stat_item \<Rightarrow> kstate \<Rightarrow> kstate" where
  "k__inc_zone_state E z item s =
     (let v = this_cpu_diff E z item s + 1;
          s = upd_zone z (write_diff (cur_cpu E) item v) s;
          t = this_cpu_threshold E z s
      in if sint v > sint t
         then let overstep = signed_drop_bit 1 t;
                  s = zone_page_state_add (sint v + sint overstep) z item s
              in upd_zone z (write_diff (cur_cpu E) item (- overstep)) s
         else s)"

definition k__dec_zone_state :: "kenv \<Rightarrow> zone_ptr \<Rightarrow> zone_stat_item \<Rightarrow> kstate \<Rightarrow> kstate" where
  "k__dec_zone_state E z item s =
     (let v = this_cpu_diff E z item s - 1;
          s = upd_zone z (write_diff (cur_cpu E) item v) s;
          t = this_cpu_threshold E z s
      in if sint v < - sint t
         then let overstep = signed_drop_bit 1 t;
                  s = zone_page_state_add (sint v - sint overstep) z item s
              in upd_zone z (write_diff (cur_cpu E) item overstep) s
         else s)"

definition k__inc_zone_page_state :: "kenv \<Rightarrow> page_ptr \<Rightarrow> zone_stat_item \<Rightarrow> kstate \<Rightarrow> kstate" where
  "k__inc_zone_page_state E p = k__inc_zone_state E (page_zone E p)"

definition k__dec_zone_page_state :: "kenv \<Rightarrow> page_ptr \<Rightarrow> zone_stat_item \<Rightarrow> kstate \<Rightarrow> kstate" where
  "k__dec_zone_page_state E p = k__dec_zone_state E (page_zone E p)"

text \<open>The variant for CPUs with a local compare-and-exchange; the loop ends at the first try.\<close>

definition mod_state ::
  "kenv \<Rightarrow> zone_ptr \<Rightarrow> zone_stat_item \<Rightarrow> int \<Rightarrow> int \<Rightarrow> kstate \<Rightarrow> kstate" where
  "mod_state E z item delta overstep_mode s =
     (let t = sint (this_cpu_threshold E z s);
          o' = sint (this_cpu_diff E z item s);
          n = delta + o';
          (n, zz) = (if n > t \<or> n < - t
                     then let os = overstep_mode * (t div 2) in (- os, n + os)
                     else (n, 0));
          s = upd_zone z (write_diff (cur_cpu E) item (word_of_int n)) s
      in if zz \<noteq> 0 then zone_page_state_add zz z item s else s)"

definition mod_zone_page_state ::
  "kenv \<Rightarrow> zone_ptr \<Rightarrow> zone_stat_item \<Rightarrow> int \<Rightarrow> kstate \<Rightarrow> kstate" where
  "mod_zone_page_state E z item delta = mod_state E z item delta 0"

definition inc_zone_state :: "kenv \<Rightarrow> zone_ptr \<Rightarrow> zone_stat_item \<Rightarrow> kstate \<Rightarrow> kstate" where
  "inc_zone_state E z item = mod_state E z item 1 1"

definition inc_zone_page_state :: "kenv \<Rightarrow> page_ptr \<Rightarrow> zone_stat_item \<Rightarrow> kstate \<Rightarrow> kstate" where
  "inc_zone_page_state E p item = mod_state E (page_zone E p) item 1 1"

definition dec_zone_page_state :: "kenv \<Rightarrow> page_ptr \<Rightarrow> zone_stat_item \<Rightarrow> kstate \<Rightarrow> kstate" where
  "dec_zone_page_state E p item = mod_state E (page_zone E p) item (- 1) (- 1)"

section \<open>Folding the bytes of a CPU\<close>

text \<open>One counter of one zone: the byte moves to the zone's counter and to \<open>global_diff\<close>.\<close>

definition fold_diff ::
  "nat \<Rightarrow> zone_ptr \<Rightarrow> zone_stat_item \<Rightarrow> (zone_stat_item \<Rightarrow> int) \<times> kstate \<Rightarrow>
     (zone_stat_item \<Rightarrow> int) \<times> kstate" where
  "fold_diff cpu z i gs =
     (let (g, s) = gs; v = sint (ps_vm_stat_diff (z_pageset (zone_at s z) cpu) i)
      in if v \<noteq> 0
         then (g(i := g i + v),
           upd_zone z (\<lambda>zn. (write_diff cpu i 0 zn)\<lparr>z_vm_stat := (z_vm_stat zn)(i := z_vm_stat zn i + v)\<rparr>) s)
         else (g, s))"

definition refresh_cpu_vm_stats :: "kenv \<Rightarrow> nat \<Rightarrow> kstate \<Rightarrow> kstate" where
  "refresh_cpu_vm_stats E cpu s =
     (let (global_diff, s) = fold (\<lambda>z. fold (fold_diff cpu z) [0..<NR_VM_ZONE_STAT_ITEMS])
            (for_each_populated_zone E s) ((\<lambda>_. 0), s)
      in s\<lparr>k_vm_stat := (\<lambda>i. if i < NR_VM_ZONE_STAT_ITEMS \<and> global_diff i \<noteq> 0
            then k_vm_stat s i + global_diff i else k_vm_stat s i)\<rparr>)"

section \<open>Fragmentation\<close>

record contig_page_info =
  free_pages :: int
  free_blocks_total :: int
  free_blocks_suitable :: int

definition fill_contig_page_info :: "zone \<Rightarrow> nat \<Rightarrow> contig_page_info" where
  "fill_contig_page_info z suitable_order =
     fold (\<lambda>order info.
         let blocks = fa_nr_free (z_free_area z order)
         in \<lparr>free_pages = free_pages info + blocks * 2 ^ order,
             free_blocks_total = free_blocks_total info + blocks,
             free_blocks_suitable = (if suitable_order \<le> order
               then free_blocks_suitable info + blocks * 2 ^ (order - suitable_order)
               else free_blocks_suitable info)\<rparr>)
       [0..<MAX_ORDER] \<lparr>free_pages = 0, free_blocks_total = 0, free_blocks_suitable = 0\<rparr>"

definition k__fragmentation_index :: "nat \<Rightarrow> contig_page_info \<Rightarrow> int" where
  "k__fragmentation_index order info =
     (let requested = 2 ^ order in
      if free_blocks_total info = 0 then 0
      else if free_blocks_suitable info \<noteq> 0 then - 1000
      else 1000 - (1000 + free_pages info * 1000 div requested) div free_blocks_total info)"

definition fragmentation_index :: "zone \<Rightarrow> nat \<Rightarrow> int" where
  "fragmentation_index z order = k__fragmentation_index order (fill_contig_page_info z order)"

definition unusable_free_index :: "nat \<Rightarrow> contig_page_info \<Rightarrow> int" where
  "unusable_free_index order info =
     (if free_pages info = 0 then 1000
      else (free_pages info - free_blocks_suitable info * 2 ^ order) * 1000 div free_pages info)"

section \<open>The contract of a zone counter\<close>

text \<open>
  What the users of the counters rely on: adding a number to one counter changes its value by
  that number and no other counter. \<open>ok\<close> is the condition on the state under which the
  provider keeps it.
\<close>

locale zone_counter =
  fixes modz :: "zone_ptr \<Rightarrow> zone_stat_item \<Rightarrow> int \<Rightarrow> 's \<Rightarrow> 's"
    and val :: "'s \<Rightarrow> zone_ptr \<Rightarrow> zone_stat_item \<Rightarrow> int"
    and ok :: "'s \<Rightarrow> bool"
  assumes val_modz: "ok s \<Longrightarrow>
      val (modz z i d s) y j = val s y j + (if y = z \<and> j = i then d else 0)"
    and ok_modz: "ok s \<Longrightarrow> ok (modz z i d s)"
begin

lemma val_transfer:
  assumes "ok s"
  shows "val (modz z j d (modz z i (- d) s)) y k =
    val s y k + (if y = z \<and> k = j then d else 0) - (if y = z \<and> k = i then d else 0)"
  using assms by (simp add: val_modz ok_modz)

lemma val_undo: "ok s \<Longrightarrow> val (modz z i d (modz z i (- d) s)) = val s"
  by (simp add: val_modz ok_modz fun_eq_iff)

lemma val_fold_modz:
  "ok s \<Longrightarrow> val (fold (\<lambda>(i, d). modz z i d) xs s) y j =
     val s y j + (if y = z then \<Sum>(i, d) \<leftarrow> xs. if i = j then d else 0 else 0)"
  by (induction xs arbitrary: s) (auto simp: val_modz ok_modz)

end

section \<open>The counters meet the contract\<close>

definition cpu_diff :: "kstate \<Rightarrow> zone_ptr \<Rightarrow> nat \<Rightarrow> zone_stat_item \<Rightarrow> int" where
  "cpu_diff s z cpu i = sint (ps_vm_stat_diff (z_pageset (zone_at s z) cpu) i)"

definition zone_count :: "nat \<Rightarrow> kstate \<Rightarrow> zone_ptr \<Rightarrow> zone_stat_item \<Rightarrow> int" where
  "zone_count n s z i = z_vm_stat (zone_at s z) i + (\<Sum>cpu<n. cpu_diff s z cpu i)"

lemma cpu_diff_write:
  "cpu_diff (upd_zone z (write_diff c i v) s) y cpu j =
     (if y = z \<and> cpu = c \<and> j = i then sint v else cpu_diff s y cpu j)"
  by (auto simp: cpu_diff_def zone_at_upd_zone write_diff_def)

lemma z_vm_stat_write [simp]:
  "z_vm_stat (zone_at (upd_zone z (write_diff c i v) s) y) = z_vm_stat (zone_at s y)"
  by (simp add: zone_at_upd_zone write_diff_def)

lemma zone_count_write:
  assumes "c < n"
  shows "zone_count n (upd_zone z (write_diff c i v) s) y j =
    zone_count n s y j + (if y = z \<and> j = i then sint v - cpu_diff s z c i else 0)"
proof (cases "y = z \<and> j = i")
  case True
  have "(\<Sum>cpu<n. if cpu = c then sint v else cpu_diff s z cpu i) =
      sint v + (\<Sum>cpu \<in> {..<n} - {c}. cpu_diff s z cpu i)"
    using assms by (simp add: sum.remove [of "{..<n}" c])
  moreover have "(\<Sum>cpu<n. cpu_diff s z cpu i) =
      cpu_diff s z c i + (\<Sum>cpu \<in> {..<n} - {c}. cpu_diff s z cpu i)"
    using assms by (simp add: sum.remove [of "{..<n}" c])
  ultimately show ?thesis
    using True by (simp add: zone_count_def cpu_diff_write)
next
  case False
  then show ?thesis
    by (auto simp: zone_count_def cpu_diff_write intro!: sum.cong)
qed

lemma cpu_diff_add [simp]: "cpu_diff (zone_page_state_add x z i s) y cpu j = cpu_diff s y cpu j"
  by (simp add: cpu_diff_def zone_page_state_add_def zone_at_def upd_zone_def)

lemma z_vm_stat_add:
  "z_vm_stat (zone_at (zone_page_state_add x z i s) y) j =
     z_vm_stat (zone_at s y) j + (if y = z \<and> j = i then x else 0)"
  by (simp add: zone_page_state_add_def zone_at_def upd_zone_def)

lemma zone_count_add:
  "zone_count n (zone_page_state_add x z i s) y j =
     zone_count n s y j + (if y = z \<and> j = i then x else 0)"
  by (simp add: zone_count_def z_vm_stat_add)

lemma this_cpu_diff_eq: "sint (this_cpu_diff E z i s) = cpu_diff s z (cur_cpu E) i"
  by (simp add: this_cpu_diff_def cpu_diff_def)

lemma sint_s8_range: "- 128 \<le> sint (w :: s8) \<and> sint w \<le> 127"
  using sint_ge [of w] sint_lt [of w] by simp

lemma sint_of_int_s8: "- 128 \<le> x \<Longrightarrow> x \<le> 127 \<Longrightarrow> sint (word_of_int x :: s8) = x"
  by (simp add: sint_sbintrunc' signed_take_bit_int_eq_self)

lemma zone_count_mod:
  assumes "cur_cpu E < n"
  shows "zone_count n (k__mod_zone_page_state E z i d s) y j =
    zone_count n s y j + (if y = z \<and> j = i then d else 0)"
proof -
  let ?x = "d + cpu_diff s z (cur_cpu E) i" and ?t = "sint (this_cpu_threshold E z s)"
  show ?thesis
  proof (cases "?x > ?t \<or> ?x < - ?t")
    case True
    then show ?thesis
      using assms
      by (simp add: k__mod_zone_page_state_def this_cpu_diff_eq zone_count_write zone_count_add)
  next
    case False
    with sint_s8_range [of "this_cpu_threshold E z s"] have "sint (word_of_int ?x :: s8) = ?x"
      by (intro sint_of_int_s8) auto
    with False assms show ?thesis
      by (simp add: k__mod_zone_page_state_def this_cpu_diff_eq zone_count_write)
  qed
qed

interpretation vmstat: zone_counter "k__mod_zone_page_state E" "zone_count n"
    "\<lambda>s. cur_cpu E < n" for E n
  by unfold_locales (simp_all add: zone_count_mod)

section \<open>Bounds on the bytes\<close>

definition cpu_threshold :: "kstate \<Rightarrow> zone_ptr \<Rightarrow> nat \<Rightarrow> int" where
  "cpu_threshold s z cpu = sint (ps_stat_threshold (z_pageset (zone_at s z) cpu))"

definition stat_bounded :: "nat \<Rightarrow> kstate \<Rightarrow> bool" where
  "stat_bounded n s \<longleftrightarrow> (\<forall>z. \<forall>cpu<n. 0 \<le> cpu_threshold s z cpu \<and> cpu_threshold s z cpu \<le> 125 \<and>
     (\<forall>i. \<bar>cpu_diff s z cpu i\<bar> \<le> cpu_threshold s z cpu))"

lemma cpu_threshold_frame [simp]:
  "cpu_threshold (upd_zone z (write_diff c i v) s) y cpu = cpu_threshold s y cpu"
  "cpu_threshold (zone_page_state_add x z i s) y cpu = cpu_threshold s y cpu"
  by (simp_all add: cpu_threshold_def zone_at_upd_zone write_diff_def zone_page_state_add_def
      zone_at_def upd_zone_def)

lemma this_cpu_threshold_eq: "sint (this_cpu_threshold E z s) = cpu_threshold s z (cur_cpu E)"
  by (simp add: this_cpu_threshold_def cpu_threshold_def)

lemma stat_bounded_write:
  assumes "stat_bounded n s" and "\<bar>sint v\<bar> \<le> cpu_threshold s z c"
  shows "stat_bounded n (upd_zone z (write_diff c i v) s)"
  using assms by (auto simp: stat_bounded_def cpu_diff_write)

lemma stat_bounded_add [simp]: "stat_bounded n (zone_page_state_add x z i s) = stat_bounded n s"
  by (simp add: stat_bounded_def)

lemma stat_bounded_mod:
  assumes "stat_bounded n s" and "cur_cpu E < n"
  shows "stat_bounded n (k__mod_zone_page_state E z i d s)"
proof -
  let ?x = "d + cpu_diff s z (cur_cpu E) i" and ?t = "cpu_threshold s z (cur_cpu E)"
  have t: "0 \<le> ?t" "?t \<le> 125"
    using assms by (auto simp: stat_bounded_def)
  show ?thesis
  proof (cases "?x > ?t \<or> ?x < - ?t")
    case True
    with t assms(1) show ?thesis
      by (auto simp: k__mod_zone_page_state_def this_cpu_diff_eq this_cpu_threshold_eq
          intro!: stat_bounded_write)
  next
    case False
    with t have "sint (word_of_int ?x :: s8) = ?x"
      by (intro sint_of_int_s8) auto
    with False assms(1) show ?thesis
      by (auto simp: k__mod_zone_page_state_def this_cpu_diff_eq this_cpu_threshold_eq
          intro!: stat_bounded_write)
  qed
qed

text \<open>The routines that write the byte twice: only the second value counts.\<close>

lemma stat_bounded_rewrite:
  assumes "stat_bounded n s" and "\<bar>sint w\<bar> \<le> cpu_threshold s z c"
  shows "stat_bounded n (upd_zone z (write_diff c i w)
    (zone_page_state_add x z i (upd_zone z (write_diff c i v) s)))"
  using assms by (auto simp: stat_bounded_def cpu_diff_write)

text \<open>Half of a threshold, as a signed byte.\<close>

lemma sint_half: "sint (signed_drop_bit (Suc 0) (t :: s8)) = sint t div 2"
  by (simp add: sint_signed_drop_bit_eq drop_bit_eq_div)

lemma sint_minus_half:
  assumes "0 \<le> sint (t :: s8)"
  shows "sint (- signed_drop_bit (Suc 0) t) = - (sint t div 2)"
proof -
  have "sint (- signed_drop_bit (Suc 0) t) = sint (word_of_int (- (sint t div 2)) :: s8)"
    by (simp add: sint_half [symmetric])
  also have "\<dots> = - (sint t div 2)"
    using assms sint_s8_range [of t] by (intro sint_of_int_s8) auto
  finally show ?thesis .
qed

lemma sint_add_1: "sint (v :: s8) < 127 \<Longrightarrow> sint (v + 1) = sint v + 1"
proof -
  assume v: "sint v < 127"
  have "sint (v + 1) = sint (word_of_int (sint v + 1) :: s8)"
    by simp
  also have "\<dots> = sint v + 1"
    using v sint_s8_range [of v] by (intro sint_of_int_s8) auto
  finally show ?thesis .
qed

lemma sint_minus_1: "- 128 < sint (v :: s8) \<Longrightarrow> sint (v - 1) = sint v - 1"
proof -
  assume v: "- 128 < sint v"
  have "sint (v - 1) = sint (word_of_int (sint v - 1) :: s8)"
    by simp
  also have "\<dots> = sint v - 1"
    using v sint_s8_range [of v] by (intro sint_of_int_s8) auto
  finally show ?thesis .
qed

text \<open>
  An increment or a decrement on the current CPU, under the bounds: the true value changes by
  one and the bounds are kept. The bound 125 on the threshold keeps the byte from wrapping.
\<close>

lemma inc_zone_state_counts:
  assumes b: "stat_bounded n s" and c: "cur_cpu E < n"
  shows "zone_count n (k__inc_zone_state E z i s) y j =
      zone_count n s y j + (if y = z \<and> j = i then 1 else 0)"
    and "stat_bounded n (k__inc_zone_state E z i s)"
proof -
  let ?d = "this_cpu_diff E z i s" and ?t = "this_cpu_threshold E z s"
  have t: "0 \<le> sint ?t" "sint ?t \<le> 125" "\<bar>sint ?d\<bar> \<le> sint ?t"
    using b c by (auto simp: stat_bounded_def this_cpu_threshold_eq this_cpu_diff_eq)
  then have v: "sint (?d + 1) = sint ?d + 1"
    by (intro sint_add_1) auto
  have t': "this_cpu_threshold E z (upd_zone z (write_diff (cur_cpu E) i w) s) = ?t" for w
    by (simp add: this_cpu_threshold_def zone_at_upd_zone write_diff_def)
  show "zone_count n (k__inc_zone_state E z i s) y j =
      zone_count n s y j + (if y = z \<and> j = i then 1 else 0)"
    using t c
    by (simp add: k__inc_zone_state_def Let_def t' v sint_half sint_minus_half zone_count_write
        zone_count_add this_cpu_diff_eq cpu_diff_write)
  show "stat_bounded n (k__inc_zone_state E z i s)"
  proof (cases "sint (?d + 1) > sint ?t")
    case True
    then show ?thesis
      using t unfolding k__inc_zone_state_def Let_def t'
      by (simp, intro stat_bounded_rewrite [OF b])
        (simp add: sint_half sint_minus_half this_cpu_threshold_eq)
  next
    case False
    then show ?thesis
      using t v unfolding k__inc_zone_state_def Let_def t'
      by (simp, intro stat_bounded_write [OF b]) (simp add: this_cpu_threshold_eq)
  qed
qed

lemma dec_zone_state_counts:
  assumes b: "stat_bounded n s" and c: "cur_cpu E < n"
  shows "zone_count n (k__dec_zone_state E z i s) y j =
      zone_count n s y j - (if y = z \<and> j = i then 1 else 0)"
    and "stat_bounded n (k__dec_zone_state E z i s)"
proof -
  let ?d = "this_cpu_diff E z i s" and ?t = "this_cpu_threshold E z s"
  have t: "0 \<le> sint ?t" "sint ?t \<le> 125" "\<bar>sint ?d\<bar> \<le> sint ?t"
    using b c by (auto simp: stat_bounded_def this_cpu_threshold_eq this_cpu_diff_eq)
  then have v: "sint (?d - 1) = sint ?d - 1"
    by (intro sint_minus_1) auto
  have t': "this_cpu_threshold E z (upd_zone z (write_diff (cur_cpu E) i w) s) = ?t" for w
    by (simp add: this_cpu_threshold_def zone_at_upd_zone write_diff_def)
  show "zone_count n (k__dec_zone_state E z i s) y j =
      zone_count n s y j - (if y = z \<and> j = i then 1 else 0)"
    using t c
    by (simp add: k__dec_zone_state_def Let_def t' v sint_half sint_minus_half zone_count_write
        zone_count_add this_cpu_diff_eq cpu_diff_write)
  show "stat_bounded n (k__dec_zone_state E z i s)"
  proof (cases "sint (?d - 1) < - sint ?t")
    case True
    then show ?thesis
      using t unfolding k__dec_zone_state_def Let_def t'
      by (simp, intro stat_bounded_rewrite [OF b])
        (simp add: sint_half sint_minus_half this_cpu_threshold_eq)
  next
    case False
    then show ?thesis
      using t v unfolding k__dec_zone_state_def Let_def t'
      by (simp, intro stat_bounded_write [OF b]) (simp add: this_cpu_threshold_eq)
  qed
qed

text \<open>The compare-and-exchange variant agrees with the interrupt-disabled one on the total.\<close>

lemma mod_state_counts:
  assumes b: "stat_bounded n s" and c: "cur_cpu E < n" and m: "\<bar>m\<bar> \<le> 1"
  shows "zone_count n (mod_state E z i d m s) y j =
      zone_count n s y j + (if y = z \<and> j = i then d else 0)"
    and "stat_bounded n (mod_state E z i d m s)"
proof -
  let ?o = "cpu_diff s z (cur_cpu E) i" and ?t = "cpu_threshold s z (cur_cpu E)"
  let ?h = "m * (?t div 2)" and ?out = "d + ?o > ?t \<or> d + ?o < - ?t"
  have t: "0 \<le> ?t" "?t \<le> 125"
    using b c by (auto simp: stat_bounded_def)
  have "m = - 1 \<or> m = 0 \<or> m = 1"
    using m by linarith
  with t have h: "- ?t \<le> ?h" "?h \<le> ?t"
    by auto
  have w: "sint (word_of_int (- ?h) :: s8) = - ?h"
    by (rule sint_of_int_s8) (use t h in linarith)+
  have w': "sint (word_of_int (d + ?o) :: s8) = d + ?o" if "\<not> ?out"
    by (rule sint_of_int_s8) (use t that in linarith)+
  have add0: "zone_count n (if x \<noteq> 0 then zone_page_state_add x z i u else u) y j =
      zone_count n u y j + (if y = z \<and> j = i then x else 0)" for x u
    by (simp add: zone_count_add)
  show "zone_count n (mod_state E z i d m s) y j =
      zone_count n s y j + (if y = z \<and> j = i then d else 0)"
    using c w' by (cases ?out)
      (simp_all add: mod_state_def this_cpu_diff_eq this_cpu_threshold_eq Let_def add0
        zone_count_write w del: of_int_add of_int_minus of_int_mult of_int_diff)
  show "stat_bounded n (mod_state E z i d m s)"
    using b h w' by (cases ?out)
      (auto simp: mod_state_def this_cpu_diff_eq this_cpu_threshold_eq Let_def w
        simp del: of_int_add of_int_minus of_int_mult of_int_diff intro!: stat_bounded_write)
qed

section \<open>Runs of updates\<close>

text \<open>An update of a counter by some CPU, through any of the entry points.\<close>

datatype counter_op = OpMod int | OpInc | OpDec | OpModAtomic int | OpIncAtomic

primrec op_delta :: "counter_op \<Rightarrow> int" where
  "op_delta (OpMod d) = d"
| "op_delta OpInc = 1"
| "op_delta OpDec = - 1"
| "op_delta (OpModAtomic d) = d"
| "op_delta OpIncAtomic = 1"

primrec counter_step :: "kenv \<Rightarrow> zone_ptr \<Rightarrow> zone_stat_item \<Rightarrow> counter_op \<Rightarrow> kstate \<Rightarrow> kstate" where
  "counter_step E z i (OpMod d) = k__mod_zone_page_state E z i d"
| "counter_step E z i OpInc = k__inc_zone_state E z i"
| "counter_step E z i OpDec = k__dec_zone_state E z i"
| "counter_step E z i (OpModAtomic d) = mod_zone_page_state E z i d"
| "counter_step E z i OpIncAtomic = inc_zone_state E z i"

fun counter_run ::
  "(kenv \<times> zone_ptr \<times> zone_stat_item \<times> counter_op) list \<Rightarrow> kstate \<Rightarrow> kstate" where
  "counter_run [] s = s"
| "counter_run ((E, z, i, a) # xs) s = counter_run xs (counter_step E z i a s)"

lemma counter_step_counts:
  assumes "stat_bounded n s" and "cur_cpu E < n"
  shows "zone_count n (counter_step E z i a s) y j =
      zone_count n s y j + (if y = z \<and> j = i then op_delta a else 0) \<and>
    stat_bounded n (counter_step E z i a s)"
  using assms
  by (cases a) (auto simp: zone_count_mod stat_bounded_mod inc_zone_state_counts
      dec_zone_state_counts mod_zone_page_state_def inc_zone_state_def mod_state_counts)

text \<open>
  C20. Whatever sequence of counter updates the CPUs perform, through the interrupt-disabled
  or the compare-and-exchange routines, the true value of every counter changes by exactly
  the sum of the requested changes, no per-CPU byte leaves its threshold, and the value that
  \<open>zone_page_state\<close> reads (the zone's word alone) is off by at most 125 for each CPU.
\<close>

theorem counter_run_exact:
  assumes "stat_bounded n s" and "\<forall>(E, z, i, a) \<in> set ops. cur_cpu E < n"
  shows "zone_count n (counter_run ops s) y j =
      zone_count n s y j + (\<Sum>(E, z, i, a) \<leftarrow> ops. if y = z \<and> j = i then op_delta a else 0)
    \<and> stat_bounded n (counter_run ops s)
    \<and> \<bar>zone_count n (counter_run ops s) y j - z_vm_stat (zone_at (counter_run ops s) y) j\<bar>
        \<le> 125 * int n"
proof -
  have run: "stat_bounded n (counter_run ops s) \<and> zone_count n (counter_run ops s) y j =
      zone_count n s y j + (\<Sum>(E, z, i, a) \<leftarrow> ops. if y = z \<and> j = i then op_delta a else 0)"
    using assms
  proof (induction ops s rule: counter_run.induct)
    case (2 E z i a xs s)
    then show ?case
      using counter_step_counts [of n s E z i a] by (auto simp: case_prod_beta)
  qed simp
  have drift: "\<bar>zone_count n t y j - z_vm_stat (zone_at t y) j\<bar> \<le> 125 * int n"
    if "stat_bounded n t" for t
  proof -
    have "\<bar>\<Sum>cpu<n. cpu_diff t y cpu j\<bar> \<le> (\<Sum>cpu<n. \<bar>cpu_diff t y cpu j\<bar>)"
      by (rule sum_abs)
    also have "\<dots> \<le> (\<Sum>cpu<n. 125)"
    proof (rule sum_mono)
      fix cpu assume "cpu \<in> {..<n}"
      with that have "\<bar>cpu_diff t y cpu j\<bar> \<le> cpu_threshold t y cpu" "cpu_threshold t y cpu \<le> 125"
        by (auto simp: stat_bounded_def)
      then show "\<bar>cpu_diff t y cpu j\<bar> \<le> 125" by linarith
    qed
    finally show ?thesis by (simp add: zone_count_def)
  qed
  from run drift show ?thesis by blast
qed

section \<open>Folding loses nothing\<close>

lemma fold_diff_effect:
  assumes "fold_diff cpu z i (g, s) = (g', s')"
  shows "g' j = g j + (if j = i then cpu_diff s z cpu i else 0)"
    and "cpu_diff s' y c j = (if y = z \<and> c = cpu \<and> j = i then 0 else cpu_diff s y c j)"
    and "z_vm_stat (zone_at s' y) j =
      z_vm_stat (zone_at s y) j + (if y = z \<and> j = i then cpu_diff s z cpu i else 0)"
    and "k_vm_stat s' = k_vm_stat s"
  using assms
  by (auto simp: fold_diff_def Let_def cpu_diff_def zone_at_upd_zone write_diff_def
      split: if_splits)

lemma fold_fold_diff_effect:
  assumes "distinct is" and "fold (fold_diff cpu z) is (g, s) = (g', s')"
  shows "g' j = g j + (if j \<in> set is then cpu_diff s z cpu j else 0)
    \<and> cpu_diff s' y c j = (if y = z \<and> c = cpu \<and> j \<in> set is then 0 else cpu_diff s y c j)
    \<and> z_vm_stat (zone_at s' y) j =
        z_vm_stat (zone_at s y) j + (if y = z \<and> j \<in> set is then cpu_diff s z cpu j else 0)
    \<and> k_vm_stat s' = k_vm_stat s"
  using assms
proof (induction "is" arbitrary: g s)
  case (Cons i "is")
  obtain g1 s1 where 1: "fold_diff cpu z i (g, s) = (g1, s1)"
    by (metis surj_pair)
  with Cons.prems have 2: "fold (fold_diff cpu z) is (g1, s1) = (g', s')" "distinct is" "i \<notin> set is"
    by auto
  from Cons.IH [OF 2(2,1)] 2(3) show ?case
    by (auto simp: fold_diff_effect [OF 1])
qed simp

lemma fold_zones_effect:
  assumes "distinct zs" and "fold (\<lambda>z. fold (fold_diff cpu z) [0..<N]) zs (g, s) = (g', s')"
  shows "g' j = g j + (if j < N then \<Sum>z \<leftarrow> zs. cpu_diff s z cpu j else 0)
    \<and> cpu_diff s' y c j = (if y \<in> set zs \<and> c = cpu \<and> j < N then 0 else cpu_diff s y c j)
    \<and> z_vm_stat (zone_at s' y) j =
        z_vm_stat (zone_at s y) j + (if y \<in> set zs \<and> j < N then cpu_diff s y cpu j else 0)
    \<and> k_vm_stat s' = k_vm_stat s"
  using assms
proof (induction zs arbitrary: g s)
  case (Cons z zs)
  obtain g1 s1 where 1: "fold (fold_diff cpu z) [0..<N] (g, s) = (g1, s1)"
    by (metis surj_pair)
  note e = fold_fold_diff_effect [OF distinct_upt 1]
  from Cons.prems 1 have 2: "fold (\<lambda>z. fold (fold_diff cpu z) [0..<N]) zs (g1, s1) = (g', s')"
      "distinct zs" "z \<notin> set zs"
    by auto
  have "(\<Sum>x \<leftarrow> zs. cpu_diff s1 x cpu j) = (\<Sum>x \<leftarrow> zs. cpu_diff s x cpu j)"
    using 2(3) e by (intro arg_cong [where f = sum_list] map_cong) auto
  with Cons.IH [OF 2(2,1)] 2(3) e show ?case
    by auto
qed simp

lemma zone_count_shift:
  assumes "cpu < n" and "\<And>c. cpu_diff s' y c j = (if c = cpu then 0 else cpu_diff s y c j)"
    and "z_vm_stat (zone_at s' y) j = z_vm_stat (zone_at s y) j + cpu_diff s y cpu j"
  shows "zone_count n s' y j = zone_count n s y j"
  using assms by (simp add: zone_count_def sum.remove [of "{..<n}" cpu])

definition global_count :: "nat \<Rightarrow> zone_ptr list \<Rightarrow> kstate \<Rightarrow> zone_stat_item \<Rightarrow> int" where
  "global_count n zs s i = k_vm_stat s i + (\<Sum>z \<leftarrow> zs. \<Sum>cpu<n. cpu_diff s z cpu i)"

text \<open>
  Folding a CPU's bytes into the zone and global counters changes no true value, neither
  of a zone nor of the whole system, and leaves the CPU with all bytes zero in every populated
  zone, so its drift is gone.
\<close>

theorem refresh_cpu_vm_stats_exact:
  assumes "cpu < n" and "distinct (all_zones E)"
  shows "let t = refresh_cpu_vm_stats E cpu s; zs = for_each_populated_zone E s in
    zone_count n t y j = zone_count n s y j
    \<and> (j < NR_VM_ZONE_STAT_ITEMS \<longrightarrow> global_count n zs t j = global_count n zs s j)
    \<and> (y \<in> set zs \<and> j < NR_VM_ZONE_STAT_ITEMS \<longrightarrow> cpu_diff t y cpu j = 0)"
proof -
  define t where "t = refresh_cpu_vm_stats E cpu s"
  define zs where "zs = for_each_populated_zone E s"
  let ?N = NR_VM_ZONE_STAT_ITEMS
  obtain g u where u: "fold (\<lambda>z. fold (fold_diff cpu z) [0..<?N]) zs ((\<lambda>_. 0), s) = (g, u)"
    by (metis surj_pair)
  have t: "t = u\<lparr>k_vm_stat := (\<lambda>i. if i < ?N \<and> g i \<noteq> 0 then k_vm_stat u i + g i else k_vm_stat u i)\<rparr>"
    using u by (simp add: t_def refresh_cpu_vm_stats_def zs_def)
  have "distinct zs"
    using assms(2) by (simp add: zs_def for_each_populated_zone_def)
  note e = fold_zones_effect [OF this u]
  have diff: "cpu_diff t y c j = (if y \<in> set zs \<and> c = cpu \<and> j < ?N then 0 else cpu_diff s y c j)" for y c j
    using e by (simp add: t cpu_diff_def)
  have vm: "z_vm_stat (zone_at t y) j =
      z_vm_stat (zone_at s y) j + (if y \<in> set zs \<and> j < ?N then cpu_diff s y cpu j else 0)"
    using e by (simp add: t)
  have "zone_count n t y j = zone_count n s y j"
  proof (cases "y \<in> set zs \<and> j < ?N")
    case True
    with diff vm show ?thesis
      by (intro zone_count_shift [OF assms(1)]) auto
  next
    case False
    then have "cpu_diff t y c j = cpu_diff s y c j" for c
      by (auto simp: diff)
    with False vm show ?thesis
      by (auto simp: zone_count_def)
  qed
  moreover have "global_count n zs t j = global_count n zs s j" if j: "j < ?N"
  proof -
    have "(\<Sum>c<n. cpu_diff s z c j) = (\<Sum>c<n. cpu_diff t z c j) + cpu_diff s z cpu j"
      if "z \<in> set zs" for z
      using assms(1) that j by (simp add: diff sum.remove [of "{..<n}" cpu])
    then have "(\<Sum>z \<leftarrow> zs. \<Sum>c<n. cpu_diff s z c j) =
        (\<Sum>z \<leftarrow> zs. (\<Sum>c<n. cpu_diff t z c j) + cpu_diff s z cpu j)"
      by (intro arg_cong [where f = sum_list] map_cong) auto
    with e j show ?thesis
      by (auto simp: global_count_def sum_list_addf t)
  qed
  ultimately show ?thesis
    using diff by (simp add: t_def [symmetric] zs_def [symmetric] Let_def)
qed

section \<open>Thresholds and indices\<close>

lemma fls_pos: "0 < n \<Longrightarrow> 0 < fls n"
  by (subst fls.simps) simp

lemma fls_bounds: "0 < n \<Longrightarrow> 2 ^ (fls n - 1) \<le> n \<and> n < 2 ^ fls n"
proof (induction n rule: fls.induct)
  case (1 n)
  show ?case
  proof (cases "n div 2 = 0")
    case True
    with "1.prems" have "n = 1" by arith
    then show ?thesis by (simp add: fls.simps)
  next
    case False
    with "1.IH" "1.prems" have "2 ^ (fls (n div 2) - 1) \<le> n div 2 \<and> n div 2 < 2 ^ fls (n div 2)"
      by simp
    moreover have "fls n = Suc (fls (n div 2))" "0 < fls (n div 2)"
      using "1.prems" False by (simp_all add: fls.simps [of n] fls_pos)
    then obtain k where "fls (n div 2) = Suc k" "fls n = Suc (Suc k)"
      by (cases "fls (n div 2)") auto
    ultimately show ?thesis by auto
  qed
qed

text \<open>
  Both threshold rules give a value that fits the signed byte the thresholds and
  differences are kept in: at least 1 and at most 125. So a zone set up with either of them,
  with all bytes zero, satisfies the bounds that make the counters exact.
\<close>

theorem threshold_range:
  assumes "0 < online_cpus E"
  shows "1 \<le> calculate_pressure_threshold E z \<and> calculate_pressure_threshold E z \<le> 125
    \<and> 2 \<le> calculate_normal_threshold E z \<and> calculate_normal_threshold E z \<le> 125"
proof -
  let ?m = "z_present_pages z div 2 ^ (27 - PAGE_SHIFT E)"
  have "1 \<le> int (fls (online_cpus E))"
    using fls_pos [OF assms] by linarith
  then have "1 * 1 \<le> int (fls (online_cpus E)) * (1 + int (fls ?m))"
    by (intro mult_mono) auto
  then have "2 \<le> calculate_normal_threshold E z"
    by (simp add: calculate_normal_threshold_def Let_def)
  then show ?thesis
    by (simp add: calculate_pressure_threshold_def calculate_normal_threshold_def Let_def)
qed

lemma fill_contig_page_info_eq:
  "fill_contig_page_info z k = \<lparr>
     free_pages = (\<Sum>o' \<leftarrow> [0..<MAX_ORDER]. fa_nr_free (z_free_area z o') * 2 ^ o'),
     free_blocks_total = (\<Sum>o' \<leftarrow> [0..<MAX_ORDER]. fa_nr_free (z_free_area z o')),
     free_blocks_suitable = (\<Sum>o' \<leftarrow> [0..<MAX_ORDER].
        if k \<le> o' then fa_nr_free (z_free_area z o') * 2 ^ (o' - k) else 0)\<rparr>"
proof -
  let ?f = "\<lambda>o' info. \<lparr>free_pages = free_pages info + fa_nr_free (z_free_area z o') * 2 ^ o',
      free_blocks_total = free_blocks_total info + fa_nr_free (z_free_area z o'),
      free_blocks_suitable = (if k \<le> o'
         then free_blocks_suitable info + fa_nr_free (z_free_area z o') * 2 ^ (o' - k)
         else free_blocks_suitable info)\<rparr>"
  have "fold ?f xs \<lparr>free_pages = a, free_blocks_total = b, free_blocks_suitable = c\<rparr> = \<lparr>
     free_pages = a + (\<Sum>o' \<leftarrow> xs. fa_nr_free (z_free_area z o') * 2 ^ o'),
     free_blocks_total = b + (\<Sum>o' \<leftarrow> xs. fa_nr_free (z_free_area z o')),
     free_blocks_suitable = c + (\<Sum>o' \<leftarrow> xs.
        if k \<le> o' then fa_nr_free (z_free_area z o') * 2 ^ (o' - k) else 0)\<rparr>" for xs a b c
    by (induction xs arbitrary: a b c) auto
  then show ?thesis
    by (simp add: fill_contig_page_info_def Let_def del: upt_conv_Cons)
qed

text \<open>
  For a zone with no negative block count the unusable-space index lies between 0 and
  1000: pages in blocks of at least the requested order never exceed the free pages, so the
  unsigned subtraction in the code does not wrap.
\<close>

theorem unusable_free_index_range:
  assumes "\<forall>o' < MAX_ORDER. 0 \<le> fa_nr_free (z_free_area z o')"
  shows "let info = fill_contig_page_info z k in
    free_blocks_suitable info * 2 ^ k \<le> free_pages info
    \<and> 0 \<le> unusable_free_index k info \<and> unusable_free_index k info \<le> 1000"
proof -
  let ?info = "fill_contig_page_info z k"
  let ?n = "\<lambda>o'. fa_nr_free (z_free_area z o')"
  have le: "(\<Sum>o' \<leftarrow> xs. if k \<le> o' then ?n o' * 2 ^ (o' - k) else 0) * 2 ^ k
      \<le> (\<Sum>o' \<leftarrow> xs. ?n o' * 2 ^ o')" if "\<forall>o' \<in> set xs. 0 \<le> ?n o'" for xs
    using that
  proof (induction xs)
    case (Cons a xs)
    then show ?case
      by (cases "k \<le> a") (simp_all add: algebra_simps add_increasing flip: power_add)
  qed simp
  have nonneg: "0 \<le> (\<Sum>o' \<leftarrow> xs. if k \<le> o' then ?n o' * 2 ^ (o' - k) else 0)"
    if "\<forall>o' \<in> set xs. 0 \<le> ?n o'" for xs
    using that by (induction xs) auto
  have all: "\<forall>o' \<in> set [0..<MAX_ORDER]. 0 \<le> ?n o'"
    using assms by simp
  have suit: "free_blocks_suitable ?info * 2 ^ k \<le> free_pages ?info" "0 \<le> free_blocks_suitable ?info"
    using le [OF all] nonneg [OF all] by (simp_all add: fill_contig_page_info_eq del: upt_conv_Cons)
  then have pos: "0 \<le> free_blocks_suitable ?info * 2 ^ k" "0 \<le> free_pages ?info"
    by (auto intro: order_trans [of 0 "free_blocks_suitable ?info * 2 ^ k"])
  let ?d = "free_pages ?info - free_blocks_suitable ?info * 2 ^ k"
  have "0 \<le> unusable_free_index k ?info \<and> unusable_free_index k ?info \<le> 1000"
  proof (cases "free_pages ?info = 0")
    case False
    with pos have fp: "0 < free_pages ?info" by simp
    from suit have "0 \<le> ?d * 1000" by simp
    with fp have "0 \<le> ?d * 1000 div free_pages ?info"
      by (simp add: pos_imp_zdiv_nonneg_iff)
    moreover have "?d * 1000 \<le> free_pages ?info * 1000"
      using pos by simp
    then have "?d * 1000 div free_pages ?info \<le> free_pages ?info * 1000 div free_pages ?info"
      using fp by (intro zdiv_mono1) auto
    ultimately show ?thesis
      using fp by (simp add: unusable_free_index_def)
  qed (simp add: unusable_free_index_def)
  with suit show ?thesis
    by (simp add: Let_def)
qed

section \<open>The theorems on the small machine\<close>

lemma sample_bounded: "stat_bounded 1 sample_state"
  by (simp add: stat_bounded_def cpu_threshold_def cpu_diff_def zone_at_def sample_defs)

theorem counter_run_exact_witness:
  "let t = counter_run [(sample_env, 0, NR_MLOCK, OpInc), (sample_env, 0, NR_MLOCK, OpMod 200)] sample_state
   in zone_count 1 t 0 NR_MLOCK = 201 \<and> stat_bounded 1 t
      \<and> \<bar>zone_count 1 t 0 NR_MLOCK - z_vm_stat (zone_at t 0) NR_MLOCK\<bar> \<le> 125"
  using counter_run_exact [OF sample_bounded, of
      "[(sample_env, 0, NR_MLOCK, OpInc), (sample_env, 0, NR_MLOCK, OpMod 200)]" 0 NR_MLOCK]
  by (simp add: Let_def zone_count_def cpu_diff_def zone_at_def sample_defs)

theorem refresh_cpu_vm_stats_exact_witness:
  "let s = counter_step sample_env 0 NR_MLOCK OpInc sample_state;
       t = refresh_cpu_vm_stats sample_env 0 s; zs = for_each_populated_zone sample_env s
   in zone_count 1 t 0 NR_MLOCK = zone_count 1 s 0 NR_MLOCK
      \<and> global_count 1 zs t NR_MLOCK = global_count 1 zs s NR_MLOCK
      \<and> 0 \<in> set zs \<and> cpu_diff t 0 0 NR_MLOCK = 0"
  using refresh_cpu_vm_stats_exact [of 0 1 sample_env
      "counter_step sample_env 0 NR_MLOCK OpInc sample_state" 0 NR_MLOCK]
  by (simp add: Let_def zone_stat_defs sample_defs for_each_populated_zone_def populated_zone_def
      zone_at_def k__inc_zone_state_def upd_zone_def write_diff_def this_cpu_threshold_def
      this_cpu_diff_def)

theorem threshold_range_witness:
  "1 \<le> calculate_pressure_threshold sample_env sample_zone
   \<and> calculate_pressure_threshold sample_env sample_zone \<le> 125
   \<and> 2 \<le> calculate_normal_threshold sample_env sample_zone
   \<and> calculate_normal_threshold sample_env sample_zone \<le> 125"
  using threshold_range [of sample_env sample_zone] by (simp add: sample_env_def)

theorem unusable_free_index_range_witness:
  "let info = fill_contig_page_info sample_zone 3 in
    free_blocks_suitable info * 2 ^ 3 \<le> free_pages info
    \<and> 0 \<le> unusable_free_index 3 info \<and> unusable_free_index 3 info \<le> 1000"
  using unusable_free_index_range [of sample_zone 3] by (simp add: sample_zone_def)

end
