(* ===== verification/Lru_Lists.thy ===== *)
theory Lru_Lists
  imports Page_Flags Vm_Stat
begin

text \<open>
  \<open>Linux/mm_inline.h\<close>: which LRU list a page belongs on, and adding it to or taking it off a
  zone's list together with the zone counter of that list; and the zone flags of
  \<open>Linux/mmzone.h\<close>. The list node \<open>page->lru\<close> sits on at most one list, and \<open>list_del\<close> takes
  it off that list whatever list index the caller has in mind: the index passed to
  \<open>del_page_from_lru_list\<close> decides only which counter is decremented. The accounting lemmas
  say when the two agree. (The memory controller is not configured: the \<open>mem_cgroup\<close> calls
  are empty.)
\<close>

section \<open>Zone flags\<close>

datatype zone_flags_t = ZONE_RECLAIM_LOCKED | ZONE_OOM_LOCKED | ZONE_CONGESTED

primrec zone_flag_nr :: "zone_flags_t \<Rightarrow> nat" where
  "zone_flag_nr ZONE_RECLAIM_LOCKED = 0"
| "zone_flag_nr ZONE_OOM_LOCKED = 1"
| "zone_flag_nr ZONE_CONGESTED = 2"

definition zone_set_flag :: "zone_ptr \<Rightarrow> zone_flags_t \<Rightarrow> kstate \<Rightarrow> kstate" where
  "zone_set_flag z f = upd_zone z (\<lambda>zn. zn\<lparr>z_flags := set_bit (zone_flag_nr f) (z_flags zn)\<rparr>)"

definition zone_clear_flag :: "zone_ptr \<Rightarrow> zone_flags_t \<Rightarrow> kstate \<Rightarrow> kstate" where
  "zone_clear_flag z f = upd_zone z (\<lambda>zn. zn\<lparr>z_flags := unset_bit (zone_flag_nr f) (z_flags zn)\<rparr>)"

definition zone_test_flag :: "zone_ptr \<Rightarrow> zone_flags_t \<Rightarrow> kstate \<Rightarrow> bool" where
  "zone_test_flag z f s = bit (z_flags (zone_at s z)) (zone_flag_nr f)"

definition zone_test_and_set_flag :: "zone_ptr \<Rightarrow> zone_flags_t \<Rightarrow> kstate \<Rightarrow> bool \<times> kstate" where
  "zone_test_and_set_flag z f s = (zone_test_flag z f s, zone_set_flag z f s)"

abbreviation zone_is_reclaim_congested :: "zone_ptr \<Rightarrow> kstate \<Rightarrow> bool" where
  "zone_is_reclaim_congested z \<equiv> zone_test_flag z ZONE_CONGESTED"
abbreviation zone_is_reclaim_locked :: "zone_ptr \<Rightarrow> kstate \<Rightarrow> bool" where
  "zone_is_reclaim_locked z \<equiv> zone_test_flag z ZONE_RECLAIM_LOCKED"
abbreviation zone_is_oom_locked :: "zone_ptr \<Rightarrow> kstate \<Rightarrow> bool" where
  "zone_is_oom_locked z \<equiv> zone_test_flag z ZONE_OOM_LOCKED"

section \<open>Which list a page belongs on\<close>

definition page_is_file_cache :: "page_ptr \<Rightarrow> kstate \<Rightarrow> bool" where
  "page_is_file_cache p s \<longleftrightarrow> \<not> PageSwapBacked p s"

definition page_lru_base_type :: "page_ptr \<Rightarrow> kstate \<Rightarrow> lru_list" where
  "page_lru_base_type p s =
     (let l = (if PageLinked p s then LRU_LINKED else LRU_BASE) in
      if page_is_file_cache p s then LRU_INACTIVE_FILE + l else LRU_INACTIVE_ANON + l)"

definition page_lru :: "page_ptr \<Rightarrow> kstate \<Rightarrow> lru_list" where
  "page_lru p s =
     (if PageUnevictable p s then LRU_UNEVICTABLE
      else let lru = page_lru_base_type p s
           in if PageActive p s then lru + LRU_ACTIVE else lru)"

lemma page_lru_base_type_range: "page_lru_base_type p s < 8" "even (page_lru_base_type p s)"
  by (auto simp: page_lru_base_type_def lru_list_defs Let_def)

lemma page_lru_range [simp]: "page_lru p s < NR_LRU_LISTS"
  by (auto simp: page_lru_def page_lru_base_type_def lru_list_defs Let_def)

text \<open>
  The list index arithmetic is consistent with the classification of the lists: the list
  of a page is the unevictable one exactly when the page is unevictable, and otherwise it is a
  file list, an active list, a linked list exactly when the page is file backed, active, a
  member of a memory chain; distinct answers give distinct lists.
\<close>

theorem page_lru_classified:
  "is_unevictable_lru (page_lru p s) = PageUnevictable p s
   \<and> (\<not> PageUnevictable p s \<longrightarrow>
        is_file_lru (page_lru p s) = page_is_file_cache p s
      \<and> is_active_lru (page_lru p s) = PageActive p s
      \<and> is_linked_lru (page_lru p s) = PageLinked p s)
   \<and> (page_lru p s = page_lru q t \<longleftrightarrow>
        PageUnevictable p s = PageUnevictable q t \<and> (\<not> PageUnevictable p s \<longrightarrow>
          page_is_file_cache p s = page_is_file_cache q t \<and> PageActive p s = PageActive q t
          \<and> PageLinked p s = PageLinked q t))"
  by (auto simp: page_lru_def page_lru_base_type_def Let_def is_unevictable_lru_def
      is_file_lru_def is_active_lru_def is_linked_lru_def lru_list_defs)

section \<open>Adding to and deleting from the lists\<close>

text \<open>
  A place in the lists of a zone, as \<open>list_add\<close> takes it: behind the head of a list, or
  behind the node before a given page.
\<close>

datatype list_pos = ListHead lru_list | BeforePage page_ptr

fun insert_before :: "'a \<Rightarrow> 'a \<Rightarrow> 'a list \<Rightarrow> 'a list" where
  "insert_before x y [] = []"
| "insert_before x y (z # zs) = (if z = y then x # z # zs else z # insert_before x y zs)"

primrec lru_insert :: "page_ptr \<Rightarrow> list_pos \<Rightarrow> zone \<Rightarrow> zone" where
  "lru_insert p (ListHead l) zn = zn\<lparr>z_lru := (z_lru zn)(l := p # z_lru zn l)\<rparr>"
| "lru_insert p (BeforePage q) zn = zn\<lparr>z_lru := (\<lambda>l. insert_before p q (z_lru zn l))\<rparr>"

definition on_lru :: "page_ptr \<Rightarrow> zone \<Rightarrow> bool" where
  "on_lru p zn \<longleftrightarrow> list_ex (\<lambda>l. p \<in> set (z_lru zn l)) for_each_lru"

definition lru_remove :: "page_ptr \<Rightarrow> zone \<Rightarrow> zone" where
  "lru_remove p zn = zn\<lparr>z_lru := (\<lambda>l. removeAll p (z_lru zn l))\<rparr>"

text \<open>\<open>list_del(&page->lru)\<close>: following the poisoned links of a node on no list fails.\<close>

definition lru_list_del :: "zone_ptr \<Rightarrow> page_ptr \<Rightarrow> kstate \<Rightarrow> kstate option" where
  "lru_list_del z p s =
     (if on_lru p (zone_at s z) then Some (upd_zone z (lru_remove p) s) else None)"

definition k__add_page_to_lru_list ::
  "kenv \<Rightarrow> zone_ptr \<Rightarrow> page_ptr \<Rightarrow> lru_list \<Rightarrow> list_pos \<Rightarrow> kstate \<Rightarrow> kstate" where
  "k__add_page_to_lru_list E z p l head s =
     k__mod_zone_page_state E z (NR_LRU_BASE + l) (hpage_nr_pages E p)
       (upd_zone z (lru_insert p head) s)"

definition add_page_to_lru_list ::
  "kenv \<Rightarrow> zone_ptr \<Rightarrow> page_ptr \<Rightarrow> lru_list \<Rightarrow> kstate \<Rightarrow> kstate" where
  "add_page_to_lru_list E z p l = k__add_page_to_lru_list E z p l (ListHead l)"

definition del_page_from_lru_list ::
  "kenv \<Rightarrow> zone_ptr \<Rightarrow> page_ptr \<Rightarrow> lru_list \<Rightarrow> kstate \<Rightarrow> kstate option" where
  "del_page_from_lru_list E z p l s = do {
     s \<leftarrow> lru_list_del z p s;
     Some (k__mod_zone_page_state E z (NR_LRU_BASE + l) (- hpage_nr_pages E p) s)
   }"

definition del_page_from_lru :: "kenv \<Rightarrow> zone_ptr \<Rightarrow> page_ptr \<Rightarrow> kstate \<Rightarrow> kstate option" where
  "del_page_from_lru E z p s = do {
     s \<leftarrow> lru_list_del z p s;
     let (l, s) =
       (if PageUnevictable p s then (LRU_UNEVICTABLE, ClearPageUnevictable p s)
        else let l = page_lru_base_type p s
             in if PageActive p s then (l + LRU_ACTIVE, ClearPageActive p s) else (l, s));
     Some (k__mod_zone_page_state E z (NR_LRU_BASE + l) (- hpage_nr_pages E p) s)
   }"

section \<open>Frame facts\<close>

lemma zone_page_state_add_frame [simp]:
  "k_pages (zone_page_state_add x z i s) = k_pages s"
  "k_chains (zone_page_state_add x z i s) = k_chains s"
  "k_held (zone_page_state_add x z i s) = k_held s"
  "k_mccs (zone_page_state_add x z i s) = k_mccs s"
  "k_task_mcc (zone_page_state_add x z i s) = k_task_mcc s"
  "k_lru_add_pvecs (zone_page_state_add x z i s) = k_lru_add_pvecs s"
  "k_lru_rotate_pvecs (zone_page_state_add x z i s) = k_lru_rotate_pvecs s"
  "k_vm_events (zone_page_state_add x z i s) = k_vm_events s"
  "z_lru (zone_at (zone_page_state_add x z i s) y) = z_lru (zone_at s y)"
  "z_free_area (zone_at (zone_page_state_add x z i s) y) = z_free_area (zone_at s y)"
  by (simp_all add: zone_page_state_add_def zone_at_def upd_zone_def)

lemma z_write_diff [simp]:
  "z_lru (write_diff c i v zn) = z_lru zn" "z_free_area (write_diff c i v zn) = z_free_area zn"
  by (simp_all add: write_diff_def)

lemma mod_state_frame [simp]:
  "k_pages (k__mod_zone_page_state E z i d s) = k_pages s"
  "k_chains (k__mod_zone_page_state E z i d s) = k_chains s"
  "k_held (k__mod_zone_page_state E z i d s) = k_held s"
  "k_mccs (k__mod_zone_page_state E z i d s) = k_mccs s"
  "k_task_mcc (k__mod_zone_page_state E z i d s) = k_task_mcc s"
  "k_lru_add_pvecs (k__mod_zone_page_state E z i d s) = k_lru_add_pvecs s"
  "k_lru_rotate_pvecs (k__mod_zone_page_state E z i d s) = k_lru_rotate_pvecs s"
  "k_vm_events (k__mod_zone_page_state E z i d s) = k_vm_events s"
  "z_lru (zone_at (k__mod_zone_page_state E z i d s) y) = z_lru (zone_at s y)"
  "z_free_area (zone_at (k__mod_zone_page_state E z i d s) y) = z_free_area (zone_at s y)"
  by (simp_all add: k__mod_zone_page_state_def Let_def zone_at_upd_zone)

lemma page_readers_cong:
  assumes "k_pages s = k_pages t"
  shows "page_at s p = page_at t p" "test_bit f p s = test_bit f p t"
    "PageLinked p s = PageLinked p t" "page_lru p s = page_lru p t"
    "page_lru_base_type p s = page_lru_base_type p t"
  using assms
  by (simp_all add: page_at_def test_bit_def PageLinked_def page_lru_def page_lru_base_type_def
      page_is_file_cache_def)

lemma mod_state_page [simp]:
  "page_at (k__mod_zone_page_state E z i d s) p = page_at s p"
  "test_bit f p (k__mod_zone_page_state E z i d s) = test_bit f p s"
  "PageLinked p (k__mod_zone_page_state E z i d s) = PageLinked p s"
  "page_lru p (k__mod_zone_page_state E z i d s) = page_lru p s"
  by (rule page_readers_cong, simp)+

lemma upd_zone_page [simp]:
  "PageLinked p (upd_zone z g s) = PageLinked p s" "page_lru p (upd_zone z g s) = page_lru p s"
  by (rule page_readers_cong, simp)+

lemma zone_count_cong:
  assumes "\<And>z. z_vm_stat (zone_at s z) = z_vm_stat (zone_at t z)"
    and "\<And>z. z_pageset (zone_at s z) = z_pageset (zone_at t z)"
  shows "zone_count n s = zone_count n t"
  using assms by (simp add: zone_count_def cpu_diff_def fun_eq_iff)

lemma zone_count_frame [simp]:
  "zone_count n (upd_page p f s) = zone_count n s"
  "zone_count n (s\<lparr>k_held := H\<rparr>) = zone_count n s"
  "zone_count n (set_bit_k g p s) = zone_count n s"
  "zone_count n (clear_bit_k g p s) = zone_count n s"
  "zone_count n (upd_zone z (lru_remove p) s) = zone_count n s"
  "zone_count n (upd_zone z (lru_insert p h) s) = zone_count n s"
  "zone_count n (count_vm_events E e k s) = zone_count n s"
  by (rule zone_count_cong; cases h; simp add: zone_at_upd_zone lru_remove_def)+

section \<open>Accounting of the lists\<close>

text \<open>
  A page is on at most one list and once (\<open>lru_wf\<close>); the counter of each list is the number of
  base pages on it (\<open>lru_acct\<close>); every page on a list has \<open>PG_lru\<close> and is on the list its
  flags and its chain say (\<open>lru_placed\<close>). \<open>n\<close> bounds the CPUs whose counter bytes are counted.
\<close>

definition lru_wf :: "kstate \<Rightarrow> zone_ptr \<Rightarrow> bool" where
  "lru_wf s z \<longleftrightarrow>
     (\<forall>l. distinct (z_lru (zone_at s z) l))
   \<and> (\<forall>l m p. p \<in> set (z_lru (zone_at s z) l) \<longrightarrow> p \<in> set (z_lru (zone_at s z) m) \<longrightarrow> l = m)
   \<and> (\<forall>l p. p \<in> set (z_lru (zone_at s z) l) \<longrightarrow> l < NR_LRU_LISTS)"

definition lru_size :: "kenv \<Rightarrow> kstate \<Rightarrow> zone_ptr \<Rightarrow> lru_list \<Rightarrow> int" where
  "lru_size E s z l = (\<Sum>p \<leftarrow> z_lru (zone_at s z) l. hpage_nr_pages E p)"

text \<open>How far the counter of a list is from the list.\<close>

definition lru_drift :: "kenv \<Rightarrow> nat \<Rightarrow> kstate \<Rightarrow> zone_ptr \<Rightarrow> lru_list \<Rightarrow> int" where
  "lru_drift E n s z l = zone_count n s z (NR_LRU_BASE + l) - lru_size E s z l"

definition lru_acct :: "kenv \<Rightarrow> nat \<Rightarrow> kstate \<Rightarrow> zone_ptr \<Rightarrow> bool" where
  "lru_acct E n s z \<longleftrightarrow> (\<forall>l. lru_drift E n s z l = 0)"

definition lru_placed :: "kstate \<Rightarrow> zone_ptr \<Rightarrow> bool" where
  "lru_placed s z \<longleftrightarrow>
     (\<forall>l p. p \<in> set (z_lru (zone_at s z) l) \<longrightarrow> PageLRU p s \<and> page_lru p s = l)"

lemma on_lru_iff: "on_lru p zn \<longleftrightarrow> (\<exists>l < NR_LRU_LISTS. p \<in> set (z_lru zn l))"
  by (auto simp: on_lru_def for_each_lru_def list_ex_iff)

lemma on_lru_wf: "lru_wf s z \<Longrightarrow> on_lru p (zone_at s z) \<longleftrightarrow> (\<exists>l. p \<in> set (z_lru (zone_at s z) l))"
  by (auto simp: on_lru_iff lru_wf_def)

lemma z_lru_remove [simp]: "z_lru (lru_remove p zn) l = removeAll p (z_lru zn l)"
  by (simp add: lru_remove_def)

lemma lru_wf_remove: "lru_wf s z \<Longrightarrow> lru_wf (upd_zone z (lru_remove p) s) z"
  by (auto simp: lru_wf_def zone_at_upd_zone distinct_removeAll)

lemma lru_wf_insert:
  assumes "lru_wf s z" and "\<not> on_lru p (zone_at s z)" and "l < NR_LRU_LISTS"
  shows "lru_wf (upd_zone z (lru_insert p (ListHead l)) s) z"
  using assms by (auto simp: lru_wf_def zone_at_upd_zone on_lru_wf)

lemma lru_wf_mod [simp]: "lru_wf (k__mod_zone_page_state E z i d s) y = lru_wf s y"
  by (simp add: lru_wf_def)

lemma lru_size_mod [simp]: "lru_size E (k__mod_zone_page_state E' z i d s) y l = lru_size E s y l"
  by (simp add: lru_size_def)

lemma lru_size_insert:
  "lru_size E (upd_zone z (lru_insert p (ListHead l)) s) z m =
     lru_size E s z m + (if m = l then hpage_nr_pages E p else 0)"
  by (simp add: lru_size_def zone_at_upd_zone)

lemma lru_size_remove:
  assumes "lru_wf s z" and "p \<in> set (z_lru (zone_at s z) l)"
  shows "lru_size E (upd_zone z (lru_remove p) s) z m =
     lru_size E s z m - (if m = l then hpage_nr_pages E p else 0)"
proof (cases "m = l")
  case True
  with assms show ?thesis
    by (simp add: lru_size_def zone_at_upd_zone lru_wf_def sum_list_map_removeAll)
next
  case False
  with assms have "p \<notin> set (z_lru (zone_at s z) m)"
    by (auto simp: lru_wf_def)
  with False show ?thesis
    by (simp add: lru_size_def zone_at_upd_zone)
qed

lemma NR_LRU_plus_inj [simp]: "NR_LRU_BASE + l = NR_LRU_BASE + m \<longleftrightarrow> l = m"
  by simp

lemma lru_drift_add:
  assumes "cur_cpu E < n"
  shows "lru_drift E n (add_page_to_lru_list E z p l s) z m = lru_drift E n s z m"
  using assms
  by (simp add: lru_drift_def add_page_to_lru_list_def k__add_page_to_lru_list_def
      vmstat.val_modz lru_size_insert)

lemma lru_drift_del:
  assumes "cur_cpu E < n" and "lru_wf s z" and "p \<in> set (z_lru (zone_at s z) k)"
    and "del_page_from_lru_list E z p l s = Some t"
  shows "lru_drift E n t z m = lru_drift E n s z m
    + (if m = k then hpage_nr_pages E p else 0) - (if m = l then hpage_nr_pages E p else 0)"
proof -
  from assms(4) have "t = k__mod_zone_page_state E z (NR_LRU_BASE + l) (- hpage_nr_pages E p)
      (upd_zone z (lru_remove p) s)"
    by (auto simp: del_page_from_lru_list_def lru_list_del_def split: if_splits)
  with assms show ?thesis
    by (simp add: lru_drift_def vmstat.val_modz lru_size_remove [OF assms(2,3)])
qed

lemma del_page_from_lru_list_Some:
  assumes "lru_wf s z" and "p \<in> set (z_lru (zone_at s z) k)"
  shows "del_page_from_lru_list E z p l s = Some (k__mod_zone_page_state E z (NR_LRU_BASE + l)
    (- hpage_nr_pages E p) (upd_zone z (lru_remove p) s))"
  using assms by (auto simp: del_page_from_lru_list_def lru_list_del_def on_lru_wf)

text \<open>The flags that \<open>del_page_from_lru\<close> clears on its way.\<close>

definition clear_lru_state :: "page_ptr \<Rightarrow> kstate \<Rightarrow> kstate" where
  "clear_lru_state p s = (if PageUnevictable p s then ClearPageUnevictable p s
     else if PageActive p s then ClearPageActive p s else s)"

lemma del_page_from_lru_eq:
  "del_page_from_lru E z p s = (if on_lru p (zone_at s z)
     then Some (k__mod_zone_page_state E z (NR_LRU_BASE + page_lru p s) (- hpage_nr_pages E p)
       (clear_lru_state p (upd_zone z (lru_remove p) s)))
     else None)"
  by (auto simp: del_page_from_lru_def lru_list_del_def clear_lru_state_def page_lru_def Let_def
      page_lru_base_type_def page_is_file_cache_def)

lemma clear_lru_state_frame [simp]:
  "zone_at (clear_lru_state p s) z = zone_at s z" "k_held (clear_lru_state p s) = k_held s"
  "k_chains (clear_lru_state p s) = k_chains s" "zone_count n (clear_lru_state p s) = zone_count n s"
  "PageLinked q (clear_lru_state p s) = PageLinked q s"
  "lru_size E (clear_lru_state p s) z l = lru_size E s z l"
  "lru_wf (clear_lru_state p s) z = lru_wf s z"
  by (simp_all add: clear_lru_state_def lru_size_def lru_wf_def)

lemma del_page_from_lru_spec:
  assumes "cur_cpu E < n" and "lru_wf s z" and "p \<in> set (z_lru (zone_at s z) k)"
  shows "\<exists>t. del_page_from_lru E z p s = Some t
    \<and> lru_wf t z \<and> \<not> on_lru p (zone_at t z)
    \<and> (\<forall>m. lru_drift E n t z m = lru_drift E n s z m
         + (if m = k then hpage_nr_pages E p else 0)
         - (if m = page_lru p s then hpage_nr_pages E p else 0))"
proof -
  let ?t = "k__mod_zone_page_state E z (NR_LRU_BASE + page_lru p s) (- hpage_nr_pages E p)
       (clear_lru_state p (upd_zone z (lru_remove p) s))"
  have "on_lru p (zone_at s z)"
    using assms by (auto simp: on_lru_wf)
  then have "del_page_from_lru E z p s = Some ?t"
    by (simp add: del_page_from_lru_eq)
  moreover have "lru_wf ?t z"
    using assms(2) by (simp add: lru_wf_remove)
  moreover have "\<not> on_lru p (zone_at ?t z)"
    by (simp add: on_lru_iff zone_at_upd_zone)
  ultimately show ?thesis
    using assms by (auto simp: lru_drift_def vmstat.val_modz lru_size_remove [OF assms(2,3)])
qed

text \<open>
  C19. \<open>del_page_from_lru\<close> on a page that is on a list takes it off that list, and keeps every
  counter equal to its list exactly when the list is the one the page's flags and its chain
  membership name. When they name another list \<open>m\<close> (as after a page on a list is linked to a
  chain, which moves no page), the counter of the real list stays too high and the counter of
  \<open>m\<close> becomes too low by the size of the page.
\<close>

theorem del_page_from_lru_drift:
  assumes "cur_cpu E < n" and "lru_wf s z" and "p \<in> set (z_lru (zone_at s z) k)"
  shows "\<exists>t. del_page_from_lru E z p s = Some t
    \<and> lru_wf t z \<and> \<not> on_lru p (zone_at t z)
    \<and> (\<forall>m. lru_drift E n t z m = lru_drift E n s z m
         + (if m = k then hpage_nr_pages E p else 0)
         - (if m = page_lru p s then hpage_nr_pages E p else 0))"
  using assms by (rule del_page_from_lru_spec)

lemma lru_placed_cong:
  assumes "lru_placed s z" and "\<And>l q. q \<in> set (z_lru (zone_at t z) l) \<Longrightarrow>
    q \<in> set (z_lru (zone_at s z) l) \<and> page_at t q = page_at s q"
  shows "lru_placed t z"
  using assms
  by (fastforce simp: lru_placed_def test_bit_def page_lru_def page_lru_base_type_def
      page_is_file_cache_def PageLinked_def Let_def)

lemma page_at_clear_lru: "q \<noteq> p \<Longrightarrow> page_at (clear_lru_state p s) q = page_at s q"
  by (simp add: clear_lru_state_def set_bit_k_def clear_bit_k_def page_at_upd_page)

lemma page_at_bits_other:
  "q \<noteq> p \<Longrightarrow> page_at (set_bit_k f p s) q = page_at s q"
  "q \<noteq> p \<Longrightarrow> page_at (clear_bit_k f p s) q = page_at s q"
  by (simp_all add: set_bit_k_def clear_bit_k_def page_at_upd_page)

definition lru_ok :: "kenv \<Rightarrow> nat \<Rightarrow> kstate \<Rightarrow> zone_ptr \<Rightarrow> bool" where
  "lru_ok E n s z \<longleftrightarrow> lru_wf s z \<and> lru_acct E n s z \<and> lru_placed s z"

lemma lru_ok_keep:
  assumes "cur_cpu E < n" and "lru_ok E n s z"
  shows "(on_lru p (zone_at s z) \<longrightarrow>
      (\<exists>t. del_page_from_lru E z p s = Some t \<and> lru_ok E n t z \<and> \<not> on_lru p (zone_at t z)))
    \<and> (\<not> on_lru p (zone_at s z) \<and> PageLRU p s \<longrightarrow>
        lru_ok E n (add_page_to_lru_list E z p (page_lru p s) s) z)"
proof (intro conjI impI)
  note ok = assms(2) [unfolded lru_ok_def]
  assume "on_lru p (zone_at s z)"
  then obtain k where k: "p \<in> set (z_lru (zone_at s z) k)"
    using ok by (auto simp: on_lru_wf)
  then have "page_lru p s = k"
    using ok by (auto simp: lru_placed_def)
  with del_page_from_lru_spec [OF assms(1) _ k] ok obtain t where
    t: "del_page_from_lru E z p s = Some t" "lru_wf t z" "\<not> on_lru p (zone_at t z)" "lru_acct E n t z"
    by (auto simp: lru_acct_def)
  have "lru_placed t z"
  proof (rule lru_placed_cong)
    show "lru_placed s z" using ok by simp
    fix l q assume q: "q \<in> set (z_lru (zone_at t z) l)"
    with t(2,3) have "q \<noteq> p" by (auto simp: on_lru_wf)
    with q t(1) show "q \<in> set (z_lru (zone_at s z) l) \<and> page_at t q = page_at s q"
      by (auto simp: del_page_from_lru_eq zone_at_upd_zone page_at_clear_lru split: if_splits)
  qed
  with t show "\<exists>t. del_page_from_lru E z p s = Some t \<and> lru_ok E n t z \<and> \<not> on_lru p (zone_at t z)"
    by (auto simp: lru_ok_def)
next
  note ok = assms(2) [unfolded lru_ok_def]
  assume p: "\<not> on_lru p (zone_at s z) \<and> PageLRU p s"
  let ?t = "add_page_to_lru_list E z p (page_lru p s) s"
  have "lru_wf ?t z"
    using ok p by (simp add: add_page_to_lru_list_def k__add_page_to_lru_list_def lru_wf_insert)
  moreover have "lru_acct E n ?t z"
    using ok assms(1) by (simp add: lru_acct_def lru_drift_add)
  moreover have "lru_placed ?t z"
    using ok p by (auto simp: lru_placed_def add_page_to_lru_list_def k__add_page_to_lru_list_def
        zone_at_upd_zone)
  ultimately show "lru_ok E n ?t z"
    by (simp add: lru_ok_def)
qed

text \<open>
  On lists that are in order (every page where its flags say, every counter right), a page
  can be deleted and a page with \<open>PG_lru\<close> added on the list \<open>page_lru\<close> names: both leave the
  lists in order, whatever CPU runs them.
\<close>

theorem lru_ok_preserved:
  assumes "cur_cpu E < n" and "lru_ok E n s z"
  shows "(on_lru p (zone_at s z) \<longrightarrow>
      (\<exists>t. del_page_from_lru E z p s = Some t \<and> lru_ok E n t z \<and> \<not> on_lru p (zone_at t z)))
    \<and> (\<not> on_lru p (zone_at s z) \<and> PageLRU p s \<longrightarrow>
        lru_ok E n (add_page_to_lru_list E z p (page_lru p s) s) z)"
  using assms by (rule lru_ok_keep)

section \<open>The theorems on the small machine\<close>

text \<open>Page 7 on the inactive file list, with the counter of that list at 1.\<close>

definition lru_sample :: kstate where
  "lru_sample = add_page_to_lru_list sample_env 0 7 LRU_INACTIVE_FILE (SetPageLRU 7 sample_state)"

lemma sample_cpu: "cur_cpu sample_env < 1"
  by (simp add: sample_env_def)

lemma sample_lru_ok: "lru_ok sample_env 1 (SetPageLRU p sample_state) 0"
  by (simp add: lru_ok_def lru_wf_def lru_acct_def lru_placed_def lru_drift_def lru_size_def
      zone_count_def cpu_diff_def zone_at_def sample_defs)

lemma page_lru_sample: "page_lru 7 (SetPageLRU 7 sample_state) = LRU_INACTIVE_FILE"
  by (simp add: page_lru_def page_lru_base_type_def page_is_file_cache_def PageLinked_def
      test_bit_def page_at_def set_bit_k_def upd_page_def sample_defs lru_list_defs Let_def)

lemma lru_sample_list: "z_lru (zone_at lru_sample 0) LRU_INACTIVE_FILE = [7]"
  by (simp add: lru_sample_def add_page_to_lru_list_def k__add_page_to_lru_list_def
      zone_at_upd_zone) (simp add: zone_at_def sample_defs)

lemma sample_off_lru: "\<not> on_lru p (zone_at sample_state z)"
  by (simp add: on_lru_iff zone_at_def sample_defs)

theorem lru_ok_preserved_witness:
  "lru_ok sample_env 1 lru_sample 0"
  using lru_ok_preserved [OF sample_cpu sample_lru_ok, of 7 7]
  by (simp add: lru_sample_def page_lru_sample sample_off_lru)

theorem del_page_from_lru_drift_witness:
  "\<exists>t. del_page_from_lru sample_env 0 7 lru_sample = Some t \<and> lru_wf t 0
     \<and> \<not> on_lru 7 (zone_at t 0)"
proof -
  have "lru_wf lru_sample 0"
    using sample_lru_ok [of 7]
    by (simp add: lru_sample_def add_page_to_lru_list_def k__add_page_to_lru_list_def lru_ok_def
        lru_wf_def zone_at_upd_zone) (auto simp: zone_at_def sample_defs lru_list_defs)
  from del_page_from_lru_drift [OF sample_cpu this, of 7 LRU_INACTIVE_FILE] show ?thesis
    by (auto simp: lru_sample_list)
qed

theorem page_lru_classified_witness:
  "is_file_lru (page_lru 7 linked_state) \<and> is_linked_lru (page_lru 7 linked_state)
   \<and> \<not> is_active_lru (page_lru 7 linked_state)
   \<and> page_lru 7 linked_state \<noteq> page_lru 7 sample_state"
  using page_lru_classified [of 7 linked_state 7 sample_state]
  by (simp add: page_is_file_cache_def test_bit_def page_at_def PageLinked_def linked_state_def
      sample_defs)

end
