(* ===== verification/Buddy.thy ===== *)
theory Buddy
  imports Chain_Ops Lru_Lists
begin

text \<open>
  The page allocator proper of \<open>Linux/page_alloc.c\<close>: compound pages, the buddy lists, freeing
  (\<open>__free_one_page\<close>, the per-CPU lists, \<open>free_pages_prepare\<close> with the unlinking of a freed page
  from its memory chain) and allocating (\<open>__rmqueue\<close>, \<open>rmqueue_bulk\<close>, \<open>buffered_rmqueue\<close>).
  A page is in the buddy system when its \<open>_mapcount\<close> is -2. Report and trace output
  (\<open>bad_page\<close>'s printing) has no state. Page contents are not modelled.
\<close>

section \<open>Page fields\<close>

definition set_page_private :: "page_ptr \<Rightarrow> nat \<Rightarrow> kstate \<Rightarrow> kstate" where
  "set_page_private p v = upd_page p (\<lambda>pg. pg\<lparr>pg_private := v\<rparr>)"

definition page_order :: "page_ptr \<Rightarrow> kstate \<Rightarrow> nat" where
  "page_order p s = pg_private (page_at s p)"

definition set_page_count :: "page_ptr \<Rightarrow> int \<Rightarrow> kstate \<Rightarrow> kstate" where
  "set_page_count p v = upd_page p (\<lambda>pg. pg\<lparr>pg_count := v\<rparr>)"

definition set_page_refcounted :: "page_ptr \<Rightarrow> kstate \<Rightarrow> kstate option" where
  "set_page_refcounted p s =
     (if PageTail p s \<or> pg_count (page_at s p) \<noteq> 0 then None else Some (set_page_count p 1 s))"

definition k__put_page :: "page_ptr \<Rightarrow> kstate \<Rightarrow> kstate" where
  "k__put_page p = upd_page p (\<lambda>pg. pg\<lparr>pg_count := pg_count pg - 1\<rparr>)"

definition page_mapcount :: "page_ptr \<Rightarrow> kstate \<Rightarrow> int" where
  "page_mapcount p s = pg_mapcount (page_at s p) + 1"

definition set_mapcount :: "page_ptr \<Rightarrow> int \<Rightarrow> kstate \<Rightarrow> kstate" where
  "set_mapcount p v = upd_page p (\<lambda>pg. pg\<lparr>pg_mapcount := v\<rparr>)"

definition PageBuddy :: "page_ptr \<Rightarrow> kstate \<Rightarrow> bool" where
  "PageBuddy p s \<longleftrightarrow> pg_mapcount (page_at s p) = - 2"

definition k__SetPageBuddy :: "page_ptr \<Rightarrow> kstate \<Rightarrow> kstate option" where
  "k__SetPageBuddy p s =
     (if pg_mapcount (page_at s p) \<noteq> - 1 then None else Some (set_mapcount p (- 2) s))"

definition k__ClearPageBuddy :: "page_ptr \<Rightarrow> kstate \<Rightarrow> kstate option" where
  "k__ClearPageBuddy p s = (if \<not> PageBuddy p s then None else Some (set_mapcount p (- 1) s))"

definition PageAnon :: "page_ptr \<Rightarrow> kstate \<Rightarrow> bool" where
  "PageAnon p s \<longleftrightarrow> (case pg_mapping (page_at s p) of AnonMapping _ \<Rightarrow> True | _ \<Rightarrow> False)"

definition page_plus :: "page_ptr \<Rightarrow> int \<Rightarrow> page_ptr" where
  "page_plus p d = nat (int p + d)"

section \<open>Page blocks\<close>

definition pageblock_nr_pages :: "kenv \<Rightarrow> nat" where
  "pageblock_nr_pages E = 2 ^ pageblock_order E"

text \<open>
  A group of flags of the page block of a page, in the bitmap of its zone. \<open>value\<close> walks over the
  bits of the result while the index walks over the bits of the group. The flags are a number, which
  the \<open>unsigned long\<close> of the source holds as it is: a group has at most 32 bits (the only one is the
  three of the migrate type).
\<close>

definition pfn_to_bitidx :: "kenv \<Rightarrow> zone_ptr \<Rightarrow> page_ptr \<Rightarrow> kstate \<Rightarrow> nat" where
  "pfn_to_bitidx E z pfn s =
     (let pfn = unat (of_nat pfn - of_nat (z_start_pfn (zone_at s z)) :: ulong)
      in pfn div 2 ^ pageblock_order E * NR_PAGEBLOCK_BITS E)"

definition get_pageblock_flags_group :: "kenv \<Rightarrow> page_ptr \<Rightarrow> nat \<Rightarrow> nat \<Rightarrow> kstate \<Rightarrow> nat" where
  "get_pageblock_flags_group E page start_bitidx end_bitidx s =
     (let z = page_zone E page; bitidx = pfn_to_bitidx E z page s
      in fst (fold (\<lambda>i (flags, value). (if k_pageblock s z (bitidx + i) then flags OR value else flags, push_bit 1 value))
           [start_bitidx ..< Suc end_bitidx] (0, 1)))"

definition set_pageblock_flags_group ::
  "kenv \<Rightarrow> page_ptr \<Rightarrow> nat \<Rightarrow> nat \<Rightarrow> nat \<Rightarrow> kstate \<Rightarrow> kstate option" where
  "set_pageblock_flags_group E page flags start_bitidx end_bitidx s = do {
     let z = page_zone E page;
     let bitidx = pfn_to_bitidx E z page s;
     s \<leftarrow> guardK (page \<ge> z_start_pfn (zone_at s z)) s;
     s \<leftarrow> guardK (page < z_start_pfn (zone_at s z) + z_spanned_pages (zone_at s z)) s;
     Some (s\<lparr>k_pageblock := (k_pageblock s)(z := fst (fold
       (\<lambda>i (bitmap, value). (bitmap(bitidx + i := (flags AND value \<noteq> 0)), push_bit 1 value))
       [start_bitidx ..< Suc end_bitidx] (k_pageblock s z, 1 :: nat)))\<rparr>)
   }"

definition get_pageblock_migratetype :: "kenv \<Rightarrow> page_ptr \<Rightarrow> kstate \<Rightarrow> nat" where
  "get_pageblock_migratetype E p = get_pageblock_flags_group E p (PB_migrate E) (PB_migrate_end E)"

definition set_pageblock_migratetype :: "kenv \<Rightarrow> page_ptr \<Rightarrow> nat \<Rightarrow> kstate \<Rightarrow> kstate option" where
  "set_pageblock_migratetype E p migratetype s =
     (let migratetype = (if page_group_by_mobility_disabled E then MIGRATE_UNMOVABLE else migratetype)
      in set_pageblock_flags_group E p migratetype (PB_migrate E) (PB_migrate_end E) s)"

section \<open>Checks\<close>

definition page_outside_zone_boundaries :: "zone_ptr \<Rightarrow> page_ptr \<Rightarrow> kstate \<Rightarrow> bool" where
  "page_outside_zone_boundaries z p s =
     (p \<ge> z_start_pfn (zone_at s z) + z_spanned_pages (zone_at s z) \<or> p < z_start_pfn (zone_at s z))"

definition page_is_consistent :: "kenv \<Rightarrow> zone_ptr \<Rightarrow> page_ptr \<Rightarrow> bool" where
  "page_is_consistent E z p = (if \<not> pfn_valid_within E p then False else z = page_zone E p)"

definition bad_range :: "kenv \<Rightarrow> zone_ptr \<Rightarrow> page_ptr \<Rightarrow> kstate \<Rightarrow> bool" where
  "bad_range E z p s = (page_outside_zone_boundaries z p s \<or> \<not> page_is_consistent E z p)"

text \<open>Its lasting effect: the mark of the buddy system is taken off.\<close>

definition bad_page :: "page_ptr \<Rightarrow> kstate \<Rightarrow> kstate" where
  "bad_page p = set_mapcount p (- 1)"

section \<open>Compound pages\<close>

definition set_compound_order :: "page_ptr \<Rightarrow> nat \<Rightarrow> kstate \<Rightarrow> kstate" where
  "set_compound_order p order = upd_page p (\<lambda>pg. pg\<lparr>pg_comp_order := order\<rparr>)"

definition compound_order :: "page_ptr \<Rightarrow> kstate \<Rightarrow> nat" where
  "compound_order p s = (if PageHead p s then pg_comp_order (page_at s p) else 0)"

definition prep_compound_page :: "page_ptr \<Rightarrow> nat \<Rightarrow> kstate \<Rightarrow> kstate" where
  "prep_compound_page page order s =
     (let nr_pages = 2 ^ order;
          s = set_compound_order page order s;
          s = set_bit_k PG_head page s
      in fold (\<lambda>i s. let p = page + i
           in upd_page p (\<lambda>pg. pg\<lparr>pg_first_page := page\<rparr>) (set_bit_k PG_tail p s))
         [1..<nr_pages] s)"

definition destroy_compound_page :: "page_ptr \<Rightarrow> nat \<Rightarrow> kstate \<Rightarrow> int \<times> kstate" where
  "destroy_compound_page page order s =
     (let nr_pages = 2 ^ order;
          (bad, s) = (if compound_order page s \<noteq> order \<or> \<not> PageHead page s
                      then (1, bad_page page s) else (0, s));
          s = clear_bit_k PG_head page s
      in fold (\<lambda>i (bad, s). let p = page + i;
             (bad, s) = (if \<not> PageTail p s \<or> pg_first_page (page_at s p) \<noteq> page
                         then (bad + 1, bad_page page s) else (bad, s))
           in (bad, clear_bit_k PG_tail p s))
         [1..<nr_pages] (bad, s))"

section \<open>The buddy lists\<close>

definition set_page_order :: "page_ptr \<Rightarrow> nat \<Rightarrow> kstate \<Rightarrow> kstate option" where
  "set_page_order p order s = k__SetPageBuddy p (set_page_private p order s)"

definition rmv_page_order :: "page_ptr \<Rightarrow> kstate \<Rightarrow> kstate option" where
  "rmv_page_order p s = do {
     s \<leftarrow> k__ClearPageBuddy p s;
     Some (set_page_private p 0 s)
   }"

definition free_list :: "kstate \<Rightarrow> zone_ptr \<Rightarrow> nat \<Rightarrow> nat \<Rightarrow> page_ptr list" where
  "free_list s z order mt = fa_free_list (z_free_area (zone_at s z) order) mt"

definition upd_area :: "zone_ptr \<Rightarrow> nat \<Rightarrow> (free_area \<Rightarrow> free_area) \<Rightarrow> kstate \<Rightarrow> kstate" where
  "upd_area z order f = upd_zone z (\<lambda>zn. zn\<lparr>z_free_area :=
     (z_free_area zn)(order := f (z_free_area zn order))\<rparr>)"

definition add_nr_free :: "zone_ptr \<Rightarrow> nat \<Rightarrow> int \<Rightarrow> kstate \<Rightarrow> kstate" where
  "add_nr_free z order d = upd_area z order (\<lambda>fa. fa\<lparr>fa_nr_free := fa_nr_free fa + d\<rparr>)"

definition free_list_add :: "zone_ptr \<Rightarrow> nat \<Rightarrow> nat \<Rightarrow> page_ptr \<Rightarrow> kstate \<Rightarrow> kstate" where
  "free_list_add z order mt p = upd_area z order (\<lambda>fa. fa\<lparr>fa_free_list :=
     (fa_free_list fa)(mt := p # fa_free_list fa mt)\<rparr>)"

definition free_list_add_tail :: "zone_ptr \<Rightarrow> nat \<Rightarrow> nat \<Rightarrow> page_ptr \<Rightarrow> kstate \<Rightarrow> kstate" where
  "free_list_add_tail z order mt p = upd_area z order (\<lambda>fa. fa\<lparr>fa_free_list :=
     (fa_free_list fa)(mt := fa_free_list fa mt @ [p])\<rparr>)"

text \<open>\<open>list_del(&page->lru)\<close> of a page on a free list: it leaves whatever list it is on.\<close>

definition on_free_list :: "zone_ptr \<Rightarrow> page_ptr \<Rightarrow> kstate \<Rightarrow> bool" where
  "on_free_list z p s =
     list_ex (\<lambda>o'. list_ex (\<lambda>mt. p \<in> set (free_list s z o' mt)) [0..<MIGRATE_TYPES]) [0..<MAX_ORDER]"

definition free_list_del :: "zone_ptr \<Rightarrow> page_ptr \<Rightarrow> kstate \<Rightarrow> kstate option" where
  "free_list_del z p s =
     (if on_free_list z p s
      then Some (upd_zone z (\<lambda>zn. zn\<lparr>z_free_area := (\<lambda>o'. (z_free_area zn o')
             \<lparr>fa_free_list := (\<lambda>mt. removeAll p (fa_free_list (z_free_area zn o') mt))\<rparr>)\<rparr>) s)
      else None)"

definition k__find_buddy_index :: "nat \<Rightarrow> nat \<Rightarrow> nat" where
  "k__find_buddy_index page_idx order = page_idx XOR (2 ^ order)"

definition page_is_buddy :: "kenv \<Rightarrow> page_ptr \<Rightarrow> page_ptr \<Rightarrow> nat \<Rightarrow> kstate \<Rightarrow> bool option" where
  "page_is_buddy E page buddy order s =
     (if \<not> pfn_valid_within E buddy then Some False
      else if page_zone E page \<noteq> page_zone E buddy then Some False
      else if PageBuddy buddy s \<and> page_order buddy s = order
        then (if pg_count (page_at s buddy) \<noteq> 0 then None else Some True)
      else Some False)"

text \<open>
  The merging loop of \<open>__free_one_page\<close>. It returns \<open>page\<close>, \<open>page_idx\<close>, \<open>buddy_idx\<close>, \<open>buddy\<close> and
  \<open>order\<close> as they are when the loop ends.
\<close>

function free_merge ::
  "kenv \<Rightarrow> zone_ptr \<Rightarrow> page_ptr \<Rightarrow> nat \<Rightarrow> nat \<Rightarrow> page_ptr \<Rightarrow> nat \<Rightarrow> kstate \<Rightarrow>
     (page_ptr \<times> nat \<times> nat \<times> page_ptr \<times> nat \<times> kstate) option" where
  "free_merge E z page page_idx buddy_idx buddy order s =
     (if order < MAX_ORDER - 1 then do {
        let buddy_idx = k__find_buddy_index page_idx order;
        let buddy = page_plus page (int buddy_idx - int page_idx);
        is_buddy \<leftarrow> page_is_buddy E page buddy order s;
        if \<not> is_buddy then Some (page, page_idx, buddy_idx, buddy, order, s)
        else do {
          s \<leftarrow> free_list_del z buddy s;
          let s = add_nr_free z order (- 1) s;
          s \<leftarrow> rmv_page_order buddy s;
          let combined_idx = buddy_idx AND page_idx;
          let page = page_plus page (int combined_idx - int page_idx);
          free_merge E z page combined_idx buddy_idx buddy (order + 1) s
        }
      } else Some (page, page_idx, buddy_idx, buddy, order, s))"
  by pat_completeness auto
termination
  by (relation "measure (\<lambda>(E, z, page, page_idx, buddy_idx, buddy, order, s). MAX_ORDER - order)") auto

declare free_merge.simps [simp del]

definition k__free_one_page ::
  "kenv \<Rightarrow> page_ptr \<Rightarrow> zone_ptr \<Rightarrow> nat \<Rightarrow> nat \<Rightarrow> kstate \<Rightarrow> kstate option" where
  "k__free_one_page E page z order migratetype s =
     (let (bad, s) = (if PageCompound page s then destroy_compound_page page order s else (0, s))
      in if bad \<noteq> 0 then Some s
      else do {
        let page_idx = page AND (2 ^ MAX_ORDER - 1);
        s \<leftarrow> guardK (page_idx AND (2 ^ order - 1) = 0) s;
        s \<leftarrow> guardK (\<not> bad_range E z page s) s;
        (page, page_idx, buddy_idx, buddy, order, s) \<leftarrow> free_merge E z page page_idx 0 0 order s;
        s \<leftarrow> set_page_order page order s;
        tail \<leftarrow> (if order < MAX_ORDER - 2 \<and> pfn_valid_within E buddy
          then let combined_idx = buddy_idx AND page_idx;
                   higher_page = page_plus page (int combined_idx - int page_idx);
                   buddy_idx = k__find_buddy_index combined_idx (order + 1);
                   higher_buddy = page_plus page (int buddy_idx - int combined_idx)
               in page_is_buddy E higher_page higher_buddy (order + 1) s
          else Some False);
        let s = (if tail then free_list_add_tail z order migratetype page s
                 else free_list_add z order migratetype page s);
        Some (add_nr_free z order 1 s)
      })"

section \<open>Freeing\<close>

definition free_page_mlock :: "kenv \<Rightarrow> page_ptr \<Rightarrow> kstate \<Rightarrow> kstate" where
  "free_page_mlock E p s =
     count_vm_events E UNEVICTABLE_MLOCKFREED 1 (k__dec_zone_page_state E p NR_MLOCK s)"

definition free_pages_check :: "page_ptr \<Rightarrow> kstate \<Rightarrow> int \<times> kstate" where
  "free_pages_check p s =
     (if page_mapcount p s \<noteq> 0 \<or> pg_mapping (page_at s p) \<noteq> NoMapping
         \<or> pg_count (page_at s p) \<noteq> 0
         \<or> pg_flags (page_at s p) AND PAGE_FLAGS_CHECK_AT_FREE \<noteq> 0
      then (1, bad_page p s)
      else if pg_flags (page_at s p) AND PAGE_FLAGS_CHECK_AT_PREP \<noteq> 0
        then (0, upd_page p (\<lambda>pg. pg\<lparr>pg_flags := pg_flags pg AND NOT PAGE_FLAGS_CHECK_AT_PREP\<rparr>) s)
      else (0, s))"

definition clear_reclaim_marks :: "zone_ptr \<Rightarrow> kstate \<Rightarrow> kstate" where
  "clear_reclaim_marks z = upd_zone z (\<lambda>zn. zn\<lparr>z_all_unreclaimable := False, z_pages_scanned := 0\<rparr>)"

definition pcp_list :: "kstate \<Rightarrow> zone_ptr \<Rightarrow> nat \<Rightarrow> nat \<Rightarrow> page_ptr list" where
  "pcp_list s z cpu mt = pcp_lists (ps_pcp (z_pageset (zone_at s z) cpu)) mt"

definition upd_pcp :: "zone_ptr \<Rightarrow> nat \<Rightarrow> (per_cpu_pages \<Rightarrow> per_cpu_pages) \<Rightarrow> kstate \<Rightarrow> kstate" where
  "upd_pcp z cpu f = upd_zone z (\<lambda>zn. zn\<lparr>z_pageset := (z_pageset zn)
     (cpu := (z_pageset zn cpu)\<lparr>ps_pcp := f (ps_pcp (z_pageset zn cpu))\<rparr>)\<rparr>)"

definition set_pcp_list :: "zone_ptr \<Rightarrow> nat \<Rightarrow> nat \<Rightarrow> page_ptr list \<Rightarrow> kstate \<Rightarrow> kstate" where
  "set_pcp_list z cpu mt xs = upd_pcp z cpu (\<lambda>pcp. pcp\<lparr>pcp_lists := (pcp_lists pcp)(mt := xs)\<rparr>)"

text \<open>
  The round robin of \<open>free_pcppages_bulk\<close>. The lists do not change while it looks for one that
  is not empty, so after \<open>MIGRATE_PCPTYPES\<close> steps without success it would never end.
\<close>

fun next_pcp_list :: "nat \<Rightarrow> zone_ptr \<Rightarrow> nat \<Rightarrow> nat \<Rightarrow> nat \<Rightarrow> kstate \<Rightarrow> (nat \<times> nat) option" where
  "next_pcp_list 0 z cpu migratetype batch_free s = None"
| "next_pcp_list (Suc tries) z cpu migratetype batch_free s =
     (let batch_free = batch_free + 1;
          migratetype = (if migratetype + 1 = MIGRATE_PCPTYPES then 0 else migratetype + 1)
      in if pcp_list s z cpu migratetype = []
         then next_pcp_list tries z cpu migratetype batch_free s
         else Some (migratetype, batch_free))"

text \<open>The inner loop: free from the tail of one list; \<open>to_free\<close> is not 0 at entry.\<close>

fun free_pcp_batch ::
  "kenv \<Rightarrow> zone_ptr \<Rightarrow> nat \<Rightarrow> nat \<Rightarrow> nat \<Rightarrow> nat \<Rightarrow> kstate \<Rightarrow> (nat \<times> nat \<times> kstate) option" where
  "free_pcp_batch E z cpu mt 0 batch_free s = None"
| "free_pcp_batch E z cpu mt (Suc to_free) batch_free s = (case pcp_list s z cpu mt of
      [] \<Rightarrow> None
    | x # xs \<Rightarrow> do {
        let page = last (x # xs);
        let s = set_pcp_list z cpu mt (butlast (x # xs)) s;
        s \<leftarrow> k__free_one_page E page z 0 (page_order page s) s;
        if to_free = 0 then Some (0, batch_free, s)
        else let batch_free = batch_free - 1
        in if batch_free = 0 \<or> pcp_list s z cpu mt = [] then Some (to_free, batch_free, s)
        else free_pcp_batch E z cpu mt to_free batch_free s
      })"

lemma free_pcp_batch_less:
  "free_pcp_batch E z cpu mt n b s = Some (m, b', t) \<Longrightarrow> m < n"
  by (induction E z cpu mt n b s arbitrary: m b' t rule: free_pcp_batch.induct)
    (fastforce simp: Let_def split: list.splits Option.bind_splits if_splits)+

function free_pcp_loop ::
  "kenv \<Rightarrow> zone_ptr \<Rightarrow> nat \<Rightarrow> nat \<Rightarrow> nat \<Rightarrow> nat \<Rightarrow> kstate \<Rightarrow> kstate option" where
  "free_pcp_loop E z cpu to_free migratetype batch_free s =
     (if to_free = 0 then Some s
      else case next_pcp_list MIGRATE_PCPTYPES z cpu migratetype batch_free s of
        None \<Rightarrow> None
      | Some (mt, bf) \<Rightarrow> (case free_pcp_batch E z cpu mt to_free bf s of
            None \<Rightarrow> None
          | Some (n, bf, s) \<Rightarrow> free_pcp_loop E z cpu n mt bf s))"
  by pat_completeness auto
termination
  by (relation "measure (\<lambda>(E, z, cpu, to_free, mt, bf, s). to_free)")
    (auto dest: free_pcp_batch_less)

declare free_pcp_loop.simps [simp del]

definition free_pcppages_bulk :: "kenv \<Rightarrow> zone_ptr \<Rightarrow> nat \<Rightarrow> nat \<Rightarrow> kstate \<Rightarrow> kstate option" where
  "free_pcppages_bulk E z count cpu s = do {
     s \<leftarrow> spin_lock (ZoneLock z) s;
     let s = clear_reclaim_marks z s;
     s \<leftarrow> free_pcp_loop E z cpu count 0 0 s;
     let s = k__mod_zone_page_state E z NR_FREE_PAGES (int count) s;
     spin_unlock (ZoneLock z) s
   }"

definition free_one_page ::
  "kenv \<Rightarrow> zone_ptr \<Rightarrow> page_ptr \<Rightarrow> nat \<Rightarrow> nat \<Rightarrow> kstate \<Rightarrow> kstate option" where
  "free_one_page E z page order migratetype s = do {
     s \<leftarrow> spin_lock (ZoneLock z) s;
     let s = clear_reclaim_marks z s;
     s \<leftarrow> k__free_one_page E page z order migratetype s;
     let s = k__mod_zone_page_state E z NR_FREE_PAGES (2 ^ order) s;
     spin_unlock (ZoneLock z) s
   }"

text \<open>
  \<open>free_pages_prepare\<close>: only the chain of the first page of a block is looked at. The second
  test of \<open>page->chain\<close> under the locks guards the eviction count.
\<close>

definition free_pages_prepare :: "kenv \<Rightarrow> page_ptr \<Rightarrow> nat \<Rightarrow> kstate \<Rightarrow> (bool \<times> kstate) option" where
  "free_pages_prepare E page order s =
     (let s = (if PageAnon page s then upd_page page (\<lambda>pg. pg\<lparr>pg_mapping := NoMapping\<rparr>) s else s);
          (bad, s) = fold (\<lambda>i (bad, s). let (b, s) = free_pages_check (page + i) s in (bad + b, s))
             [0..<2 ^ order] (0, s)
      in if bad \<noteq> 0 then Some (False, s)
      else case pg_chain (page_at s page) of
        None \<Rightarrow> Some (True, s)
      | Some chain \<Rightarrow> do {
          s \<leftarrow> spin_lock_chain (Some chain) s;
          s \<leftarrow> spin_lock (LinkLock page) s;
          s \<leftarrow> (case pg_chain (page_at s page) of
              Some c \<Rightarrow> upd_chain c (\<lambda>ch. ch\<lparr>mc_evict_cnt := mc_evict_cnt ch + 1\<rparr>) s
            | None \<Rightarrow> Some s);
          s \<leftarrow> k__unlink_page E page s;
          s \<leftarrow> spin_unlock (LinkLock page) s;
          s \<leftarrow> spin_unlock_chain (Some chain) s;
          Some (True, s)
        })"

definition k__free_pages_ok :: "kenv \<Rightarrow> page_ptr \<Rightarrow> nat \<Rightarrow> kstate \<Rightarrow> kstate option" where
  "k__free_pages_ok E page order s = do {
     let (wasMlocked, s) = TestClearPageMlocked page s;
     (ok, s) \<leftarrow> free_pages_prepare E page order s;
     if \<not> ok then Some s
     else do {
       let s = (if wasMlocked then free_page_mlock E page s else s);
       let s = count_vm_events E PGFREE (2 ^ order) s;
       free_one_page E (page_zone E page) page order (get_pageblock_migratetype E page s) s
     }
   }"

definition free_compound_page :: "kenv \<Rightarrow> page_ptr \<Rightarrow> kstate \<Rightarrow> kstate option" where
  "free_compound_page E page s = k__free_pages_ok E page (compound_order page s) s"

text \<open>The part of \<open>free_hot_cold_page\<close> after the migrate type is known.\<close>

definition free_to_pcp ::
  "kenv \<Rightarrow> zone_ptr \<Rightarrow> page_ptr \<Rightarrow> bool \<Rightarrow> nat \<Rightarrow> kstate \<Rightarrow> kstate option" where
  "free_to_pcp E z page cold migratetype s =
     (let cpu = cur_cpu E
      in if migratetype \<ge> MIGRATE_PCPTYPES \<and> migratetype = MIGRATE_ISOLATE
      then free_one_page E z page 0 migratetype s
      else do {
        let mt = (if migratetype \<ge> MIGRATE_PCPTYPES then MIGRATE_MOVABLE else migratetype);
        let s = (if cold then set_pcp_list z cpu mt (pcp_list s z cpu mt @ [page]) s
                 else set_pcp_list z cpu mt (page # pcp_list s z cpu mt) s);
        let s = upd_pcp z cpu (\<lambda>pcp. pcp\<lparr>pcp_count := pcp_count pcp + 1\<rparr>) s;
        let pcp = ps_pcp (z_pageset (zone_at s z) cpu);
        if pcp_count pcp \<ge> pcp_high pcp
        then do {
          s \<leftarrow> free_pcppages_bulk E z (nat (pcp_batch pcp)) cpu s;
          Some (upd_pcp z cpu (\<lambda>pcp. pcp\<lparr>pcp_count := pcp_count pcp - pcp_batch pcp\<rparr>) s)
        }
        else Some s
      })"

definition free_hot_cold_page :: "kenv \<Rightarrow> page_ptr \<Rightarrow> bool \<Rightarrow> kstate \<Rightarrow> kstate option" where
  "free_hot_cold_page E page cold s = do {
     let z = page_zone E page;
     let (wasMlocked, s) = TestClearPageMlocked page s;
     (ok, s) \<leftarrow> free_pages_prepare E page 0 s;
     if \<not> ok then Some s
     else do {
       let migratetype = get_pageblock_migratetype E page s;
       let s = set_page_private page migratetype s;
       let s = (if wasMlocked then free_page_mlock E page s else s);
       let s = count_vm_events E PGFREE 1 s;
       free_to_pcp E z page cold migratetype s
     }
   }"

definition k__free_pages :: "kenv \<Rightarrow> page_ptr \<Rightarrow> nat \<Rightarrow> kstate \<Rightarrow> kstate option" where
  "k__free_pages E page order s = do {
     (zero, s) \<leftarrow> put_page_testzero page s;
     if zero then (if order = 0 then free_hot_cold_page E page False s
                   else k__free_pages_ok E page order s)
     else Some s
   }"

definition k__free_pages_bootmem :: "kenv \<Rightarrow> page_ptr \<Rightarrow> nat \<Rightarrow> kstate \<Rightarrow> kstate option" where
  "k__free_pages_bootmem E page order s =
     (if order = 0 then do {
        let s = set_page_count page 0 (ClearPageReserved page s);
        s \<leftarrow> set_page_refcounted page s;
        k__free_pages E page 0 s
      } else do {
        let s = fold (\<lambda>loop s. set_page_count (page + loop) 0 (ClearPageReserved (page + loop) s))
            [0..<32] s;
        s \<leftarrow> set_page_refcounted page s;
        k__free_pages E page order s
      })"

text \<open>\<open>__pagevec_free\<close> runs from the last page to the first.\<close>

definition k__pagevec_free :: "kenv \<Rightarrow> page_ptr list \<Rightarrow> bool \<Rightarrow> kstate \<Rightarrow> kstate option" where
  "k__pagevec_free E pages cold = forK (\<lambda>p. free_hot_cold_page E p cold) (rev pages)"

section \<open>Allocating\<close>

datatype gfp_flag = GFP_ZERO | GFP_COMP | GFP_COLD | GFP_NOFAIL | GFP_WAIT | GFP_HIGH | GFP_HIGHMEM
  | GFP_HARDWALL | GFP_NOMEMALLOC | GFP_NORETRY | GFP_REPEAT | GFP_MOVABLE
  | GFP_IO | GFP_FS | GFP_NOWARN | GFP_NO_KSWAPD | GFP_THISNODE

text \<open>\<open>expand\<close>: the upper half of a block goes back to the list below, until \<open>low\<close> is reached.\<close>

fun expand ::
  "kenv \<Rightarrow> zone_ptr \<Rightarrow> page_ptr \<Rightarrow> nat \<Rightarrow> nat \<Rightarrow> nat \<Rightarrow> kstate \<Rightarrow> kstate option" where
  "expand E z page low 0 migratetype s = Some s"
| "expand E z page low (Suc high) migratetype s =
     (if low < Suc high then do {
        let size = 2 ^ high;
        s \<leftarrow> guardK (\<not> bad_range E z (page + size) s) s;
        let s = free_list_add z high migratetype (page + size) s;
        let s = add_nr_free z high 1 s;
        s \<leftarrow> set_page_order (page + size) high s;
        expand E z page low high migratetype s
      } else Some s)"

definition check_new_page :: "page_ptr \<Rightarrow> kstate \<Rightarrow> bool \<times> kstate" where
  "check_new_page p s =
     (if page_mapcount p s \<noteq> 0 \<or> pg_mapping (page_at s p) \<noteq> NoMapping
         \<or> pg_count (page_at s p) \<noteq> 0
         \<or> pg_flags (page_at s p) AND PAGE_FLAGS_CHECK_AT_PREP \<noteq> 0
      then (True, bad_page p s) else (False, s))"

fun check_new_pages :: "page_ptr list \<Rightarrow> kstate \<Rightarrow> bool \<times> kstate" where
  "check_new_pages [] s = (False, s)"
| "check_new_pages (p # ps) s =
     (let (bad, s) = check_new_page p s in if bad then (True, s) else check_new_pages ps s)"

text \<open>
  \<open>prep_new_page\<close> returns 1 (here \<open>True\<close>) for a page in a bad state. \<open>page->chain = NULL\<close> is
  a plain store: the chain that may still hold the page is not told.
\<close>

definition prep_new_page ::
  "page_ptr \<Rightarrow> nat \<Rightarrow> gfp_flag set \<Rightarrow> kstate \<Rightarrow> (bool \<times> kstate) option" where
  "prep_new_page page order gfp_flags s =
     (let (bad, s) = check_new_pages [page ..< page + 2 ^ order] s
      in if bad then Some (True, s)
      else do {
        let s = set_page_private page 0 s;
        s \<leftarrow> set_page_refcounted page s;
        let s = (if order \<noteq> 0 \<and> GFP_COMP \<in> gfp_flags then prep_compound_page page order s else s);
        Some (False, set_page_chain page None s)
      })"

function rmqueue_smallest_from ::
  "kenv \<Rightarrow> zone_ptr \<Rightarrow> nat \<Rightarrow> nat \<Rightarrow> nat \<Rightarrow> kstate \<Rightarrow> (page_ptr option \<times> kstate) option" where
  "rmqueue_smallest_from E z order current_order migratetype s =
     (if current_order < MAX_ORDER then
        (case free_list s z current_order migratetype of
           [] \<Rightarrow> rmqueue_smallest_from E z order (current_order + 1) migratetype s
         | page # _ \<Rightarrow> do {
             s \<leftarrow> free_list_del z page s;
             s \<leftarrow> rmv_page_order page s;
             let s = add_nr_free z current_order (- 1) s;
             s \<leftarrow> expand E z page order current_order migratetype s;
             Some (Some page, s)
           })
      else Some (None, s))"
  by pat_completeness auto
termination
  by (relation "measure (\<lambda>(E, z, order, cur, mt, s). MAX_ORDER - cur)") auto

declare rmqueue_smallest_from.simps [simp del]

definition k__rmqueue_smallest ::
  "kenv \<Rightarrow> zone_ptr \<Rightarrow> nat \<Rightarrow> nat \<Rightarrow> kstate \<Rightarrow> (page_ptr option \<times> kstate) option" where
  "k__rmqueue_smallest E z order migratetype s = rmqueue_smallest_from E z order order migratetype s"

text \<open>The table has a row for each migrate type and four columns; what it does not name is 0.\<close>

definition fallbacks :: "nat list list" where
  "fallbacks = [
     [MIGRATE_RECLAIMABLE, MIGRATE_MOVABLE, MIGRATE_RESERVE, 0],
     [MIGRATE_UNMOVABLE, MIGRATE_MOVABLE, MIGRATE_RESERVE, 0],
     [MIGRATE_RECLAIMABLE, MIGRATE_UNMOVABLE, MIGRATE_RESERVE, 0],
     [MIGRATE_RESERVE, MIGRATE_RESERVE, MIGRATE_RESERVE, 0],
     [0, 0, 0, 0]]"

function move_freepages_loop ::
  "kenv \<Rightarrow> zone_ptr \<Rightarrow> page_ptr \<Rightarrow> page_ptr \<Rightarrow> nat \<Rightarrow> nat \<Rightarrow> kstate \<Rightarrow> (nat \<times> kstate) option" where
  "move_freepages_loop E z page end_page migratetype pages_moved s =
     (if page \<le> end_page then
        (if \<not> pfn_valid_within E page
         then move_freepages_loop E z (page + 1) end_page migratetype pages_moved s
         else if \<not> PageBuddy page s
         then move_freepages_loop E z (page + 1) end_page migratetype pages_moved s
         else (let order = page_order page s
               in case free_list_del z page s of
                 None \<Rightarrow> None
               | Some s \<Rightarrow> move_freepages_loop E z (page + 2 ^ order) end_page migratetype
                   (pages_moved + 2 ^ order) (free_list_add z order migratetype page s)))
      else Some (pages_moved, s))"
  by pat_completeness auto
termination
  by (relation "measure (\<lambda>(E, z, page, end_page, mt, moved, s). Suc end_page - page)")
    (auto intro!: diff_less_mono2)

declare move_freepages_loop.simps [simp del]

definition move_freepages ::
  "kenv \<Rightarrow> zone_ptr \<Rightarrow> page_ptr \<Rightarrow> page_ptr \<Rightarrow> nat \<Rightarrow> kstate \<Rightarrow> (nat \<times> kstate) option" where
  "move_freepages E z start_page end_page migratetype s =
     (if page_zone E start_page \<noteq> page_zone E end_page then None
      else move_freepages_loop E z start_page end_page migratetype 0 s)"

definition move_freepages_block ::
  "kenv \<Rightarrow> zone_ptr \<Rightarrow> page_ptr \<Rightarrow> nat \<Rightarrow> kstate \<Rightarrow> (nat \<times> kstate) option" where
  "move_freepages_block E z page migratetype s =
     (let start_pfn = page div pageblock_nr_pages E * pageblock_nr_pages E;
          end_page = start_pfn + pageblock_nr_pages E - 1;
          end_pfn = start_pfn + pageblock_nr_pages E - 1;
          start_page = (if start_pfn < z_start_pfn (zone_at s z) then page else start_pfn)
      in if end_pfn \<ge> z_start_pfn (zone_at s z) + z_spanned_pages (zone_at s z)
         then Some (0, s)
         else move_freepages E z start_page end_page migratetype s)"

definition change_pageblock_range :: "kenv \<Rightarrow> page_ptr \<Rightarrow> nat \<Rightarrow> nat \<Rightarrow> kstate \<Rightarrow> kstate option" where
  "change_pageblock_range E pageblock_page start_order migratetype s =
     forK (\<lambda>i. set_pageblock_migratetype E (pageblock_page + i * pageblock_nr_pages E) migratetype)
       [0 ..< 2 ^ (start_order - pageblock_order E)] s"

definition rmqueue_fallback_take ::
  "kenv \<Rightarrow> zone_ptr \<Rightarrow> nat \<Rightarrow> nat \<Rightarrow> nat \<Rightarrow> nat \<Rightarrow> page_ptr \<Rightarrow> kstate \<Rightarrow> kstate option" where
  "rmqueue_fallback_take E z order start_migratetype current_order migratetype page s = do {
     let s = add_nr_free z current_order (- 1) s;
     (migratetype, s) \<leftarrow> (if current_order \<ge> pageblock_order E div 2
           \<or> start_migratetype = MIGRATE_RECLAIMABLE \<or> page_group_by_mobility_disabled E
         then do {
           (pages, s) \<leftarrow> move_freepages_block E z page start_migratetype s;
           s \<leftarrow> (if pages \<ge> 2 ^ (pageblock_order E - 1) \<or> page_group_by_mobility_disabled E
                 then set_pageblock_migratetype E page start_migratetype s else Some s);
           Some (start_migratetype, s)
         } else Some (migratetype, s));
     s \<leftarrow> free_list_del z page s;
     s \<leftarrow> rmv_page_order page s;
     s \<leftarrow> (if current_order \<ge> pageblock_order E
           then change_pageblock_range E page current_order start_migratetype s else Some s);
     expand E z page order current_order migratetype s
   }"

text \<open>The two nested loops, as one search over pairs of an order and a migrate type.\<close>

fun rmqueue_fallback_scan ::
  "kenv \<Rightarrow> zone_ptr \<Rightarrow> nat \<Rightarrow> nat \<Rightarrow> (nat \<times> nat) list \<Rightarrow> kstate \<Rightarrow> (page_ptr option \<times> kstate) option" where
  "rmqueue_fallback_scan E z order start_migratetype [] s = Some (None, s)"
| "rmqueue_fallback_scan E z order start_migratetype ((current_order, migratetype) # rest) s =
     (if migratetype = MIGRATE_RESERVE
      then rmqueue_fallback_scan E z order start_migratetype rest s
      else case free_list s z current_order migratetype of
        [] \<Rightarrow> rmqueue_fallback_scan E z order start_migratetype rest s
      | page # _ \<Rightarrow> do {
          s \<leftarrow> rmqueue_fallback_take E z order start_migratetype current_order migratetype page s;
          Some (Some page, s)
        })"

definition k__rmqueue_fallback ::
  "kenv \<Rightarrow> zone_ptr \<Rightarrow> nat \<Rightarrow> nat \<Rightarrow> kstate \<Rightarrow> (page_ptr option \<times> kstate) option" where
  "k__rmqueue_fallback E z order start_migratetype s =
     rmqueue_fallback_scan E z order start_migratetype
       (List.product (rev [order ..< MAX_ORDER]) (fallbacks ! start_migratetype)) s"

definition k__rmqueue ::
  "kenv \<Rightarrow> zone_ptr \<Rightarrow> nat \<Rightarrow> nat \<Rightarrow> kstate \<Rightarrow> (page_ptr option \<times> kstate) option" where
  "k__rmqueue E z order migratetype s = do {
     (page, s) \<leftarrow> k__rmqueue_smallest E z order migratetype s;
     if page = None \<and> migratetype \<noteq> MIGRATE_RESERVE then do {
       (page, s) \<leftarrow> k__rmqueue_fallback E z order migratetype s;
       if page = None then k__rmqueue_smallest E z order MIGRATE_RESERVE s
       else Some (page, s)
     } else Some (page, s)
   }"

text \<open>
  The loop of \<open>rmqueue_bulk\<close>; it returns the pages in the order they were taken. The caller's
  list gets them in this order behind its head, or for cold pages in reverse at its tail.
\<close>

fun rmqueue_bulk_loop ::
  "kenv \<Rightarrow> zone_ptr \<Rightarrow> nat \<Rightarrow> nat \<Rightarrow> nat \<Rightarrow> kstate \<Rightarrow> (page_ptr list \<times> kstate) option" where
  "rmqueue_bulk_loop E z order migratetype 0 s = Some ([], s)"
| "rmqueue_bulk_loop E z order migratetype (Suc n) s = (case k__rmqueue E z order migratetype s of
      None \<Rightarrow> None
    | Some (None, s) \<Rightarrow> Some ([], s)
    | Some (Some page, s) \<Rightarrow> do {
        (pages, s) \<leftarrow> rmqueue_bulk_loop E z order migratetype n (set_page_private page migratetype s);
        Some (page # pages, s)
      })"

definition rmqueue_bulk ::
  "kenv \<Rightarrow> zone_ptr \<Rightarrow> nat \<Rightarrow> nat \<Rightarrow> page_ptr list \<Rightarrow> nat \<Rightarrow> bool \<Rightarrow> kstate \<Rightarrow>
     (nat \<times> page_ptr list \<times> kstate) option" where
  "rmqueue_bulk E z order count list migratetype cold s = do {
     s \<leftarrow> spin_lock (ZoneLock z) s;
     (pages, s) \<leftarrow> rmqueue_bulk_loop E z order migratetype count s;
     let s = k__mod_zone_page_state E z NR_FREE_PAGES (- (int (length pages) * 2 ^ order)) s;
     s \<leftarrow> spin_unlock (ZoneLock z) s;
     Some (length pages, if cold then list @ rev pages else pages @ list, s)
   }"

definition drain_pages :: "kenv \<Rightarrow> nat \<Rightarrow> kstate \<Rightarrow> kstate option" where
  "drain_pages E cpu s = forK (\<lambda>z s.
       let pcp = ps_pcp (z_pageset (zone_at s z) cpu)
       in if pcp_count pcp \<noteq> 0 then do {
            s \<leftarrow> free_pcppages_bulk E z (nat (pcp_count pcp)) cpu s;
            Some (upd_pcp z cpu (\<lambda>pcp. pcp\<lparr>pcp_count := 0\<rparr>) s)
          } else Some s)
     (for_each_populated_zone E s) s"

definition drain_local_pages :: "kenv \<Rightarrow> kstate \<Rightarrow> kstate option" where
  "drain_local_pages E = drain_pages E (cur_cpu E)"

text \<open>\<open>on_each_cpu\<close> runs the handler on every online CPU.\<close>

definition drain_all_pages :: "kenv \<Rightarrow> kstate \<Rightarrow> kstate option" where
  "drain_all_pages E = forK (\<lambda>cpu. drain_local_pages (E\<lparr>cur_cpu := cpu\<rparr>)) [0 ..< online_cpus E]"

definition split_page :: "page_ptr \<Rightarrow> nat \<Rightarrow> kstate \<Rightarrow> kstate option" where
  "split_page page order s = do {
     s \<leftarrow> guardK (\<not> PageCompound page s) s;
     s \<leftarrow> guardK (pg_count (page_at s page) \<noteq> 0) s;
     forK (\<lambda>i. set_page_refcounted (page + i)) [1 ..< 2 ^ order] s
   }"

text \<open>
  \<open>buffered_rmqueue\<close>. It starts again when the page it took is bad, and the bad page is lost;
  \<open>fuel\<close> bounds the number of attempts (each takes a page away from the free pages).
\<close>

definition rmqueue_one ::
  "kenv \<Rightarrow> zone_ptr \<Rightarrow> nat \<Rightarrow> gfp_flag set \<Rightarrow> nat \<Rightarrow> kstate \<Rightarrow> (page_ptr option \<times> kstate) option" where
  "rmqueue_one E z order gfp_flags migratetype s =
     (let cold = GFP_COLD \<in> gfp_flags; cpu = cur_cpu E
      in if order = 0 then do {
        s \<leftarrow> (if pcp_list s z cpu migratetype = [] then do {
            (n, list, s) \<leftarrow> rmqueue_bulk E z 0 (nat (pcp_batch (ps_pcp (z_pageset (zone_at s z) cpu))))
               [] migratetype cold s;
            Some (upd_pcp z cpu (\<lambda>pcp. pcp\<lparr>pcp_count := pcp_count pcp + int n\<rparr>)
              (set_pcp_list z cpu migratetype list s))
          } else Some s);
        (case pcp_list s z cpu migratetype of
           [] \<Rightarrow> Some (None, s)
         | x # xs \<Rightarrow>
             (let page = (if cold then last (x # xs) else x);
                  rest = (if cold then butlast (x # xs) else xs)
              in Some (Some page, upd_pcp z cpu (\<lambda>pcp. pcp\<lparr>pcp_count := pcp_count pcp - 1\<rparr>)
                   (set_pcp_list z cpu migratetype rest s))))
      } else do {
        s \<leftarrow> spin_lock (ZoneLock z) s;
        (page, s) \<leftarrow> k__rmqueue E z order migratetype s;
        s \<leftarrow> spin_unlock (ZoneLock z) s;
        (case page of None \<Rightarrow> Some (None, s)
         | Some _ \<Rightarrow> Some (page, k__mod_zone_page_state E z NR_FREE_PAGES (- (2 ^ order)) s))
      })"

fun buffered_rmqueue ::
  "nat \<Rightarrow> kenv \<Rightarrow> zone_ptr \<Rightarrow> nat \<Rightarrow> gfp_flag set \<Rightarrow> nat \<Rightarrow> kstate \<Rightarrow>
     (page_ptr option \<times> kstate) option" where
  "buffered_rmqueue 0 E z order gfp_flags migratetype s = None"
| "buffered_rmqueue (Suc fuel) E z order gfp_flags migratetype s =
     (case rmqueue_one E z order gfp_flags migratetype s of
        None \<Rightarrow> None
      | Some (None, s) \<Rightarrow> Some (None, s)
      | Some (Some page, s) \<Rightarrow> do {
          let s = count_vm_events E (PGALLOC z) (2 ^ order) s;
          s \<leftarrow> guardK (\<not> bad_range E z page s) s;
          (bad, s) \<leftarrow> prep_new_page page order gfp_flags s;
          if bad then buffered_rmqueue fuel E z order gfp_flags migratetype s
          else Some (Some page, s)
        })"

section \<open>The allocator and the memory chains\<close>

text \<open>
  The buddy lists and counters say nothing about chains: a routine on them is quiet, that is, it
  leaves the abstract view, the collections and the locks as they are. Only
  \<open>free_pages_prepare\<close> and \<open>prep_new_page\<close> touch chains.
\<close>

lemma chain_quiet_upd_page [kframe]:
  assumes "\<And>pg. pg_chain (f pg) = pg_chain pg"
    and "\<And>pg. bit (pg_flags (f pg)) (pg_nr PG_referenced) = bit (pg_flags pg) (pg_nr PG_referenced)"
  shows "chain_quiet s (upd_page p f s)"
  using assms
  by (auto simp: chain_quiet_def view_def page_at_upd_page test_bit_def fun_eq_iff)

lemma chain_quiet_upd_zone [kframe]: "chain_quiet s (upd_zone z f s)"
  by (simp add: chain_quiet_def)

lemma chain_quiet_bits [kframe]:
  "f \<noteq> PG_referenced \<Longrightarrow> chain_quiet s (set_bit_k f p s)"
  "f \<noteq> PG_referenced \<Longrightarrow> chain_quiet s (clear_bit_k f p s)"
  by (simp_all add: chain_quiet_def)

lemma chain_quiet_page_fields [kframe]:
  "chain_quiet s (set_page_private p n s)" "chain_quiet s (set_page_count p v s)"
  "chain_quiet s (k__put_page p s)" "chain_quiet s (set_mapcount p v s)"
  "chain_quiet s (set_compound_order p n s)" "chain_quiet s (bad_page p s)"
  "chain_quiet s (get_page p s)"
  by (simp_all add: set_page_private_def set_page_count_def k__put_page_def set_mapcount_def
      set_compound_order_def bad_page_def get_page_def chain_quiet_upd_page)

lemma chain_quiet_areas [kframe]:
  "chain_quiet s (add_nr_free z o' d s)" "chain_quiet s (free_list_add z o' mt p s)"
  "chain_quiet s (free_list_add_tail z o' mt p s)" "chain_quiet s (upd_pcp z cpu g s)"
  "chain_quiet s (set_pcp_list z cpu mt xs s)" "chain_quiet s (clear_reclaim_marks z s)"
  by (simp_all add: add_nr_free_def free_list_add_def free_list_add_tail_def upd_area_def
      upd_pcp_def set_pcp_list_def clear_reclaim_marks_def chain_quiet_upd_zone)

lemma chain_quiet_counters [kframe]:
  "chain_quiet s (count_vm_events E e n s)" "chain_quiet s (k__mod_zone_page_state E z i d s)"
  by (simp_all add: chain_quiet_def view_def count_vm_events_def fun_eq_iff
      page_at_def test_bit_def)

lemma chain_quiet_dec_state [kframe]: "chain_quiet s (k__dec_zone_page_state E p i s)"
  by (simp add: chain_quiet_def view_def k__dec_zone_page_state_def k__dec_zone_state_def Let_def
      fun_eq_iff page_at_def test_bit_def)

lemma set_pageblock_cases:
  "set_pageblock_migratetype E p m s = Some t \<Longrightarrow> \<exists>B. t = s\<lparr>k_pageblock := B\<rparr>"
  unfolding set_pageblock_migratetype_def set_pageblock_flags_group_def Let_def
  by (auto simp del: upt_Suc split: if_splits)

lemma chain_quiet_pageblock [kframe]: "set_pageblock_migratetype E p m s = Some t \<Longrightarrow> chain_quiet s t"
  by (drule set_pageblock_cases) (auto simp: chain_quiet_def view_def fun_eq_iff)

text \<open>With these the simplifier strips quiet updates off the second state.\<close>

lemma chain_quiet_iff: "chain_quiet s t \<Longrightarrow> chain_quiet a t = chain_quiet a s"
  by (auto simp: chain_quiet_def)

lemmas chain_quiet_simps [simp] = chain_quiet_upd_zone [THEN chain_quiet_iff]
  chain_quiet_bits [THEN chain_quiet_iff] chain_quiet_page_fields [THEN chain_quiet_iff]
  chain_quiet_areas [THEN chain_quiet_iff] chain_quiet_counters [THEN chain_quiet_iff]
  chain_quiet_dec_state [THEN chain_quiet_iff]

lemma chain_quiet_fold:
  assumes "\<And>x s. chain_quiet s (f x s)"
  shows "chain_quiet s (fold f xs s)"
proof (induction xs arbitrary: s)
  case (Cons x xs)
  show ?case
    using chain_quiet_trans [OF assms Cons.IH] by simp
qed simp

lemma chain_quiet_fold_pair:
  assumes "\<And>x b s. chain_quiet s (snd (f x (b, s)))"
  shows "chain_quiet s (snd (fold f xs (b, s)))"
proof (induction xs arbitrary: b s)
  case (Cons x xs)
  obtain b' s' where 1: "f x (b, s) = (b', s')"
    by (metis surj_pair)
  with assms [of s x b] Cons.IH [of s' b'] show ?case
    by (auto intro: chain_quiet_trans)
qed simp

lemma chain_quiet_destroy [kframe]: "chain_quiet s (snd (destroy_compound_page p o' s))"
proof -
  obtain b u where u: "(if compound_order p s \<noteq> o' \<or> \<not> PageHead p s then (1 :: int, bad_page p s)
      else (0, s)) = (b, u)"
    by (metis surj_pair)
  then have 1: "chain_quiet s u"
    by (auto split: if_splits intro: kframe)
  have head: "chain_quiet u (clear_bit_k PG_head p u)"
    by (rule chain_quiet_bits) simp
  have tails: "chain_quiet v (clear_bit_k PG_tail q (bad_page p v))"
    "chain_quiet v (clear_bit_k PG_tail q v)" for q v
    by (auto intro: chain_quiet_trans [OF chain_quiet_page_fields(6)] kframe)
  show ?thesis
    unfolding destroy_compound_page_def Let_def u split_conv
    by (rule chain_quiet_trans [OF 1], rule chain_quiet_trans [OF head],
        rule chain_quiet_fold_pair) (simp add: tails)
qed

lemma free_list_del_quiet: "free_list_del z p s = Some t \<Longrightarrow> chain_quiet s t"
  by (auto simp: free_list_del_def intro: kframe split: if_splits)

lemma page_order_quiet:
  "set_page_order p o' s = Some t \<Longrightarrow> chain_quiet s t"
  "rmv_page_order p s = Some u \<Longrightarrow> chain_quiet s u"
  by (auto simp: set_page_order_def rmv_page_order_def k__SetPageBuddy_def k__ClearPageBuddy_def
      intro: chain_quiet_trans kframe split: if_splits)

lemma set_page_refcounted_quiet: "set_page_refcounted p s = Some t \<Longrightarrow> chain_quiet s t"
  by (auto simp: set_page_refcounted_def intro: kframe split: if_splits)

lemma free_merge_quiet:
  "free_merge E z page idx bidx buddy o' s = Some (page', idx', bidx', buddy', o'', t) \<Longrightarrow> chain_quiet s t"
proof (induction E z page idx bidx buddy o' s rule: free_merge.induct)
  case (1 E z page idx bidx buddy o' s)
  let ?bi = "k__find_buddy_index idx o'"
  let ?b = "page_plus page (int ?bi - int idx)"
  consider "t = s"
    | u v where "o' < MAX_ORDER - 1" "page_is_buddy E page ?b o' s = Some True"
      "free_list_del z ?b s = Some u" "rmv_page_order ?b (add_nr_free z o' (- 1) u) = Some v"
      "free_merge E z (page_plus page (int (?bi AND idx) - int idx)) (?bi AND idx) ?bi ?b (o' + 1) v
        = Some (page', idx', bidx', buddy', o'', t)"
    using "1.prems"
    by (subst (asm) free_merge.simps) (auto simp: Let_def split: if_splits Option.bind_splits)
  then show ?case
  proof cases
    case (2 u v)
    have "chain_quiet v t"
      by (rule "1.IH" [OF _ refl refl _ _ _ refl _ refl refl]) (use 2 in auto)
    with 2(3,4) show ?thesis
      by (meson chain_quiet_areas(1) chain_quiet_trans free_list_del_quiet page_order_quiet(2))
  qed simp
qed

lemma free_one_page_core_quiet:
  assumes "k__free_one_page E p z o' mt s = Some t"
  shows "chain_quiet s t"
proof -
  obtain b u where u: "(if PageCompound p s then destroy_compound_page p o' s else (0, s)) = (b, u)"
    by (metis surj_pair)
  then have 1: "chain_quiet s u"
    using chain_quiet_destroy [of s p o'] by (auto split: if_splits)
  show ?thesis
  proof (cases "b = 0")
    case False
    with assms u 1 show ?thesis
      by (simp add: k__free_one_page_def)
  next
    case True
    have add: "chain_quiet w (add_nr_free z k 1 (free_list_add_tail z k mt q w))"
      "chain_quiet w (add_nr_free z k 1 (free_list_add z k mt q w))" for w q k
      by (auto intro: chain_quiet_trans kframe)
    from assms u True obtain p' idx bi bu k v w where
      m: "free_merge E z p (p AND (2 ^ MAX_ORDER - 1)) 0 0 o' u = Some (p', idx, bi, bu, k, v)"
      and w: "set_page_order p' k v = Some w" and t: "chain_quiet w t"
      using add by (auto simp: k__free_one_page_def Let_def split: Option.bind_splits if_splits)
    with 1 free_merge_quiet [OF m] page_order_quiet(1) [OF w] show ?thesis
      by (blast intro: chain_quiet_trans)
  qed
qed

lemma free_pcp_batch_quiet:
  "free_pcp_batch E z cpu mt n b s = Some (n', b', t) \<Longrightarrow> chain_quiet s t"
proof (induction E z cpu mt n b s arbitrary: n' b' t rule: free_pcp_batch.induct)
  case (2 E z cpu mt to_free bf s)
  then obtain x xs u where u: "pcp_list s z cpu mt = x # xs"
    "k__free_one_page E (last (x # xs)) z 0
       (page_order (last (x # xs)) (set_pcp_list z cpu mt (butlast (x # xs)) s))
       (set_pcp_list z cpu mt (butlast (x # xs)) s) = Some u"
    by (auto simp: Let_def split: list.splits Option.bind_splits)
  have su: "chain_quiet s u"
    by (rule chain_quiet_trans [OF _ free_one_page_core_quiet [OF u(2)]]) (rule kframe)
  from "2.prems" u consider "t = u"
    | "to_free \<noteq> 0" "bf - 1 \<noteq> 0" "pcp_list u z cpu mt \<noteq> []"
      "free_pcp_batch E z cpu mt to_free (bf - 1) u = Some (n', b', t)"
    by (auto simp: Let_def split: if_splits)
  then show ?case
  proof cases
    case b: 2
    have "chain_quiet u t"
      by (rule "2.IH" [OF u(1) refl refl u(2) b(1) refl _ b(4)]) (use b in simp)
    with su show ?thesis by (rule chain_quiet_trans)
  qed (use su in simp)
qed simp

lemma free_pcp_loop_quiet: "free_pcp_loop E z cpu n mt b s = Some t \<Longrightarrow> chain_quiet s t"
proof (induction E z cpu n mt b s rule: free_pcp_loop.induct)
  case (1 E z cpu n mt b s)
  show ?case
  proof (cases "n = 0")
    case True
    with "1.prems" show ?thesis by (simp add: free_pcp_loop.simps)
  next
    case False
    with "1.prems" obtain m bf n' bf' u where
      a: "next_pcp_list MIGRATE_PCPTYPES z cpu mt b s = Some (m, bf)"
        "free_pcp_batch E z cpu m n bf s = Some (n', bf', u)" "free_pcp_loop E z cpu n' m bf' u = Some t"
      by (subst (asm) free_pcp_loop.simps) (auto split: option.splits)
    with "1.IH" [OF False a(1) refl a(2) refl refl a(3)] free_pcp_batch_quiet [OF a(2)] show ?thesis
      by (blast intro: chain_quiet_trans)
  qed
qed

text \<open>A routine under a spinlock that it takes and releases.\<close>

lemma locked_quiet:
  assumes "l \<notin> k_held s" and "chain_quiet (s\<lparr>k_held := insert l (k_held s)\<rparr>) u"
    and "spin_unlock l u = Some t"
  shows "chain_quiet s t"
  using assms by (auto simp: chain_quiet_def)

text \<open>The common frame of the two routines that free under the zone's lock.\<close>

lemma zone_locked_quiet:
  assumes "Option.bind (spin_lock (ZoneLock z) s) (\<lambda>s. Option.bind (f (clear_reclaim_marks z s))
      (\<lambda>s. spin_unlock (ZoneLock z) (k__mod_zone_page_state E z i d s))) = Some t"
    and "\<And>s t. f s = Some t \<Longrightarrow> chain_quiet s t"
  shows "chain_quiet s t"
proof -
  let ?s0 = "s\<lparr>k_held := insert (ZoneLock z) (k_held s)\<rparr>"
  from assms(1) obtain x where x: "ZoneLock z \<notin> k_held s" "f (clear_reclaim_marks z ?s0) = Some x"
    "spin_unlock (ZoneLock z) (k__mod_zone_page_state E z i d x) = Some t"
    by (auto split: Option.bind_splits)
  have "chain_quiet ?s0 (k__mod_zone_page_state E z i d x)"
    using assms(2) [OF x(2)] by (blast intro: chain_quiet_trans kframe)
  then show ?thesis
    by (rule locked_quiet [OF x(1) _ x(3)])
qed

lemma free_pcppages_bulk_quiet: "free_pcppages_bulk E z n cpu s = Some t \<Longrightarrow> chain_quiet s t"
  unfolding free_pcppages_bulk_def Let_def
  by (erule zone_locked_quiet) (rule free_pcp_loop_quiet)

lemma free_one_page_quiet: "free_one_page E z p o' mt s = Some t \<Longrightarrow> chain_quiet s t"
  unfolding free_one_page_def Let_def
  by (erule zone_locked_quiet) (rule free_one_page_core_quiet)

section \<open>A freed page is on no chain\<close>

text \<open>The pages checked, with the effect of the check on the referenced bits.\<close>

lemma bit_and_not_prep:
  "bit (w AND NOT PAGE_FLAGS_CHECK_AT_PREP) n \<longleftrightarrow> bit w n \<and> NR_PAGEFLAGS \<le> n" for w :: ulong
  by (auto simp: bit_and_iff bit_not_iff dest: bit_imp_le_length)

lemma free_pages_check_view:
  assumes "free_pages_check p s = (b, t)"
  shows "(chain_quiet s t \<or> view t = v_set_ref p False (view s) \<and> same_rest s t) \<and> (b = 0 \<or> b = 1)"
proof -
  let ?u = "upd_page p (\<lambda>pg. pg\<lparr>pg_flags := pg_flags pg AND NOT PAGE_FLAGS_CHECK_AT_PREP\<rparr>) s"
  have "view ?u = v_set_ref p False (view s)"
    by (auto simp: view_def v_set_ref_def page_at_upd_page test_bit_def bit_and_not_prep fun_eq_iff
        NR_PAGEFLAGS_def)
  with assms show ?thesis
    by (auto simp: free_pages_check_def same_rest_def intro: kframe split: if_splits)
qed

lemma chain_quiet_rest: "chain_quiet s t \<Longrightarrow> same_rest s t \<and> view t = view s"
  by (simp add: chain_quiet_def same_rest_def)

text \<open>What freeing can do to the view: referenced bits get lost.\<close>

definition refs_dropped :: "chain_view \<Rightarrow> chain_view \<Rightarrow> bool" where
  "refs_dropped v w \<longleftrightarrow> v_chains w = v_chains v \<and> v_chain_of w = v_chain_of v
     \<and> (\<forall>p. v_ref w p \<longrightarrow> v_ref v p)"

lemma refs_dropped_refl [simp]: "refs_dropped v v"
  by (simp add: refs_dropped_def)

lemma refs_dropped_trans: "refs_dropped u v \<Longrightarrow> refs_dropped v w \<Longrightarrow> refs_dropped u w"
  by (auto simp: refs_dropped_def)

lemma refs_dropped_set: "refs_dropped v (v_set_ref p False v)"
  by (auto simp: refs_dropped_def v_set_ref_def)

lemma refs_dropped_ids: "refs_dropped v w \<Longrightarrow> v_ids w = v_ids v"
  by (simp add: refs_dropped_def v_ids_def fun_eq_iff)

lemma chains_ok_refs_dropped:
  assumes "chains_ok v" and "refs_dropped v w"
  shows "chains_ok w"
proof -
  have "chain_ok w c ch" if "v_chains w c = Some ch" for c ch
    by (rule chain_ok_other [of v]) (use assms that in \<open>auto simp: chains_ok_def refs_dropped_def\<close>)
  moreover have "\<exists>ch. v_chains w c = Some ch \<and> p \<in> set (mc_links ch)" if "v_chain_of w p = Some c" for p c
    using chains_ok_ex [OF assms(1), of p c] assms(2) that by (simp add: refs_dropped_def)
  ultimately show ?thesis by (simp add: chains_ok_def)
qed

lemma free_check_loop:
  assumes "fold (\<lambda>i (bad, s). let (b, s) = free_pages_check (page + i) s in (bad + b, s)) xs (b, s) = (b', t)"
  shows "refs_dropped (view s) (view t) \<and> same_rest s t"
  using assms
proof (induction xs arbitrary: b s)
  case (Cons i xs)
  obtain c u where u: "free_pages_check (page + i) s = (c, u)"
    by (metis surj_pair)
  with Cons.prems have "refs_dropped (view u) (view t) \<and> same_rest u t"
    by (intro Cons.IH [of "b + c"]) simp
  moreover have "refs_dropped (view s) (view u) \<and> same_rest s u"
    using free_pages_check_view [OF u] by (auto simp: refs_dropped_set dest: chain_quiet_rest)
  ultimately show ?case
    by (auto intro: refs_dropped_trans same_rest_trans)
qed simp

lemma free_pages_prepare_view:
  assumes "free_pages_prepare E page order s = Some (ok, t)" and "mlock_quiet E"
    and "chains_ok (view s)"
  shows "same_rest s t \<and> chains_ok (view t) \<and> v_ids (view t) = v_ids (view s)
    \<and> (\<forall>q. pg_chain (page_at t q) = (if ok \<and> q = page then None else pg_chain (page_at s q)))"
proof -
  let ?s0 = "if PageAnon page s then upd_page page (\<lambda>pg. pg\<lparr>pg_mapping := NoMapping\<rparr>) s else s"
  have q0: "chain_quiet s ?s0"
    by (auto intro: kframe)
  obtain bad u where u: "fold (\<lambda>i (bad, s). let (b, s) = free_pages_check (page + i) s in (bad + b, s))
      [0..<2 ^ order] (0, ?s0) = (bad, u)"
    by (metis surj_pair)
  have du: "refs_dropped (view s) (view u)" "same_rest s u"
    using free_check_loop [OF u] chain_quiet_rest [OF q0] by (auto intro: same_rest_trans)
  have oku: "chains_ok (view u)"
    by (rule chains_ok_refs_dropped [OF assms(3) du(1)])
  have cu: "pg_chain (page_at u q) = pg_chain (page_at s q)" for q
    using du(1) by (auto simp: refs_dropped_def simp flip: view_sel(2))
  have iu: "v_ids (view u) = v_ids (view s)"
    by (rule refs_dropped_ids [OF du(1)])
  from assms(1) u consider (bad) "ok = False" "t = u"
    | (free) "ok = True" "t = u" "pg_chain (page_at u page) = None"
    | (unlink) c where "ok = True" "pg_chain (page_at u page) = Some c"
    by (auto simp: free_pages_prepare_def Let_def split: if_splits option.splits Option.bind_splits)
  then show ?thesis
  proof cases
    case bad
    with du oku cu iu show ?thesis by simp
  next
    case free
    with du oku cu iu show ?thesis by auto
  next
    case (unlink c)
    let ?u1 = "u\<lparr>k_held := insert (ChainLock c) (k_held u)\<rparr>"
    let ?u2 = "u\<lparr>k_held := insert (LinkLock page) (insert (ChainLock c) (k_held u))\<rparr>"
    from assms(1) u unlink obtain w x y where
      free: "ChainLock c \<notin> k_held u" "LinkLock page \<notin> insert (ChainLock c) (k_held u)"
      and w: "upd_chain c (\<lambda>ch. ch\<lparr>mc_evict_cnt := mc_evict_cnt ch + 1\<rparr>) ?u2 = Some w"
      and x: "k__unlink_page E page w = Some x"
      and y: "spin_unlock (LinkLock page) x = Some y" "spin_unlock_chain (Some c) y = Some t"
      by (auto simp: free_pages_prepare_def Let_def spin_lock_chain_def
          split: if_splits Option.bind_splits)
    have vw: "view w = v_upd c (\<lambda>ch. ch\<lparr>mc_evict_cnt := mc_evict_cnt ch + 1\<rparr>) (view u)"
      "same_rest ?u2 w"
      using upd_chain_cases(2,3) [OF w] by simp_all
    have okw: "chains_ok (view w)"
      unfolding vw(1)
      by (rule chains_ok_upd [OF oku]) (use chains_okD(4-6) [OF oku] in \<open>auto simp: view_def\<close>)
    from unlink_page_refines [OF x assms(2)] have vx: "view x = v_unlink page (view w)" "same_rest w x"
      by auto
    have vt: "view t = view x"
      using y by (auto simp: spin_unlock_chain_def split: if_splits)
    have "same_rest s t"
      using y vw(2) vx(2) du(2) free
      by (auto simp: same_rest_def spin_unlock_chain_def split: if_splits)
    moreover have "chains_ok (view t)"
      by (simp add: vt vx chains_ok_unlink okw)
    moreover have "pg_chain (page_at t q) = (if q = page then None else pg_chain (page_at s q))" for q
    proof -
      have "v_chain_of (view t) q = (if q = page then None else v_chain_of (view w) q)"
        by (simp add: vt vx v_unlink_sel)
      then show ?thesis
        using cu by (simp add: vw)
    qed
    moreover have "v_ids (view t) = v_ids (view s)"
      by (simp add: vt vx vw(1) v_ids_upd iu)
    ultimately show ?thesis
      using unlink by simp
  qed
qed

lemma free_pages_check_clears: "free_pages_check p s = (0, t) \<Longrightarrow> \<not> k__PageReferenced p t"
proof -
  assume a: "free_pages_check p s = (0, t)"
  have "\<not> bit (pg_flags (page_at s p)) 2" if "pg_flags (page_at s p) AND PAGE_FLAGS_CHECK_AT_PREP = 0"
    using that [unfolded word_and_eq_0_iff] by (auto simp: NR_PAGEFLAGS_def dest!: spec [of _ 2])
  with a show ?thesis
    by (auto simp: free_pages_check_def test_bit_def page_at_upd_page bit_and_not_prep
        NR_PAGEFLAGS_def split: if_splits)
qed

lemma free_pages_check_nonneg: "0 \<le> fst (free_pages_check p s)"
  by (simp add: free_pages_check_def)

lemma free_check_loop_bad:
  assumes "fold (\<lambda>i (bad, s). let (b, s) = free_pages_check (page + i) s in (bad + b, s)) xs (b, s) = (b', t)"
  shows "b \<le> b'"
  using assms
proof (induction xs arbitrary: b s)
  case (Cons i xs)
  obtain c u where u: "free_pages_check (page + i) s = (c, u)"
    by (metis surj_pair)
  with Cons.prems have "b + c \<le> b'"
    by (intro Cons.IH [of "b + c" u]) simp
  with free_pages_check_nonneg [of "page + i" s] u show ?case
    by simp
qed simp

lemma free_check_head_clear:
  assumes "fold (\<lambda>i (bad, s). let (b, s) = free_pages_check (page + i) s in (bad + b, s))
    [0..<2 ^ order] (0, s) = (0, t)"
  shows "\<not> k__PageReferenced page t"
proof -
  have split: "[0..<2 ^ order] = 0 # [1..<2 ^ order]"
    by (simp add: upt_rec)
  obtain c u where u: "free_pages_check page s = (c, u)"
    by (metis surj_pair)
  have rest: "fold (\<lambda>i (bad, s). let (b, s) = free_pages_check (page + i) s in (bad + b, s))
      [1..<2 ^ order] (c, u) = (0, t)"
    using assms u by (simp add: split)
  have "c = 0"
    using free_check_loop_bad [OF rest] free_pages_check_nonneg [of page s] u by simp
  with free_pages_check_clears [of page s u] u have "\<not> k__PageReferenced page u"
    by simp
  with free_check_loop [OF rest] show ?thesis
    by (auto simp: refs_dropped_def simp flip: view_sel(3))
qed

text \<open>
  C26. Freeing a page of a chain never changes the chain's \<open>ref_counter\<close>, also when the page has
  its referenced bit: \<open>free_pages_check\<close> clears the bit with all other flags before
  \<open>__unlink_page\<close> looks at it. The counter then stays above the number of referenced pages, and
  the chain is taken for referenced until it is touched, broken or released.
\<close>

theorem free_leaks_reference:
  assumes "free_pages_prepare E page order s = Some (True, t)" and "mlock_quiet E"
    and "pg_chain (page_at s page) = Some c" and "k_chains s c = Some ch" and "chains_ok (view s)"
  shows "\<exists>ch'. k_chains t c = Some ch' \<and> mc_ref_counter ch' = mc_ref_counter ch
    \<and> mc_links ch' = removeAll page (mc_links ch)
    \<and> mc_evict_cnt ch' = mc_evict_cnt ch + 1"
proof -
  let ?s0 = "if PageAnon page s then upd_page page (\<lambda>pg. pg\<lparr>pg_mapping := NoMapping\<rparr>) s else s"
  have q0: "chain_quiet s ?s0"
    by (auto intro: kframe)
  obtain bad u where u: "fold (\<lambda>i (bad, s). let (b, s) = free_pages_check (page + i) s in (bad + b, s))
      [0..<2 ^ order] (0, ?s0) = (bad, u)"
    by (metis surj_pair)
  have du: "refs_dropped (view s) (view u)"
    using free_check_loop [OF u] chain_quiet_rest [OF q0] by auto
  then have cu: "pg_chain (page_at u page) = Some c" "k_chains u c = Some ch"
    using assms(3,4) by (simp_all add: refs_dropped_def flip: view_sel(1,2))
  have "bad = 0"
    using assms(1) u by (auto simp: free_pages_prepare_def Let_def split: if_splits)
  then have ref: "\<not> k__PageReferenced page u"
    using free_check_head_clear u by blast
  let ?u2 = "u\<lparr>k_held := insert (LinkLock page) (insert (ChainLock c) (k_held u))\<rparr>"
  from assms(1) u cu obtain w x y where
    w: "upd_chain c (\<lambda>ch. ch\<lparr>mc_evict_cnt := mc_evict_cnt ch + 1\<rparr>) ?u2 = Some w"
    and x: "k__unlink_page E page w = Some x"
    and y: "spin_unlock (LinkLock page) x = Some y" "spin_unlock_chain (Some c) y = Some t"
    by (auto simp: free_pages_prepare_def Let_def spin_lock_chain_def
        split: if_splits Option.bind_splits)
  have "view x = v_unlink page (view w)"
    using unlink_page_refines [OF x assms(2)] by simp
  moreover have "view t = view x"
    using y by (auto simp: spin_unlock_chain_def split: if_splits)
  moreover have "view w = v_upd c (\<lambda>ch. ch\<lparr>mc_evict_cnt := mc_evict_cnt ch + 1\<rparr>) (view u)"
    using upd_chain_cases(2) [OF w] by simp
  ultimately have "v_chains (view t) c = Some (chain_without page False (ch\<lparr>mc_evict_cnt := mc_evict_cnt ch + 1\<rparr>))"
    using cu ref by (simp add: v_unlink_def)
  then show ?thesis
    by (simp add: chain_without_def)
qed

text \<open>The complete free paths.\<close>

definition chain_freed :: "page_ptr set \<Rightarrow> kstate \<Rightarrow> kstate \<Rightarrow> bool" where
  "chain_freed P s t \<longleftrightarrow> same_rest s t \<and> chains_ok (view t) \<and> v_ids (view t) = v_ids (view s)
     \<and> (\<forall>q. pg_chain (page_at t q) = (if q \<in> P then None else pg_chain (page_at s q)))"

lemma chain_freed_quiet:
  "chain_quiet s t \<Longrightarrow> chain_freed P t u \<Longrightarrow> chain_freed P s u"
  "chain_freed P s t \<Longrightarrow> chain_quiet t u \<Longrightarrow> chain_freed P s u"
  by (auto simp: chain_freed_def chain_quiet_def same_rest_def simp flip: view_sel(2))

lemma free_pages_prepare_freed:
  "free_pages_prepare E page order s = Some (ok, t) \<Longrightarrow> mlock_quiet E \<Longrightarrow> chains_ok (view s) \<Longrightarrow>
     chain_freed (if ok then {page} else {}) s t"
  using free_pages_prepare_view by (auto simp: chain_freed_def)

lemma chains_ok_quiet: "chain_quiet s t \<Longrightarrow> chains_ok (view s) \<Longrightarrow> chains_ok (view t)"
  by (simp add: chain_quiet_def)

lemma free_to_pcp_quiet:
  assumes "free_to_pcp E z page cold mt s = Some t"
  shows "chain_quiet s t"
proof (cases "MIGRATE_PCPTYPES \<le> mt \<and> mt = MIGRATE_ISOLATE")
  case True
  with assms show ?thesis
    by (simp add: free_to_pcp_def free_one_page_quiet)
next
  case False
  define m where "m = (if MIGRATE_PCPTYPES \<le> mt then MIGRATE_MOVABLE else mt)"
  define u where "u = (if cold then set_pcp_list z (cur_cpu E) m (pcp_list s z (cur_cpu E) m @ [page]) s
       else set_pcp_list z (cur_cpu E) m (page # pcp_list s z (cur_cpu E) m) s)"
  define v where "v = upd_pcp z (cur_cpu E) (\<lambda>pcp. pcp\<lparr>pcp_count := pcp_count pcp + 1\<rparr>) u"
  have q: "chain_quiet s v"
    by (simp add: v_def u_def)
  define pcp where "pcp = ps_pcp (z_pageset (zone_at v z) (cur_cpu E))"
  have "free_to_pcp E z page cold mt s = (if pcp_count pcp \<ge> pcp_high pcp
      then Option.bind (free_pcppages_bulk E z (nat (pcp_batch pcp)) (cur_cpu E) v)
        (\<lambda>s. Some (upd_pcp z (cur_cpu E) (\<lambda>p. p\<lparr>pcp_count := pcp_count p - pcp_batch p\<rparr>) s))
      else Some v)"
    using False by (simp only: free_to_pcp_def Let_def m_def u_def v_def pcp_def if_False)
  with assms q show ?thesis
    by (auto split: if_splits Option.bind_splits dest!: free_pcppages_bulk_quiet
        intro: chain_quiet_trans)
qed

lemma free_hot_cold_page_freed:
  assumes "free_hot_cold_page E page cold s = Some t" and "mlock_quiet E" and "chains_ok (view s)"
  shows "\<exists>P \<subseteq> {page}. chain_freed P s t"
proof -
  let ?s0 = "clear_bit_k PG_mlocked page s"
  have q0: "chain_quiet s ?s0"
    by simp
  from assms(1) obtain ok u where u: "free_pages_prepare E page 0 ?s0 = Some (ok, u)"
    by (cases "free_pages_prepare E page 0 ?s0")
      (auto simp: free_hot_cold_page_def test_and_clear_bit_def Let_def)
  from chain_freed_quiet(1) [OF q0 free_pages_prepare_freed [OF u assms(2) chains_ok_quiet [OF q0 assms(3)]]]
  have fu: "chain_freed (if ok then {page} else {}) s u" .
  have "chain_quiet u t"
  proof (cases ok)
    case False
    with assms(1) u show ?thesis
      by (simp add: free_hot_cold_page_def test_and_clear_bit_def)
  next
    case True
    with assms(1) u have "\<exists>v. chain_quiet u v \<and> free_to_pcp E (page_zone E page) page cold
        (get_pageblock_migratetype E page u) v = Some t"
      by (auto simp: free_hot_cold_page_def test_and_clear_bit_def Let_def free_page_mlock_def
          split: if_splits intro!: exI conjI)
    then show ?thesis
      by (auto dest: free_to_pcp_quiet intro: chain_quiet_trans)
  qed
  with fu show ?thesis
    by (intro exI [of _ "if ok then {page} else {}"])
      (auto intro: chain_freed_quiet(2) split: if_splits)
qed

lemma free_pages_ok_freed:
  assumes "k__free_pages_ok E page order s = Some t" and "mlock_quiet E" and "chains_ok (view s)"
  shows "\<exists>P \<subseteq> {page}. chain_freed P s t"
proof -
  let ?s0 = "clear_bit_k PG_mlocked page s"
  have q0: "chain_quiet s ?s0"
    by simp
  from assms(1) obtain ok u where u: "free_pages_prepare E page order ?s0 = Some (ok, u)"
    by (cases "free_pages_prepare E page order ?s0")
      (auto simp: k__free_pages_ok_def test_and_clear_bit_def Let_def)
  from chain_freed_quiet(1) [OF q0 free_pages_prepare_freed [OF u assms(2) chains_ok_quiet [OF q0 assms(3)]]]
  have fu: "chain_freed (if ok then {page} else {}) s u" .
  have "chain_quiet u t"
  proof (cases ok)
    case False
    with assms(1) u show ?thesis
      by (simp add: k__free_pages_ok_def test_and_clear_bit_def)
  next
    case True
    with assms(1) u have "\<exists>v mt. chain_quiet u v \<and> free_one_page E (page_zone E page) page order mt v = Some t"
      by (auto simp: k__free_pages_ok_def test_and_clear_bit_def Let_def free_page_mlock_def
          split: if_splits intro!: exI conjI)
    then show ?thesis
      by (auto dest: free_one_page_quiet intro: chain_quiet_trans)
  qed
  with fu show ?thesis
    by (intro exI [of _ "if ok then {page} else {}"])
      (auto intro: chain_freed_quiet(2) split: if_splits)
qed

lemma chain_freed_trans:
  "chain_freed P s t \<Longrightarrow> chain_freed Q t u \<Longrightarrow> chain_freed (P \<union> Q) s u"
  by (auto simp: chain_freed_def intro: same_rest_trans)

lemma pagevec_free_freed:
  assumes "k__pagevec_free E pages cold s = Some t" and "mlock_quiet E" and "chains_ok (view s)"
  shows "\<exists>P \<subseteq> set pages. chain_freed P s t"
proof -
  have "\<exists>P \<subseteq> set xs. chain_freed P s t"
    if "forK (\<lambda>p. free_hot_cold_page E p cold) xs s = Some t" "chains_ok (view s)" for xs s
    using that
  proof (induction xs arbitrary: s)
    case Nil
    then show ?case by (auto simp: chain_freed_def)
  next
    case (Cons x xs)
    from Cons.prems(1) obtain u where u: "free_hot_cold_page E x cold s = Some u"
      "forK (\<lambda>p. free_hot_cold_page E p cold) xs u = Some t"
      by (auto split: Option.bind_splits)
    from free_hot_cold_page_freed [OF u(1) assms(2) Cons.prems(2)] obtain P where
      P: "P \<subseteq> {x}" "chain_freed P s u" by auto
    then have "chains_ok (view u)" by (simp add: chain_freed_def)
    from Cons.IH [OF u(2) this] obtain Q where "Q \<subseteq> set xs" "chain_freed Q u t" by auto
    with P show ?case
      by (intro exI [of _ "P \<union> Q"]) (auto intro: chain_freed_trans)
  qed
  from this [of "rev pages" s] assms show ?thesis
    by (simp add: k__pagevec_free_def)
qed

lemma free_pages_prepare_total:
  assumes ok: "chains_ok (view s)" and held: "k_held s = {}" and mq: "mlock_quiet E"
    and a: "\<And>c ch. pg_chain (page_at s page) = Some c \<Longrightarrow> k_chains s c = Some ch \<Longrightarrow> mc_anchor ch \<noteq> Some page"
  shows "\<exists>ok t. free_pages_prepare E page order s = Some (ok, t)"
proof -
  let ?s0 = "if PageAnon page s then upd_page page (\<lambda>pg. pg\<lparr>pg_mapping := NoMapping\<rparr>) s else s"
  have q0: "chain_quiet s ?s0"
    by (auto intro: kframe)
  obtain bad u where u: "fold (\<lambda>i (bad, s). let (b, s) = free_pages_check (page + i) s in (bad + b, s))
      [0..<2 ^ order] (0, ?s0) = (bad, u)"
    by (metis surj_pair)
  have du: "refs_dropped (view s) (view u)" "same_rest s u"
    using free_check_loop [OF u] chain_quiet_rest [OF q0] by (auto intro: same_rest_trans)
  have oku: "chains_ok (view u)" and heldu: "k_held u = {}"
    using chains_ok_refs_dropped [OF ok du(1)] du(2) held by (simp_all add: same_rest_def)
  have same: "pg_chain (page_at u page) = pg_chain (page_at s page)" "k_chains u = k_chains s"
    using du(1) by (simp_all add: refs_dropped_def fun_eq_iff flip: view_sel(1,2))
  show ?thesis
  proof (cases "bad = 0 \<and> pg_chain (page_at u page) \<noteq> None")
    case False
    with u show ?thesis
      by (auto simp: free_pages_prepare_def Let_def)
  next
    case True
    then obtain c where c: "pg_chain (page_at u page) = Some c" by auto
    from chains_ok_ex [OF oku, of page c] c obtain ch where ch: "k_chains u c = Some ch" by auto
    let ?u2 = "u\<lparr>k_held := {LinkLock page, ChainLock c}\<rparr>"
    define w where "w = ?u2\<lparr>k_chains := (k_chains u)(c \<mapsto> ch\<lparr>mc_evict_cnt := mc_evict_cnt ch + 1\<rparr>)\<rparr>"
    have w: "upd_chain c (\<lambda>ch. ch\<lparr>mc_evict_cnt := mc_evict_cnt ch + 1\<rparr>) ?u2 = Some w"
      using ch by (simp add: upd_chain_def w_def)
    note vw = upd_chain_cases [OF w]
    have "chains_ok (view w)"
      unfolding vw(2)
      by (rule chains_ok_upd) (use oku chains_okD(4-6) [OF oku] in \<open>auto simp: view_def\<close>)
    moreover have "mc_anchor ch' \<noteq> Some page"
      if "pg_chain (page_at w page) = Some c'" "k_chains w c' = Some ch'" for c' ch'
      using that a [of c ch] vw(8) c ch same by (auto simp: w_def)
    ultimately obtain x where x: "k__unlink_page E page w = Some x"
      using unlink_page_total by blast
    note vx = unlink_page_refines [OF x mq]
    have "k_held x = {LinkLock page, ChainLock c}"
      using vx by (simp add: same_rest_def w_def)
    moreover have "k_chains w c \<noteq> None"
      by (simp add: w_def)
    then have "k_chains x c \<noteq> None"
      using vx v_unlink_sel(2) [of page "view w" c] by (simp only: flip: view_sel(1)) simp
    ultimately show ?thesis
      using u True c ch w x heldu
      by (auto simp: free_pages_prepare_def Let_def spin_lock_chain_def spin_unlock_chain_def chain_at_def
          simp del: upd_chain_held)
  qed
qed

section \<open>The theorems on the small machine\<close>

text \<open>The linked machine with the referenced page 7 about to be freed.\<close>

definition freed_state :: kstate where
  "freed_state = linked_state\<lparr>
     k_pages := (k_pages linked_state)(7 := sample_page\<lparr>pg_chain := Some 1, pg_count := 0, pg_flags := 4\<rparr>),
     k_chains := [1 \<mapsto> \<lparr>mc_id = 0, mc_attributes = None, mc_nr_links = 2, mc_links = [7, 8],
        mc_anchor = None, mc_ref_counter = 1, mc_delegate = None, mc_evict_cnt = 0\<rparr>]\<rparr>"

lemma masks: "(4::ulong) AND PAGE_FLAGS_CHECK_AT_FREE = 0" "(4::ulong) AND PAGE_FLAGS_CHECK_AT_PREP = 4"
  "(4::ulong) AND NOT PAGE_FLAGS_CHECK_AT_PREP = 0"
  by (simp_all add: PAGE_FLAGS_CHECK_AT_FREE_def PAGE_FLAGS_CHECK_AT_PREP_def NR_PAGEFLAGS_def pg_mask_def)

lemma at7: "page_at freed_state 7 = sample_page\<lparr>pg_chain := Some 1, pg_count := 0, pg_flags := 4\<rparr>"
  by (simp add: freed_state_def page_at_def)

lemma check: "free_pages_check 7 freed_state = (0, upd_page 7 (\<lambda>pg. pg\<lparr>pg_flags := 0\<rparr>) freed_state)"
  by (simp add: free_pages_check_def at7 masks sample_page_def page_mapcount_def upd_page_def page_at_def [symmetric])


lemma freed_chains_ok: "chains_ok (view freed_state)"
  by (auto simp: chains_ok_def chain_ok_def freed_state_def linked_state_def page_at_def test_bit_def sample_defs)

lemma freed_anchor: "k_chains freed_state c = Some ch \<Longrightarrow> mc_anchor ch = None"
  by (auto simp: freed_state_def split: if_splits)

lemma freed_run: "\<exists>t. free_pages_prepare sample_env 7 0 freed_state = Some (True, t)"
proof -
  have "k_held freed_state = {}"
    by (simp add: freed_state_def linked_state_sel)
  from free_pages_prepare_total [OF freed_chains_ok this sample_mlock_quiet] freed_anchor
  obtain ok t where t: "free_pages_prepare sample_env 7 0 freed_state = Some (ok, t)"
    by (metis option.distinct(1))
  have "\<not> PageAnon 7 freed_state"
    by (simp add: PageAnon_def at7 sample_page_def)
  with t have ok
    by (auto simp: free_pages_prepare_def check split: option.splits Option.bind_splits)
  with t show ?thesis by auto
qed

theorem free_leaks_reference_witness:
  "\<exists>t ch'. free_pages_prepare sample_env 7 0 freed_state = Some (True, t)
     \<and> k_chains t 1 = Some ch' \<and> mc_ref_counter ch' = 1 \<and> mc_links ch' = [8]"
proof -
  from freed_run obtain t where run: "free_pages_prepare sample_env 7 0 freed_state = Some (True, t)"
    by blast
  from free_leaks_reference [OF run sample_mlock_quiet _ _ freed_chains_ok, of 1] show ?thesis
    using run by (simp add: at7) (auto simp: freed_state_def)
qed

end
