(* ===== verification/Buddy_Inv.thy ===== *)
theory Buddy_Inv
  imports Buddy
begin

text \<open>
  The buddy system of \<open>Linux/page_alloc.c\<close> at work: its invariant, what freeing a block
  (\<open>__free_one_page\<close> with its merging) and taking one (\<open>__rmqueue_smallest\<close> with \<open>expand\<close>) do to the
  set of free frames, and that the two undo each other. A frame is a \<open>page_ptr\<close>.
\<close>

section \<open>Free blocks\<close>

text \<open>The frames of a block.\<close>

definition span :: "page_ptr \<Rightarrow> nat \<Rightarrow> page_ptr set" where
  "span p order = {p ..< p + 2 ^ order}"

definition nr_free :: "zone_ptr \<Rightarrow> kstate \<Rightarrow> nat \<Rightarrow> int" where
  "nr_free z s order = fa_nr_free (z_free_area (zone_at s z) order)"

definition blocks :: "zone_ptr \<Rightarrow> kstate \<Rightarrow> (page_ptr \<times> nat) set" where
  "blocks z s = {(p, order). \<exists>mt. p \<in> set (free_list s z order mt)}"

definition free_frames :: "zone_ptr \<Rightarrow> kstate \<Rightarrow> page_ptr set" where
  "free_frames z s = (\<Union>(p, order) \<in> blocks z s. span p order)"

definition in_zone :: "kenv \<Rightarrow> zone_ptr \<Rightarrow> kstate \<Rightarrow> page_ptr \<Rightarrow> bool" where
  "in_zone E z s p \<longleftrightarrow> \<not> bad_range E z p s"

text \<open>A frame that nobody uses and that is no head of a free block.\<close>

definition idle :: "kstate \<Rightarrow> page_ptr \<Rightarrow> bool" where
  "idle s p \<longleftrightarrow> pg_count (page_at s p) = 0 \<and> pg_mapcount (page_at s p) = - 1 \<and> \<not> PageCompound p s"

lemma idle_cong: "page_at s p = page_at t p \<Longrightarrow> idle s p = idle t p"
  by (simp add: idle_def PageCompound_def)

text \<open>The lists hold each head once, within the bounds of the arrays.\<close>

definition lists_ok :: "(nat \<Rightarrow> nat \<Rightarrow> page_ptr list) \<Rightarrow> bool" where
  "lists_ok L \<longleftrightarrow> (\<forall>order mt. distinct (L order mt))
     \<and> (\<forall>order mt. L order mt \<noteq> [] \<longrightarrow> order < MAX_ORDER \<and> mt < MIGRATE_TYPES)
     \<and> (\<forall>p order mt order' mt'. p \<in> set (L order mt) \<longrightarrow> p \<in> set (L order' mt') \<longrightarrow> order = order' \<and> mt = mt')"

text \<open>
  The invariant of the buddy system of a zone: the free blocks are aligned, disjoint and inside the
  zone; their heads, and no other pages of the zone, carry the mark and the order; every frame of
  a free block is unused; \<open>nr_free\<close> counts the blocks of each order.
\<close>

definition buddy_ok :: "kenv \<Rightarrow> zone_ptr \<Rightarrow> kstate \<Rightarrow> bool" where
  "buddy_ok E z s \<longleftrightarrow> lists_ok (free_list s z)
     \<and> (\<forall>order. nr_free z s order = int (\<Sum>mt < MIGRATE_TYPES. length (free_list s z order mt)))
     \<and> (\<forall>p order. (p, order) \<in> blocks z s \<longrightarrow> 2 ^ order dvd p \<and> PageBuddy p s \<and> page_order p s = order)
     \<and> (\<forall>p q order order'. (p, order) \<in> blocks z s \<longrightarrow> (q, order') \<in> blocks z s \<longrightarrow> p \<noteq> q \<longrightarrow>
          span p order \<inter> span q order' = {})
     \<and> (\<forall>q \<in> free_frames z s. in_zone E z s q \<and> pg_count (page_at s q) = 0 \<and> \<not> PageCompound q s
          \<and> (PageBuddy q s \<or> pg_mapcount (page_at s q) = - 1))
     \<and> (\<forall>q. PageBuddy q s \<longrightarrow> pg_count (page_at s q) = 0)
     \<and> (\<forall>q. page_zone E q = z \<longrightarrow> PageBuddy q s \<longrightarrow> (q, page_order q s) \<in> blocks z s)"

text \<open>No two free blocks are buddies: everything that can be merged is.\<close>

definition coalesced :: "(page_ptr \<times> nat) set \<Rightarrow> bool" where
  "coalesced F \<longleftrightarrow> (\<forall>p order. order < MAX_ORDER - 1 \<longrightarrow> (p, order) \<in> F \<longrightarrow> (p XOR 2 ^ order, order) \<notin> F)"

lemma span_iff [simp]: "q \<in> span p order \<longleftrightarrow> p \<le> q \<and> q < p + 2 ^ order"
  by (simp add: span_def)

lemma blocks_iff: "(p, order) \<in> blocks z s \<longleftrightarrow> (\<exists>mt. p \<in> set (free_list s z order mt))"
  by (simp add: blocks_def)

lemma free_frames_iff: "q \<in> free_frames z s \<longleftrightarrow> (\<exists>p order. (p, order) \<in> blocks z s \<and> q \<in> span p order)"
  unfolding free_frames_def by fastforce

subsection \<open>Buddies\<close>

lemma unset_bit_nat: "unset_bit k (n :: nat) = (if bit n k then n - 2 ^ k else n)"
proof (cases "bit n k")
  case True
  then have "set_bit k (unset_bit k n) = n"
    by (intro bit_eqI) (auto simp: bit_set_bit_iff bit_unset_bit_iff)
  with set_bit_eq [of k "unset_bit k n"] have "unset_bit k n + 2 ^ k = n"
    by (simp add: bit_unset_bit_iff)
  with True show ?thesis by auto
next
  case False
  then have "unset_bit k n = n"
    by (intro bit_eqI) (auto simp: bit_unset_bit_iff)
  with False show ?thesis by simp
qed

lemma xor_2p: "(n :: nat) XOR 2 ^ k = (if bit n k then n - 2 ^ k else n + 2 ^ k)"
proof -
  have "n XOR 2 ^ k = flip_bit k n" by (simp add: flip_bit_eq_xor push_bit_eq_mult)
  then show ?thesis by (simp add: flip_bit_eq_if set_bit_eq unset_bit_nat)
qed

lemma bit_ge: "bit (n :: nat) k \<Longrightarrow> 2 ^ k \<le> n"
  by (metis bit_iff_odd div_less even_zero not_le)

lemma xor_and_2p: "((n :: nat) XOR 2 ^ k) AND n = (if bit n k then n - 2 ^ k else n)"
proof -
  have "(n XOR 2 ^ k) AND n = unset_bit k n"
    by (rule bit_eqI) (auto simp: bit_and_iff bit_xor_iff bit_unset_bit_iff bit_exp_iff)
  then show ?thesis by (simp add: unset_bit_nat)
qed

lemma page_plus_diff:
  "d \<le> j \<Longrightarrow> d \<le> p \<Longrightarrow> page_plus p (int (j - d) - int j) = p - d"
  "page_plus p (int (j + d) - int j) = p + d" "page_plus p (int j - int j) = p"
  by (simp_all add: page_plus_def)

lemma page_buddy:
  fixes page :: nat
  assumes "order < n"
  defines "idx \<equiv> page AND (2 ^ n - 1)"
  shows "page_plus page (int (k__find_buddy_index idx order) - int idx) = page XOR 2 ^ order"
    and "page_plus page (int (k__find_buddy_index idx order AND idx) - int idx) = (page XOR 2 ^ order) AND page"
proof -
  have idx: "idx = take_bit n page" by (simp add: idx_def take_bit_eq_mask mask_eq_exp_minus_1)
  then have b: "bit idx order = bit page order" using assms(1) by (simp add: bit_take_bit_iff)
  have le: "bit page order \<Longrightarrow> 2 ^ order \<le> idx" "bit page order \<Longrightarrow> 2 ^ order \<le> page"
    using b bit_ge by blast+
  show "page_plus page (int (k__find_buddy_index idx order) - int idx) = page XOR 2 ^ order"
    unfolding k__find_buddy_index_def xor_2p b using le
    by (cases "bit page order") (simp_all only: if_True if_False page_plus_diff)
  show "page_plus page (int (k__find_buddy_index idx order AND idx) - int idx) = (page XOR 2 ^ order) AND page"
    unfolding k__find_buddy_index_def xor_and_2p b using le
    by (cases "bit page order") (simp_all only: if_True if_False page_plus_diff)
qed

lemma idx_combined:
  "order < n \<Longrightarrow> k__find_buddy_index (page AND (2 ^ n - 1)) order AND (page AND (2 ^ n - 1)) =
    ((page XOR 2 ^ order) AND page) AND (2 ^ n - 1 :: nat)"
  by (rule bit_eqI) (auto simp: k__find_buddy_index_def bit_and_iff bit_xor_iff bit_exp_iff)

lemma bit_mult: "bit (2 ^ k * m :: nat) k = odd m"
  by (simp add: bit_iff_odd)

lemma buddy_mult:
  "(2 ^ k * m :: nat) XOR 2 ^ k = 2 ^ k * (if odd m then m - 1 else m + 1)"
  "((2 ^ k * m :: nat) XOR 2 ^ k) AND (2 ^ k * m) = 2 ^ k * (if odd m then m - 1 else m)"
  unfolding xor_and_2p unfolding xor_2p bit_mult by (simp_all add: algebra_simps diff_mult_distrib2)

text \<open>A block and its buddy make up the block above.\<close>

lemma buddy_facts:
  assumes "2 ^ k dvd (p :: nat)"
  defines "q \<equiv> p XOR 2 ^ k" and "r \<equiv> (p XOR 2 ^ k) AND p"
  shows "2 ^ k dvd q" and "2 ^ Suc k dvd r" and "{p ..< p + 2 ^ k} \<inter> {q ..< q + 2 ^ k} = {}"
    and "{r ..< r + 2 ^ Suc k} = {p ..< p + 2 ^ k} \<union> {q ..< q + 2 ^ k}" and "r = p \<or> r = q" and "p \<noteq> q"
    and "q XOR 2 ^ k = p"
proof -
  from assms(1) obtain m where p: "p = 2 ^ k * m" by (elim dvdE)
  have q: "q = 2 ^ k * (if odd m then m - 1 else m + 1)" and r: "r = 2 ^ k * (if odd m then m - 1 else m)"
    unfolding q_def r_def p by (rule buddy_mult)+
  show "2 ^ k dvd q" unfolding q by simp
  show "2 ^ Suc k dvd r"
  proof -
    have "r = 2 ^ Suc k * (m div 2)" unfolding r by (auto elim: oddE evenE)
    then show ?thesis by simp
  qed
  have odd: "odd m \<Longrightarrow> 2 ^ k * m = 2 ^ k * (m - 1) + 2 ^ k" by (cases m) simp_all
  show "{p ..< p + 2 ^ k} \<inter> {q ..< q + 2 ^ k} = {}" "{r ..< r + 2 ^ Suc k} = {p ..< p + 2 ^ k} \<union> {q ..< q + 2 ^ k}"
    "r = p \<or> r = q" "p \<noteq> q"
    using odd by (auto simp: p q r)
  show "q XOR 2 ^ k = p" unfolding q_def by (simp add: xor.assoc)
qed

subsection \<open>What the updates do to lists and pages\<close>

lemma free_list_frame [simp]:
  "free_list (upd_page p f s) z = free_list s z" "free_list (add_nr_free z' order d s) z = free_list s z"
  "nr_free z (upd_page p f s) = nr_free z s" "nr_free z (free_list_add z' order mt p s) = nr_free z s"
  "nr_free z (free_list_add_tail z' order mt p s) = nr_free z s"
  by (auto simp: free_list_def nr_free_def add_nr_free_def free_list_add_def free_list_add_tail_def upd_area_def
      zone_at_upd_zone fun_eq_iff)

lemma free_list_adds:
  "free_list (free_list_add z order mt p s) z =
     (free_list s z)(order := (free_list s z order)(mt := p # free_list s z order mt))"
  "free_list (free_list_add_tail z order mt p s) z =
     (free_list s z)(order := (free_list s z order)(mt := free_list s z order mt @ [p]))"
  by (auto simp: free_list_def free_list_add_def free_list_add_tail_def upd_area_def zone_at_upd_zone fun_eq_iff)

lemma nr_free_add [simp]: "nr_free z (add_nr_free z order d s) = (nr_free z s)(order := nr_free z s order + d)"
  by (auto simp: nr_free_def add_nr_free_def upd_area_def zone_at_upd_zone fun_eq_iff)

lemma page_at_lists [simp]:
  "page_at (add_nr_free z order d s) p = page_at s p" "page_at (free_list_add z order mt q s) p = page_at s p"
  "page_at (free_list_add_tail z order mt q s) p = page_at s p"
  by (simp_all add: add_nr_free_def free_list_add_def free_list_add_tail_def upd_area_def)

text \<open>The span of a zone and the zone of a page never change here.\<close>

definition zone_span :: "zone_ptr \<Rightarrow> kstate \<Rightarrow> nat \<times> nat" where
  "zone_span z s = (z_start_pfn (zone_at s z), z_spanned_pages (zone_at s z))"

lemma in_zone_span: "zone_span z s = zone_span z t \<Longrightarrow> in_zone E z s = in_zone E z t"
  by (simp add: in_zone_def bad_range_def page_outside_zone_boundaries_def zone_span_def fun_eq_iff)

lemma zone_span_frame [simp]:
  "zone_span z (upd_page p f s) = zone_span z s" "zone_span z (add_nr_free z' order d s) = zone_span z s"
  "zone_span z (free_list_add z' order mt q s) = zone_span z s"
  "zone_span z (free_list_add_tail z' order mt q s) = zone_span z s"
  by (simp_all add: zone_span_def add_nr_free_def free_list_add_def free_list_add_tail_def upd_area_def zone_at_upd_zone)

lemma lists_okD:
  assumes "lists_ok L"
  shows "distinct (L order mt)" and "p \<in> set (L order mt) \<Longrightarrow> order < MAX_ORDER"
    and "p \<in> set (L order mt) \<Longrightarrow> mt < MIGRATE_TYPES"
    and "p \<in> set (L order mt) \<Longrightarrow> p \<in> set (L order' mt') \<Longrightarrow> order' = order"
    and "p \<in> set (L order mt) \<Longrightarrow> p \<in> set (L order' mt') \<Longrightarrow> mt' = mt"
proof -
  have ne: "p \<in> set (L order mt) \<Longrightarrow> L order mt \<noteq> []" by auto
  show "p \<in> set (L order mt) \<Longrightarrow> order < MAX_ORDER" "p \<in> set (L order mt) \<Longrightarrow> mt < MIGRATE_TYPES"
    using assms ne unfolding lists_ok_def by blast+
  show "distinct (L order mt)" using assms unfolding lists_ok_def by blast
  show "p \<in> set (L order mt) \<Longrightarrow> p \<in> set (L order' mt') \<Longrightarrow> order' = order"
    "p \<in> set (L order mt) \<Longrightarrow> p \<in> set (L order' mt') \<Longrightarrow> mt' = mt"
    using assms unfolding lists_ok_def by metis+
qed

lemma on_free_list_iff:
  assumes "lists_ok (free_list s z)"
  shows "on_free_list z p s \<longleftrightarrow> (\<exists>order mt. p \<in> set (free_list s z order mt))"
proof -
  show ?thesis
    using lists_okD(2,3) [OF assms] by (fastforce simp: on_free_list_def list_ex_iff)
qed

lemma free_list_del_eq:
  assumes "lists_ok (free_list s z)" and "p \<in> set (free_list s z order mt)"
  shows "\<exists>t. free_list_del z p s = Some t
    \<and> free_list t z = (free_list s z)(order := (free_list s z order)(mt := removeAll p (free_list s z order mt)))
    \<and> nr_free z t = nr_free z s \<and> zone_span z t = zone_span z s \<and> k_pages t = k_pages s"
proof -
  have "removeAll p (free_list s z order' mt') = free_list s z order' mt'" if "order' \<noteq> order \<or> mt' \<noteq> mt" for order' mt'
  proof -
    have "p \<notin> set (free_list s z order' mt')"
      using lists_okD(4,5) [OF assms(1,2)] that by blast
    then show ?thesis by (rule removeAll_id)
  qed
  then show ?thesis
    using assms(2) on_free_list_iff [OF assms(1), of p]
    by (fastforce simp: free_list_del_def free_list_def nr_free_def zone_span_def zone_at_upd_zone fun_eq_iff)
qed

subsection \<open>Taking a block out\<close>

text \<open>What a state has after a block has left the lists, in whatever order the code updates it.\<close>

definition block_removed :: "zone_ptr \<Rightarrow> page_ptr \<Rightarrow> nat \<Rightarrow> nat \<Rightarrow> kstate \<Rightarrow> kstate \<Rightarrow> bool" where
  "block_removed z p order mt s t \<longleftrightarrow>
     free_list t z = (free_list s z)(order := (free_list s z order)(mt := removeAll p (free_list s z order mt)))
     \<and> nr_free z t = (nr_free z s)(order := nr_free z s order - 1) \<and> zone_span z t = zone_span z s
     \<and> (\<forall>q. page_at t q = (if q = p then (page_at s p)\<lparr>pg_mapcount := - 1, pg_private := 0\<rparr> else page_at s q))"

lemma buddy_okD:
  assumes "buddy_ok E z s"
  shows "lists_ok (free_list s z)"
    and "nr_free z s order = int (\<Sum>mt < MIGRATE_TYPES. length (free_list s z order mt))"
    and "(p, order) \<in> blocks z s \<Longrightarrow> 2 ^ order dvd p"
    and "(p, order) \<in> blocks z s \<Longrightarrow> PageBuddy p s"
    and "(p, order) \<in> blocks z s \<Longrightarrow> page_order p s = order"
    and "(p, order) \<in> blocks z s \<Longrightarrow> (q, order') \<in> blocks z s \<Longrightarrow> p \<noteq> q \<Longrightarrow> span p order \<inter> span q order' = {}"
    and "q \<in> free_frames z s \<Longrightarrow> in_zone E z s q"
    and "q \<in> free_frames z s \<Longrightarrow> pg_count (page_at s q) = 0"
    and "q \<in> free_frames z s \<Longrightarrow> PageBuddy q s \<or> pg_mapcount (page_at s q) = - 1"
    and "q \<in> free_frames z s \<Longrightarrow> \<not> PageCompound q s"
    and "PageBuddy q s \<Longrightarrow> pg_count (page_at s q) = 0"
    and "page_zone E q = z \<Longrightarrow> PageBuddy q s \<Longrightarrow> (q, page_order q s) \<in> blocks z s"
  using assms unfolding buddy_ok_def by blast+

lemma block_order: "buddy_ok E z s \<Longrightarrow> (p, order) \<in> blocks z s \<Longrightarrow> order < MAX_ORDER"
  using lists_okD(2) [OF buddy_okD(1)] by (auto simp: blocks_iff)

lemma block_span: "(p, order) \<in> blocks z s \<Longrightarrow> span p order \<subseteq> free_frames z s"
  unfolding free_frames_iff [abs_def] subset_iff by blast

lemma in_zone_zone: "in_zone E z s q \<Longrightarrow> page_zone E q = z \<and> pfn_valid_within E q"
  by (auto simp: in_zone_def bad_range_def page_is_consistent_def split: if_splits)

lemma block_frame_idle:
  assumes "buddy_ok E z s" and "(p, order) \<in> blocks z s" and "q \<in> span p order" and "q \<noteq> p"
  shows "idle s q"
proof -
  have q: "q \<in> free_frames z s" using block_span [OF assms(2)] assms(3) by blast
  have "\<not> PageBuddy q s"
  proof
    assume "PageBuddy q s"
    then have "(q, page_order q s) \<in> blocks z s"
      using buddy_okD(7,12) [OF assms(1)] q in_zone_zone by blast
    from buddy_okD(6) [OF assms(1) assms(2) this] assms(3,4) show False by auto
  qed
  with buddy_okD(8-10) [OF assms(1) q] show ?thesis by (simp add: idle_def)
qed

lemma blocks_removed:
  assumes "lists_ok (free_list s z)" and "p \<in> set (free_list s z order mt)" and "block_removed z p order mt s t"
  shows "blocks z t = blocks z s - {(p, order)}"
proof -
  have L: "free_list t z i j = (if i = order \<and> j = mt then removeAll p (free_list s z i j) else free_list s z i j)" for i j
    using assms(3) by (simp add: block_removed_def)
  have "q \<in> set (free_list t z i j) \<longleftrightarrow> q \<in> set (free_list s z i j) \<and> \<not> (q = p \<and> i = order \<and> j = mt)" for q i j
    by (simp add: L)
  then have "(q, i) \<in> blocks z t \<longleftrightarrow> (q, i) \<in> blocks z s \<and> (q, i) \<noteq> (p, order)" for q i
    using lists_okD(4,5) [OF assms(1,2)] assms(2) unfolding blocks_iff by blast
  then show ?thesis by auto
qed

lemma lists_ok_removed:
  assumes "lists_ok (free_list s z)" and "block_removed z p order mt s t"
  shows "lists_ok (free_list t z)"
proof -
  have L: "free_list t z = (free_list s z)(order := (free_list s z order)(mt := removeAll p (free_list s z order mt)))"
    using assms(2) by (simp add: block_removed_def)
  have sub: "set (free_list t z i j) \<subseteq> set (free_list s z i j)" for i j
    by (auto simp: L)
  have "distinct (free_list t z i j)" for i j
    by (auto simp: L lists_okD(1) [OF assms(1)] distinct_removeAll)
  moreover have "i < MAX_ORDER \<and> j < MIGRATE_TYPES" if "free_list t z i j \<noteq> []" for i j
  proof -
    from that obtain q where "q \<in> set (free_list t z i j)" by (meson last_in_set)
    then show ?thesis using lists_okD(2,3) [OF assms(1)] sub by blast
  qed
  moreover have "i = i' \<and> j = j'" if "q \<in> set (free_list t z i j)" "q \<in> set (free_list t z i' j')" for q i j i' j'
    using lists_okD(4,5) [OF assms(1)] that sub by blast
  ultimately show ?thesis
    unfolding lists_ok_def by blast
qed

lemma buddy_remove:
  assumes ok: "buddy_ok E z s" and mem: "p \<in> set (free_list s z order mt)" and rem: "block_removed z p order mt s t"
  shows "buddy_ok E z t" and "blocks z t = blocks z s - {(p, order)}"
    and "free_frames z t = free_frames z s - span p order" and "\<forall>q \<in> span p order. idle t q \<and> in_zone E z t q"
proof -
  note L = buddy_okD(1) [OF ok]
  have blk: "(p, order) \<in> blocks z s" using mem by (auto simp: blocks_iff)
  show B: "blocks z t = blocks z s - {(p, order)}" by (rule blocks_removed [OF L mem rem])
  have zs: "in_zone E z t = in_zone E z s"
    using rem by (intro in_zone_span) (simp add: block_removed_def)
  have P: "page_at t q = (if q = p then (page_at s p)\<lparr>pg_mapcount := - 1, pg_private := 0\<rparr> else page_at s q)" for q
    using rem by (simp add: block_removed_def)
  have other: "q \<noteq> p \<and> span q o' \<inter> span p order = {}" if "(q, o') \<in> blocks z t" for q o'
  proof -
    have q: "(q, o') \<in> blocks z s" "(q, o') \<noteq> (p, order)" using that B by auto
    then have "q \<noteq> p" using buddy_okD(5) [OF ok q(1)] buddy_okD(5) [OF ok blk] by auto
    with buddy_okD(6) [OF ok q(1) blk] show ?thesis by auto
  qed
  show F: "free_frames z t = free_frames z s - span p order"
  proof
    show "free_frames z t \<subseteq> free_frames z s - span p order"
      using other B by (fastforce simp: free_frames_iff)
    show "free_frames z s - span p order \<subseteq> free_frames z t"
      using B by (fastforce simp: free_frames_iff)
  qed
  have idle: "idle t q" if "q \<in> span p order" for q
  proof (cases "q = p")
    case True
    have "p \<in> free_frames z s" using block_span [OF blk] that True by blast
    from buddy_okD(10) [OF ok this] True buddy_okD(11) [OF ok buddy_okD(4) [OF ok blk]] show ?thesis
      by (simp add: idle_def P PageCompound_def)
  next
    case False
    with block_frame_idle [OF ok blk that] show ?thesis by (simp add: idle_def P PageCompound_def)
  qed
  moreover have "in_zone E z t q" if "q \<in> span p order" for q
    using buddy_okD(7) [OF ok] block_span [OF blk] that zs by auto
  ultimately show "\<forall>q \<in> span p order. idle t q \<and> in_zone E z t q" by blast
  have pb: "PageBuddy q t \<longleftrightarrow> q \<noteq> p \<and> PageBuddy q s" for q
    by (simp add: PageBuddy_def P)
  have cnt: "pg_count (page_at t q) = pg_count (page_at s q)" "PageCompound q t = PageCompound q s" for q
    by (simp_all add: P PageCompound_def)
  have "int (\<Sum>j < MIGRATE_TYPES. length (free_list t z i j)) = nr_free z t i" for i
  proof (cases "i = order")
    case True
    note mt = lists_okD(3) [OF L mem] and d = lists_okD(1) [OF L, of order mt]
    have rt: "free_list t z order = (free_list s z order)(mt := removeAll p (free_list s z order mt))"
      using rem by (simp add: block_removed_def)
    have "(\<Sum>j < MIGRATE_TYPES. int (length (free_list t z order j))) =
        (\<Sum>j < MIGRATE_TYPES. int (length (free_list s z order j)) - (if j = mt then 1 else 0))"
      by (rule sum.cong) (auto simp: rt int_length_removeAll [OF d mem])
    also have "\<dots> = nr_free z s order - 1"
      using mt by (simp add: sum_subtractf buddy_okD(2) [OF ok])
    finally show ?thesis
      using True rem by (simp add: block_removed_def)
  qed (use rem in \<open>simp add: block_removed_def buddy_okD(2) [OF ok]\<close>)
  moreover have "2 ^ i dvd q \<and> PageBuddy q t \<and> page_order q t = i" if "(q, i) \<in> blocks z t" for q i
  proof -
    have "(q, i) \<in> blocks z s" using that B by simp
    from buddy_okD(3-5) [OF ok this] other [OF that] show ?thesis
      by (simp add: pb) (simp add: page_order_def P)
  qed
  moreover have "(q, page_order q t) \<in> blocks z t" if "page_zone E q = z" "PageBuddy q t" for q
    using buddy_okD(12) [OF ok that(1)] that(2) by (simp add: B pb page_order_def P)
  ultimately show "buddy_ok E z t"
    unfolding buddy_ok_def
    using lists_ok_removed [OF L rem] buddy_okD(6-11) [OF ok]
    by (auto simp: B F pb cnt zs P)
qed

subsection \<open>Putting a block in\<close>

definition block_added :: "zone_ptr \<Rightarrow> page_ptr \<Rightarrow> nat \<Rightarrow> nat \<Rightarrow> kstate \<Rightarrow> kstate \<Rightarrow> bool" where
  "block_added z p order mt s t \<longleftrightarrow>
     (\<exists>xs. (xs = p # free_list s z order mt \<or> xs = free_list s z order mt @ [p])
       \<and> (\<forall>i j. free_list t z i j = (if i = order \<and> j = mt then xs else free_list s z i j)))
     \<and> nr_free z t = (nr_free z s)(order := nr_free z s order + 1) \<and> zone_span z t = zone_span z s
     \<and> (\<forall>q. page_at t q = (if q = p then (page_at s p)\<lparr>pg_private := order, pg_mapcount := - 2\<rparr> else page_at s q))"

lemma blocks_added:
  assumes "block_added z p order mt s t"
  shows "blocks z t = insert (p, order) (blocks z s)"
proof -
  have "q \<in> set (free_list t z i j) \<longleftrightarrow> q \<in> set (free_list s z i j) \<or> (q = p \<and> i = order \<and> j = mt)" for q i j
    using assms by (auto simp: block_added_def split: if_splits)
  then have "(q, i) \<in> blocks z t \<longleftrightarrow> (q, i) \<in> insert (p, order) (blocks z s)" for q i
    unfolding insert_iff blocks_iff prod.inject by blast
  then show ?thesis by auto
qed

lemma lists_ok_added:
  assumes "lists_ok (free_list s z)" and "block_added z p order mt s t" and "order < MAX_ORDER" and "mt < MIGRATE_TYPES"
    and "\<And>i. (p, i) \<notin> blocks z s"
  shows "lists_ok (free_list t z)"
proof -
  from assms(2) obtain xs where xs: "xs = p # free_list s z order mt \<or> xs = free_list s z order mt @ [p]"
    and L: "\<And>i j. free_list t z i j = (if i = order \<and> j = mt then xs else free_list s z i j)"
    by (auto simp: block_added_def)
  have new: "p \<notin> set (free_list s z i j)" for i j
    using assms(5) by (auto simp: blocks_iff)
  have mem: "q \<in> set (free_list t z i j) \<longleftrightarrow> q \<in> set (free_list s z i j) \<or> (q = p \<and> i = order \<and> j = mt)" for q i j
    using xs by (auto simp: L)
  have "distinct (free_list t z i j)" for i j
    using lists_okD(1) [OF assms(1)] new xs by (auto simp: L)
  moreover have "i < MAX_ORDER \<and> j < MIGRATE_TYPES" if "free_list t z i j \<noteq> []" for i j
  proof -
    from that obtain q where "q \<in> set (free_list t z i j)" by (meson last_in_set)
    then have "q \<in> set (free_list s z i j) \<or> i = order \<and> j = mt" unfolding mem by blast
    then show ?thesis using lists_okD(2,3) [OF assms(1)] assms(3,4) by blast
  qed
  moreover have "i = i' \<and> j = j'" if "q \<in> set (free_list t z i j)" "q \<in> set (free_list t z i' j')" for q i j i' j'
  proof (cases "q = p")
    case True
    with that new show ?thesis unfolding mem by blast
  next
    case False
    then have "q \<in> set (free_list s z i j)" "q \<in> set (free_list s z i' j')"
      using that unfolding mem by blast+
    from lists_okD(4,5) [OF assms(1) this] show ?thesis by simp
  qed
  ultimately show ?thesis
    unfolding lists_ok_def by blast
qed

lemma buddy_add:
  assumes ok: "buddy_ok E z s" and add: "block_added z p order mt s t"
    and "2 ^ order dvd p" and ord: "order < MAX_ORDER" and mt: "mt < MIGRATE_TYPES"
    and new: "span p order \<inter> free_frames z s = {}" and idle: "\<And>q. q \<in> span p order \<Longrightarrow> idle s q \<and> in_zone E z s q"
  shows "buddy_ok E z t" and "blocks z t = insert (p, order) (blocks z s)"
    and "free_frames z t = free_frames z s \<union> span p order"
proof -
  note L = buddy_okD(1) [OF ok]
  have self: "q \<in> span q i" for q i by simp
  have fresh: "(p, i) \<notin> blocks z s" for i
    using new block_span [of p i z s] self [of p i] self [of p order] by blast
  show B: "blocks z t = insert (p, order) (blocks z s)" by (rule blocks_added [OF add])
  show F: "free_frames z t = free_frames z s \<union> span p order"
    unfolding free_frames_def B by auto
  have zs: "in_zone E z t = in_zone E z s"
    using add by (intro in_zone_span) (simp add: block_added_def)
  have P: "page_at t q = (if q = p then (page_at s p)\<lparr>pg_private := order, pg_mapcount := - 2\<rparr> else page_at s q)" for q
    using add by (simp add: block_added_def)
  have pb: "PageBuddy q t \<longleftrightarrow> q = p \<or> PageBuddy q s" for q
    by (simp add: PageBuddy_def P)
  have cnt: "pg_count (page_at t q) = pg_count (page_at s q)" "PageCompound q t = PageCompound q s" for q
    by (simp_all add: P PageCompound_def)
  have p: "idle s p" "in_zone E z s p" using idle [OF self] by auto
  have nb: "\<not> PageBuddy p s" using p(1) by (simp add: idle_def PageBuddy_def)
  have "int (\<Sum>j < MIGRATE_TYPES. length (free_list t z i j)) = nr_free z t i" for i
  proof (cases "i = order")
    case True
    have "length (free_list t z order j) = length (free_list s z order j) + (if j = mt then 1 else 0)" for j
      using add by (auto simp: block_added_def)
    then have "(\<Sum>j < MIGRATE_TYPES. int (length (free_list t z order j))) =
        (\<Sum>j < MIGRATE_TYPES. int (length (free_list s z order j)) + (if j = mt then 1 else 0))"
      by (intro sum.cong) auto
    also have "\<dots> = nr_free z s order + 1"
      using mt by (simp add: sum.distrib buddy_okD(2) [OF ok])
    finally show ?thesis
      using True add by (simp add: block_added_def)
  qed (use add in \<open>auto simp: block_added_def buddy_okD(2) [OF ok]\<close>)
  moreover have "2 ^ i dvd q \<and> PageBuddy q t \<and> page_order q t = i" if "(q, i) \<in> blocks z t" for q i
  proof (cases "(q, i) = (p, order)")
    case True
    with assms(3) show ?thesis by (simp add: pb page_order_def P)
  next
    case False
    then have q: "(q, i) \<in> blocks z s" "q \<noteq> p" using that B fresh by auto
    from buddy_okD(3-5) [OF ok q(1)] q(2) show ?thesis
      by (simp add: pb) (simp add: page_order_def P)
  qed
  moreover have "span q i \<inter> span r j = {}" if "(q, i) \<in> blocks z t" "(r, j) \<in> blocks z t" "q \<noteq> r" for q r i j
  proof -
    have old: "span q i \<inter> span p order = {}" "span p order \<inter> span q i = {}" if "(q, i) \<in> blocks z s" for q i
      using new block_span [OF that] by blast+
    show ?thesis
      using that buddy_okD(6) [OF ok] old unfolding B insert_iff prod.inject by metis
  qed
  moreover have "in_zone E z t q \<and> pg_count (page_at t q) = 0 \<and> \<not> PageCompound q t
      \<and> (PageBuddy q t \<or> pg_mapcount (page_at t q) = - 1)" if "q \<in> free_frames z t" for q
    using that buddy_okD(7-10) [OF ok] idle unfolding F by (auto simp: zs cnt pb idle_def P)
  moreover have "pg_count (page_at t q) = 0" if "PageBuddy q t" for q
    using that buddy_okD(11) [OF ok] p(1) by (auto simp: pb cnt idle_def)
  moreover have "(q, page_order q t) \<in> blocks z t" if "page_zone E q = z" "PageBuddy q t" for q
    using buddy_okD(12) [OF ok that(1)] that(2) by (auto simp: B pb page_order_def P)
  ultimately show "buddy_ok E z t"
    unfolding buddy_ok_def
    using lists_ok_added [OF L add ord mt fresh] by auto
qed

subsection \<open>Freeing a block\<close>

lemma page_at_pages: "k_pages s = k_pages t \<Longrightarrow> page_at s p = page_at t p"
  by (simp add: page_at_def)

lemma unlink_block:
  assumes ok: "buddy_ok E z s" and mem: "p \<in> set (free_list s z order mt)"
  shows "\<exists>s1 t. free_list_del z p s = Some s1 \<and> rmv_page_order p (add_nr_free z order (- 1) s1) = Some t
      \<and> block_removed z p order mt s t"
    and "\<exists>s1 s2. free_list_del z p s = Some s1 \<and> rmv_page_order p s1 = Some s2
      \<and> block_removed z p order mt s (add_nr_free z order (- 1) s2)"
proof -
  obtain s1 where s1: "free_list_del z p s = Some s1"
    "free_list s1 z = (free_list s z)(order := (free_list s z order)(mt := removeAll p (free_list s z order mt)))"
    "nr_free z s1 = nr_free z s" "zone_span z s1 = zone_span z s" "k_pages s1 = k_pages s"
    using free_list_del_eq [OF buddy_okD(1) [OF ok] mem] by blast
  note page = page_at_pages [OF s1(5)]
  have "PageBuddy p s1"
    using buddy_okD(4) [OF ok, of p order] mem by (auto simp: blocks_iff PageBuddy_def page)
  with s1 show "\<exists>s1 t. free_list_del z p s = Some s1 \<and> rmv_page_order p (add_nr_free z order (- 1) s1) = Some t
      \<and> block_removed z p order mt s t"
    "\<exists>s1 s2. free_list_del z p s = Some s1 \<and> rmv_page_order p s1 = Some s2
      \<and> block_removed z p order mt s (add_nr_free z order (- 1) s2)"
    by (auto simp: rmv_page_order_def k__ClearPageBuddy_def PageBuddy_def set_mapcount_def set_page_private_def
        block_removed_def page_at_upd_page page)
qed

text \<open>A block that is about to be freed.\<close>

definition freeable :: "kenv \<Rightarrow> zone_ptr \<Rightarrow> page_ptr \<Rightarrow> nat \<Rightarrow> kstate \<Rightarrow> bool" where
  "freeable E z p order s \<longleftrightarrow> 2 ^ order dvd p \<and> order < MAX_ORDER \<and> span p order \<inter> free_frames z s = {}
     \<and> (\<forall>q \<in> span p order. idle s q \<and> in_zone E z s q)"

lemma is_buddy_eq:
  assumes ok: "buddy_ok E z s" and "page_zone E page = z"
  shows "page_is_buddy E page buddy order s = Some ((buddy, order) \<in> blocks z s)"
proof (cases "(buddy, order) \<in> blocks z s")
  case True
  have "in_zone E z s buddy"
    using buddy_okD(7) [OF ok] block_span [OF True] by (auto simp: subset_iff)
  with in_zone_zone buddy_okD(4,5,11) [OF ok] True assms(2) show ?thesis
    by (simp add: page_is_buddy_def)
next
  case False
  with buddy_okD(12) [OF ok, of buddy] assms(2) show ?thesis
    by (auto simp: page_is_buddy_def)
qed

lemma idle_removed:
  assumes "block_removed z p order mt s t" and "idle s q"
  shows "idle t q"
  using assms by (cases "q = p") (simp_all add: block_removed_def idle_def PageCompound_def)

lemma free_merge_spec:
  assumes "buddy_ok E z s" and "freeable E z page order s" and "page_idx = page AND (2 ^ MAX_ORDER - 1)"
  shows "\<exists>p' i' bi b' o' t. free_merge E z page page_idx buddy_idx buddy order s = Some (p', i', bi, b', o', t)
    \<and> buddy_ok E z t \<and> freeable E z p' o' t \<and> free_frames z t \<union> span p' o' = free_frames z s \<union> span page order
    \<and> (o' < MAX_ORDER - 1 \<longrightarrow> (p' XOR 2 ^ o', o') \<notin> blocks z t) \<and> blocks z t \<subseteq> blocks z s
    \<and> zone_span z t = zone_span z s \<and> (\<forall>q. q \<notin> free_frames z s \<longrightarrow> page_at t q = page_at s q)"
  using assms
proof (induction "MAX_ORDER - order" arbitrary: page page_idx buddy_idx buddy order s)
  case 0
  then show ?case by (simp add: freeable_def)
next
  case (Suc n)
  note ok = Suc.prems(1) and fr = Suc.prems(2)
  from fr have al: "2 ^ order dvd page" and ord: "order < MAX_ORDER"
    and new: "span page order \<inter> free_frames z s = {}"
    and idle: "\<And>q. q \<in> span page order \<Longrightarrow> idle s q \<and> in_zone E z s q"
    by (auto simp: freeable_def)
  show ?case
  proof (cases "order < MAX_ORDER - 1")
    case False
    with ok fr show ?thesis by (subst free_merge.simps) simp
  next
    case True
    let ?b = "page XOR 2 ^ order" and ?r = "(page XOR 2 ^ order) AND page"
    note bf = buddy_facts [OF al]
    have bp: "page_plus page (int (k__find_buddy_index page_idx order) - int page_idx) = ?b"
      "page_plus page (int (k__find_buddy_index page_idx order AND page_idx) - int page_idx) = ?r"
      "k__find_buddy_index page_idx order AND page_idx = ?r AND (2 ^ MAX_ORDER - 1)"
      using page_buddy [OF ord, of page] idx_combined [OF ord, of page] Suc.prems(3) by simp_all
    have pz: "page_zone E page = z" using idle [of page] in_zone_zone [of E z s page] by simp
    note ib = is_buddy_eq [OF ok pz, of ?b order]
    show ?thesis
    proof (cases "(?b, order) \<in> blocks z s")
      case False
      with ok fr True show ?thesis
        by (subst free_merge.simps) (simp add: Let_def bp ib)
    next
      case B: True
      then obtain mt where mem: "?b \<in> set (free_list s z order mt)" by (auto simp: blocks_iff)
      obtain s1 t where t: "free_list_del z ?b s = Some s1" "rmv_page_order ?b (add_nr_free z order (- 1) s1) = Some t"
        "block_removed z ?b order mt s t"
        using unlink_block(1) [OF ok mem] by blast
      note rem = buddy_remove [OF ok mem t(3)]
      have zs: "zone_span z t = zone_span z s" using t(3) by (simp add: block_removed_def)
      have sp: "span ?r (Suc order) = span page order \<union> span ?b order"
        using bf(4) by (simp add: span_def)
      have fr': "freeable E z ?r (order + 1) t"
        unfolding freeable_def
      proof (intro conjI ballI)
        show "2 ^ (order + 1) dvd ?r" "order + 1 < MAX_ORDER" using bf(2) True by simp_all
        show "span ?r (order + 1) \<inter> free_frames z t = {}" using new by (auto simp: sp rem(3))
        fix q assume "q \<in> span ?r (order + 1)"
        then consider "q \<in> span page order" | "q \<in> span ?b order" unfolding Suc_eq_plus1 [symmetric] sp by blast
        then show "idle t q" "in_zone E z t q"
          using rem(4) idle idle_removed [OF t(3)] in_zone_span [OF zs] by (cases; simp)+
      qed
      have run: "free_merge E z page page_idx buddy_idx buddy order s =
          free_merge E z ?r (k__find_buddy_index page_idx order AND page_idx) (k__find_buddy_index page_idx order) ?b (order + 1) t"
        using True B by (subst free_merge.simps) (simp add: Let_def bp(1,2) ib t(1,2))
      have "n = MAX_ORDER - (order + 1)" using Suc.hyps(2) by simp
      from Suc.hyps(1) [OF this rem(1) fr' bp(3)]
      obtain p' i' bi b' o' u where u: "free_merge E z ?r (k__find_buddy_index page_idx order AND page_idx)
          (k__find_buddy_index page_idx order) ?b (order + 1) t = Some (p', i', bi, b', o', u)"
        "buddy_ok E z u" "freeable E z p' o' u" "free_frames z u \<union> span p' o' = free_frames z t \<union> span ?r (order + 1)"
        "o' < MAX_ORDER - 1 \<longrightarrow> (p' XOR 2 ^ o', o') \<notin> blocks z u" "blocks z u \<subseteq> blocks z t" "zone_span z u = zone_span z t"
        "\<forall>q. q \<notin> free_frames z t \<longrightarrow> page_at u q = page_at t q"
        by blast
      have "page_at t q = page_at s q" if "q \<notin> free_frames z s" for q
      proof -
        have "?b \<in> span ?b order" by simp
        then have "q \<noteq> ?b" using block_span [OF B] that by blast
        then show ?thesis using t(3) by (simp add: block_removed_def)
      qed
      then have "\<forall>q. q \<notin> free_frames z s \<longrightarrow> page_at u q = page_at s q" using u(8) rem(3) by simp
      moreover
      have "free_frames z t \<union> span ?r (order + 1) = free_frames z s \<union> span page order"
        using block_span [OF B] by (auto simp: sp rem(3))
      ultimately show ?thesis
        unfolding run using u(1-7) rem(2) zs by auto
    qed
  qed
qed

lemma in_zone_not_bad: "in_zone E z s q \<Longrightarrow> \<not> bad_range E z q s"
  by (simp add: in_zone_def)

lemma mask_aligned: "2 ^ k dvd (p :: nat) \<Longrightarrow> k \<le> n \<Longrightarrow> (p AND (2 ^ n - 1)) AND (2 ^ k - 1) = 0"
proof -
  assume "2 ^ k dvd p" "k \<le> n"
  then have "take_bit k p = 0" by (simp add: take_bit_eq_0_iff)
  moreover have "(p AND (2 ^ n - 1)) AND (2 ^ k - 1) = take_bit k p AND (2 ^ n - 1)"
    unfolding take_bit_eq_mask mask_eq_exp_minus_1 by (simp add: and.assoc and.commute and.left_commute)
  ultimately show ?thesis by simp
qed

lemma link_block:
  assumes "idle s p"
  shows "\<exists>t. set_page_order p order s = Some t
    \<and> block_added z p order mt s (add_nr_free z order 1 (free_list_add z order mt p t))
    \<and> block_added z p order mt s (add_nr_free z order 1 (free_list_add_tail z order mt p t))
    \<and> (\<forall>q. PageBuddy q t \<longrightarrow> q = p \<or> PageBuddy q s) \<and> pg_count (page_at t p) = pg_count (page_at s p)
    \<and> (\<forall>q. q \<noteq> p \<longrightarrow> page_at t q = page_at s q)"
  using assms
  by (auto simp: set_page_order_def k__SetPageBuddy_def set_mapcount_def set_page_private_def idle_def
      block_added_def page_at_upd_page free_list_adds PageBuddy_def)

lemma is_buddy_some:
  assumes "\<And>q. PageBuddy q s \<Longrightarrow> pg_count (page_at s q) = 0"
  shows "\<exists>b. page_is_buddy E page buddy order s = Some b"
  using assms [of buddy] by (cases "PageBuddy buddy s") (auto simp: page_is_buddy_def)

lemma coalesced_add:
  assumes "coalesced F" and "F' \<subseteq> F" and "2 ^ order dvd p"
    and "order < MAX_ORDER - 1 \<longrightarrow> (p XOR 2 ^ order, order) \<notin> F'"
  shows "coalesced (insert (p, order) F')"
  unfolding coalesced_def
proof (intro allI impI)
  fix q i assume q: "i < MAX_ORDER - 1" "(q, i) \<in> insert (p, order) F'"
  show "(q XOR 2 ^ i, i) \<notin> insert (p, order) F'"
  proof
    assume "(q XOR 2 ^ i, i) \<in> insert (p, order) F'"
    then consider "q XOR 2 ^ i = p" "i = order" | "(q XOR 2 ^ i, i) \<in> F'" by auto
    then show False
    proof cases
      case 1
      then have "q = p XOR 2 ^ order" by (auto simp: xor.assoc)
      with 1 q assms(4) have "q = p" by auto
      with 1 buddy_facts(6) [OF assms(3)] show False by auto
    next
      case 2
      show False
      proof (cases "(q, i) = (p, order)")
        case True
        with 2 q(1) assms(4) show False by auto
      next
        case False
        with q(2) have "(q, i) \<in> F" using assms(2) by auto
        with 2 q(1) assms(1,2) show False unfolding coalesced_def by blast
      qed
    qed
  qed
qed

lemma free_one_page_spec:
  assumes ok: "buddy_ok E z s" and fr: "freeable E z page order s" and mt: "migratetype < MIGRATE_TYPES"
    and "\<not> PageCompound page s"
  shows "\<exists>t. k__free_one_page E page z order migratetype s = Some t \<and> buddy_ok E z t
    \<and> free_frames z t = free_frames z s \<union> span page order
    \<and> (coalesced (blocks z s) \<longrightarrow> coalesced (blocks z t)) \<and> zone_span z t = zone_span z s
    \<and> (\<forall>q. q \<notin> free_frames z s \<union> span page order \<longrightarrow> page_at t q = page_at s q)"
proof -
  let ?i = "page AND (2 ^ MAX_ORDER - 1)"
  have al: "2 ^ order dvd page" "order < MAX_ORDER" and p: "in_zone E z s page"
    using fr by (auto simp: freeable_def)
  have start: "?i AND (2 ^ order - 1) = 0" by (rule mask_aligned) (use al in simp_all)
  obtain p' i' bi b' o' u where u: "free_merge E z page ?i 0 0 order s = Some (p', i', bi, b', o', u)"
    "buddy_ok E z u" "freeable E z p' o' u" "free_frames z u \<union> span p' o' = free_frames z s \<union> span page order"
    "o' < MAX_ORDER - 1 \<longrightarrow> (p' XOR 2 ^ o', o') \<notin> blocks z u" "blocks z u \<subseteq> blocks z s" "zone_span z u = zone_span z s"
    "\<forall>q. q \<notin> free_frames z s \<longrightarrow> page_at u q = page_at s q"
    using free_merge_spec [OF ok fr refl] by metis
  have al': "2 ^ o' dvd p'" "o' < MAX_ORDER" "span p' o' \<inter> free_frames z u = {}"
    and idle: "\<And>q. q \<in> span p' o' \<Longrightarrow> idle u q \<and> in_zone E z u q"
    using u(3) unfolding freeable_def by blast+
  have "idle u p'" using idle [of p'] by simp
  then obtain v where v: "set_page_order p' o' u = Some v"
    "block_added z p' o' migratetype u (add_nr_free z o' 1 (free_list_add z o' migratetype p' v))"
    "block_added z p' o' migratetype u (add_nr_free z o' 1 (free_list_add_tail z o' migratetype p' v))"
    "\<forall>q. PageBuddy q v \<longrightarrow> q = p' \<or> PageBuddy q u" "pg_count (page_at v p') = pg_count (page_at u p')"
    "\<forall>q. q \<noteq> p' \<longrightarrow> page_at v q = page_at u q"
    using link_block [of u p' o' z migratetype] by blast
  have "pg_count (page_at v q) = 0" if "PageBuddy q v" for q
    using v(4-6) that buddy_okD(11) [OF u(2)] \<open>idle u p'\<close> by (cases "q = p'") (auto simp: idle_def)
  note some = is_buddy_some [OF this]
  obtain w where w: "k__free_one_page E page z order migratetype s = Some w"
    "block_added z p' o' migratetype u w"
  proof -
    obtain b where b: "page_is_buddy E (page_plus p' (int (bi AND i') - int i'))
        (page_plus p' (int (k__find_buddy_index (bi AND i') (o' + 1)) - int (bi AND i'))) (o' + 1) v = Some b"
      using some by blast
    show ?thesis
      by (rule that [of "add_nr_free z o' 1 (if o' < MAX_ORDER - 2 \<and> pfn_valid_within E b' \<and> b
            then free_list_add_tail z o' migratetype p' v else free_list_add z o' migratetype p' v)"])
        (use assms(4) start p u(1) v(1-3) b in \<open>simp_all add: k__free_one_page_def Let_def in_zone_not_bad\<close>)
  qed
  note add = buddy_add [OF u(2) w(2) al'(1,2) mt al'(3) idle]
  have "coalesced (blocks z w)" if "coalesced (blocks z s)"
    using coalesced_add [OF that u(6) al'(1) u(5)] add(2) by simp
  moreover have "page_at w q = page_at s q" if "q \<notin> free_frames z s \<union> span page order" for q
  proof -
    have "p' \<in> span p' o'" by simp
    then have "q \<noteq> p'" using u(4) that by blast
    then have "page_at w q = page_at u q" using w(2) by (simp add: block_added_def)
    with u(8) that show ?thesis by simp
  qed
  moreover have "zone_span z w = zone_span z u" using w(2) by (simp add: block_added_def)
  ultimately show ?thesis
    using w(1) add(1,3) u(4,7) by auto
qed

subsection \<open>Taking a block of the smallest order that fits\<close>

lemma link_block_first:
  assumes "idle s p"
  shows "\<exists>t. set_page_order p order (add_nr_free z order 1 (free_list_add z order mt p s)) = Some t
    \<and> block_added z p order mt s t"
  using assms
  by (auto simp: set_page_order_def k__SetPageBuddy_def set_mapcount_def set_page_private_def idle_def
      block_added_def page_at_upd_page free_list_adds)

lemma upper_half:
  assumes "2 ^ Suc k dvd (p :: nat)"
  shows "2 ^ k dvd p" and "2 ^ k dvd p + 2 ^ k" and "(p + 2 ^ k) XOR 2 ^ k = p"
    and "span p (Suc k) = span p k \<union> span (p + 2 ^ k) k" and "span p k \<inter> span (p + 2 ^ k) k = {}"
proof -
  from assms obtain m where p: "p = 2 ^ k * (2 * m)" by (auto elim: dvdE)
  show "2 ^ k dvd p" "2 ^ k dvd p + 2 ^ k" by (simp_all add: p)
  have "(2 ^ k * (2 * m)) XOR 2 ^ k = 2 ^ k * (2 * m + 1)" by (subst buddy_mult(1)) simp
  then have "p + 2 ^ k = p XOR 2 ^ k" by (simp add: p)
  then show "(p + 2 ^ k) XOR 2 ^ k = p" by (simp add: xor.assoc)
  show "span p (Suc k) = span p k \<union> span (p + 2 ^ k) k" "span p k \<inter> span (p + 2 ^ k) k = {}"
    by auto
qed

lemma freeable_lower:
  assumes "freeable E z page (Suc h) s"
  shows "freeable E z page h s" and "freeable E z (page + 2 ^ h) h s"
  using assms upper_half [of h page] by (auto simp: freeable_def)

lemma freeable_added:
  assumes "freeable E z page h s" and "block_added z q i mt s t" and "free_frames z t = free_frames z s \<union> span q i"
    and "span page h \<inter> span q i = {}"
  shows "freeable E z page h t"
proof -
  have zs: "in_zone E z t = in_zone E z s"
    using assms(2) by (intro in_zone_span) (simp add: block_added_def)
  have "idle t r" if "r \<in> span page h" for r
  proof -
    have "r \<noteq> q" using assms(4) that by auto
    then have "page_at t r = page_at s r" using assms(2) by (simp add: block_added_def)
    from idle_cong [OF this] show ?thesis using assms(1) that by (simp add: freeable_def)
  qed
  then show ?thesis
    using assms(1,3,4) by (auto simp: freeable_def zs)
qed

lemma expand_spec:
  assumes "buddy_ok E z s" and "freeable E z page high s" and "low \<le> high" and "mt < MIGRATE_TYPES"
  shows "\<exists>t. expand E z page low high mt s = Some t \<and> buddy_ok E z t \<and> freeable E z page low t
    \<and> free_frames z t \<union> span page low = free_frames z s \<union> span page high
    \<and> (coalesced (blocks z s) \<longrightarrow> coalesced (blocks z t)) \<and> zone_span z t = zone_span z s
    \<and> (\<forall>q. q \<notin> span page high \<longrightarrow> page_at t q = page_at s q)"
  using assms
proof (induction high arbitrary: s)
  case (Suc h)
  show ?case
  proof (cases "low < Suc h")
    case True
    let ?q = "page + 2 ^ h"
    have al: "2 ^ Suc h dvd page" and ord: "Suc h < MAX_ORDER" using Suc.prems(2) by (auto simp: freeable_def)
    note up = upper_half [OF al] and lo = freeable_lower [OF Suc.prems(2)]
    have q: "idle s ?q" "\<not> bad_range E z ?q s"
      using lo(2) in_zone_not_bad [of E z s ?q] by (auto simp: freeable_def)
    obtain t where t: "set_page_order ?q h (add_nr_free z h 1 (free_list_add z h mt ?q s)) = Some t"
      "block_added z ?q h mt s t"
      using link_block_first [OF q(1)] by blast
    have fq: "2 ^ h dvd ?q" "h < MAX_ORDER" "span ?q h \<inter> free_frames z s = {}"
      "\<And>r. r \<in> span ?q h \<Longrightarrow> idle s r \<and> in_zone E z s r"
      using lo(2) unfolding freeable_def by blast+
    note add = buddy_add [OF Suc.prems(1) t(2) fq(1,2) Suc.prems(4) fq(3,4)]
    have fr: "freeable E z page h t"
      by (rule freeable_added [OF lo(1) t(2) add(3) up(5)])
    obtain u where u: "expand E z page low h mt t = Some u" "buddy_ok E z u" "freeable E z page low u"
      "free_frames z u \<union> span page low = free_frames z t \<union> span page h"
      "coalesced (blocks z t) \<longrightarrow> coalesced (blocks z u)" "zone_span z u = zone_span z t"
      "\<forall>q. q \<notin> span page h \<longrightarrow> page_at u q = page_at t q"
      using Suc.IH [OF add(1) fr _ Suc.prems(4)] True by auto
    have "page \<in> span page h" by simp
    then have "(page, h) \<notin> blocks z s" using lo(1) block_span [of page h z s] unfolding freeable_def by blast
    then have "coalesced (blocks z t)" if "coalesced (blocks z s)"
      using coalesced_add [OF that _ fq(1)] add(2) up(3) by auto
    moreover have "expand E z page low (Suc h) mt s = expand E z page low h mt t"
      using True q(2) t(1) by (simp add: Let_def)
    moreover have "free_frames z t \<union> span page h = free_frames z s \<union> span page (Suc h)"
      using add(3) up(4) by auto
    moreover have "zone_span z t = zone_span z s" using t(2) by (simp add: block_added_def)
    moreover have "page_at u q = page_at s q" if "q \<notin> span page (Suc h)" for q
    proof -
      have "?q \<in> span ?q h" by simp
      then have "q \<noteq> ?q" using up(4) that by blast
      then have "page_at t q = page_at s q" using t(2) by (simp add: block_added_def)
      with u(7) that up(4) show ?thesis by simp
    qed
    ultimately show ?thesis using u(1-6) by auto
  next
    case False
    then have "low = Suc h" using Suc.prems(3) by simp
    with Suc.prems show ?thesis by auto
  qed
qed auto

lemma coalesced_subset: "coalesced F \<Longrightarrow> F' \<subseteq> F \<Longrightarrow> coalesced F'"
  unfolding coalesced_def by blast

text \<open>What is left of a block that has been taken off its list goes back, but for the part wanted.\<close>

lemma split_removed_block:
  assumes ok: "buddy_ok E z s" and mem: "p \<in> set (free_list s z cur mt0)" and rem: "block_removed z p cur mt0 s t"
    and ord: "order \<le> cur" and mt: "mt < MIGRATE_TYPES"
  shows "\<exists>u. expand E z p order cur mt t = Some u \<and> buddy_ok E z u \<and> freeable E z p order u
        \<and> free_frames z s = free_frames z u \<union> span p order
        \<and> (coalesced (blocks z s) \<longrightarrow> coalesced (blocks z u)) \<and> zone_span z u = zone_span z s
        \<and> (\<forall>q. q \<notin> free_frames z s \<longrightarrow> page_at u q = page_at s q)"
proof -
  have blk: "(p, cur) \<in> blocks z s" using mem by (auto simp: blocks_iff)
  note r = buddy_remove [OF ok mem rem]
  have fr: "freeable E z p cur t"
    using r(3,4) buddy_okD(3) [OF ok blk] block_order [OF ok blk] by (auto simp: freeable_def)
  have zs: "zone_span z t = zone_span z s" using rem by (simp add: block_removed_def)
  obtain u where u: "expand E z p order cur mt t = Some u" "buddy_ok E z u" "freeable E z p order u"
    "free_frames z u \<union> span p order = free_frames z t \<union> span p cur"
    "coalesced (blocks z t) \<longrightarrow> coalesced (blocks z u)" "zone_span z u = zone_span z t"
    "\<forall>q. q \<notin> span p cur \<longrightarrow> page_at u q = page_at t q"
    using expand_spec [OF r(1) fr ord mt] by blast
  moreover have "free_frames z s = free_frames z u \<union> span p order"
    using u(4) r(3) block_span [OF blk] by auto
  moreover have "coalesced (blocks z s) \<longrightarrow> coalesced (blocks z u)"
    using coalesced_subset [of "blocks z s" "blocks z t"] r(2) u(5) by auto
  moreover have "page_at u q = page_at s q" if "q \<notin> free_frames z s" for q
  proof -
    have "p \<in> span p cur" by simp
    then have "q \<notin> span p cur" "q \<noteq> p" using block_span [OF blk] that by blast+
    then show ?thesis using u(7) rem by (simp add: block_removed_def)
  qed
  ultimately show ?thesis using zs by auto
qed

lemma rmqueue_smallest_spec:
  assumes "buddy_ok E z s" and "order \<le> cur" and "mt < MIGRATE_TYPES"
  shows "(\<exists>t p. rmqueue_smallest_from E z order cur mt s = Some (Some p, t) \<and> buddy_ok E z t \<and> freeable E z p order t
        \<and> free_frames z s = free_frames z t \<union> span p order
        \<and> (coalesced (blocks z s) \<longrightarrow> coalesced (blocks z t)) \<and> zone_span z t = zone_span z s
        \<and> (\<forall>q. q \<notin> free_frames z s \<longrightarrow> page_at t q = page_at s q))
    \<or> rmqueue_smallest_from E z order cur mt s = Some (None, s) \<and> (\<forall>i \<ge> cur. free_list s z i mt = [])"
  using assms(2)
proof (induction "MAX_ORDER - cur" arbitrary: cur)
  case 0
  then have "rmqueue_smallest_from E z order cur mt s = Some (None, s)"
    by (subst rmqueue_smallest_from.simps) simp
  moreover have "free_list s z i mt = []" if "i \<ge> cur" for i
  proof (rule ccontr)
    assume "free_list s z i mt \<noteq> []"
    from lists_okD(2) [OF buddy_okD(1) [OF assms(1)] hd_in_set [OF this]] 0 that show False by simp
  qed
  ultimately show ?case by blast
next
  case (Suc n)
  then have cur: "cur < MAX_ORDER" by simp
  show ?case
  proof (cases "free_list s z cur mt")
    case Nil
    have "n = MAX_ORDER - (cur + 1)" "order \<le> cur + 1" using Suc.hyps(2) Suc.prems by simp_all
    from Suc.hyps(1) [OF this] Nil have "(\<exists>t p. rmqueue_smallest_from E z order (cur + 1) mt s = Some (Some p, t) \<and>
        buddy_ok E z t \<and> freeable E z p order t \<and> free_frames z s = free_frames z t \<union> span p order
        \<and> (coalesced (blocks z s) \<longrightarrow> coalesced (blocks z t)) \<and> zone_span z t = zone_span z s
        \<and> (\<forall>q. q \<notin> free_frames z s \<longrightarrow> page_at t q = page_at s q))
      \<or> rmqueue_smallest_from E z order (cur + 1) mt s = Some (None, s) \<and> (\<forall>i \<ge> cur. free_list s z i mt = [])"
      by (metis Suc_eq_plus1 Suc_leI le_neq_implies_less)
    moreover have "rmqueue_smallest_from E z order cur mt s = rmqueue_smallest_from E z order (cur + 1) mt s"
      using cur Nil by (subst rmqueue_smallest_from.simps) simp
    ultimately show ?thesis by simp
  next
    case (Cons p ps)
    then have mem: "p \<in> set (free_list s z cur mt)" by simp
    then have blk: "(p, cur) \<in> blocks z s" by (auto simp: blocks_iff)
    obtain s1 s2 where r: "free_list_del z p s = Some s1" "rmv_page_order p s1 = Some s2"
      "block_removed z p cur mt s (add_nr_free z cur (- 1) s2)"
      using unlink_block(2) [OF assms(1) mem] by blast
    from split_removed_block [OF assms(1) mem r(3) Suc.prems assms(3)]
    obtain u where u: "expand E z p order cur mt (add_nr_free z cur (- 1) s2) = Some u"
      "buddy_ok E z u \<and> freeable E z p order u \<and> free_frames z s = free_frames z u \<union> span p order
        \<and> (coalesced (blocks z s) \<longrightarrow> coalesced (blocks z u)) \<and> zone_span z u = zone_span z s
        \<and> (\<forall>q. q \<notin> free_frames z s \<longrightarrow> page_at u q = page_at s q)" by blast
    have "rmqueue_smallest_from E z order cur mt s = Some (Some p, u)"
      using cur Cons r(1,2) u(1) by (subst rmqueue_smallest_from.simps) simp
    with u(2) show ?thesis by blast
  qed
qed

subsection \<open>Free frames determine the coalesced blocks\<close>

lemma span_div:
  assumes "2 ^ k dvd (p :: nat)"
  shows "x \<in> span p k \<longleftrightarrow> x div 2 ^ k = p div 2 ^ k"
proof -
  from assms obtain m where p: "p = 2 ^ k * m" by (elim dvdE)
  have "p \<le> x \<and> x < p + 2 ^ k \<longleftrightarrow> x div 2 ^ k = m"
  proof
    assume "p \<le> x \<and> x < p + 2 ^ k"
    then show "x div 2 ^ k = m" by (intro div_nat_eqI) (simp_all add: p mult.commute)
  next
    assume "x div 2 ^ k = m"
    then show "p \<le> x \<and> x < p + 2 ^ k"
      using dividend_less_times_div [of "2 ^ k" x] by (auto simp: p add.commute)
  qed
  then show ?thesis by (simp add: p)
qed

lemma span_nested:
  assumes "2 ^ a dvd p" and "2 ^ b dvd q" and "a \<le> b" and "x \<in> span p a" and "x \<in> span q b"
  shows "span p a \<subseteq> span q b"
proof
  fix y assume "y \<in> span p a"
  then have "y div 2 ^ a = x div 2 ^ a" using assms(1,4) by (simp only: span_div)
  moreover have "w div 2 ^ b = w div 2 ^ a div 2 ^ (b - a)" for w :: nat
    using assms(3) by (simp add: div_mult2_eq [symmetric] power_add [symmetric])
  ultimately have "y div 2 ^ b = x div 2 ^ b" by simp
  then show "y \<in> span q b" using assms(2,5) by (simp only: span_div)
qed

definition block_set :: "(page_ptr \<times> nat) set \<Rightarrow> bool" where
  "block_set F \<longleftrightarrow> (\<forall>p k. (p, k) \<in> F \<longrightarrow> 2 ^ k dvd p \<and> k < MAX_ORDER)
     \<and> (\<forall>p k q i. (p, k) \<in> F \<longrightarrow> (q, i) \<in> F \<longrightarrow> (p, k) \<noteq> (q, i) \<longrightarrow> span p k \<inter> span q i = {})"

definition frames_of :: "(page_ptr \<times> nat) set \<Rightarrow> page_ptr set" where
  "frames_of F = (\<Union>(p, k) \<in> F. span p k)"

lemma frames_of_iff: "x \<in> frames_of F \<longleftrightarrow> (\<exists>p k. (p, k) \<in> F \<and> x \<in> span p k)"
  unfolding frames_of_def by fastforce

lemma frames_of_block: "(p, k) \<in> F \<Longrightarrow> span p k \<subseteq> frames_of F"
  unfolding frames_of_def by blast

lemma buddy_block_set: "buddy_ok E z s \<Longrightarrow> block_set (blocks z s)"
  unfolding block_set_def
  using buddy_okD(3,5,6) block_order by (metis prod.inject)

lemma no_smaller_block:
  assumes F: "block_set F" and co: "coalesced F" and q: "2 ^ i dvd q" "i < MAX_ORDER" "span q i \<subseteq> frames_of F"
    and "(p, k) \<in> F" and "k < i" and "span p k \<subseteq> span q i"
  shows False
proof -
  let ?in = "\<lambda>k. \<exists>p. (p, k) \<in> F \<and> k < i \<and> span p k \<subseteq> span q i"
  define k0 where "k0 = (LEAST k. ?in k)"
  have "?in k" using assms(6-8) by blast
  then have "?in k0" unfolding k0_def by (rule LeastI)
  then obtain p0 where p0: "(p0, k0) \<in> F" "k0 < i" "span p0 k0 \<subseteq> span q i" by blast
  have least: "k0 \<le> j" if "?in j" for j unfolding k0_def using that by (rule Least_le)
  have al: "2 ^ k0 dvd p0" using F p0(1) by (auto simp: block_set_def)
  let ?b = "p0 XOR 2 ^ k0" and ?r = "(p0 XOR 2 ^ k0) AND p0"
  note bf = buddy_facts [OF al]
  have par: "span ?r (Suc k0) = span p0 k0 \<union> span ?b k0" using bf(4) by (simp only: span_def)
  have self: "p0 \<in> span p0 k0" "?b \<in> span ?b k0" by simp_all
  have "p0 \<in> span ?r (Suc k0)" "p0 \<in> span q i" using par self(1) p0(3) by blast+
  then have "span ?r (Suc k0) \<subseteq> span q i"
    by (rule span_nested [OF bf(2) q(1) Suc_leI [OF p0(2)]])
  with par have b: "span ?b k0 \<subseteq> span q i" by blast
  with q(3) self have "?b \<in> frames_of F" by blast
  then obtain r j where r: "(r, j) \<in> F" "?b \<in> span r j" unfolding frames_of_iff by blast
  have ral: "2 ^ j dvd r" using F r(1) by (auto simp: block_set_def)
  consider "j = k0" | "k0 < j" | "j < k0" by linarith
  then show False
  proof cases
    case 1
    have "r = ?b"
    proof -
      have "span ?b k0 \<subseteq> span r k0" "span r k0 \<subseteq> span ?b k0"
        using span_nested [OF bf(1) ral] span_nested [OF ral bf(1)] r(2) self 1 by blast+
      then have "r \<in> span ?b k0" "?b \<in> span r k0" by auto
      then show ?thesis by simp
    qed
    with 1 r(1) have "(?b, k0) \<in> F" by simp
    moreover have "k0 < MAX_ORDER - 1" using p0(2) q(2) by simp
    ultimately show False using co p0(1) unfolding coalesced_def by blast
  next
    case 2
    have "?b \<in> span ?r (Suc k0)" using par self by blast
    then have "span ?r (Suc k0) \<subseteq> span r j"
      by (rule span_nested [OF bf(2) ral Suc_leI [OF 2] _ r(2)])
    then have "p0 \<in> span r j" using par self by blast
    moreover have "(r, j) \<noteq> (p0, k0)" using 2 by auto
    ultimately show False using F r(1) p0(1) self unfolding block_set_def by blast
  next
    case 3
    then have "span r j \<subseteq> span ?b k0"
      by (intro span_nested [OF ral bf(1) _ r(2) self(2)]) simp
    with b r(1) 3 p0(2) have "?in j" by (intro exI [of _ r]) auto
    with least [of j] 3 show False by simp
  qed
qed

lemma coalesced_subset_of:
  assumes "block_set F" and "block_set G" and "coalesced F" and "coalesced G" and eq: "frames_of F = frames_of G"
    and pk: "(p, k) \<in> F"
  shows "(p, k) \<in> G"
proof -
  have self: "p \<in> span p k" by simp
  with pk have "p \<in> frames_of G" unfolding eq [symmetric] frames_of_iff by blast
  then obtain q i where q: "(q, i) \<in> G" "p \<in> span q i" unfolding frames_of_iff by blast
  have al: "2 ^ k dvd p" "k < MAX_ORDER" "2 ^ i dvd q" "i < MAX_ORDER"
    using assms(1,2) pk q(1) by (auto simp: block_set_def)
  have cov: "span p k \<subseteq> frames_of G" "span q i \<subseteq> frames_of F"
    using frames_of_block [OF pk] frames_of_block [OF q(1)] eq by simp_all
  consider "k = i" | "k < i" | "i < k" by linarith
  then show ?thesis
  proof cases
    case 1
    have "q \<in> span q i" by simp
    then have "q \<in> span p k" using span_nested [OF al(3,1) _ q(2)] 1 self by blast
    then have "q = p" using q(2) by simp
    with 1 q(1) show ?thesis by simp
  next
    case 2
    then have "span p k \<subseteq> span q i" by (intro span_nested [OF al(1,3) _ self q(2)]) simp
    with no_smaller_block [OF assms(1,3) al(3,4) cov(2) pk 2] show ?thesis by blast
  next
    case 3
    then have "span q i \<subseteq> span p k" by (intro span_nested [OF al(3,1) _ q(2) self]) simp
    with no_smaller_block [OF assms(2,4) al(1,2) cov(1) q(1) 3] show ?thesis by blast
  qed
qed

lemma coalesced_unique:
  assumes "block_set F" and "block_set G" and "coalesced F" and "coalesced G" and "frames_of F = frames_of G"
  shows "F = G"
  using coalesced_subset_of [OF assms] coalesced_subset_of [OF assms(2,1,4,3) assms(5) [symmetric]] by auto

section \<open>Allocations and frees in any order\<close>

text \<open>
  Users take blocks of a zone and give them back, in any order and with any migrate types; \<open>H\<close> is
  the set of blocks they hold. The steps are the calls under the zone's lock.
\<close>

inductive alloc_step ::
  "kenv \<Rightarrow> zone_ptr \<Rightarrow> kstate \<times> (page_ptr \<times> nat) set \<Rightarrow> kstate \<times> (page_ptr \<times> nat) set \<Rightarrow> bool"
  for E z where
  take: "mt < MIGRATE_TYPES \<Longrightarrow> k__rmqueue_smallest E z order mt s = Some (Some p, t) \<Longrightarrow>
    alloc_step E z (s, H) (t, insert (p, order) H)"
| give: "mt < MIGRATE_TYPES \<Longrightarrow> (p, order) \<in> H \<Longrightarrow> k__free_one_page E p z order mt s = Some t \<Longrightarrow>
    alloc_step E z (s, H) (t, H - {(p, order)})"

inductive_cases alloc_stepE: "alloc_step E z (s, H) (t, K)"

text \<open>The held blocks are disjoint, unused by the allocator and can be given back.\<close>

definition alloc_inv :: "kenv \<Rightarrow> zone_ptr \<Rightarrow> kstate \<times> (page_ptr \<times> nat) set \<Rightarrow> bool" where
  "alloc_inv E z = (\<lambda>(s, H). buddy_ok E z s \<and> coalesced (blocks z s) \<and> (\<forall>(p, order) \<in> H. freeable E z p order s)
     \<and> (\<forall>x \<in> H. \<forall>y \<in> H. x \<noteq> y \<longrightarrow> span (fst x) (snd x) \<inter> span (fst y) (snd y) = {}))"

definition held :: "(page_ptr \<times> nat) set \<Rightarrow> page_ptr set" where
  "held H = (\<Union>(p, order) \<in> H. span p order)"

lemma freeable_other:
  assumes "freeable E z q i s" and "zone_span z t = zone_span z s" and "span q i \<inter> free_frames z t = {}"
    and "\<And>r. r \<in> span q i \<Longrightarrow> page_at t r = page_at s r"
  shows "freeable E z q i t"
  using assms(1,3) idle_cong [OF assms(4)] in_zone_span [OF assms(2), of E] by (simp add: freeable_def)

lemma alloc_take:
  assumes "alloc_inv E z (s, H)" and "mt < MIGRATE_TYPES" and "k__rmqueue_smallest E z order mt s = Some (Some p, t)"
  shows "alloc_inv E z (t, insert (p, order) H)" and "free_frames z s = free_frames z t \<union> span p order"
    and "(p, order) \<notin> H"
proof -
  from assms(1) have ok: "buddy_ok E z s" and co: "coalesced (blocks z s)"
    and fr: "\<And>q i. (q, i) \<in> H \<Longrightarrow> freeable E z q i s"
    and dis: "\<And>x y. x \<in> H \<Longrightarrow> y \<in> H \<Longrightarrow> x \<noteq> y \<Longrightarrow> span (fst x) (snd x) \<inter> span (fst y) (snd y) = {}"
    by (auto simp: alloc_inv_def)
  from rmqueue_smallest_spec [OF ok le_refl assms(2), of order] assms(3)
  have t: "buddy_ok E z t" "freeable E z p order t" "free_frames z s = free_frames z t \<union> span p order"
    "coalesced (blocks z t)" "zone_span z t = zone_span z s" "\<And>q. q \<notin> free_frames z s \<Longrightarrow> page_at t q = page_at s q"
    using co by (auto simp: k__rmqueue_smallest_def)
  show "free_frames z s = free_frames z t \<union> span p order" by (rule t(3))
  have out: "span q i \<inter> free_frames z s = {}" if "(q, i) \<in> H" for q i
    using fr [OF that] by (simp add: freeable_def)
  have old: "freeable E z q i t" if "(q, i) \<in> H" for q i
    by (rule freeable_other [OF fr [OF that] t(5)]) (use out [OF that] t(3,6) in blast)+
  have new: "span p order \<inter> span q i = {}" if "(q, i) \<in> H" for q i
    using out [OF that] t(3) by blast
  have "p \<in> span p order" by simp
  then show "(p, order) \<notin> H" using new by blast
  show "alloc_inv E z (t, insert (p, order) H)"
    unfolding alloc_inv_def prod.case
  proof (intro conjI ballI impI)
    show "case x of (q, i) \<Rightarrow> freeable E z q i t" if "x \<in> insert (p, order) H" for x
      using that t(2) old by auto
    show "span (fst x) (snd x) \<inter> span (fst y) (snd y) = {}"
      if "x \<in> insert (p, order) H" "y \<in> insert (p, order) H" "x \<noteq> y" for x y
      using that dis new by (cases x; cases y) (metis Int_commute fst_conv insert_iff snd_conv)
  qed (use t(1,4) in auto)
qed

lemma alloc_give:
  assumes "alloc_inv E z (s, H)" and "mt < MIGRATE_TYPES" and "(p, order) \<in> H"
  shows "\<exists>t. k__free_one_page E p z order mt s = Some t \<and> alloc_inv E z (t, H - {(p, order)})
    \<and> free_frames z t = free_frames z s \<union> span p order"
proof -
  from assms(1) have ok: "buddy_ok E z s" and co: "coalesced (blocks z s)"
    and fr: "\<And>q i. (q, i) \<in> H \<Longrightarrow> freeable E z q i s"
    and dis: "\<And>x y. x \<in> H \<Longrightarrow> y \<in> H \<Longrightarrow> x \<noteq> y \<Longrightarrow> span (fst x) (snd x) \<inter> span (fst y) (snd y) = {}"
    by (auto simp: alloc_inv_def)
  have "idle s p" using fr [OF assms(3)] by (simp add: freeable_def)
  then have "\<not> PageCompound p s" by (simp add: idle_def)
  then obtain t where t: "k__free_one_page E p z order mt s = Some t" "buddy_ok E z t"
    "free_frames z t = free_frames z s \<union> span p order" "coalesced (blocks z t)" "zone_span z t = zone_span z s"
    "\<And>q. q \<notin> free_frames z s \<union> span p order \<Longrightarrow> page_at t q = page_at s q"
    using free_one_page_spec [OF ok fr [OF assms(3)] assms(2)] co by auto
  have "freeable E z q i t" if q: "(q, i) \<in> H" "(q, i) \<noteq> (p, order)" for q i
  proof -
    have "span q i \<inter> span p order = {}" using dis [OF q(1) assms(3) q(2)] by simp
    moreover have "span q i \<inter> free_frames z s = {}" using fr [OF q(1)] by (simp add: freeable_def)
    ultimately show ?thesis
      by (intro freeable_other [OF fr [OF q(1)] t(5)]) (use t(3,6) in blast)+
  qed
  then have "alloc_inv E z (t, H - {(p, order)})"
    using t(2,4) dis by (auto simp: alloc_inv_def)
  with t(1,3) show ?thesis by blast
qed

interpretation allocator: stable_system "alloc_step E z" "alloc_inv E z"
proof unfold_locales
  fix s t :: "kstate \<times> (page_ptr \<times> nat) set"
  assume "alloc_step E z s t" and "alloc_inv E z s"
  then show "alloc_inv E z t"
  proof (induction rule: alloc_step.induct)
    case (take mt order s p t H)
    then show ?case by (blast intro: alloc_take)
  next
    case (give mt p order H s t)
    with alloc_give [OF give(4,1,2)] show ?case by auto
  qed
qed

lemma alloc_step_frames:
  assumes "alloc_step E z (s, H) (t, K)" and "alloc_inv E z (s, H)"
  shows "free_frames z t \<union> held K = free_frames z s \<union> held H"
proof -
  from assms(1) consider (take) mt order p where "mt < MIGRATE_TYPES" "K = insert (p, order) H"
      "k__rmqueue_smallest E z order mt s = Some (Some p, t)"
    | (give) mt order p where "mt < MIGRATE_TYPES" "(p, order) \<in> H" "K = H - {(p, order)}"
      "k__free_one_page E p z order mt s = Some t"
    by (elim alloc_stepE) blast+
  then show ?thesis
  proof cases
    case take
    with alloc_take [OF assms(2)] show ?thesis by (auto simp: held_def)
  next
    case give
    from alloc_give [OF assms(2) give(1,2)] give(4) have "free_frames z t = free_frames z s \<union> span p order" by auto
    moreover have "held H = held K \<union> span p order" using give(2,3) by (auto simp: held_def)
    ultimately show ?thesis by auto
  qed
qed

lemma alloc_frames:
  assumes "(alloc_step E z)\<^sup>*\<^sup>* (s, H) (t, K)" and "alloc_inv E z (s, H)"
  shows "free_frames z t \<union> held K = free_frames z s \<union> held H"
  using assms(1)
proof (induction "(t, K)" arbitrary: t K rule: rtranclp_induct)
  case (step x)
  obtain u L where x: "x = (u, L)" by fastforce
  have "alloc_inv E z (u, L)"
    using allocator.steps_inv [OF _ assms(2)] step(1) x by blast
  from alloc_step_frames [OF _ this] step(2,3) x show ?case by simp
qed simp

section \<open>The theorems\<close>

text \<open>
  C15. Freeing a block returns, keeps the invariant of the buddy system and adds exactly the frames
  of the block to the free frames, however far it merges; if everything mergeable was merged
  before, it is so afterwards.
\<close>

theorem free_one_page_correct:
  assumes "buddy_ok E z s" and "freeable E z page order s" and "migratetype < MIGRATE_TYPES"
  shows "\<exists>t. k__free_one_page E page z order migratetype s = Some t \<and> buddy_ok E z t
    \<and> free_frames z t = free_frames z s \<union> span page order
    \<and> (coalesced (blocks z s) \<longrightarrow> coalesced (blocks z t))"
proof -
  have "idle s page" using assms(2) by (simp add: freeable_def)
  then show ?thesis
    using free_one_page_spec [OF assms] by (auto simp: idle_def)
qed

text \<open>
  \<open>__rmqueue_smallest\<close> takes an aligned block of unused frames out of the free frames and
  splits the rest off, and fails, changing nothing, only when no list of the migrate type has a
  block of the order or a larger one.
\<close>

theorem rmqueue_smallest_correct:
  assumes "buddy_ok E z s" and "migratetype < MIGRATE_TYPES"
  shows "(\<exists>t p. k__rmqueue_smallest E z order migratetype s = Some (Some p, t) \<and> buddy_ok E z t
        \<and> freeable E z p order t \<and> free_frames z s = free_frames z t \<union> span p order
        \<and> (coalesced (blocks z s) \<longrightarrow> coalesced (blocks z t)))
    \<or> k__rmqueue_smallest E z order migratetype s = Some (None, s) \<and> (\<forall>i \<ge> order. free_list s z i migratetype = [])"
  using rmqueue_smallest_spec [OF assms(1) le_refl assms(2), of order]
  unfolding k__rmqueue_smallest_def by blast

text \<open>
  C14. Allocating a block and freeing it again, with whatever migrate types, brings back exactly
  the free blocks there were: the merging undoes the splitting.
\<close>

theorem alloc_free_roundtrip:
  assumes "buddy_ok E z s" and "coalesced (blocks z s)" and "mt < MIGRATE_TYPES" and "mt' < MIGRATE_TYPES"
    and "k__rmqueue_smallest E z order mt s = Some (Some p, t)"
  shows "\<exists>u. k__free_one_page E p z order mt' t = Some u \<and> buddy_ok E z u \<and> blocks z u = blocks z s"
proof -
  have "alloc_inv E z (s, {})" using assms(1,2) by (simp add: alloc_inv_def)
  note take = alloc_take [OF this assms(3,5)]
  from alloc_give [OF take(1) assms(4), of p order] obtain u where
    u: "k__free_one_page E p z order mt' t = Some u" "alloc_inv E z (u, insert (p, order) {} - {(p, order)})"
    "free_frames z u = free_frames z t \<union> span p order" by auto
  then have ok: "buddy_ok E z u" "coalesced (blocks z u)" by (simp_all add: alloc_inv_def)
  have "frames_of (blocks z u) = frames_of (blocks z s)"
    using u(3) take(2) by (simp add: frames_of_def free_frames_def)
  from coalesced_unique [OF buddy_block_set [OF ok(1)] buddy_block_set [OF assms(1)] ok(2) assms(2) this] u(1) ok(1)
  show ?thesis by blast
qed

text \<open>
  C13. No frame is handed out twice or lost: along every sequence of allocations and frees of blocks
  of any orders, the blocks held are disjoint from each other and from the free frames, free and
  held frames together stay the same, and every held block can be given back at any time.
\<close>

theorem no_double_allocation:
  assumes "buddy_ok E z s" and "coalesced (blocks z s)" and "(alloc_step E z)\<^sup>*\<^sup>* (s, {}) (t, H)"
  shows "(\<forall>x \<in> H. \<forall>y \<in> H. x \<noteq> y \<longrightarrow> span (fst x) (snd x) \<inter> span (fst y) (snd y) = {})
    \<and> held H \<inter> free_frames z t = {} \<and> free_frames z t \<union> held H = free_frames z s
    \<and> (\<forall>p order mt. (p, order) \<in> H \<longrightarrow> mt < MIGRATE_TYPES \<longrightarrow> k__free_one_page E p z order mt t \<noteq> None)"
proof -
  have start: "alloc_inv E z (s, {})" using assms(1,2) by (simp add: alloc_inv_def)
  have inv: "alloc_inv E z (t, H)" by (rule allocator.steps_inv [OF assms(3) start])
  have "free_frames z t \<union> held H = free_frames z s"
    using alloc_frames [OF assms(3) start] by (simp add: held_def)
  moreover have "held H \<inter> free_frames z t = {}"
    using inv by (fastforce simp: alloc_inv_def held_def freeable_def)
  moreover have "k__free_one_page E p z order mt t \<noteq> None" if "(p, order) \<in> H" "mt < MIGRATE_TYPES" for p order mt
    using alloc_give [OF inv that(2,1)] by auto
  ultimately show ?thesis
    using inv unfolding alloc_inv_def by blast
qed

section \<open>The theorems on a small zone\<close>

text \<open>One free block of order 3 at frame 8; the frames up to 31 are unused.\<close>

definition idle_page :: page where
  "idle_page = sample_page\<lparr>pg_count := 0\<rparr>"

definition buddy_sample :: kstate where
  "buddy_sample = sample_state\<lparr>
     k_pages := (\<lambda>p. if p = 8 then idle_page\<lparr>pg_mapcount := - 2, pg_private := 3\<rparr>
       else if p < 32 then idle_page else sample_page),
     k_zones := (\<lambda>_. sample_zone\<lparr>z_free_area := (\<lambda>i. if i = 3
       then \<lparr>fa_free_list = (\<lambda>mt. if mt = MIGRATE_MOVABLE then [8] else []), fa_nr_free = 1\<rparr>
       else \<lparr>fa_free_list = (\<lambda>_. []), fa_nr_free = 0\<rparr>)\<rparr>)\<rparr>"

lemma sample_free_list: "free_list buddy_sample z i mt = (if i = 3 \<and> mt = MIGRATE_MOVABLE then [8] else [])"
  by (simp add: free_list_def buddy_sample_def zone_at_def)

lemma sample_blocks: "blocks z buddy_sample = {(8, 3)}"
  by (auto simp: blocks_def sample_free_list)

lemma sample_free_frames: "free_frames z buddy_sample = {8 ..< 16}"
  by (simp add: free_frames_def sample_blocks span_def)

lemma sample_pages: "page_at buddy_sample p = (if p = 8 then idle_page\<lparr>pg_mapcount := - 2, pg_private := 3\<rparr>
    else if p < 32 then idle_page else sample_page)"
  by (simp add: page_at_def buddy_sample_def)

lemma sample_in_zone: "p < 4096 \<Longrightarrow> in_zone sample_env 0 buddy_sample p"
  by (simp add: in_zone_def bad_range_def page_outside_zone_boundaries_def page_is_consistent_def zone_at_def
      buddy_sample_def sample_zone_def sample_env_def)

lemma sample_buddy: "PageBuddy p buddy_sample \<longleftrightarrow> p = 8"
  by (simp add: PageBuddy_def sample_pages idle_page_def sample_page_def)

lemma sample_compound: "\<not> PageCompound p buddy_sample"
  by (simp add: PageCompound_def sample_pages idle_page_def sample_page_def)

lemma sample_buddy_ok: "buddy_ok sample_env 0 buddy_sample"
proof -
  have "lists_ok (free_list buddy_sample 0)"
    by (auto simp: lists_ok_def sample_free_list migrate_defs MAX_ORDER_def)
  moreover have "nr_free 0 buddy_sample i = int (\<Sum>mt < MIGRATE_TYPES. length (free_list buddy_sample 0 i mt))" for i
  proof -
    have "(\<Sum>mt < MIGRATE_TYPES. length (free_list buddy_sample 0 i mt)) =
        (\<Sum>mt < MIGRATE_TYPES. if mt = MIGRATE_MOVABLE then (if i = 3 then 1 else 0) else 0)"
      by (rule sum.cong) (auto simp: sample_free_list)
    then show ?thesis
      by (simp add: nr_free_def buddy_sample_def zone_at_def migrate_defs)
  qed
  moreover have "2 ^ k dvd p \<and> PageBuddy p buddy_sample \<and> page_order p buddy_sample = k"
    if "(p, k) \<in> blocks 0 buddy_sample" for p k
    using that by (simp add: sample_blocks sample_buddy page_order_def sample_pages)
  ultimately show ?thesis
    by (auto simp: buddy_ok_def sample_blocks sample_free_frames sample_buddy sample_compound sample_in_zone
        sample_pages idle_page_def sample_page_def page_order_def)
qed

lemma sample_coalesced: "coalesced (blocks z buddy_sample)"
proof -
  have "(8 :: nat) XOR 2 ^ 3 \<noteq> 8" by simp
  then show ?thesis by (auto simp: coalesced_def sample_blocks)
qed

lemma sample_freeable: "freeable sample_env 0 16 1 buddy_sample"
  by (auto simp: freeable_def sample_free_frames MAX_ORDER_def idle_def sample_pages idle_page_def sample_page_def
      sample_compound intro!: sample_in_zone)

theorem free_one_page_correct_witness:
  "\<exists>t. k__free_one_page sample_env 16 0 1 MIGRATE_MOVABLE buddy_sample = Some t \<and> buddy_ok sample_env 0 t
     \<and> free_frames 0 t = {8 ..< 18} \<and> coalesced (blocks 0 t)"
proof -
  have "{8 ..< 16} \<union> span 16 1 = {8 ..< 18}" by auto
  then show ?thesis
    using free_one_page_correct [OF sample_buddy_ok sample_freeable, of MIGRATE_MOVABLE] sample_coalesced
    by (simp add: sample_free_frames migrate_defs)
qed

lemma sample_alloc:
  "\<exists>t p. k__rmqueue_smallest sample_env 0 1 MIGRATE_MOVABLE buddy_sample = Some (Some p, t)
     \<and> free_frames 0 buddy_sample = free_frames 0 t \<union> span p 1"
  using rmqueue_smallest_spec [OF sample_buddy_ok le_refl, of MIGRATE_MOVABLE 1] spec [of _ "3 :: nat"]
  by (auto simp: k__rmqueue_smallest_def sample_free_list migrate_defs dest!: spec [of _ "3 :: nat"])

theorem rmqueue_smallest_correct_witness:
  "\<exists>t p. k__rmqueue_smallest sample_env 0 1 MIGRATE_MOVABLE buddy_sample = Some (Some p, t)
     \<and> buddy_ok sample_env 0 t \<and> freeable sample_env 0 p 1 t"
proof -
  have "MIGRATE_MOVABLE < MIGRATE_TYPES" by (simp add: migrate_defs)
  moreover have "free_list buddy_sample 0 3 MIGRATE_MOVABLE \<noteq> []" by (simp add: sample_free_list)
  moreover have "(1 :: nat) \<le> 3" by simp
  ultimately show ?thesis
    using rmqueue_smallest_correct [OF sample_buddy_ok, of MIGRATE_MOVABLE 1] by blast
qed

theorem alloc_free_roundtrip_witness:
  "\<exists>t p u. k__rmqueue_smallest sample_env 0 1 MIGRATE_MOVABLE buddy_sample = Some (Some p, t)
     \<and> k__free_one_page sample_env p 0 1 MIGRATE_UNMOVABLE t = Some u \<and> blocks 0 u = {(8, 3)}"
proof -
  obtain t p where run: "k__rmqueue_smallest sample_env 0 1 MIGRATE_MOVABLE buddy_sample = Some (Some p, t)"
    using sample_alloc by blast
  have "MIGRATE_MOVABLE < MIGRATE_TYPES" "MIGRATE_UNMOVABLE < MIGRATE_TYPES" by (simp_all add: migrate_defs)
  from alloc_free_roundtrip [OF sample_buddy_ok sample_coalesced this run] run show ?thesis
    by (auto simp: sample_blocks)
qed

theorem no_double_allocation_witness:
  "\<exists>t p. (alloc_step sample_env 0)\<^sup>*\<^sup>* (buddy_sample, {}) (t, {(p, 1)}) \<and> held {(p, 1)} \<inter> free_frames 0 t = {}
     \<and> free_frames 0 t \<union> held {(p, 1)} = {8 ..< 16}"
proof -
  obtain t p where run: "k__rmqueue_smallest sample_env 0 1 MIGRATE_MOVABLE buddy_sample = Some (Some p, t)"
    using sample_alloc by blast
  have "MIGRATE_MOVABLE < MIGRATE_TYPES" by (simp add: migrate_defs)
  from alloc_step.take [OF this run, of "{}"]
  have steps: "(alloc_step sample_env 0)\<^sup>*\<^sup>* (buddy_sample, {}) (t, {(p, 1)})" by simp
  from no_double_allocation [OF sample_buddy_ok sample_coalesced this] steps show ?thesis
    by (auto simp: sample_free_frames)
qed

end
