(* ===== verification/Buddy_Fallback.thy ===== *)
theory Buddy_Fallback
  imports Buddy_Inv
begin

text \<open>
  The whole of \<open>__rmqueue\<close> of \<open>Linux/page_alloc.c\<close>: when the lists of the wanted migrate type are
  empty it takes a block of another type, after moving the free blocks of its page block to the
  wanted type. Moving relists blocks without changing which blocks are free.
\<close>

section \<open>Moving blocks between lists\<close>

definition same_zone_state :: "zone_ptr \<Rightarrow> kstate \<Rightarrow> kstate \<Rightarrow> bool" where
  "same_zone_state z s t \<longleftrightarrow> k_pages t = k_pages s \<and> nr_free z t = nr_free z s \<and> zone_span z t = zone_span z s"

definition order_count :: "kstate \<Rightarrow> zone_ptr \<Rightarrow> nat \<Rightarrow> nat" where
  "order_count s z order = (\<Sum>mt < MIGRATE_TYPES. length (free_list s z order mt))"

definition relisted :: "zone_ptr \<Rightarrow> kstate \<Rightarrow> kstate \<Rightarrow> bool" where
  "relisted z s t \<longleftrightarrow> same_zone_state z s t \<and> lists_ok (free_list t z) \<and> blocks z t = blocks z s
     \<and> (\<forall>order. order_count t z order = order_count s z order)"

lemma relisted_refl: "lists_ok (free_list s z) \<Longrightarrow> relisted z s s"
  by (simp add: relisted_def same_zone_state_def)

lemma relisted_trans: "relisted z s t \<Longrightarrow> relisted z t u \<Longrightarrow> relisted z s u"
  by (simp add: relisted_def same_zone_state_def)

lemma sum_fun_upd_less:
  "(k :: nat) < n \<Longrightarrow> (\<Sum>i<n. length ((L(k := x)) i)) + length (L k) = (\<Sum>i<n. length (L i)) + length x"
  by (simp add: sum.remove [of "{..<n}" k] add.commute add.left_commute)

lemma length_removeAll_once: "distinct xs \<Longrightarrow> x \<in> set xs \<Longrightarrow> length (removeAll x xs) + 1 = length xs"
  by (induction xs) (auto simp: removeAll_id)

lemma relist_block:
  assumes ok: "lists_ok (free_list s z)" and mem: "(p, order) \<in> blocks z s" and mt: "mt < MIGRATE_TYPES"
  shows "\<exists>s1. free_list_del z p s = Some s1 \<and> relisted z s (free_list_add z order mt p s1)"
proof -
  from mem obtain mt0 where p: "p \<in> set (free_list s z order mt0)" by (auto simp: blocks_iff)
  obtain s1 where s1: "free_list_del z p s = Some s1"
    "free_list s1 z = (free_list s z)(order := (free_list s z order)(mt0 := removeAll p (free_list s z order mt0)))"
    "nr_free z s1 = nr_free z s" "zone_span z s1 = zone_span z s" "k_pages s1 = k_pages s"
    using free_list_del_eq [OF ok p] by blast
  let ?t = "free_list_add z order mt p s1"
  have mt0: "mt0 < MIGRATE_TYPES" and o: "order < MAX_ORDER" using lists_okD(2,3) [OF ok p] by blast+
  have L1: "free_list s1 z i j = (if i = order \<and> j = mt0 then removeAll p (free_list s z order mt0) else free_list s z i j)"
    for i j by (simp add: s1(2))
  have L: "free_list ?t z i j = (if i = order \<and> j = mt then p # free_list s1 z i j else free_list s1 z i j)" for i j
    by (simp add: free_list_adds)
  have set1: "q \<in> set (free_list s1 z i j) \<longleftrightarrow> q \<noteq> p \<and> q \<in> set (free_list s z i j)" for q i j
  proof (cases "q = p")
    case True
    have "p \<notin> set (free_list s z i j)" if "\<not> (i = order \<and> j = mt0)"
      using lists_okD(4,5) [OF ok p, of i j] that by blast
    then have "p \<notin> set (free_list s1 z i j)"
      by (cases "i = order \<and> j = mt0") (simp_all add: L1)
    with True show ?thesis by simp
  qed (simp add: L1)
  then have notin: "p \<notin> set (free_list s1 z i j)" for i j by blast
  have mem_iff: "q \<in> set (free_list ?t z i j) \<longleftrightarrow>
      (q = p \<and> i = order \<and> j = mt) \<or> (q \<noteq> p \<and> q \<in> set (free_list s z i j))" for q i j
  proof -
    have "q \<in> set (free_list ?t z i j) \<longleftrightarrow> (q = p \<and> i = order \<and> j = mt) \<or> q \<in> set (free_list s1 z i j)"
      by (cases "i = order \<and> j = mt") (auto simp: L)
    then show ?thesis by (simp only: set1)
  qed
  have "distinct (free_list ?t z i j)" for i j
  proof -
    have "distinct (free_list s1 z i j)" using lists_okD(1) [OF ok] by (simp add: L1 distinct_removeAll)
    with notin [of i j] show ?thesis by (cases "i = order \<and> j = mt") (auto simp: L)
  qed
  moreover have "i < MAX_ORDER \<and> j < MIGRATE_TYPES" if ne: "free_list ?t z i j \<noteq> []" for i j
  proof -
    from ne obtain q where "q \<in> set (free_list ?t z i j)" by (meson last_in_set)
    then show ?thesis using lists_okD(2,3) [OF ok] o mt by (auto simp: mem_iff)
  qed
  moreover have "i = i' \<and> j = j'" if "q \<in> set (free_list ?t z i j)" "q \<in> set (free_list ?t z i' j')" for q i j i' j'
    using that lists_okD(4,5) [OF ok] unfolding mem_iff by blast
  ultimately have "lists_ok (free_list ?t z)" unfolding lists_ok_def by blast
  moreover have "blocks z ?t = blocks z s"
  proof -
    have "(q, i) \<in> blocks z ?t \<longleftrightarrow> (q, i) \<in> blocks z s" for q i
      using p mt lists_okD(4) [OF ok p] unfolding blocks_iff mem_iff by blast
    then show ?thesis by auto
  qed
  moreover have "order_count ?t z i = order_count s z i" for i
  proof (cases "i = order")
    case True
    have "free_list s1 z order = (free_list s z order)(mt0 := removeAll p (free_list s z order mt0))"
      by (simp add: s1(2))
    with sum_fun_upd_less [OF mt0, of "free_list s z order" "removeAll p (free_list s z order mt0)"]
      length_removeAll_once [OF lists_okD(1) [OF ok] p]
    have "order_count s1 z order + 1 = order_count s z order" by (simp add: order_count_def)
    moreover have "free_list ?t z order = (free_list s1 z order)(mt := p # free_list s1 z order mt)"
      by (simp add: free_list_adds)
    with sum_fun_upd_less [OF mt, of "free_list s1 z order" "p # free_list s1 z order mt"]
    have "order_count ?t z order = order_count s1 z order + 1" by (simp add: order_count_def)
    ultimately show ?thesis using True by simp
  next
    case False
    then show ?thesis by (simp add: order_count_def L L1)
  qed
  moreover have "same_zone_state z s ?t"
    using s1(3-5) by (simp add: same_zone_state_def) (simp add: free_list_add_def upd_area_def)
  ultimately show ?thesis using s1(1) unfolding relisted_def by blast
qed


text \<open>Every frame between the bounds of the zone belongs to it (one node, flat memory).\<close>

definition zone_contiguous :: "kenv \<Rightarrow> zone_ptr \<Rightarrow> kstate \<Rightarrow> bool" where
  "zone_contiguous E z s \<longleftrightarrow> (\<forall>q. z_start_pfn (zone_at s z) \<le> q \<longrightarrow>
     q < z_start_pfn (zone_at s z) + z_spanned_pages (zone_at s z) \<longrightarrow> page_zone E q = z)"

lemma zone_contiguous_span: "zone_span z s = zone_span z t \<Longrightarrow> zone_contiguous E z s = zone_contiguous E z t"
  by (simp add: zone_contiguous_def zone_span_def)

lemma same_zone_page: "same_zone_state z s t \<Longrightarrow> page_at t q = page_at s q"
  by (simp add: same_zone_state_def page_at_def)

lemma move_loop_relists:
  assumes "lists_ok (free_list s z)" and "migratetype < MIGRATE_TYPES"
    and "\<And>q. page \<le> q \<Longrightarrow> q \<le> end_page \<Longrightarrow> PageBuddy q s \<Longrightarrow> (q, page_order q s) \<in> blocks z s"
  shows "\<exists>n t. move_freepages_loop E z page end_page migratetype moved s = Some (n, t) \<and> relisted z s t"
  using assms(1,3)
proof (induction "Suc end_page - page" arbitrary: page moved s rule: less_induct)
  case less
  note unfold = move_freepages_loop.simps [of E z page end_page migratetype moved s]
  show ?case
  proof (cases "page \<le> end_page")
    case False
    with relisted_refl [OF less.prems(1)] show ?thesis by (auto simp: unfold)
  next
    case in_range: True
    show ?thesis
    proof (cases "pfn_valid_within E page \<and> PageBuddy page s")
      case False
      with in_range have "move_freepages_loop E z page end_page migratetype moved s =
          move_freepages_loop E z (page + 1) end_page migratetype moved s"
        by (auto simp: unfold)
      moreover have "Suc end_page - (page + 1) < Suc end_page - page" using in_range by simp
      ultimately show ?thesis using less.hyps [of "page + 1" s moved] less.prems by fastforce
    next
      case True
      let ?o = "page_order page s"
      have blk: "(page, ?o) \<in> blocks z s" using less.prems(2) in_range True by simp
      obtain s1 where s1: "free_list_del z page s = Some s1" "relisted z s (free_list_add z ?o migratetype page s1)"
        using relist_block [OF less.prems(1) blk assms(2)] by blast
      define u where "u = free_list_add z ?o migratetype page s1"
      have u: "relisted z s u" using s1(2) by (simp add: u_def)
      then have P: "page_at u q = page_at s q" for q
        using same_zone_page unfolding relisted_def by blast
      have B: "blocks z u = blocks z s" and L: "lists_ok (free_list u z)"
        using u by (simp_all add: relisted_def)
      have "Suc end_page - (page + 2 ^ ?o) < Suc end_page - page"
        using in_range by (simp add: diff_less_mono2)
      moreover have "(q, page_order q u) \<in> blocks z u" if "page + 2 ^ ?o \<le> q" "q \<le> end_page" "PageBuddy q u" for q
      proof -
        have "page \<le> q" using that(1) by simp
        with less.prems(2) that(2,3) show ?thesis by (simp add: B page_order_def PageBuddy_def P)
      qed
      ultimately obtain n t where "move_freepages_loop E z (page + 2 ^ ?o) end_page migratetype (moved + 2 ^ ?o) u = Some (n, t)"
        "relisted z u t"
        using less.hyps [OF _ L, of "page + 2 ^ ?o" "moved + 2 ^ ?o"] by blast
      then show ?thesis
        using in_range True s1(1) relisted_trans [OF u] by (simp add: unfold Let_def u_def)
    qed
  qed
qed

lemma move_freepages_block_relists:
  assumes "lists_ok (free_list s z)" and "migratetype < MIGRATE_TYPES" and "zone_contiguous E z s"
    and page: "z_start_pfn (zone_at s z) \<le> page"
    and buddy: "\<And>q. page_zone E q = z \<Longrightarrow> PageBuddy q s \<Longrightarrow> (q, page_order q s) \<in> blocks z s"
  shows "\<exists>n t. move_freepages_block E z page migratetype s = Some (n, t) \<and> relisted z s t"
proof -
  let ?n = "pageblock_nr_pages E"
  let ?start_pfn = "page div ?n * ?n"
  let ?fin = "?start_pfn + ?n - 1" and ?lo = "z_start_pfn (zone_at s z)"
  let ?hi = "?lo + z_spanned_pages (zone_at s z)"
  let ?start = "if ?start_pfn < ?lo then page else ?start_pfn"
  show ?thesis
  proof (cases "?fin \<ge> ?hi")
    case True
    then show ?thesis
      using relisted_refl [OF assms(1)] by (simp add: move_freepages_block_def)
  next
    case False
    have "0 < ?n" by (simp add: pageblock_nr_pages_def)
    then have "page < ?start_pfn + ?n"
      by (metis add.commute dividend_less_div_times)
    then have start: "?lo \<le> ?start" "?start \<le> ?fin" using page \<open>0 < ?n\<close> by auto
    have zone: "page_zone E q = z" if "?start \<le> q" "q \<le> ?fin" for q
      using assms(3) that False start unfolding zone_contiguous_def by (meson le_trans not_le le_less_trans)
    have "page_zone E ?start = page_zone E ?fin" using zone [OF le_refl start(2)] zone [OF start(2) le_refl] by simp
    with False move_loop_relists [OF assms(1,2), of ?start ?fin E 0] buddy zone
    show ?thesis
      unfolding move_freepages_block_def move_freepages_def Let_def by auto
  qed
qed


lemma relisted_buddy_ok:
  assumes "buddy_ok E z s" and "relisted z s t"
  shows "buddy_ok E z t"
proof -
  have P: "page_at t q = page_at s q" for q
    using assms(2) same_zone_page unfolding relisted_def by blast
  have zs: "in_zone E z t = in_zone E z s"
    using assms(2) by (intro in_zone_span) (simp add: relisted_def same_zone_state_def)
  have B: "blocks z t = blocks z s" using assms(2) by (simp add: relisted_def)
  then have F: "free_frames z t = free_frames z s" by (simp add: free_frames_def)
  have "nr_free z t order = int (\<Sum>mt < MIGRATE_TYPES. length (free_list t z order mt))" for order
    using assms(2) buddy_okD(2) [OF assms(1), of order]
    by (simp add: relisted_def same_zone_state_def order_count_def flip: of_nat_sum)
  moreover have "PageBuddy q t = PageBuddy q s" "page_order q t = page_order q s"
    "PageCompound q t = PageCompound q s" for q
    by (simp_all add: PageBuddy_def page_order_def PageCompound_def test_bit_def P)
  moreover have "lists_ok (free_list t z)" using assms(2) by (simp add: relisted_def)
  ultimately show ?thesis
    using assms(1) unfolding buddy_ok_def B F zs P by simp
qed

lemma set_pageblock_frame:
  assumes "set_pageblock_migratetype E p mt s = Some t"
  shows "free_list t = free_list s" and "nr_free z t = nr_free z s" and "zone_span z t = zone_span z s"
    and "k_pages t = k_pages s" and "zone_at t z = zone_at s z"
  using set_pageblock_cases [OF assms] by (auto simp: free_list_def nr_free_def zone_span_def zone_at_def fun_eq_iff)

lemma in_zone_range: "in_zone E z s q \<Longrightarrow> z_start_pfn (zone_at s z) \<le> q \<and> q < z_start_pfn (zone_at s z) + z_spanned_pages (zone_at s z)"
  by (simp add: in_zone_def bad_range_def page_outside_zone_boundaries_def)

lemma set_pageblock_total:
  assumes "in_zone E z s p" shows "\<exists>t. set_pageblock_migratetype E p mt s = Some t"
  using in_zone_range [OF assms] in_zone_zone [OF assms]
  by (simp add: set_pageblock_migratetype_def set_pageblock_flags_group_def Let_def)

lemma change_range_total:
  assumes "\<forall>i < n. in_zone E z s (p + i * k)"
  shows "\<exists>t. forK (\<lambda>i. set_pageblock_migratetype E (p + i * k) mt) [0..<n] s = Some t
    \<and> free_list t z = free_list s z \<and> nr_free z t = nr_free z s \<and> zone_span z t = zone_span z s \<and> k_pages t = k_pages s"
  using assms
proof (induction n)
  case (Suc n)
  then obtain t where t: "forK (\<lambda>i. set_pageblock_migratetype E (p + i * k) mt) [0..<n] s = Some t"
    "free_list t z = free_list s z" "nr_free z t = nr_free z s" "zone_span z t = zone_span z s" "k_pages t = k_pages s"
    by auto
  have "in_zone E z t (p + n * k)" using Suc.prems in_zone_span [OF t(4)] by simp
  then obtain u where "set_pageblock_migratetype E (p + n * k) mt t = Some u" using set_pageblock_total by blast
  with t set_pageblock_frame [OF this] show ?case by (simp add: forK_append)
qed simp

lemma relisted_pageblock: "relisted z s t \<Longrightarrow> set_pageblock_migratetype E p mt t = Some u \<Longrightarrow> relisted z s u"
  using set_pageblock_frame [of E p mt t u]
  by (simp add: relisted_def same_zone_state_def blocks_def order_count_def)

section \<open>Taking a block of another type\<close>

text \<open>What every way of taking a block promises.\<close>

definition block_taken :: "kenv \<Rightarrow> zone_ptr \<Rightarrow> page_ptr \<Rightarrow> nat \<Rightarrow> kstate \<Rightarrow> kstate \<Rightarrow> bool" where
  "block_taken E z p order s t \<longleftrightarrow> buddy_ok E z t \<and> freeable E z p order t
     \<and> free_frames z s = free_frames z t \<union> span p order
     \<and> (coalesced (blocks z s) \<longrightarrow> coalesced (blocks z t)) \<and> zone_span z t = zone_span z s
     \<and> (\<forall>q. q \<notin> free_frames z s \<longrightarrow> page_at t q = page_at s q)"

text \<open>The first part of \<open>rmqueue_fallback_take\<close> relists blocks, up to the count it has already lowered.\<close>

lemma fallback_move:
  assumes ok: "buddy_ok E z s" and cont: "zone_contiguous E z s" and page: "in_zone E z s page"
    and mt: "start_migratetype < MIGRATE_TYPES" "migratetype < MIGRATE_TYPES"
  shows "\<exists>m t. (if c then do {
           (pages, s) \<leftarrow> move_freepages_block E z page start_migratetype (add_nr_free z cur (- 1) s);
           s \<leftarrow> (if big pages then set_pageblock_migratetype E page start_migratetype s else Some s);
           Some (start_migratetype, s)
         } else Some (migratetype, add_nr_free z cur (- 1) s)) = Some (m, t)
       \<and> m < MIGRATE_TYPES \<and> relisted z (add_nr_free z cur (- 1) s) t"
proof -
  let ?s = "add_nr_free z cur (- 1) s"
  have L: "lists_ok (free_list ?s z)" using buddy_okD(1) [OF ok] by simp
  show ?thesis
  proof (cases c)
    case False
    then show ?thesis using mt relisted_refl [OF L] by simp
  next
    case True
    have eq: "z_start_pfn (zone_at ?s z) = z_start_pfn (zone_at s z)"
      using zone_span_frame(2) [of z z cur "- 1" s] by (simp add: zone_span_def)
    have zs: "zone_contiguous E z ?s" using cont zone_contiguous_span [of z s ?s E] by simp
    have lo: "z_start_pfn (zone_at ?s z) \<le> page" using in_zone_range [OF page] eq by simp
    have "(q, page_order q ?s) \<in> blocks z ?s" if "page_zone E q = z" "PageBuddy q ?s" for q
      using buddy_okD(12) [OF ok that(1)] that(2) by (simp add: PageBuddy_def page_order_def blocks_def)
    from move_freepages_block_relists [OF L mt(1) zs lo this]
    obtain n t where t: "move_freepages_block E z page start_migratetype ?s = Some (n, t)" "relisted z ?s t"
      by blast
    then have "zone_span z t = zone_span z s" by (simp add: relisted_def same_zone_state_def)
    from in_zone_span [OF this] page have "in_zone E z t page" by simp
    then obtain u where "set_pageblock_migratetype E page start_migratetype t = Some u"
      using set_pageblock_total by blast
    with True mt t relisted_pageblock [OF t(2) this] show ?thesis by simp
  qed
qed

lemma relisted_count:
  assumes "relisted z (add_nr_free z cur (- 1) s) t"
  shows "relisted z s (add_nr_free z cur 1 t)" and "nr_free z t = (nr_free z s)(cur := nr_free z s cur - 1)"
proof -
  show "nr_free z t = (nr_free z s)(cur := nr_free z s cur - 1)"
    using assms by (simp add: relisted_def same_zone_state_def)
  moreover have "k_pages (add_nr_free z o' d u) = k_pages u" for o' d u
    by (simp add: add_nr_free_def upd_area_def)
  ultimately show "relisted z s (add_nr_free z cur 1 t)"
    using assms by (simp add: relisted_def same_zone_state_def blocks_def order_count_def)
qed

lemma fallback_take_spec:
  assumes ok: "buddy_ok E z s" and cont: "zone_contiguous E z s" and mem: "page \<in> set (free_list s z cur mt)"
    and ord: "order \<le> cur" and start: "start_migratetype < MIGRATE_TYPES"
  shows "\<exists>t. rmqueue_fallback_take E z order start_migratetype cur mt page s = Some t
    \<and> block_taken E z page order s t"
proof -
  have blk: "(page, cur) \<in> blocks z s" and mt: "mt < MIGRATE_TYPES"
    using mem lists_okD(3) [OF buddy_okD(1) [OF ok] mem] by (auto simp: blocks_iff)
  have zone: "in_zone E z s page"
    using buddy_okD(7) [OF ok] block_span [OF blk] by (auto simp: subset_iff)
  define c where "c \<longleftrightarrow> cur \<ge> pageblock_order E div 2 \<or> start_migratetype = MIGRATE_RECLAIMABLE
    \<or> page_group_by_mobility_disabled E"
  define big where "big = (\<lambda>pages :: nat. pages \<ge> 2 ^ (pageblock_order E - 1) \<or> page_group_by_mobility_disabled E)"
  obtain m t1 where t1: "(if c then do {
           (pages, s) \<leftarrow> move_freepages_block E z page start_migratetype (add_nr_free z cur (- 1) s);
           s \<leftarrow> (if big pages then set_pageblock_migratetype E page start_migratetype s else Some s);
           Some (start_migratetype, s)
         } else Some (mt, add_nr_free z cur (- 1) s)) = Some (m, t1)"
    "m < MIGRATE_TYPES" "relisted z (add_nr_free z cur (- 1) s) t1"
    using fallback_move [OF ok cont zone start mt] by blast
  let ?v = "add_nr_free z cur 1 t1"
  note rel = relisted_count [OF t1(3)]
  have v: "buddy_ok E z ?v" by (rule relisted_buddy_ok [OF ok rel(1)])
  have Bv: "blocks z ?v = blocks z s" and zv: "zone_span z ?v = zone_span z s" and kv: "same_zone_state z s ?v"
    using rel(1) unfolding relisted_def same_zone_state_def by blast+
  have Pv: "page_at t1 q = page_at s q" for q using same_zone_page [OF kv, of q] by simp
  have "(page, cur) \<in> blocks z ?v" using blk Bv by blast
  then obtain mt1 where mem1: "page \<in> set (free_list t1 z cur mt1)"
    by (auto simp: blocks_iff)
  have L1: "lists_ok (free_list t1 z)" using t1(3) by (simp add: relisted_def)
  obtain t2 where t2: "free_list_del z page t1 = Some t2"
    "free_list t2 z = (free_list t1 z)(cur := (free_list t1 z cur)(mt1 := removeAll page (free_list t1 z cur mt1)))"
    "nr_free z t2 = nr_free z t1" "zone_span z t2 = zone_span z t1" "k_pages t2 = k_pages t1"
    using free_list_del_eq [OF L1 mem1] by blast
  have P2: "page_at t2 q = page_at s q" for q
  proof -
    have "page_at t2 q = page_at t1 q" by (rule page_at_pages [OF t2(5)])
    also have "\<dots> = page_at s q" using Pv [of q] by simp
    finally show ?thesis .
  qed
  have "PageBuddy page t2" using buddy_okD(4) [OF ok blk] by (simp add: PageBuddy_def P2)
  then obtain t3 where t3: "rmv_page_order page t2 = Some t3"
    "t3 = set_page_private page 0 (set_mapcount page (- 1) t2)"
    by (simp add: rmv_page_order_def k__ClearPageBuddy_def)
  have Z3: "zone_span z t3 = zone_span z s"
    using zv by (simp add: t3(2) set_page_private_def set_mapcount_def t2(4))
  have "in_zone E z t3 (page + i * pageblock_nr_pages E)"
    if "pageblock_order E \<le> cur" "i < 2 ^ (cur - pageblock_order E)" for i
  proof -
    have "i * pageblock_nr_pages E < 2 ^ cur"
      using that by (simp add: pageblock_nr_pages_def flip: power_add)
        (metis le_add_diff_inverse2 mult_less_cancel2 power_add zero_less_numeral zero_less_power)
    then have "page + i * pageblock_nr_pages E \<in> free_frames z s" using block_span [OF blk] by (auto simp: subset_iff)
    with buddy_okD(7) [OF ok] in_zone_span [OF Z3] show ?thesis by simp
  qed
  then have "pageblock_order E \<le> cur \<Longrightarrow> \<forall>i < 2 ^ (cur - pageblock_order E). in_zone E z t3 (page + i * pageblock_nr_pages E)"
    by blast
  from change_range_total [OF this] obtain t4 where
    t4: "(if cur \<ge> pageblock_order E then change_pageblock_range E page cur start_migratetype t3 else Some t3) = Some t4"
    "free_list t4 z = free_list t3 z" "nr_free z t4 = nr_free z t3" "zone_span z t4 = zone_span z t3" "k_pages t4 = k_pages t3"
    by (cases "cur \<ge> pageblock_order E") (auto simp: change_pageblock_range_def)
  have rem: "block_removed z page cur mt1 ?v t4"
  proof -
    have "page_at t4 q = page_at t3 q" for q by (rule page_at_pages [OF t4(5)])
    moreover have "page_at t3 q = (if q = page then (page_at s page)\<lparr>pg_mapcount := - 1, pg_private := 0\<rparr> else page_at s q)" for q
      by (simp add: t3(2) set_page_private_def set_mapcount_def page_at_upd_page P2)
    moreover have "free_list t3 z = free_list t2 z" "nr_free z t3 = nr_free z t2" "zone_span z t3 = zone_span z t2"
      by (simp_all add: t3(2) set_page_private_def set_mapcount_def)
    ultimately show ?thesis
      using t4(2-4) by (simp add: block_removed_def t2 Pv)
  qed
  have "page \<in> set (free_list ?v z cur mt1)" using mem1 by simp
  from split_removed_block [OF v this rem ord t1(2)]
  obtain u where u: "expand E z page order cur m t4 = Some u" "block_taken E z page order ?v u"
    unfolding block_taken_def by blast
  have "rmqueue_fallback_take E z order start_migratetype cur mt page s = Some u"
    using u(1)
    by (simp only: rmqueue_fallback_take_def Let_def t1(1) [unfolded c_def big_def Let_def] t2(1) t3(1)
        t4(1) Option.bind.bind_lunit prod.case)
  moreover have "block_taken E z page order s u"
  proof -
    have "free_frames z ?v = free_frames z s" by (simp only: free_frames_def Bv)
    with u(2) show ?thesis by (auto simp only: block_taken_def Bv zv same_zone_page [OF kv])
  qed
  ultimately show ?thesis by blast
qed


definition other_type_empty :: "nat \<Rightarrow> zone_ptr \<Rightarrow> kstate \<Rightarrow> bool" where
  "other_type_empty order z s \<longleftrightarrow> (\<forall>i mt. order \<le> i \<longrightarrow> mt < MIGRATE_RESERVE \<longrightarrow> free_list s z i mt = [])"

lemma fallback_scan_spec:
  assumes ok: "buddy_ok E z s" and cont: "zone_contiguous E z s" and start: "start_migratetype < MIGRATE_TYPES"
    and ords: "\<forall>(i, mt) \<in> set xs. order \<le> i"
  shows "(\<exists>t p. rmqueue_fallback_scan E z order start_migratetype xs s = Some (Some p, t)
      \<and> block_taken E z p order s t)
    \<or> rmqueue_fallback_scan E z order start_migratetype xs s = Some (None, s)
      \<and> (\<forall>(i, mt) \<in> set xs. mt \<noteq> MIGRATE_RESERVE \<longrightarrow> free_list s z i mt = [])"
  using ords
proof (induction xs)
  case (Cons x xs)
  obtain i mt where x: "x = (i, mt)" by fastforce
  show ?case
  proof (cases "mt = MIGRATE_RESERVE \<or> free_list s z i mt = []")
    case True
    with Cons show ?thesis by (auto simp: x)
  next
    case False
    then obtain page ps where l: "free_list s z i mt = page # ps" by (auto simp: neq_Nil_conv)
    then have "page \<in> set (free_list s z i mt)" by simp
    with fallback_take_spec [OF ok cont _ _ start, of page i mt order] Cons.prems
    obtain t where "rmqueue_fallback_take E z order start_migratetype i mt page s = Some t"
      "block_taken E z page order s t" by (auto simp: x)
    with False l show ?thesis by (auto simp: x)
  qed
qed simp

lemma fallback_spec:
  assumes ok: "buddy_ok E z s" and cont: "zone_contiguous E z s" and start: "start_migratetype < MIGRATE_RESERVE"
    and own: "\<forall>i \<ge> order. free_list s z i start_migratetype = []"
  shows "(\<exists>t p. k__rmqueue_fallback E z order start_migratetype s = Some (Some p, t) \<and> block_taken E z p order s t)
    \<or> k__rmqueue_fallback E z order start_migratetype s = Some (None, s) \<and> other_type_empty order z s"
proof -
  let ?xs = "List.product (rev [order ..< MAX_ORDER]) (fallbacks ! start_migratetype)"
  have xs: "\<forall>(i, mt) \<in> set ?xs. order \<le> i" by auto
  have "start_migratetype < MIGRATE_TYPES" using start by (simp add: migrate_defs)
  note scan = fallback_scan_spec [OF ok cont this xs]
  have "other_type_empty order z s"
    if empty: "\<forall>(i, mt) \<in> set ?xs. mt \<noteq> MIGRATE_RESERVE \<longrightarrow> free_list s z i mt = []"
  proof -
    have "free_list s z i mt = []" if "order \<le> i" "mt < MIGRATE_RESERVE" for i mt
    proof (cases "i < MAX_ORDER \<and> mt \<noteq> start_migratetype")
      case True
      have "mt \<in> set (fallbacks ! start_migratetype)"
      proof -
        have "mt = 0 \<or> mt = 1 \<or> mt = 2" "start_migratetype = 0 \<or> start_migratetype = 1 \<or> start_migratetype = 2"
          using that(2) start by (auto simp: migrate_defs)
        with True show ?thesis by (auto simp: fallbacks_def migrate_defs)
      qed
      with True that empty show ?thesis by auto
    next
      case False
      show ?thesis
      proof (rule ccontr)
        assume "free_list s z i mt \<noteq> []"
        with lists_okD(2) [OF buddy_okD(1) [OF ok] hd_in_set [OF this]] False own that(1) show False by auto
      qed
    qed
    then show ?thesis by (simp add: other_type_empty_def)
  qed
  with scan show ?thesis unfolding k__rmqueue_fallback_def by blast
qed

text \<open>
  \<open>__rmqueue\<close> always returns; it takes a block if a list of any type but \<open>MIGRATE_ISOLATE\<close> has one
  that is large enough.
\<close>

definition available :: "nat \<Rightarrow> zone_ptr \<Rightarrow> kstate \<Rightarrow> bool" where
  "available order z s \<longleftrightarrow> (\<exists>p i mt. order \<le> i \<and> mt \<noteq> MIGRATE_ISOLATE \<and> p \<in> set (free_list s z i mt))"

lemma smallest_empty:
  "\<forall>i \<ge> cur. free_list s z i mt = [] \<Longrightarrow> rmqueue_smallest_from E z order cur mt s = Some (None, s)"
proof (induction "MAX_ORDER - cur" arbitrary: cur)
  case 0
  then show ?case by (subst rmqueue_smallest_from.simps) simp
next
  case (Suc n)
  then have "rmqueue_smallest_from E z order (cur + 1) mt s = Some (None, s)" by simp
  with Suc.prems show ?case by (subst rmqueue_smallest_from.simps) simp
qed

lemma scan_empty:
  "\<forall>(i, mt) \<in> set xs. mt = MIGRATE_RESERVE \<or> free_list s z i mt = [] \<Longrightarrow>
    rmqueue_fallback_scan E z order start_migratetype xs s = Some (None, s)"
  by (induction xs) auto

lemma smallest_spec:
  assumes "buddy_ok E z s" and "mt < MIGRATE_TYPES"
  shows "if \<exists>i \<ge> order. free_list s z i mt \<noteq> []
    then \<exists>t p. k__rmqueue_smallest E z order mt s = Some (Some p, t) \<and> block_taken E z p order s t
    else k__rmqueue_smallest E z order mt s = Some (None, s)"
  using rmqueue_smallest_spec [OF assms(1) le_refl assms(2), of order]
    smallest_empty [of order s z mt E order]
  unfolding k__rmqueue_smallest_def block_taken_def by (auto simp del: bex_simps ball_simps)

lemma available_iff:
  assumes "buddy_ok E z s"
  shows "available order z s \<longleftrightarrow>
    \<not> other_type_empty order z s \<or> (\<exists>i \<ge> order. free_list s z i MIGRATE_RESERVE \<noteq> [])"
proof
  assume "available order z s"
  then obtain p i m where m: "order \<le> i" "m \<noteq> MIGRATE_ISOLATE" "p \<in> set (free_list s z i m)"
    unfolding available_def by blast
  have "m < MIGRATE_TYPES" using lists_okD(3) [OF buddy_okD(1) [OF assms] m(3)] .
  with m(2) have "m < MIGRATE_RESERVE \<or> m = MIGRATE_RESERVE" by (auto simp: migrate_defs)
  moreover have "free_list s z i m \<noteq> []" using m(3) by auto
  ultimately show "\<not> other_type_empty order z s \<or> (\<exists>i \<ge> order. free_list s z i MIGRATE_RESERVE \<noteq> [])"
    using m(1) unfolding other_type_empty_def by blast
next
  assume "\<not> other_type_empty order z s \<or> (\<exists>i \<ge> order. free_list s z i MIGRATE_RESERVE \<noteq> [])"
  then obtain i m where "order \<le> i" "m \<le> MIGRATE_RESERVE" "free_list s z i m \<noteq> []"
    unfolding other_type_empty_def using less_imp_le by blast
  moreover from this have "m \<noteq> MIGRATE_ISOLATE" by (auto simp: migrate_defs)
  ultimately show "available order z s" unfolding available_def by (meson hd_in_set)
qed

lemma fallback_types:
  "mt < MIGRATE_RESERVE \<Longrightarrow> m \<in> set (fallbacks ! mt) \<Longrightarrow> m \<noteq> MIGRATE_RESERVE \<Longrightarrow> m < MIGRATE_RESERVE"
proof -
  assume "mt < MIGRATE_RESERVE" "m \<in> set (fallbacks ! mt)" "m \<noteq> MIGRATE_RESERVE"
  moreover from this(1) have "mt = 0 \<or> mt = 1 \<or> mt = 2" by (auto simp: migrate_defs)
  ultimately show ?thesis by (auto simp: fallbacks_def migrate_defs)
qed

lemma fallback_empty:
  assumes "mt < MIGRATE_RESERVE" and "other_type_empty order z s"
  shows "k__rmqueue_fallback E z order mt s = Some (None, s)"
proof -
  have "m = MIGRATE_RESERVE \<or> free_list s z i m = []"
    if "(i, m) \<in> set (List.product (rev [order..<MAX_ORDER]) (fallbacks ! mt))" for i m
  proof -
    from that have "order \<le> i" "m \<in> set (fallbacks ! mt)" by auto
    with fallback_types [OF assms(1) this(2)] assms(2) show ?thesis by (auto simp: other_type_empty_def)
  qed
  then show ?thesis unfolding k__rmqueue_fallback_def by (intro scan_empty) auto
qed

lemma rmqueue_spec:
  assumes ok: "buddy_ok E z s" and cont: "zone_contiguous E z s" and mt: "mt < MIGRATE_RESERVE"
  shows "if available order z s
    then \<exists>t p. k__rmqueue E z order mt s = Some (Some p, t) \<and> block_taken E z p order s t
    else k__rmqueue E z order mt s = Some (None, s)"
proof -
  have types: "mt < MIGRATE_TYPES" "MIGRATE_RESERVE < MIGRATE_TYPES" "mt \<noteq> MIGRATE_RESERVE"
    using mt by (auto simp: migrate_defs)
  note own = smallest_spec [OF ok types(1), of order] and res = smallest_spec [OF ok types(2), of order]
  show ?thesis
  proof (cases "\<exists>i \<ge> order. free_list s z i mt \<noteq> []")
    case True
    then have "available order z s"
      using mt unfolding available_iff [OF ok] other_type_empty_def by blast
    with True own show ?thesis by (auto simp: k__rmqueue_def)
  next
    case own_empty: False
    then have *: "k__rmqueue_smallest E z order mt s = Some (None, s)" using own by simp
    from own_empty have empty: "\<forall>i \<ge> order. free_list s z i mt = []" by simp
    show ?thesis
    proof (cases "other_type_empty order z s")
      case False
      with fallback_spec [OF ok cont mt empty] obtain t p where
        "k__rmqueue_fallback E z order mt s = Some (Some p, t)" "block_taken E z p order s t" by blast
      with * types(3) available_iff [OF ok] False show ?thesis by (simp add: k__rmqueue_def)
    next
      case True
      with * types(3) have "k__rmqueue E z order mt s = k__rmqueue_smallest E z order MIGRATE_RESERVE s"
        by (simp add: k__rmqueue_def fallback_empty [OF mt])
      with res True show ?thesis unfolding available_iff [OF ok] by simp
    qed
  qed
qed

end
