(* ===== verification/Watermark.thy ===== *)
theory Watermark
  imports Buddy_Fallback "HOL-Library.Signed_Division"
begin

text \<open>
  The watermarks of a zone in \<open>Linux/page_alloc.c\<close>: \<open>__zone_watermark_ok\<close>, the search of
  \<open>get_page_from_freelist\<close> for a zone above its mark, and the flags it is called with. A \<open>long\<close> of
  i386 is a number between \<open>- 2 ^ 31\<close> and \<open>2 ^ 31 - 1\<close> (\<open>long\<close>), an \<open>unsigned long\<close> one below
  \<open>2 ^ 32\<close> (\<open>ulong_of\<close>); an operation wraps where C converts.
\<close>

section \<open>The check\<close>

definition long :: "int \<Rightarrow> int" where
  "long x = signed_take_bit 31 x"

definition ulong_of :: "int \<Rightarrow> int" where
  "ulong_of x = x mod 2 ^ 32"

datatype alloc_flag = ALLOC_HARDER | ALLOC_HIGH | ALLOC_CPUSET | ALLOC_NO_WATERMARKS

text \<open>The reserve that the urgency of an allocation leaves in force.\<close>

definition reduced_mark :: "alloc_flag set \<Rightarrow> int \<Rightarrow> int" where
  "reduced_mark alloc_flags mark =
     (let min' = long mark;
          min' = (if ALLOC_HIGH \<in> alloc_flags then min' - min' sdiv 2 else min')
      in if ALLOC_HARDER \<in> alloc_flags then min' - min' sdiv 4 else min')"

fun watermark_loop :: "zone \<Rightarrow> nat list \<Rightarrow> int \<Rightarrow> int \<Rightarrow> bool" where
  "watermark_loop z [] min' free = True"
| "watermark_loop z (i # is) min' free =
     (let free = long (free - fa_nr_free (z_free_area z i) * 2 ^ i);
          min' = min' div 2
      in if free \<le> min' then False else watermark_loop z is min' free)"

text \<open>
  The first comparison is between \<open>long\<close> and \<open>unsigned long\<close> (\<open>lowmem_reserve\<close> is unsigned), so C
  compares both sides as unsigned numbers.
\<close>

definition k__zone_watermark_ok :: "zone \<Rightarrow> nat \<Rightarrow> int \<Rightarrow> nat \<Rightarrow> alloc_flag set \<Rightarrow> int \<Rightarrow> bool" where
  "k__zone_watermark_ok z order mark classzone_idx alloc_flags free =
     (let free = long (free - (2 ^ order + 1));
          min' = reduced_mark alloc_flags mark
      in if ulong_of free \<le> ulong_of (min' + z_lowmem_reserve z classzone_idx) then False
         else watermark_loop z [0..<order] min' free)"

section \<open>Looking for a zone\<close>

text \<open>
  What the search reads outside this repository: the counter readers of \<open>vmstat.h\<close> (a plain and an
  exact one), where the zones of a node lie, the cpuset check and the state of the running task.
\<close>

record alloc_env =
  zone_page_state :: "zone_ptr \<Rightarrow> zone_stat_item \<Rightarrow> kstate \<Rightarrow> int"
  zone_page_state_snapshot :: "zone_ptr \<Rightarrow> zone_stat_item \<Rightarrow> kstate \<Rightarrow> int"
  node_zones :: "zone_ptr \<Rightarrow> zone_ptr"
  cpuset_zone_allowed_softwall :: "zone_ptr \<Rightarrow> gfp_flag set \<Rightarrow> bool"
  rt_task_current :: bool
  in_interrupt :: bool
  pf_memalloc :: bool
  tif_memdie :: bool

definition zone_watermark_ok ::
  "alloc_env \<Rightarrow> zone_ptr \<Rightarrow> nat \<Rightarrow> int \<Rightarrow> nat \<Rightarrow> alloc_flag set \<Rightarrow> kstate \<Rightarrow> bool" where
  "zone_watermark_ok W z order mark classzone_idx alloc_flags s =
     k__zone_watermark_ok (zone_at s z) order mark classzone_idx alloc_flags
       (zone_page_state W z NR_FREE_PAGES s)"

definition zone_watermark_ok_safe ::
  "alloc_env \<Rightarrow> zone_ptr \<Rightarrow> nat \<Rightarrow> int \<Rightarrow> nat \<Rightarrow> alloc_flag set \<Rightarrow> kstate \<Rightarrow> bool" where
  "zone_watermark_ok_safe W z order mark classzone_idx alloc_flags s =
     (let free = zone_page_state W z NR_FREE_PAGES s;
          drift = z_percpu_drift_mark (zone_at s z);
          free = (if drift \<noteq> 0 \<and> ulong_of free < drift
                  then zone_page_state_snapshot W z NR_FREE_PAGES s else free)
      in k__zone_watermark_ok (zone_at s z) order mark classzone_idx alloc_flags free)"

definition zone_idx :: "alloc_env \<Rightarrow> zone_ptr \<Rightarrow> nat" where
  "zone_idx W z = z - node_zones W z"

text \<open>\<open>for_each_zone_zonelist\<close>: the zones of the list at or below an index, in order.\<close>

definition zones_upto :: "alloc_env \<Rightarrow> nat \<Rightarrow> zone_ptr list \<Rightarrow> zone_ptr list" where
  "zones_upto W highidx zonelist = filter (\<lambda>z. zone_idx W z \<le> highidx) zonelist"

text \<open>
  \<open>get_page_from_freelist\<close> without \<open>CONFIG_NUMA\<close>: \<open>zone_reclaim_mode\<close> is 0 and no zone is
  remembered as full. The low bits of \<open>alloc_flags\<close>, which choose the watermark, are \<open>wmark\<close>.
\<close>

fun freelist_scan ::
  "nat \<Rightarrow> kenv \<Rightarrow> alloc_env \<Rightarrow> gfp_flag set \<Rightarrow> nat \<Rightarrow> nat \<Rightarrow> zone_watermarks \<Rightarrow> alloc_flag set \<Rightarrow> nat \<Rightarrow>
     zone_ptr list \<Rightarrow> kstate \<Rightarrow> (page_ptr option \<times> kstate) option" where
  "freelist_scan fuel E W gfp_mask order classzone_idx wmark alloc_flags migratetype [] s = Some (None, s)"
| "freelist_scan fuel E W gfp_mask order classzone_idx wmark alloc_flags migratetype (z # zs) s =
     (if ALLOC_CPUSET \<in> alloc_flags \<and> \<not> cpuset_zone_allowed_softwall W z gfp_mask
         \<or> ALLOC_NO_WATERMARKS \<notin> alloc_flags
           \<and> \<not> zone_watermark_ok W z order (z_watermark (zone_at s z) wmark) classzone_idx alloc_flags s
      then freelist_scan fuel E W gfp_mask order classzone_idx wmark alloc_flags migratetype zs s
      else case buffered_rmqueue fuel E z order gfp_mask migratetype s of
        None \<Rightarrow> None
      | Some (Some page, s) \<Rightarrow> Some (Some page, s)
      | Some (None, s) \<Rightarrow>
          freelist_scan fuel E W gfp_mask order classzone_idx wmark alloc_flags migratetype zs s)"

definition get_page_from_freelist ::
  "nat \<Rightarrow> kenv \<Rightarrow> alloc_env \<Rightarrow> gfp_flag set \<Rightarrow> nat \<Rightarrow> zone_ptr list \<Rightarrow> nat \<Rightarrow> zone_watermarks \<Rightarrow> alloc_flag set \<Rightarrow>
     zone_ptr \<Rightarrow> nat \<Rightarrow> kstate \<Rightarrow> (page_ptr option \<times> kstate) option" where
  "get_page_from_freelist fuel E W gfp_mask order zonelist high_zoneidx wmark alloc_flags preferred_zone migratetype =
     freelist_scan fuel E W gfp_mask order (zone_idx W preferred_zone) wmark alloc_flags migratetype
       (zones_upto W high_zoneidx zonelist)"

text \<open>Without a watermark choice of its own the flags stand for \<open>ALLOC_WMARK_MIN\<close>.\<close>

definition gfp_to_alloc_flags :: "alloc_env \<Rightarrow> gfp_flag set \<Rightarrow> zone_watermarks \<times> alloc_flag set" where
  "gfp_to_alloc_flags W gfp_mask =
     (let alloc_flags = {ALLOC_CPUSET};
          alloc_flags = (if GFP_HIGH \<in> gfp_mask then insert ALLOC_HIGH alloc_flags else alloc_flags);
          alloc_flags = (if GFP_WAIT \<notin> gfp_mask
            then (if GFP_NOMEMALLOC \<notin> gfp_mask then insert ALLOC_HARDER alloc_flags else alloc_flags) - {ALLOC_CPUSET}
            else if rt_task_current W \<and> \<not> in_interrupt W then insert ALLOC_HARDER alloc_flags
            else alloc_flags);
          alloc_flags = (if GFP_NOMEMALLOC \<notin> gfp_mask \<and> \<not> in_interrupt W \<and> (pf_memalloc W \<or> tif_memdie W)
            then insert ALLOC_NO_WATERMARKS alloc_flags else alloc_flags)
      in (WMARK_MIN, alloc_flags))"

definition PAGE_ALLOC_COSTLY_ORDER :: nat where "PAGE_ALLOC_COSTLY_ORDER = 3"

definition should_alloc_retry :: "gfp_flag set \<Rightarrow> nat \<Rightarrow> nat \<Rightarrow> bool" where
  "should_alloc_retry gfp_mask order pages_reclaimed =
     (if GFP_NORETRY \<in> gfp_mask then False
      else if order \<le> PAGE_ALLOC_COSTLY_ORDER then True
      else if GFP_REPEAT \<in> gfp_mask \<and> pages_reclaimed < 2 ^ order then True
      else GFP_NOFAIL \<in> gfp_mask)"

text \<open>The sum is an \<open>unsigned int\<close>.\<close>

definition nr_free_zone_pages :: "alloc_env \<Rightarrow> zone_ptr list \<Rightarrow> nat \<Rightarrow> kstate \<Rightarrow> int" where
  "nr_free_zone_pages W zonelist offset s = fold (\<lambda>z nr.
       let n = int (z_present_pages (zone_at s z)); high = z_watermark (zone_at s z) WMARK_HIGH
       in if n > high then ulong_of (nr + (n - high)) else nr)
     (zones_upto W offset zonelist) 0"

section \<open>Splitting a free block\<close>

definition split_free_page :: "kenv \<Rightarrow> alloc_env \<Rightarrow> page_ptr \<Rightarrow> kstate \<Rightarrow> (nat \<times> kstate) option" where
  "split_free_page E W page s = do {
     s \<leftarrow> guardK (PageBuddy page s) s;
     let z = page_zone E page;
     let order = page_order page s;
     let watermark = z_watermark (zone_at s z) WMARK_LOW + 2 ^ order;
     if \<not> zone_watermark_ok W z 0 watermark 0 {} s then Some (0, s)
     else do {
       s \<leftarrow> free_list_del z page s;
       let s = add_nr_free z order (- 1) s;
       s \<leftarrow> rmv_page_order page s;
       let s = k__mod_zone_page_state E z NR_FREE_PAGES (- (2 ^ order)) s;
       s \<leftarrow> set_page_refcounted page s;
       s \<leftarrow> split_page page order s;
       s \<leftarrow> (if order \<ge> pageblock_order E - 1
         then forK (\<lambda>i. set_pageblock_migratetype E (page + i * pageblock_nr_pages E) MIGRATE_MOVABLE)
           [0 ..< (2 ^ order - 1 + pageblock_nr_pages E - 1) div pageblock_nr_pages E] s
         else Some s);
       Some (2 ^ order, s)
     }
   }"

section \<open>What the check decides\<close>

lemma long_id [simp]: "- (2 ^ 31) \<le> x \<Longrightarrow> x < 2 ^ 31 \<Longrightarrow> long x = x"
  by (simp add: long_def signed_take_bit_int_eq_self)

lemma ulong_of_id [simp]: "0 \<le> x \<Longrightarrow> x < 2 ^ 32 \<Longrightarrow> ulong_of x = x"
  by (simp add: ulong_of_def)

lemma sdiv_nonneg: "0 \<le> (a :: int) \<Longrightarrow> 0 < b \<Longrightarrow> a sdiv b = a div b"
  by (cases "a = 0") (simp_all add: signed_divide_int_def sgn_if)

lemma reduced_mark_range:
  assumes "0 \<le> mark" and "mark < 2 ^ 31"
  shows "0 \<le> reduced_mark flags mark" and "reduced_mark flags mark \<le> mark"
proof -
  have r: "reduced_mark flags mark =
     (let min' = (if ALLOC_HIGH \<in> flags then mark - mark sdiv 2 else mark)
      in if ALLOC_HARDER \<in> flags then min' - min' sdiv 4 else min')"
    using assms by (simp add: reduced_mark_def)
  have half: "0 \<le> m - m sdiv 2 \<and> m - m sdiv 2 \<le> m" "0 \<le> m - m sdiv 4 \<and> m - m sdiv 4 \<le> m" if "0 \<le> m" for m :: int
    using that by (auto simp: sdiv_nonneg)
  define m where "m = (if ALLOC_HIGH \<in> flags then mark - mark sdiv 2 else mark)"
  have m: "0 \<le> m \<and> m \<le> mark" using half(1) [OF assms(1)] assms(1) by (simp add: m_def)
  have "reduced_mark flags mark = (if ALLOC_HARDER \<in> flags then m - m sdiv 4 else m)"
    unfolding r m_def Let_def ..
  with m half(2) [of m] show "0 \<le> reduced_mark flags mark" "reduced_mark flags mark \<le> mark" by auto
qed

definition pages_below :: "zone \<Rightarrow> nat \<Rightarrow> int" where
  "pages_below z k = (\<Sum>i<k. fa_nr_free (z_free_area z i) * 2 ^ i)"

lemma pages_below_Suc [simp]: "pages_below z (Suc k) = pages_below z k + fa_nr_free (z_free_area z k) * 2 ^ k"
  by (simp add: pages_below_def)

lemma pages_below_mono:
  assumes "\<And>i. 0 \<le> fa_nr_free (z_free_area z i)"
  shows "j \<le> k \<Longrightarrow> pages_below z j \<le> pages_below z k"
proof (induction rule: dec_induct)
  case (step m)
  have "0 \<le> fa_nr_free (z_free_area z m) * 2 ^ m" using assms by simp
  with step.IH show ?case by simp
qed simp

lemma watermark_loop_iff:
  assumes n: "\<And>i. 0 \<le> fa_nr_free (z_free_area z i)" and nfree: "pages_below z b \<le> 2 ^ 31"
    and f: "0 \<le> free" "free < 2 ^ 31" and "a \<le> b"
  shows "watermark_loop z [a..<b] (min' div 2 ^ a) (free - pages_below z a) \<longleftrightarrow>
    (\<forall>k. a \<le> k \<longrightarrow> k < b \<longrightarrow> free - pages_below z (Suc k) > min' div 2 ^ Suc k)"
  using \<open>a \<le> b\<close>
proof (induction "b - a" arbitrary: a)
  case 0
  then show ?case by simp
next
  case (Suc d)
  then have ab: "a < b" and d: "d = b - Suc a" by simp_all
  have "0 \<le> pages_below z (Suc a)" using pages_below_mono [OF n, of 0 "Suc a"] by (simp add: pages_below_def)
  moreover have "pages_below z (Suc a) \<le> pages_below z b" using pages_below_mono [OF n, of "Suc a" b] ab by simp
  ultimately have range: "long (free - pages_below z (Suc a)) = free - pages_below z (Suc a)"
    using f nfree by (intro long_id) linarith+
  have halved: "min' div 2 ^ a div 2 = min' div 2 ^ Suc a" 
    by (metis power_Suc2 zdiv_zmult2_eq zero_le_numeral)
  have step: "watermark_loop z [a..<b] (min' div 2 ^ a) (free - pages_below z a) \<longleftrightarrow>
      free - pages_below z (Suc a) > min' div 2 ^ Suc a
      \<and> watermark_loop z [Suc a..<b] (min' div 2 ^ Suc a) (free - pages_below z (Suc a))"
    using range ab by (simp add: upt_rec [of a b] Let_def halved diff_diff_eq [symmetric] del: power_Suc)
  have "watermark_loop z [Suc a..<b] (min' div 2 ^ Suc a) (free - pages_below z (Suc a)) \<longleftrightarrow>
     (\<forall>k. Suc a \<le> k \<longrightarrow> k < b \<longrightarrow> free - pages_below z (Suc k) > min' div 2 ^ Suc k)"
    using Suc.hyps(1) [OF d] ab by simp
  moreover have "(\<forall>k. a \<le> k \<longrightarrow> k < b \<longrightarrow> P k) \<longleftrightarrow> P a \<and> (\<forall>k. Suc a \<le> k \<longrightarrow> k < b \<longrightarrow> P k)" for P
    using ab by (metis Suc_leD Suc_leI le_neq_implies_less order_refl)
  ultimately show ?case using step by simp
qed


text \<open>
  With the free pages in the free areas counted right and no wrap-around, an allocation of order
  \<open>order\<close> leaves more than the reduced mark, and for each order below \<open>order\<close> the blocks above it
  hold more than the mark halved that many times.
\<close>

definition free_enough :: "zone \<Rightarrow> nat \<Rightarrow> int \<Rightarrow> int \<Rightarrow> int \<Rightarrow> bool" where
  "free_enough z order mark reserve nfree \<longleftrightarrow> nfree - (2 ^ order + 1) > mark + reserve
     \<and> (\<forall>k < order. nfree - (2 ^ order + 1) - pages_below z (Suc k) > mark div 2 ^ Suc k)"

definition zone_counts_ok :: "zone \<Rightarrow> int \<Rightarrow> bool" where
  "zone_counts_ok z nfree \<longleftrightarrow> (\<forall>i. 0 \<le> fa_nr_free (z_free_area z i)) \<and> nfree = pages_below z MAX_ORDER \<and> nfree < 2 ^ 31"

lemma watermark_iff:
  assumes ok: "zone_counts_ok z nfree" and "order < MAX_ORDER" and big: "2 ^ order < nfree"
    and mark: "0 \<le> mark" "0 \<le> z_lowmem_reserve z c" "mark + z_lowmem_reserve z c < 2 ^ 31"
  shows "k__zone_watermark_ok z order mark c flags nfree \<longleftrightarrow>
    free_enough z order (reduced_mark flags mark) (z_lowmem_reserve z c) nfree"
proof -
  let ?r = "reduced_mark flags mark" and ?f = "nfree - (2 ^ order + 1)"
  have n: "\<And>i. 0 \<le> fa_nr_free (z_free_area z i)" and t: "nfree = pages_below z MAX_ORDER" "nfree < 2 ^ 31"
    using ok by (simp_all add: zone_counts_ok_def)
  have r: "0 \<le> ?r" "?r \<le> mark" using reduced_mark_range [of mark flags] mark by linarith+
  have "(0 :: int) \<le> 2 ^ order" by simp
  then have f: "0 \<le> ?f" "?f < 2 ^ 31" using big t(2) by linarith+
  have "pages_below z order \<le> 2 ^ 31"
    using pages_below_mono [OF n, of order MAX_ORDER] assms(2) t by simp
  from watermark_loop_iff [OF n this f, of 0 ?r]
  have "watermark_loop z [0..<order] ?r ?f \<longleftrightarrow> (\<forall>k < order. ?f - pages_below z (Suc k) > ?r div 2 ^ Suc k)"
    by (simp add: pages_below_def [of z 0])
  moreover have "long ?f = ?f" "ulong_of ?f = ?f" "ulong_of (?r + z_lowmem_reserve z c) = ?r + z_lowmem_reserve z c"
    using f r mark by (intro long_id ulong_of_id; simp)+
  ultimately show ?thesis
    by (auto simp: k__zone_watermark_ok_def free_enough_def Let_def)
qed

text \<open>With fewer than two free pages the difference is negative, and as an unsigned number beats every mark.\<close>

lemma watermark_blind:
  assumes "0 \<le> nfree" and "nfree < 2"
    and "0 \<le> mark" "0 \<le> z_lowmem_reserve z c" "mark + z_lowmem_reserve z c < 2 ^ 31"
  shows "k__zone_watermark_ok z 0 mark c flags nfree"
proof -
  let ?r = "reduced_mark flags mark"
  have r: "0 \<le> ?r" "?r \<le> mark" using reduced_mark_range [of mark flags] assms by linarith+
  have "nfree = 0 \<or> nfree = 1" using assms(1,2) by auto
  then have "ulong_of (long (nfree - 2)) \<ge> 2 ^ 32 - 2" by (auto simp: ulong_of_def)
  moreover have "ulong_of (?r + z_lowmem_reserve z c) = ?r + z_lowmem_reserve z c"
    using r assms by (intro ulong_of_id) simp_all
  ultimately have "\<not> ulong_of (long (nfree - 2)) \<le> ulong_of (?r + z_lowmem_reserve z c)"
    using r assms by simp
  then show ?thesis by (simp add: k__zone_watermark_ok_def Let_def)
qed


lemma watermark_refuses:
  assumes "zone_counts_ok z nfree" and "0 < order" "order < MAX_ORDER" and "nfree \<le> 2 ^ order"
    and "0 \<le> mark" "mark < 2 ^ 31"
  shows "\<not> k__zone_watermark_ok z order mark c flags nfree"
proof -
  let ?f = "nfree - (2 ^ order + 1)" and ?n = "fa_nr_free (z_free_area z 0)"
  have n: "\<And>i. 0 \<le> fa_nr_free (z_free_area z i)" using assms(1) by (simp add: zone_counts_ok_def)
  have "pages_below z 1 \<le> pages_below z MAX_ORDER" by (rule pages_below_mono [OF n]) (simp add: MAX_ORDER_def)
  then have "?n \<le> nfree" using assms(1) by (simp add: zone_counts_ok_def pages_below_def)
  then have nf: "0 \<le> nfree" "?n \<le> nfree" using n [of 0] by linarith+
  have "(2 :: int) ^ order \<le> 2 ^ 11" using assms(3) by (intro power_increasing) (simp_all add: MAX_ORDER_def)
  then have f: "- 2049 \<le> ?f" "?f < 0" using assms(4) nf(1) by simp_all
  have "?n \<le> 2048" using nf(2) assms(4) \<open>2 ^ order \<le> 2 ^ 11\<close> by simp
  then have "long ?f = ?f" "long (?f - ?n) = ?f - ?n"
    using f n [of 0] nf(2) assms(4) by (intro long_id; simp)+
  moreover have "?f - ?n \<le> reduced_mark flags mark div 2"
    using f n [of 0] reduced_mark_range(1) [OF assms(5,6), of flags] by linarith
  ultimately show ?thesis
    using assms(2) by (simp add: k__zone_watermark_ok_def Let_def upt_rec [of 0 order])
qed

section \<open>The mark as a promise\<close>

text \<open>The frames of the free blocks below an order, counted by the free areas.\<close>

definition frames_below :: "zone_ptr \<Rightarrow> kstate \<Rightarrow> nat \<Rightarrow> page_ptr set" where
  "frames_below z s k = (\<Union>(p, i) \<in> {b \<in> blocks z s. snd b < k}. span p i)"

definition heads :: "zone_ptr \<Rightarrow> kstate \<Rightarrow> nat \<Rightarrow> page_ptr set" where
  "heads z s i = {p. (p, i) \<in> blocks z s}"

lemma card_heads:
  assumes "buddy_ok E z s"
  shows "finite (heads z s i)" and "int (card (heads z s i)) = nr_free z s i"
proof -
  note L = buddy_okD(1) [OF assms]
  have h: "heads z s i = (\<Union>mt < MIGRATE_TYPES. set (free_list s z i mt))"
    using lists_okD(3) [OF L] by (auto simp: heads_def blocks_iff)
  then show "finite (heads z s i)" by simp
  have "card (heads z s i) = (\<Sum>mt < MIGRATE_TYPES. card (set (free_list s z i mt)))"
    unfolding h using lists_okD(5) [OF L] by (intro card_UN_disjoint) (simp_all, blast)
  also have "\<dots> = (\<Sum>mt < MIGRATE_TYPES. length (free_list s z i mt))"
    by (simp add: distinct_card lists_okD(1) [OF L])
  finally show "int (card (heads z s i)) = nr_free z s i" by (simp add: buddy_okD(2) [OF assms])
qed

lemma card_frames_below:
  assumes "buddy_ok E z s"
  shows "finite (frames_below z s k) \<and> int (card (frames_below z s k)) = pages_below (zone_at s z) k"
proof (induction k)
  case 0
  then show ?case by (simp add: frames_below_def pages_below_def)
next
  case (Suc k)
  let ?new = "\<Union>p \<in> heads z s k. span p k"
  have split: "frames_below z s (Suc k) = frames_below z s k \<union> ?new"
    by (auto simp: frames_below_def heads_def less_Suc_eq)
  have "card ?new = (\<Sum>p \<in> heads z s k. card (span p k))"
    using card_heads(1) [OF assms] buddy_okD(6) [OF assms]
    by (intro card_UN_disjoint) (simp_all add: span_def heads_def)
  then have new: "int (card ?new) = nr_free z s k * 2 ^ k"
    using card_heads(2) [OF assms, of k] by (simp add: span_def)
  have "frames_below z s k \<inter> ?new = {}"
  proof -
    have "span p i \<inter> span q k = {}" if "(p, i) \<in> blocks z s" "i < k" "(q, k) \<in> blocks z s" for p i q
    proof (cases "p = q")
      case True
      with that lists_okD(4) [OF buddy_okD(1) [OF assms]] show ?thesis by (fastforce simp: blocks_iff)
    qed (use buddy_okD(6) [OF assms that(1,3)] in simp)
    then show ?thesis by (fastforce simp: frames_below_def heads_def)
  qed
  then have "card (frames_below z s (Suc k)) = card (frames_below z s k) + card ?new"
    unfolding split using Suc card_heads(1) [OF assms, of k] by (intro card_Un_disjoint) (simp_all add: span_def)
  then show ?case
    using Suc new card_heads(1) [OF assms, of k] by (simp add: split nr_free_def span_def)
qed

lemma free_frames_below: "buddy_ok E z s \<Longrightarrow> free_frames z s = frames_below z s MAX_ORDER"
  using block_order by (fastforce simp: frames_below_def free_frames_def)

lemma buddy_counts:
  assumes "buddy_ok E z s" and "card (free_frames z s) < 2 ^ 31"
  shows "zone_counts_ok (zone_at s z) (int (card (free_frames z s)))"
proof -
  have "0 \<le> fa_nr_free (z_free_area (zone_at s z) i)" for i
    using card_heads(2) [OF assms(1), of i] by (simp add: nr_free_def)
  moreover have "int (card (free_frames z s)) < 2 ^ 31" using assms(2) by (metis of_nat_less_iff of_nat_numeral of_nat_power)
  ultimately show ?thesis
    using card_frames_below [OF assms(1), of MAX_ORDER] free_frames_below [OF assms(1)] by (simp add: zone_counts_ok_def)
qed

lemma large_block:
  assumes "buddy_ok E z s" and "pages_below (zone_at s z) order < int (card (free_frames z s))"
  shows "\<exists>p i. order \<le> i \<and> (p, i) \<in> blocks z s"
proof (rule ccontr)
  assume "\<not> ?thesis"
  then have "free_frames z s = frames_below z s order"
    by (fastforce simp: frames_below_def free_frames_def not_le)
  with card_frames_below [OF assms(1), of order] assms(2) show False by simp
qed


lemma free_enough_block:
  assumes "free_enough z order mark reserve nfree" and "0 \<le> mark" "0 \<le> reserve"
  shows "pages_below z order < nfree"
proof (cases order)
  case 0
  have "(0 :: int) \<le> 2 ^ order" by simp
  with assms 0 show ?thesis by (simp add: free_enough_def pages_below_def)
next
  case (Suc k)
  have "(0 :: int) \<le> 2 ^ order" by simp
  moreover have "0 \<le> mark div 2 ^ Suc k" using assms(2) by (simp add: pos_imp_zdiv_nonneg_iff)
  moreover have "nfree - (2 ^ order + 1) - pages_below z (Suc k) > mark div 2 ^ Suc k"
    using assms(1) Suc by (simp add: free_enough_def del: power_Suc pages_below_Suc)
  ultimately show ?thesis unfolding Suc by linarith
qed

lemma watermark_block:
  assumes ok: "buddy_ok E z s" and few: "card (free_frames z s) < 2 ^ 31" and ord: "order < MAX_ORDER"
    and mark: "0 \<le> mark" "0 \<le> z_lowmem_reserve (zone_at s z) c" "mark + z_lowmem_reserve (zone_at s z) c < 2 ^ 31"
    and two: "order = 0 \<longrightarrow> 2 \<le> card (free_frames z s)"
    and wm: "k__zone_watermark_ok (zone_at s z) order mark c flags (int (card (free_frames z s)))"
  shows "\<exists>p i. order \<le> i \<and> (p, i) \<in> blocks z s"
proof -
  let ?z = "zone_at s z" and ?n = "int (card (free_frames z s))"
  note counts = buddy_counts [OF ok few]
  have m: "mark < 2 ^ 31" using mark by linarith
  have "2 ^ order < ?n"
  proof (cases "order = 0")
    case False
    with watermark_refuses [OF counts _ ord _ mark(1) m, where c = c and flags = flags] wm show ?thesis by fastforce
  qed (use two in simp)
  from watermark_iff [OF counts ord this mark, of flags] wm
  have "free_enough ?z order (reduced_mark flags mark) (z_lowmem_reserve ?z c) ?n" by simp
  from free_enough_block [OF this] reduced_mark_range(1) [OF mark(1) m] mark(2)
  show ?thesis by (intro large_block [OF ok]) simp
qed


lemma available_block:
  assumes "buddy_ok E z s" and "\<forall>i. free_list s z i MIGRATE_ISOLATE = []" and "order \<le> i" "(p, i) \<in> blocks z s"
  shows "available order z s"
proof -
  obtain mt where "p \<in> set (free_list s z i mt)" using assms(4) by (auto simp: blocks_iff)
  with assms(2,3) show ?thesis unfolding available_def by (metis empty_iff empty_set)
qed

text \<open>
  C16. A zone that passes its watermark check can serve the allocation, when its buddy system is in
  order, the counter of free pages is exact and below \<open>2 ^ 31\<close> (as are the mark and the reserve), no
  free block is isolated and, for a single page, at least two pages are free: \<open>__rmqueue\<close> then
  returns an aligned free block of the wanted order, whatever the migrate type asked for, and takes
  exactly its frames. With fewer than two free pages the check of order 0 says nothing: it passes
  whatever the mark (\<open>watermark_blind_when_empty\<close>).
\<close>

theorem watermark_guarantees:
  assumes ok: "buddy_ok E z s" and cont: "zone_contiguous E z s" and mt: "migratetype < MIGRATE_PCPTYPES"
    and ord: "order < MAX_ORDER" and iso: "\<forall>i. free_list s z i MIGRATE_ISOLATE = []"
    and counter: "zone_page_state W z NR_FREE_PAGES s = int (card (free_frames z s))"
      "card (free_frames z s) < 2 ^ 31"
    and mark: "0 \<le> mark" "0 \<le> z_lowmem_reserve (zone_at s z) c" "mark + z_lowmem_reserve (zone_at s z) c < 2 ^ 31"
    and two: "order = 0 \<longrightarrow> 2 \<le> card (free_frames z s)"
    and wm: "zone_watermark_ok W z order mark c flags s"
  shows "\<exists>p t. k__rmqueue E z order migratetype s = Some (Some p, t) \<and> buddy_ok E z t \<and> 2 ^ order dvd p
    \<and> span p order \<subseteq> free_frames z s \<and> free_frames z t = free_frames z s - span p order"
proof -
  have reserve: "migratetype < MIGRATE_RESERVE" using mt by (simp add: migrate_defs)
  have "k__zone_watermark_ok (zone_at s z) order mark c flags (int (card (free_frames z s)))"
    using wm counter(1) by (simp add: zone_watermark_ok_def)
  from watermark_block [OF ok counter(2) ord mark two this]
  obtain p i where "order \<le> i" "(p, i) \<in> blocks z s" by blast
  then have "available order z s" by (rule available_block [OF ok iso])
  with rmqueue_spec [OF ok cont reserve, of order] obtain t p where
    "k__rmqueue E z order migratetype s = Some (Some p, t)" "block_taken E z p order s t" by auto
  then show ?thesis unfolding block_taken_def freeable_def by blast
qed

text \<open>
  The check does not hold back the last pages: for a single page it succeeds on a zone with one
  free page or none, whatever the watermark and the reserve, because the negative difference is
  compared as an unsigned number.
\<close>

theorem watermark_blind_when_empty:
  assumes "zone_page_state W z NR_FREE_PAGES s = 0 \<or> zone_page_state W z NR_FREE_PAGES s = 1"
    and "0 \<le> mark" "0 \<le> z_lowmem_reserve (zone_at s z) c" "mark + z_lowmem_reserve (zone_at s z) c < 2 ^ 31"
  shows "zone_watermark_ok W z 0 mark c flags s"
proof -
  have "0 \<le> zone_page_state W z NR_FREE_PAGES s" "zone_page_state W z NR_FREE_PAGES s < 2"
    using assms(1) by auto
  then show ?thesis
    unfolding zone_watermark_ok_def by (rule watermark_blind [OF _ _ assms(2-4)])
qed

text \<open>
  C17. \<open>__rmqueue\<close> always returns. It takes an aligned block of unused frames out of the free frames,
  keeping the buddy system in order, when some list but the isolated ones has a block of the
  order or larger; otherwise it changes nothing and returns NULL.
\<close>

theorem rmqueue_correct:
  assumes "buddy_ok E z s" and "zone_contiguous E z s" and "migratetype < MIGRATE_PCPTYPES"
  shows "if \<exists>p i mt. order \<le> i \<and> mt \<noteq> MIGRATE_ISOLATE \<and> p \<in> set (free_list s z i mt)
    then \<exists>t p. k__rmqueue E z order migratetype s = Some (Some p, t) \<and> buddy_ok E z t \<and> freeable E z p order t
      \<and> free_frames z s = free_frames z t \<union> span p order
      \<and> (\<forall>q. q \<notin> free_frames z s \<longrightarrow> page_at t q = page_at s q)
    else k__rmqueue E z order migratetype s = Some (None, s)"
proof -
  have "migratetype < MIGRATE_RESERVE" using assms(3) by (simp add: migrate_defs)
  from rmqueue_spec [OF assms(1,2) this, of order] show ?thesis
    unfolding available_def block_taken_def by (simp split: if_splits) blast
qed

section \<open>The theorems on a small zone\<close>

definition sample_alloc_env :: alloc_env where
  "sample_alloc_env = \<lparr>zone_page_state = (\<lambda>z i s. if i = NR_FREE_PAGES then int (card (free_frames z s)) else 0),
     zone_page_state_snapshot = (\<lambda>z i s. if i = NR_FREE_PAGES then int (card (free_frames z s)) else 0),
     node_zones = (\<lambda>_. 0), cpuset_zone_allowed_softwall = (\<lambda>_ _. True), rt_task_current = False,
     in_interrupt = False, pf_memalloc = False, tif_memdie = False\<rparr>"

lemma sample_contiguous: "zone_contiguous sample_env 0 buddy_sample"
  by (simp add: zone_contiguous_def sample_env_def)

lemma sample_zone_at:
  "z_lowmem_reserve (zone_at buddy_sample 0) c = 0"
  "fa_nr_free (z_free_area (zone_at buddy_sample 0) i) = (if i = 3 then 1 else 0)"
  by (simp_all add: buddy_sample_def sample_zone_def zone_at_def)

theorem watermark_guarantees_witness:
  "\<exists>p t. k__rmqueue sample_env 0 2 MIGRATE_UNMOVABLE buddy_sample = Some (Some p, t)
     \<and> buddy_ok sample_env 0 t \<and> 4 dvd p \<and> span p 2 \<subseteq> {8 ..< 16} \<and> free_frames 0 t = {8 ..< 16} - span p 2"
proof -
  have wm: "zone_watermark_ok sample_alloc_env 0 2 0 0 {} buddy_sample"
    by (simp add: zone_watermark_ok_def k__zone_watermark_ok_def sample_alloc_env_def sample_free_frames
        reduced_mark_def sample_zone_at upt_rec ulong_of_def Let_def)
  show ?thesis
    using watermark_guarantees [OF sample_buddy_ok sample_contiguous _ _ _ _ _ _ _ _ _ wm, of MIGRATE_UNMOVABLE]
    by (simp add: sample_free_frames sample_free_list sample_alloc_env_def sample_zone_at migrate_defs MAX_ORDER_def)
qed

theorem rmqueue_correct_witness:
  "\<exists>t p. k__rmqueue sample_env 0 2 MIGRATE_UNMOVABLE buddy_sample = Some (Some p, t)
     \<and> {8 ..< 16} = free_frames 0 t \<union> span p 2"
proof -
  have "\<exists>p i mt. 2 \<le> i \<and> mt \<noteq> MIGRATE_ISOLATE \<and> p \<in> set (free_list buddy_sample 0 i mt)"
    by (rule exI [of _ 8], rule exI [of _ 3], rule exI [of _ MIGRATE_MOVABLE]) (simp add: sample_free_list migrate_defs)
  with rmqueue_correct [OF sample_buddy_ok sample_contiguous, of MIGRATE_UNMOVABLE 2] show ?thesis
    by (auto simp: sample_free_frames migrate_defs)
qed

text \<open>A zone without a free page, a watermark of 1000 pages.\<close>

theorem watermark_blind_when_empty_witness:
  "zone_watermark_ok (sample_alloc_env\<lparr>zone_page_state := \<lambda>_ _ _. 0\<rparr>) 0 0 1000 0 {} sample_state"
  by (rule watermark_blind_when_empty) (simp_all add: sample_state_def sample_zone_def zone_at_def)

end
