(* ===== verification/Node_Map.thy ===== *)
theory Node_Map
  imports Mcpq_Prelude "HOL-Library.Multiset"
begin

text \<open>
  The map of physical memory in \<open>Linux/page_alloc.c\<close> (\<open>CONFIG_ARCH_POPULATES_NODE_MAP\<close>): the
  ranges of page frames that the architecture registers with \<open>add_active_range\<close>, and the sizes
  and holes of nodes and zones computed from them. Page frame numbers are \<open>unsigned long\<close>s, kept
  at 32 bits. \<open>early_node_map\<close> is the list of its first \<open>nr_nodemap_entries\<close> elements: no code
  reads the others. A routine with a \<open>BUG_ON\<close> returns an option. Messages have no state.
\<close>

section \<open>State\<close>

record node_active_region =
  rg_start :: ulong
  rg_end :: ulong
  rg_nid :: nat

text \<open>The zones of an i386 kernel with \<open>CONFIG_ZONE_DMA\<close> and \<open>CONFIG_HIGHMEM\<close>.\<close>

definition ZONE_DMA :: nat where "ZONE_DMA = 0"
definition ZONE_NORMAL :: nat where "ZONE_NORMAL = 1"
definition ZONE_HIGHMEM :: nat where "ZONE_HIGHMEM = 2"
definition ZONE_MOVABLE :: nat where "ZONE_MOVABLE = 3"
definition MAX_NR_ZONES :: nat where "MAX_NR_ZONES = 4"

lemmas zone_type_defs = ZONE_DMA_def ZONE_NORMAL_def ZONE_HIGHMEM_def ZONE_MOVABLE_def MAX_NR_ZONES_def

text \<open>
  What the code takes from the build and from outside this repository: the number of nodes, the
  heap sort of \<open>lib/sort.c\<close>, \<open>memparse\<close>, and the number of frames of the largest buddy block.
\<close>

record boot_env =
  MAX_NUMNODES :: nat
  lib_sort :: "(node_active_region \<Rightarrow> node_active_region \<Rightarrow> int) \<Rightarrow> node_active_region list \<Rightarrow> node_active_region list"
  memparse :: "string \<Rightarrow> 64 word"
  memblock_find_in_range :: "64 word \<Rightarrow> 64 word \<Rightarrow> 64 word \<Rightarrow> 64 word \<Rightarrow> 64 word"
  MEMBLOCK_ERROR :: "64 word"

definition MAX_ORDER_NR_PAGES :: ulong where
  "MAX_ORDER_NR_PAGES = 1024"

record boot_state =
  b_map :: "node_active_region list"
  b_lowest :: "nat \<Rightarrow> ulong"
  b_highest :: "nat \<Rightarrow> ulong"
  b_required_kernelcore :: ulong
  b_required_movablecore :: ulong
  b_zone_movable_pfn :: "nat \<Rightarrow> ulong"
  b_movable_zone :: nat
  b_high_memory :: "nat \<Rightarrow> bool"

definition MAX_ACTIVE_REGIONS :: "boot_env \<Rightarrow> nat" where
  "MAX_ACTIVE_REGIONS B = (if MAX_NUMNODES B \<ge> 32 then MAX_NUMNODES B * 50 else 256)"

section \<open>Walking the map\<close>

text \<open>\<open>nid = MAX_NUMNODES\<close> stands for every node. An index of -1 is \<open>None\<close>.\<close>

definition region_in_nid :: "boot_env \<Rightarrow> nat \<Rightarrow> node_active_region \<Rightarrow> bool" where
  "region_in_nid B nid r \<longleftrightarrow> nid = MAX_NUMNODES B \<or> rg_nid r = nid"

function active_region_index_from :: "boot_env \<Rightarrow> node_active_region list \<Rightarrow> nat \<Rightarrow> nat \<Rightarrow> nat option" where
  "active_region_index_from B m nid i =
     (if i < length m
      then if region_in_nid B nid (m ! i) then Some i else active_region_index_from B m nid (i + 1)
      else None)"
  by pat_completeness auto
termination
  by (relation "measure (\<lambda>(B, m, nid, i). length m - i)") auto

declare active_region_index_from.simps [simp del]

definition first_active_region_index_in_nid :: "boot_env \<Rightarrow> node_active_region list \<Rightarrow> nat \<Rightarrow> nat option" where
  "first_active_region_index_in_nid B m nid = active_region_index_from B m nid 0"

definition next_active_region_index_in_nid ::
  "boot_env \<Rightarrow> node_active_region list \<Rightarrow> nat \<Rightarrow> nat \<Rightarrow> nat option" where
  "next_active_region_index_in_nid B m index nid = active_region_index_from B m nid (index + 1)"

lemma active_region_index_bounds:
  "active_region_index_from B m nid i = Some j \<Longrightarrow> i \<le> j \<and> j < length m"
proof (induction B m nid i rule: active_region_index_from.induct)
  case (1 B m nid i)
  then show ?case
    by (subst (asm) active_region_index_from.simps) (auto split: if_splits)
qed

text \<open>The indices \<open>for_each_active_range_index_in_nid\<close> visits, from one on.\<close>

function region_indices :: "boot_env \<Rightarrow> node_active_region list \<Rightarrow> nat \<Rightarrow> nat option \<Rightarrow> nat list" where
  "region_indices B m nid None = []"
| "region_indices B m nid (Some i) = i # region_indices B m nid (next_active_region_index_in_nid B m i nid)"
  by pat_completeness auto
termination
  by (relation "measure (\<lambda>(B, m, nid, i). case i of None \<Rightarrow> 0 | Some i \<Rightarrow> Suc (length m - i))")
    (auto simp: next_active_region_index_in_nid_def split: option.splits dest: active_region_index_bounds)

definition active_indices :: "boot_env \<Rightarrow> node_active_region list \<Rightarrow> nat \<Rightarrow> nat list" where
  "active_indices B m nid = region_indices B m nid (first_active_region_index_in_nid B m nid)"

definition active_regions :: "boot_env \<Rightarrow> node_active_region list \<Rightarrow> nat \<Rightarrow> node_active_region list" where
  "active_regions B m nid = map (nth m) (active_indices B m nid)"

text \<open>\<open>__early_pfn_to_nid\<close> from an index on: the node of a frame, or -1 for a hole.\<close>

fun early_pfn_nid :: "node_active_region list \<Rightarrow> ulong \<Rightarrow> int" where
  "early_pfn_nid [] pfn = - 1"
| "early_pfn_nid (r # m) pfn = (if rg_start r \<le> pfn \<and> pfn < rg_end r then int (rg_nid r) else early_pfn_nid m pfn)"

definition k__early_pfn_to_nid :: "boot_state \<Rightarrow> ulong \<Rightarrow> int" where
  "k__early_pfn_to_nid b pfn = early_pfn_nid (b_map b) pfn"

definition early_pfn_to_nid :: "boot_state \<Rightarrow> ulong \<Rightarrow> int" where
  "early_pfn_to_nid b pfn = (let nid = k__early_pfn_to_nid b pfn in if nid \<ge> 0 then nid else 0)"

definition early_pfn_in_nid :: "boot_state \<Rightarrow> ulong \<Rightarrow> int \<Rightarrow> bool" where
  "early_pfn_in_nid b pfn node =
     (let nid = k__early_pfn_to_nid b pfn in if nid \<ge> 0 \<and> nid \<noteq> node then False else True)"

section \<open>Passing the ranges on\<close>

text \<open>
  The routines that hand each range to code outside this repository. Where that code has effects
  only, the routine is the list of its calls in order; where it returns something, it is a
  parameter. Physical addresses are shifted at the width of the source.
\<close>

definition free_bootmem_with_active_regions ::
  "boot_env \<Rightarrow> boot_state \<Rightarrow> nat \<Rightarrow> ulong \<Rightarrow> (nat \<times> ulong \<times> ulong) list" where
  "free_bootmem_with_active_regions B b nid max_low_pfn =
     concat (map (\<lambda>i. let r = b_map b ! i; end_pfn = rg_end r in
         if rg_start r \<ge> max_low_pfn then []
         else let end_pfn = (if end_pfn > max_low_pfn then max_low_pfn else end_pfn);
                  size_pages = end_pfn - rg_start r
              in [(rg_nid r, push_bit 12 (rg_start r), push_bit 12 size_pages)])
       (active_indices B (b_map b) nid))"

fun find_memory_core_from ::
  "boot_env \<Rightarrow> node_active_region list \<Rightarrow> 64 word \<Rightarrow> 64 word \<Rightarrow> 64 word \<Rightarrow> 64 word \<Rightarrow> 64 word" where
  "find_memory_core_from B [] sz algn goal limit = MEMBLOCK_ERROR B"
| "find_memory_core_from B (r # rs) sz algn goal limit =
     (let ei_last = push_bit 12 (ucast (rg_end r));
          ei_start = push_bit 12 (ucast (rg_start r));
          final_start = max ei_start goal;
          final_end = min ei_last limit
      in if final_start \<ge> final_end then find_memory_core_from B rs sz algn goal limit
         else let addr = memblock_find_in_range B final_start final_end sz algn
              in if addr = MEMBLOCK_ERROR B
                 then find_memory_core_from B rs sz algn goal limit
                 else addr)"

definition find_memory_core_early ::
  "boot_env \<Rightarrow> boot_state \<Rightarrow> nat \<Rightarrow> 64 word \<Rightarrow> 64 word \<Rightarrow> 64 word \<Rightarrow> 64 word \<Rightarrow> 64 word" where
  "find_memory_core_early B b nid sz algn goal limit =
     find_memory_core_from B (active_regions B (b_map b) nid) sz algn goal limit"

definition add_from_early_node_map ::
  "('range \<Rightarrow> int \<Rightarrow> int \<Rightarrow> 64 word \<Rightarrow> 64 word \<Rightarrow> int \<times> 'range) \<Rightarrow> boot_env \<Rightarrow> boot_state \<Rightarrow>
     'range \<Rightarrow> int \<Rightarrow> int \<Rightarrow> nat \<Rightarrow> int \<times> 'range" where
  "add_from_early_node_map add_range B b rng az nr_range nid =
     fold (\<lambda>r (nr, rng). add_range rng az nr (ucast (rg_start r)) (ucast (rg_end r)))
       (active_regions B (b_map b) nid) (nr_range, rng)"

fun work_with_regions :: "(ulong \<Rightarrow> ulong \<Rightarrow> 'd \<Rightarrow> int \<times> 'd) \<Rightarrow> node_active_region list \<Rightarrow> 'd \<Rightarrow> 'd" where
  "work_with_regions work_fn [] d = d"
| "work_with_regions work_fn (r # rs) d =
     (let (ret, d) = work_fn (rg_start r) (rg_end r) d
      in if ret \<noteq> 0 then d else work_with_regions work_fn rs d)"

definition work_with_active_regions ::
  "boot_env \<Rightarrow> boot_state \<Rightarrow> nat \<Rightarrow> (ulong \<Rightarrow> ulong \<Rightarrow> 'd \<Rightarrow> int \<times> 'd) \<Rightarrow> 'd \<Rightarrow> 'd" where
  "work_with_active_regions B b nid work_fn d = work_with_regions work_fn (active_regions B (b_map b) nid) d"

definition sparse_memory_present_with_active_regions ::
  "boot_env \<Rightarrow> boot_state \<Rightarrow> nat \<Rightarrow> (nat \<times> ulong \<times> ulong) list" where
  "sparse_memory_present_with_active_regions B b nid =
     map (\<lambda>r. (rg_nid r, rg_start r, rg_end r)) (active_regions B (b_map b) nid)"

section \<open>Sizes and holes\<close>

text \<open>\<open>get_pfn_range_for_nid\<close> returns the start and the end it stores through its pointers.\<close>

definition get_pfn_range_for_nid :: "boot_env \<Rightarrow> boot_state \<Rightarrow> nat \<Rightarrow> ulong \<times> ulong" where
  "get_pfn_range_for_nid B b nid =
     (let (s, e) = fold (\<lambda>i (s, e). (min s (rg_start (b_map b ! i)), max e (rg_end (b_map b ! i))))
            (active_indices B (b_map b) nid) (- 1, 0)
      in if s = - 1 then (0, e) else (s, e))"

text \<open>The zone indices from \<open>k - 1\<close> down; reaching -1 is a \<open>VM_BUG_ON\<close>.\<close>

fun usable_zone_below :: "boot_state \<Rightarrow> nat \<Rightarrow> nat option" where
  "usable_zone_below b 0 = None"
| "usable_zone_below b (Suc zone_index) =
     (if zone_index = ZONE_MOVABLE then usable_zone_below b zone_index
      else if b_highest b zone_index > b_lowest b zone_index then Some zone_index
      else usable_zone_below b zone_index)"

definition find_usable_zone_for_movable :: "boot_state \<Rightarrow> boot_state option" where
  "find_usable_zone_for_movable b =
     map_option (\<lambda>i. b\<lparr>b_movable_zone := i\<rparr>) (usable_zone_below b MAX_NR_ZONES)"

definition adjust_zone_range_for_zone_movable ::
  "boot_state \<Rightarrow> nat \<Rightarrow> nat \<Rightarrow> ulong \<Rightarrow> ulong \<Rightarrow> ulong \<Rightarrow> ulong \<Rightarrow> ulong \<times> ulong" where
  "adjust_zone_range_for_zone_movable b nid zone_type node_start_pfn node_end_pfn zone_start_pfn zone_end_pfn =
     (if b_zone_movable_pfn b nid \<noteq> 0
      then if zone_type = ZONE_MOVABLE
           then (b_zone_movable_pfn b nid, min node_end_pfn (b_highest b (b_movable_zone b)))
           else if zone_start_pfn < b_zone_movable_pfn b nid \<and> zone_end_pfn > b_zone_movable_pfn b nid
           then (zone_start_pfn, b_zone_movable_pfn b nid)
           else if zone_start_pfn \<ge> b_zone_movable_pfn b nid then (zone_end_pfn, zone_end_pfn)
           else (zone_start_pfn, zone_end_pfn)
      else (zone_start_pfn, zone_end_pfn))"

definition zone_spanned_pages_in_node :: "boot_env \<Rightarrow> boot_state \<Rightarrow> nat \<Rightarrow> nat \<Rightarrow> ulong" where
  "zone_spanned_pages_in_node B b nid zone_type =
     (let (node_start_pfn, node_end_pfn) = get_pfn_range_for_nid B b nid;
          (zone_start_pfn, zone_end_pfn) = adjust_zone_range_for_zone_movable b nid zone_type
            node_start_pfn node_end_pfn (b_lowest b zone_type) (b_highest b zone_type)
      in if zone_end_pfn < node_start_pfn \<or> zone_start_pfn > node_end_pfn then 0
         else min zone_end_pfn node_end_pfn - max zone_start_pfn node_start_pfn)"

text \<open>The loop over the holes, from region index \<open>i\<close> on; the result is the state after the loop.\<close>

fun absent_loop ::
  "node_active_region list \<Rightarrow> ulong \<Rightarrow> ulong \<Rightarrow> nat list \<Rightarrow> ulong \<Rightarrow> ulong \<Rightarrow> (ulong \<times> ulong) option" where
  "absent_loop m range_start_pfn range_end_pfn [] prev_end_pfn hole_pages = Some (prev_end_pfn, hole_pages)"
| "absent_loop m range_start_pfn range_end_pfn (i # is) prev_end_pfn hole_pages =
     (if prev_end_pfn \<ge> range_end_pfn then Some (prev_end_pfn, hole_pages)
      else let start_pfn = min (rg_start (m ! i)) range_end_pfn;
               prev_end_pfn = max prev_end_pfn range_start_pfn
           in if start_pfn > range_start_pfn
              then if prev_end_pfn > start_pfn then None
                   else absent_loop m range_start_pfn range_end_pfn is (rg_end (m ! i))
                     (hole_pages + (start_pfn - prev_end_pfn))
              else absent_loop m range_start_pfn range_end_pfn is (rg_end (m ! i)) hole_pages)"

definition k__absent_pages_in_range ::
  "boot_env \<Rightarrow> boot_state \<Rightarrow> nat \<Rightarrow> ulong \<Rightarrow> ulong \<Rightarrow> ulong option" where
  "k__absent_pages_in_range B b nid range_start_pfn range_end_pfn =
     (case first_active_region_index_in_nid B (b_map b) nid of
        None \<Rightarrow> Some 0
      | Some i \<Rightarrow>
          let prev_end_pfn = min (rg_start (b_map b ! i)) range_end_pfn;
              hole_pages = (if rg_start (b_map b ! i) > range_start_pfn
                then prev_end_pfn - range_start_pfn else 0)
          in do {
            (prev_end_pfn, hole_pages) \<leftarrow> absent_loop (b_map b) range_start_pfn range_end_pfn
              (region_indices B (b_map b) nid (Some i)) prev_end_pfn hole_pages;
            Some (if range_end_pfn > prev_end_pfn
              then hole_pages + (range_end_pfn - max range_start_pfn prev_end_pfn) else hole_pages)
          })"

definition absent_pages_in_range :: "boot_env \<Rightarrow> boot_state \<Rightarrow> ulong \<Rightarrow> ulong \<Rightarrow> ulong option" where
  "absent_pages_in_range B b start_pfn end_pfn = k__absent_pages_in_range B b (MAX_NUMNODES B) start_pfn end_pfn"

definition zone_absent_pages_in_node :: "boot_env \<Rightarrow> boot_state \<Rightarrow> nat \<Rightarrow> nat \<Rightarrow> ulong option" where
  "zone_absent_pages_in_node B b nid zone_type =
     (let (node_start_pfn, node_end_pfn) = get_pfn_range_for_nid B b nid;
          (zone_start_pfn, zone_end_pfn) = adjust_zone_range_for_zone_movable b nid zone_type
            node_start_pfn node_end_pfn
            (max (b_lowest b zone_type) node_start_pfn) (min (b_highest b zone_type) node_end_pfn)
      in k__absent_pages_in_range B b nid zone_start_pfn zone_end_pfn)"

text \<open>\<open>node_spanned_pages\<close> and \<open>node_present_pages\<close> of the node's \<open>pgdat\<close>.\<close>

definition calculate_node_totalpages :: "boot_env \<Rightarrow> boot_state \<Rightarrow> nat \<Rightarrow> (ulong \<times> ulong) option" where
  "calculate_node_totalpages B b nid =
     (let totalpages = fold (\<lambda>i n. n + zone_spanned_pages_in_node B b nid i) [0..<MAX_NR_ZONES] 0
      in do {
        realtotalpages \<leftarrow> fold (\<lambda>i n. do {
            n \<leftarrow> n;
            absent \<leftarrow> zone_absent_pages_in_node B b nid i;
            Some (n - absent)
          }) [0..<MAX_NR_ZONES] (Some totalpages);
        Some (totalpages, realtotalpages)
      })"

section \<open>Registering ranges\<close>

text \<open>
  The loop of \<open>add_active_range\<close>: the map after the merge it performs, the unchanged map when
  an existing range covers the new one, or \<open>None\<close> when no range of the node is suitable.
\<close>

fun add_merge :: "nat \<Rightarrow> ulong \<Rightarrow> ulong \<Rightarrow> node_active_region list \<Rightarrow> node_active_region list option" where
  "add_merge nid start_pfn end_pfn [] = None"
| "add_merge nid start_pfn end_pfn (r # m) =
     (if rg_nid r \<noteq> nid then map_option (Cons r) (add_merge nid start_pfn end_pfn m)
      else if start_pfn \<ge> rg_start r \<and> end_pfn \<le> rg_end r then Some (r # m)
      else if start_pfn \<le> rg_end r \<and> end_pfn > rg_end r then Some (r\<lparr>rg_end := end_pfn\<rparr> # m)
      else if start_pfn < rg_start r \<and> end_pfn \<ge> rg_start r then Some (r\<lparr>rg_start := start_pfn\<rparr> # m)
      else map_option (Cons r) (add_merge nid start_pfn end_pfn m))"

definition add_active_range :: "boot_env \<Rightarrow> nat \<Rightarrow> ulong \<Rightarrow> ulong \<Rightarrow> boot_state \<Rightarrow> boot_state" where
  "add_active_range B nid start_pfn end_pfn b =
     (case add_merge nid start_pfn end_pfn (b_map b) of
        Some m \<Rightarrow> b\<lparr>b_map := m\<rparr>
      | None \<Rightarrow>
          if length (b_map b) \<ge> MAX_ACTIVE_REGIONS B then b
          else b\<lparr>b_map := b_map b @ [\<lparr>rg_start = start_pfn, rg_end = end_pfn, rg_nid = nid\<rparr>]\<rparr>)"

definition upd_region :: "nat \<Rightarrow> (node_active_region \<Rightarrow> node_active_region) \<Rightarrow> boot_state \<Rightarrow> boot_state" where
  "upd_region i f b = b\<lparr>b_map := (b_map b)[i := f (b_map b ! i)]\<rparr>"

text \<open>One round of the shrinking loop of \<open>remove_active_range\<close>; it may register a new range.\<close>

definition shrink_region ::
  "boot_env \<Rightarrow> nat \<Rightarrow> ulong \<Rightarrow> ulong \<Rightarrow> nat \<Rightarrow> bool \<times> boot_state \<Rightarrow> bool \<times> boot_state" where
  "shrink_region B nid start_pfn end_pfn i = (\<lambda>(removed, b).
     (let r = b_map b ! i in
      if rg_start r \<ge> start_pfn \<and> rg_end r \<le> end_pfn
      then (True, upd_region i (\<lambda>r. r\<lparr>rg_start := 0, rg_end := 0\<rparr>) b)
      else if rg_start r < start_pfn \<and> rg_end r > start_pfn
      then let temp_end_pfn = rg_end r;
               b = upd_region i (\<lambda>r. r\<lparr>rg_end := start_pfn\<rparr>) b
           in (removed, if temp_end_pfn > end_pfn then add_active_range B nid end_pfn temp_end_pfn b else b)
      else if rg_start r \<ge> start_pfn \<and> rg_end r > end_pfn \<and> rg_start r < end_pfn
      then (removed, upd_region i (\<lambda>r. r\<lparr>rg_start := end_pfn\<rparr>) b)
      else (removed, b)))"

text \<open>
  The loop over the map, which may grow on the way, so that no measure is given up front: fuel
  bounds the rounds.
\<close>

fun shrink_loop ::
  "nat \<Rightarrow> boot_env \<Rightarrow> nat \<Rightarrow> ulong \<Rightarrow> ulong \<Rightarrow> nat option \<Rightarrow> bool \<times> boot_state \<Rightarrow> (bool \<times> boot_state) option" where
  "shrink_loop fuel B nid start_pfn end_pfn None st = Some st"
| "shrink_loop 0 B nid start_pfn end_pfn (Some i) st = None"
| "shrink_loop (Suc fuel) B nid start_pfn end_pfn (Some i) st =
     (let st = shrink_region B nid start_pfn end_pfn i st
      in shrink_loop fuel B nid start_pfn end_pfn
           (next_active_region_index_in_nid B (b_map (snd st)) i nid) st)"

text \<open>Removing the blank ranges, from index \<open>i\<close> down to 1.\<close>

fun remove_blank :: "nat \<Rightarrow> nat \<Rightarrow> node_active_region list \<Rightarrow> node_active_region list" where
  "remove_blank nid 0 m = m"
| "remove_blank nid (Suc i) m =
     remove_blank nid i
       (if rg_nid (m ! Suc i) \<noteq> nid \<or> rg_end (m ! Suc i) \<noteq> 0 then m
        else take (Suc i) m @ drop (Suc (Suc i)) m)"

definition remove_active_range :: "boot_env \<Rightarrow> nat \<Rightarrow> ulong \<Rightarrow> ulong \<Rightarrow> boot_state \<Rightarrow> boot_state option" where
  "remove_active_range B nid start_pfn end_pfn b = do {
     (removed, b) \<leftarrow> shrink_loop (Suc (MAX_ACTIVE_REGIONS B)) B nid start_pfn end_pfn
       (first_active_region_index_in_nid B (b_map b) nid) (False, b);
     Some (if \<not> removed then b
       else b\<lparr>b_map := remove_blank nid (length (b_map b) - 1) (b_map b)\<rparr>)
   }"

definition remove_all_active_ranges :: "boot_state \<Rightarrow> boot_state" where
  "remove_all_active_ranges b = b\<lparr>b_map := []\<rparr>"

definition cmp_node_active_region :: "node_active_region \<Rightarrow> node_active_region \<Rightarrow> int" where
  "cmp_node_active_region a b =
     (if rg_start a > rg_start b then 1 else if rg_start a < rg_start b then - 1 else 0)"

definition sort_node_map :: "boot_env \<Rightarrow> boot_state \<Rightarrow> boot_state" where
  "sort_node_map B b = b\<lparr>b_map := lib_sort B cmp_node_active_region (b_map b)\<rparr>"

definition find_min_pfn_for_node :: "boot_env \<Rightarrow> boot_state \<Rightarrow> nat \<Rightarrow> ulong" where
  "find_min_pfn_for_node B b nid =
     (let min_pfn = fold (\<lambda>i n. min n (rg_start (b_map b ! i))) (active_indices B (b_map b) nid) (- 1)
      in if min_pfn = - 1 then 0 else min_pfn)"

definition find_min_pfn_with_active_regions :: "boot_env \<Rightarrow> boot_state \<Rightarrow> ulong" where
  "find_min_pfn_with_active_regions B b = find_min_pfn_for_node B b (MAX_NUMNODES B)"

definition early_calculate_totalpages :: "boot_state \<Rightarrow> ulong \<times> boot_state" where
  "early_calculate_totalpages b =
     fold (\<lambda>r (totalpages, b). let pages = rg_end r - rg_start r
         in (totalpages + pages,
             if pages \<noteq> 0 then b\<lparr>b_high_memory := (b_high_memory b)(rg_nid r := True)\<rparr> else b))
       (b_map b) (0, b)"

section \<open>The movable zone\<close>

definition round_up :: "ulong \<Rightarrow> ulong \<Rightarrow> ulong" where
  "round_up x y = ((x + (y - 1)) div y) * y"

definition set_movable_pfn :: "nat \<Rightarrow> ulong \<Rightarrow> boot_state \<Rightarrow> boot_state" where
  "set_movable_pfn nid pfn b = b\<lparr>b_zone_movable_pfn := (b_zone_movable_pfn b)(nid := pfn)\<rparr>"

definition use_kernelcore :: "ulong \<Rightarrow> boot_state \<Rightarrow> boot_state" where
  "use_kernelcore n b = b\<lparr>b_required_kernelcore := b_required_kernelcore b - min n (b_required_kernelcore b)\<rparr>"

text \<open>
  One range of a node: whether the walk over the node stops, what the node still has to give to
  the kernel, and the state.
\<close>

definition movable_range :: "ulong \<Rightarrow> nat \<Rightarrow> node_active_region \<Rightarrow> ulong \<Rightarrow> boot_state \<Rightarrow> bool \<times> ulong \<times> boot_state" where
  "movable_range usable_startpfn nid r kernelcore_remaining b =
     (let start_pfn = max (rg_start r) (b_zone_movable_pfn b nid);
          end_pfn = rg_end r
      in if start_pfn \<ge> end_pfn then (False, kernelcore_remaining, b)
         else
           let low = start_pfn < usable_startpfn;
               kernel_pages = min end_pfn usable_startpfn - start_pfn;
               b = (if low then use_kernelcore kernel_pages b else b);
               kernelcore_remaining = (if low then kernelcore_remaining - min kernel_pages kernelcore_remaining
                 else kernelcore_remaining)
           in if low \<and> end_pfn \<le> usable_startpfn
              then (False, kernelcore_remaining, set_movable_pfn nid end_pfn b)
              else
                let start_pfn = (if low then usable_startpfn else start_pfn);
                    size_pages = end_pfn - start_pfn;
                    size_pages = (if size_pages > kernelcore_remaining then kernelcore_remaining else size_pages);
                    b = set_movable_pfn nid (start_pfn + size_pages) b;
                    b = use_kernelcore size_pages b;
                    kernelcore_remaining = kernelcore_remaining - size_pages
                in (kernelcore_remaining = 0, kernelcore_remaining, b))"

fun movable_ranges :: "ulong \<Rightarrow> nat \<Rightarrow> node_active_region list \<Rightarrow> ulong \<Rightarrow> boot_state \<Rightarrow> boot_state" where
  "movable_ranges usable_startpfn nid [] kernelcore_remaining b = b"
| "movable_ranges usable_startpfn nid (r # rs) kernelcore_remaining b =
     (case movable_range usable_startpfn nid r kernelcore_remaining b of
        (stop, kernelcore_remaining, b) \<Rightarrow>
          if stop then b else movable_ranges usable_startpfn nid rs kernelcore_remaining b)"

definition movable_node ::
  "boot_env \<Rightarrow> ulong \<Rightarrow> nat \<Rightarrow> nat \<Rightarrow> ulong \<times> boot_state \<Rightarrow> ulong \<times> boot_state" where
  "movable_node B usable_startpfn usable_nodes nid = (\<lambda>(kernelcore_node, b).
     (let kernelcore_node = (if b_required_kernelcore b < kernelcore_node
            then b_required_kernelcore b div of_nat usable_nodes else kernelcore_node)
      in (kernelcore_node,
          movable_ranges usable_startpfn nid (active_regions B (b_map b) nid) kernelcore_node b)))"

definition high_memory_nodes :: "boot_env \<Rightarrow> boot_state \<Rightarrow> nat list" where
  "high_memory_nodes B b = filter (b_high_memory b) [0..<MAX_NUMNODES B]"

text \<open>The passes from label \<open>restart\<close> on. With no usable node the division traps.\<close>

fun movable_passes :: "boot_env \<Rightarrow> ulong \<Rightarrow> nat \<Rightarrow> boot_state \<Rightarrow> boot_state option" where
  "movable_passes B usable_startpfn 0 b = None"
| "movable_passes B usable_startpfn (Suc n) b =
     (let kernelcore_node = b_required_kernelcore b div of_nat (Suc n);
          b = snd (fold (movable_node B usable_startpfn (Suc n)) (high_memory_nodes B b) (kernelcore_node, b))
      in if n \<noteq> 0 \<and> b_required_kernelcore b > of_nat n then movable_passes B usable_startpfn n b
         else Some b)"

definition find_zone_movable_pfns_for_nodes :: "boot_env \<Rightarrow> boot_state \<Rightarrow> boot_state option" where
  "find_zone_movable_pfns_for_nodes B b =
     (let saved_node_state = b_high_memory b;
          (totalpages, b) = early_calculate_totalpages b;
          usable_nodes = length (high_memory_nodes B b);
          b = (if b_required_movablecore b \<noteq> 0
               then let movablecore = round_up (b_required_movablecore b) MAX_ORDER_NR_PAGES;
                        corepages = totalpages - movablecore
                    in b\<lparr>b_required_movablecore := movablecore,
                         b_required_kernelcore := max (b_required_kernelcore b) corepages\<rparr>
               else b)
      in map_option (\<lambda>b. b\<lparr>b_high_memory := saved_node_state\<rparr>)
        (if b_required_kernelcore b = 0 then Some b
         else do {
           b \<leftarrow> find_usable_zone_for_movable b;
           b \<leftarrow> movable_passes B (b_lowest b (b_movable_zone b)) usable_nodes b;
           Some (b\<lparr>b_zone_movable_pfn := (\<lambda>nid. if nid < MAX_NUMNODES B
             then round_up (b_zone_movable_pfn b nid) MAX_ORDER_NR_PAGES else b_zone_movable_pfn b nid)\<rparr>)
         }))"

text \<open>The first part of \<open>free_area_init_nodes\<close>: the sorted map and the bounds of the zones.\<close>

fun zone_bounds :: "(nat \<Rightarrow> ulong) \<Rightarrow> nat list \<Rightarrow> boot_state \<Rightarrow> boot_state" where
  "zone_bounds max_zone_pfn [] b = b"
| "zone_bounds max_zone_pfn (i # is) b =
     (if i = ZONE_MOVABLE then zone_bounds max_zone_pfn is b
      else let b = b\<lparr>b_lowest := (b_lowest b)(i := b_highest b (i - 1))\<rparr>
           in zone_bounds max_zone_pfn is
             (b\<lparr>b_highest := (b_highest b)(i := max (max_zone_pfn i) (b_lowest b i))\<rparr>))"

definition init_zone_bounds :: "boot_env \<Rightarrow> (nat \<Rightarrow> ulong) \<Rightarrow> boot_state \<Rightarrow> boot_state option" where
  "init_zone_bounds B max_zone_pfn b =
     (let b = sort_node_map B b;
          b = b\<lparr>b_lowest := (\<lambda>_. 0), b_highest := (\<lambda>_. 0)\<rparr>;
          b = b\<lparr>b_lowest := (b_lowest b)(0 := find_min_pfn_with_active_regions B b),
                b_highest := (b_highest b)(0 := max_zone_pfn 0)\<rparr>;
          b = zone_bounds max_zone_pfn [1..<MAX_NR_ZONES] b;
          b = b\<lparr>b_lowest := (b_lowest b)(ZONE_MOVABLE := 0), b_highest := (b_highest b)(ZONE_MOVABLE := 0)\<rparr>;
          b = b\<lparr>b_zone_movable_pfn := (\<lambda>_. 0)\<rparr>
      in find_zone_movable_pfns_for_nodes B b)"

text \<open>\<open>kernelcore=\<close> and \<open>movablecore=\<close> on the command line; \<open>None\<close> is a missing value (\<open>-EINVAL\<close>).\<close>

definition cmdline_parse_core :: "boot_env \<Rightarrow> string option \<Rightarrow> ulong option" where
  "cmdline_parse_core B p = (case p of
      None \<Rightarrow> None
    | Some p \<Rightarrow> let coremem = memparse B p in Some (ucast (drop_bit 12 coremem)))"

definition cmdline_parse_kernelcore :: "boot_env \<Rightarrow> string option \<Rightarrow> boot_state \<Rightarrow> (int \<times> boot_state)" where
  "cmdline_parse_kernelcore B p b = (case cmdline_parse_core B p of
      None \<Rightarrow> (- 22, b)
    | Some core \<Rightarrow> (0, b\<lparr>b_required_kernelcore := core\<rparr>))"

definition cmdline_parse_movablecore :: "boot_env \<Rightarrow> string option \<Rightarrow> boot_state \<Rightarrow> (int \<times> boot_state)" where
  "cmdline_parse_movablecore B p b = (case cmdline_parse_core B p of
      None \<Rightarrow> (- 22, b)
    | Some core \<Rightarrow> (0, b\<lparr>b_required_movablecore := core\<rparr>))"

section \<open>The frames of the map\<close>

lemma region_indices_filter:
  "region_indices B m nid (active_region_index_from B m nid i) =
     filter (\<lambda>j. region_in_nid B nid (m ! j)) [i..<length m]"
proof (induction "length m - i" arbitrary: i)
  case 0
  then show ?case by (subst active_region_index_from.simps) simp
next
  case (Suc k)
  then have i: "i < length m" and k: "k = length m - (i + 1)" by auto
  from Suc.hyps(1) [OF k] i show ?case
    by (subst active_region_index_from.simps)
      (simp add: next_active_region_index_in_nid_def upt_conv_Cons)
qed

lemma active_indices_filter: "active_indices B m nid = filter (\<lambda>j. region_in_nid B nid (m ! j)) [0..<length m]"
  by (simp add: active_indices_def first_active_region_index_in_nid_def region_indices_filter)

lemma active_regions_filter: "active_regions B m nid = filter (region_in_nid B nid) m"
proof -
  have "map (nth m) (filter (region_in_nid B nid \<circ> nth m) [0..<length m]) = filter (region_in_nid B nid) m"
    by (metis filter_map map_nth)
  then show ?thesis
    by (simp add: active_regions_def active_indices_filter comp_def)
qed

definition frames :: "node_active_region \<Rightarrow> ulong set" where
  "frames r = {rg_start r ..< rg_end r}"

definition covered :: "node_active_region list \<Rightarrow> ulong set" where
  "covered rs = (\<Union>r \<in> set rs. frames r)"

lemma covered_simps [simp]:
  "covered [] = {}" "covered (r # rs) = frames r \<union> covered rs"
  "covered (rs @ ts) = covered rs \<union> covered ts"
  by (auto simp: covered_def)

lemma card_frames: "card {a ..< b :: ulong} = unat b - unat a"
proof -
  have "unat ` {a ..< b} = {unat a ..< unat b}"
  proof
    show "{unat a ..< unat b} \<subseteq> unat ` {a ..< b}"
    proof
      fix n assume n: "n \<in> {unat a ..< unat b}"
      then have "n < 2 ^ 32" using unsigned_less [of b, where 'a = nat] by auto
      then have "unat (word_of_nat n :: ulong) = n" by (simp add: unat_of_nat take_bit_nat_eq_self_iff)
      with n show "n \<in> unat ` {a ..< b}"
        by (intro image_eqI [of _ _ "word_of_nat n"]) (auto simp: word_le_nat_alt word_less_nat_alt)
    qed
  qed (auto simp: word_le_nat_alt word_less_nat_alt)
  then show ?thesis
    using card_image [of unat "{a ..< b}"] by (simp add: inj_on_def word_unat_eq_iff)
qed

text \<open>Ranges in ascending order that do not overlap.\<close>

definition regions_ok :: "node_active_region list \<Rightarrow> bool" where
  "regions_ok rs \<longleftrightarrow> (\<forall>r \<in> set rs. rg_start r \<le> rg_end r) \<and> sorted_wrt (\<lambda>r t. rg_end r \<le> rg_start t) rs"

lemma regions_ok_Cons [simp]:
  "regions_ok (r # rs) \<longleftrightarrow> rg_start r \<le> rg_end r \<and> (\<forall>t \<in> set rs. rg_end r \<le> rg_start t) \<and> regions_ok rs"
  by (auto simp: regions_ok_def)

lemma regions_ok_filter: "regions_ok rs \<Longrightarrow> regions_ok (filter P rs)"
  by (auto simp: regions_ok_def sorted_wrt_filter)

lemma covered_above: "\<forall>t \<in> set rs. x \<le> rg_start t \<Longrightarrow> p \<in> covered rs \<Longrightarrow> x \<le> p"
  by (auto simp: covered_def frames_def)

definition holes :: "ulong \<Rightarrow> ulong \<Rightarrow> node_active_region list \<Rightarrow> ulong set" where
  "holes s e rs = {s ..< e} - covered rs"

lemma holes_empty [simp]: "e \<le> s \<Longrightarrow> holes s e rs = {}"
  by (simp add: holes_def)

lemma card_holes_le: "card (holes s e rs) \<le> unat e - unat s"
  unfolding card_frames [symmetric] by (rule card_mono) (auto simp: holes_def)

lemma holes_iff: "p \<in> holes s e rs \<longleftrightarrow> unat s \<le> unat p \<and> unat p < unat e \<and> p \<notin> covered rs"
  by (simp add: holes_def word_le_nat_alt word_less_nat_alt)

lemma holes_gap:
  assumes "regions_ok (r # rs)" and "P \<le> rg_start r" and "P < e" and "s < min (rg_start r) e"
  shows "holes (max P s) e (r # rs) =
      {max P s ..< min (rg_start r) e} \<union> holes (max s (rg_end r)) e rs" (is ?eq)
    and "{max P s ..< min (rg_start r) e} \<inter> holes (max s (rg_end r)) e rs = {}" (is ?dis)
    and "max P s \<le> min (rg_start r) e"
proof -
  have above: "unat (rg_end r) \<le> unat p" if "p \<in> covered rs" for p
    using covered_above [of rs "rg_end r"] that assms(1) by (simp add: word_le_nat_alt)
  have "p \<in> holes (max P s) e (r # rs) \<longleftrightarrow>
      p \<in> {max P s ..< min (rg_start r) e} \<union> holes (max s (rg_end r)) e rs" for p
    using assms above [of p]
    by (cases "p \<in> covered rs")
      (auto simp: holes_iff frames_def max_def min_def word_le_nat_alt word_less_nat_alt)
  then show ?eq by blast
  show ?dis
    using assms by (auto simp: holes_iff max_def min_def word_le_nat_alt word_less_nat_alt)
  show "max P s \<le> min (rg_start r) e"
    using assms by (auto simp: max_def min_def word_le_nat_alt word_less_nat_alt)
qed

lemma holes_no_gap:
  assumes "regions_ok (r # rs)" and "P \<le> rg_start r" and "\<not> s < min (rg_start r) e"
  shows "holes (max P s) e (r # rs) = holes (max s (rg_end r)) e rs"
proof -
  have above: "unat (rg_end r) \<le> unat p" if "p \<in> covered rs" for p
    using covered_above [of rs "rg_end r"] that assms(1) by (simp add: word_le_nat_alt)
  have "p \<in> holes (max P s) e (r # rs) \<longleftrightarrow> p \<in> holes (max s (rg_end r)) e rs" for p
    using assms above [of p]
    by (cases "p \<in> covered rs")
      (auto simp: holes_iff frames_def max_def min_def word_le_nat_alt word_less_nat_alt split: if_splits)
  then show ?thesis by blast
qed

lemma unat_gap: "a \<le> b \<Longrightarrow> unat (b - a) = unat b - unat (a :: ulong)"
  by (simp add: unat_sub word_le_nat_alt)

lemma unat_plus_small: "unat (a :: ulong) + unat b < 2 ^ 32 \<Longrightarrow> unat (a + b) = unat a + unat b"
  by (simp add: unat_word_ariths)

lemma unat_less_top: "unat (a :: ulong) < 2 ^ 32"
  using unsigned_less [of a, where 'a = nat] by simp

lemma absent_loop_holes:
  assumes "regions_ok (map (nth m) is)" and "\<forall>i \<in> set is. P \<le> rg_start (m ! i)"
    and "unat H \<le> unat P" and "s \<le> e"
  shows "\<exists>P' H'. absent_loop m s e is P H = Some (P', H') \<and>
    unat (if e > P' then H' + (e - max s P') else H') = unat H + card (holes (max P s) e (map (nth m) is))"
  using assms
proof (induction "is" arbitrary: P H)
  case Nil
  show ?case
  proof (cases "P < e")
    case True
    with Nil(4) have le: "max P s \<le> e" by simp
    have "unat H + (unat e - unat (max P s)) < 2 ^ 32"
      using Nil(3) unat_less_top [of e] le by (auto simp: max_def word_le_nat_alt split: if_splits)
    moreover have "holes (max P s) e [] = {max P s ..< e}" by (simp add: holes_def)
    ultimately show ?thesis
      using True le by (simp add: card_frames unat_gap unat_plus_small max.commute)
  qed (simp add: max_def)
next
  case (Cons i "is")
  let ?r = "m ! i" and ?rs = "map (nth m) is"
  have rs: "regions_ok (?r # ?rs)" "P \<le> rg_start ?r" "regions_ok ?rs"
    "\<forall>j \<in> set is. rg_end ?r \<le> rg_start (m ! j)"
    using Cons.prems by auto
  show ?case
  proof (cases "P < e")
    case P: True
    let ?st = "min (rg_start ?r) e"
    note IH = Cons.IH [OF rs(3,4) _ Cons.prems(4)]
    show ?thesis
    proof (cases "s < ?st")
      case True
      note gap = holes_gap [OF rs(1,2) P True]
      let ?H = "H + (?st - max P s)"
      have "unat H + (unat ?st - unat (max P s)) \<le> unat (rg_end ?r)"
        using Cons.prems(3) rs(1) gap(3) by (auto simp: max_def min_def word_le_nat_alt split: if_splits)
      then have H: "unat ?H = unat H + (unat ?st - unat (max P s))" "unat ?H \<le> unat (rg_end ?r)"
        using unat_less_top [of "rg_end ?r"] gap(3) by (simp_all add: unat_plus_small unat_gap)
      have "card (holes (max P s) e (?r # ?rs)) = unat ?st - unat (max P s) + card (holes (max (rg_end ?r) s) e ?rs)"
        unfolding gap(1) by (subst card_Un_disjoint) (use gap(2) in \<open>auto simp: card_frames max.commute\<close>)
      moreover have "absent_loop m s e (i # is) P H = absent_loop m s e is (rg_end ?r) ?H"
        using True P [folded not_le] gap(3) [folded not_less] by (simp add: Let_def)
      ultimately show ?thesis
        using IH [OF H(2)] unfolding H(1) by (simp add: max.commute add.assoc)
    next
      case False
      have "unat H \<le> unat (rg_end ?r)"
        using Cons.prems(3) rs(1,2) by (simp add: word_le_nat_alt)
      moreover have "absent_loop m s e (i # is) P H = absent_loop m s e is (rg_end ?r) H"
        using False P [folded not_le] by (simp add: Let_def del: min_less_iff_conj)
      ultimately show ?thesis
        using IH [of H] holes_no_gap [OF rs(1,2) False] by (simp add: max.commute)
    qed
  qed (auto simp: max_def)
qed

text \<open>The regions of a node, as the holes of the node see them.\<close>

definition node_frames :: "boot_env \<Rightarrow> boot_state \<Rightarrow> nat \<Rightarrow> ulong set" where
  "node_frames B b nid = covered (active_regions B (b_map b) nid)"

lemma indices_first:
  "first_active_region_index_in_nid B m nid = Some i \<Longrightarrow> region_indices B m nid (Some i) = active_indices B m nid"
  by (simp add: active_indices_def)

lemma indices_none:
  "first_active_region_index_in_nid B m nid = None \<Longrightarrow> active_indices B m nid = []"
  by (simp add: active_indices_def)

lemma diff_split:
  fixes s :: "'a :: linorder"
  assumes "s \<le> P" and "P \<le> e" and "\<And>p. p \<in> F \<Longrightarrow> P \<le> p"
  shows "{s ..< e} - F = {s ..< P} \<union> ({P ..< e} - F)"
  using assms by fastforce

lemma absent_pages_count:
  assumes "regions_ok (active_regions B (b_map b) nid)" and "active_regions B (b_map b) nid \<noteq> []" and "s \<le> e"
  shows "\<exists>n. k__absent_pages_in_range B b nid s e = Some n \<and> unat n = card ({s ..< e} - node_frames B b nid)"
proof -
  let ?m = "b_map b"
  obtain i where i: "first_active_region_index_in_nid B ?m nid = Some i"
    using assms(2) indices_none by (fastforce simp: active_regions_def)
  then have first: "active_indices B ?m nid = i # region_indices B ?m nid (next_active_region_index_in_nid B ?m i nid)"
    by (simp add: active_indices_def)
  let ?st = "rg_start (?m ! i)"
  let ?P = "min ?st e" and ?H = "if ?st > s then min ?st e - s else 0"
  have ok: "regions_ok (map (nth ?m) (active_indices B ?m nid))"
    using assms(1) by (simp add: active_regions_def)
  have "\<forall>j \<in> set (active_indices B ?m nid). ?P \<le> rg_start (?m ! j)"
    using ok unfolding first by (auto simp: min_le_iff_disj intro: order_trans)
  moreover have "unat ?H \<le> unat ?P"
    using assms(3) by (auto simp: unat_gap min_def)
  ultimately obtain P' H' where run: "absent_loop ?m s e (active_indices B ?m nid) ?P ?H = Some (P', H')"
    and n: "unat (if e > P' then H' + (e - max s P') else H') =
      unat ?H + card (holes (max ?P s) e (map (nth ?m) (active_indices B ?m nid)))"
    using absent_loop_holes [OF ok _ _ assms(3)] by blast
  have "unat ?H + card (holes (max ?P s) e (map (nth ?m) (active_indices B ?m nid))) =
      card ({s ..< e} - node_frames B b nid)"
  proof (cases "?st > s")
    case True
    let ?hs = "holes ?P e (map (nth ?m) (active_indices B ?m nid))"
    have P: "s \<le> ?P" "?P \<le> e" "max ?P s = ?P" using True assms(3) by auto
    have "?P \<le> p" if "p \<in> node_frames B b nid" for p
      using covered_above [OF _ that [unfolded node_frames_def]] \<open>\<forall>j \<in> _. _\<close> by (auto simp: active_regions_def)
    moreover have hs: "?hs = {?P ..< e} - node_frames B b nid"
      by (simp add: holes_def node_frames_def active_regions_def)
    ultimately have "{s ..< e} - node_frames B b nid = {s ..< ?P} \<union> ?hs"
      unfolding hs by (intro diff_split P)
    moreover have "{s ..< ?P} \<inter> ?hs = {}"
      by (auto simp: holes_def simp del: min_less_iff_conj)
    ultimately have "card ({s ..< e} - node_frames B b nid) = unat ?P - unat s + card ?hs"
      by (simp add: card_Un_disjoint card_frames)
    with True P show ?thesis
      by (simp add: unat_gap)
  next
    case False
    then have "max ?P s = s" by (auto simp: max_def min_def)
    with False show ?thesis
      by (simp add: holes_def node_frames_def active_regions_def)
  qed
  with run n i show ?thesis
    by (simp add: k__absent_pages_in_range_def indices_first Let_def del: region_indices.simps)
qed

text \<open>A range that is empty the wrong way round, up to the last frame of the node, has no holes.\<close>

lemma absent_loop_inverted:
  assumes "e < s" and "e \<le> P \<or> is \<noteq> [] \<and> e \<le> rg_end (m ! last is)"
  shows "\<exists>P'. absent_loop m s e is P H = Some (P', H) \<and> e \<le> P'"
  using assms(2)
proof (induction "is" arbitrary: P)
  case (Cons i "is")
  show ?case
  proof (cases "e \<le> P")
    case False
    have st: "\<not> s < min (rg_start (m ! i)) e" using assms(1) by auto
    have "absent_loop m s e (i # is) P H = absent_loop m s e is (rg_end (m ! i)) H"
      using False st by (simp add: Let_def del: min_less_iff_conj)
    with Cons.IH [of "rg_end (m ! i)"] Cons.prems False show ?thesis
      by (auto split: if_splits)
  qed simp
qed simp

lemma absent_pages_inverted:
  assumes "e < s" and "active_regions B (b_map b) nid \<noteq> []"
    and "rg_start (hd (active_regions B (b_map b) nid)) \<le> s" and "e \<le> rg_end (last (active_regions B (b_map b) nid))"
  shows "k__absent_pages_in_range B b nid s e = Some 0"
proof -
  let ?m = "b_map b" and ?is = "active_indices B (b_map b) nid"
  have ne: "?is \<noteq> []" using assms(2) by (simp add: active_regions_def)
  then obtain i where i: "first_active_region_index_in_nid B ?m nid = Some i"
    using indices_none by fastforce
  then have hd: "hd ?is = i" by (simp add: active_indices_def)
  then have "\<not> s < rg_start (?m ! i)"
    using assms(3) ne by (simp add: active_regions_def hd_map not_less)
  moreover have "\<exists>P'. absent_loop ?m s e ?is (min (rg_start (?m ! i)) e) 0 = Some (P', 0) \<and> e \<le> P'"
    using assms(1,4) ne by (intro absent_loop_inverted) (auto simp: active_regions_def last_map)
  ultimately show ?thesis
    using i by (auto simp: k__absent_pages_in_range_def indices_first Let_def simp del: region_indices.simps)
qed

lemma fold_range:
  assumes "regions_ok rs" and "rs \<noteq> []"
  shows "fold (\<lambda>r (s, e). (min s (rg_start r), max e (rg_end r))) rs (s0, e0) =
    (min s0 (rg_start (hd rs)), max e0 (rg_end (last rs)))"
  using assms
proof (induction rs arbitrary: s0 e0)
  case (Cons r rs)
  show ?case
  proof (cases "rs = []")
    case False
    with Cons.prems have "rg_start r \<le> rg_start (hd rs)" "rg_end r \<le> rg_end (last rs)"
      using hd_in_set [OF False] last_in_set [OF False]
      by (auto simp: regions_ok_def dest!: bspec intro: order_trans)
    moreover have "regions_ok rs" using Cons.prems by simp
    ultimately show ?thesis
      using Cons.IH False by (simp add: min.absorb1 max.absorb2 min.assoc max.assoc)
  qed simp
qed simp

lemma fold_indices: "fold (\<lambda>i. f (m ! i)) is x = fold f (map (nth m) is) x"
  by (induction "is" arbitrary: x) auto

lemma node_range:
  assumes "regions_ok (active_regions B (b_map b) nid)" and "active_regions B (b_map b) nid \<noteq> []"
    and "rg_start (hd (active_regions B (b_map b) nid)) \<noteq> - 1"
  shows "get_pfn_range_for_nid B b nid =
    (rg_start (hd (active_regions B (b_map b) nid)), rg_end (last (active_regions B (b_map b) nid)))"
proof -
  have "fold (\<lambda>i (s, e). (min s (rg_start (b_map b ! i)), max e (rg_end (b_map b ! i))))
      (active_indices B (b_map b) nid) (- 1, 0) =
    (min (- 1) (rg_start (hd (active_regions B (b_map b) nid))), max 0 (rg_end (last (active_regions B (b_map b) nid))))"
    using fold_range [OF assms(1,2)] fold_indices [of "\<lambda>r (s, e). (min s (rg_start r), max e (rg_end r))" "b_map b"]
    by (simp add: active_regions_def)
  then show ?thesis
    using assms(3) by (simp add: get_pfn_range_for_nid_def min.absorb2 [OF word_order.extremum])
qed

text \<open>The frames of the address space that belong to a zone of a node.\<close>

definition zone_set :: "boot_state \<Rightarrow> nat \<Rightarrow> nat \<Rightarrow> ulong set" where
  "zone_set b nid z = (let zmp = b_zone_movable_pfn b nid in
     if z = ZONE_MOVABLE then (if zmp = 0 then {} else {zmp ..})
     else {b_lowest b z ..< b_highest b z} \<inter> (if zmp = 0 then UNIV else {..< zmp}))"

text \<open>What the computation of zone sizes relies on, for one node.\<close>

definition node_ready :: "boot_env \<Rightarrow> boot_state \<Rightarrow> nat \<Rightarrow> bool" where
  "node_ready B b nid \<longleftrightarrow>
     regions_ok (active_regions B (b_map b) nid) \<and> active_regions B (b_map b) nid \<noteq> []
     \<and> rg_start (hd (active_regions B (b_map b) nid)) \<noteq> - 1
     \<and> (\<forall>z. b_lowest b z \<le> b_highest b z) \<and> b_highest b ZONE_MOVABLE = 0
     \<and> (b_zone_movable_pfn b nid \<noteq> 0 \<longrightarrow>
          rg_start (hd (active_regions B (b_map b) nid)) \<le> b_zone_movable_pfn b nid
          \<and> rg_end (last (active_regions B (b_map b) nid)) \<le> b_highest b (b_movable_zone b))"

lemma node_frames_bounds:
  assumes "regions_ok (active_regions B (b_map b) nid)" and "p \<in> node_frames B b nid"
  shows "rg_start (hd (active_regions B (b_map b) nid)) \<le> p" "p < rg_end (last (active_regions B (b_map b) nid))"
proof -
  have "p \<in> covered rs \<Longrightarrow> regions_ok rs \<Longrightarrow> rg_start (hd rs) \<le> p \<and> p < rg_end (last rs)" for rs
  proof (induction rs)
    case (Cons r rs)
    show ?case
    proof (cases "rs = []")
      case False
      from Cons.prems(2) have r: "rg_end r \<le> rg_start (last rs)" "rg_start (last rs) \<le> rg_end (last rs)"
        "rg_start r \<le> rg_end r" "rg_end r \<le> rg_start (hd rs)" and rs: "regions_ok rs"
        using False by (auto simp: regions_ok_def)
      from Cons.prems(1) consider "rg_start r \<le> p" "p < rg_end r" | "p \<in> covered rs"
        by (auto simp: frames_def)
      then show ?thesis
      proof cases
        case 1
        with r False show ?thesis by (simp add: word_le_nat_alt word_less_nat_alt)
      next
        case 2
        with Cons.IH rs r False show ?thesis by (simp add: word_le_nat_alt word_less_nat_alt)
      qed
    qed (use Cons.prems in \<open>auto simp: frames_def\<close>)
  qed simp
  from this [OF assms(2) [unfolded node_frames_def] assms(1)]
  show "rg_start (hd (active_regions B (b_map b) nid)) \<le> p" "p < rg_end (last (active_regions B (b_map b) nid))"
    by auto
qed

lemma zone_range:
  assumes "\<forall>z. b_lowest b z \<le> b_highest b z" and "b_highest b ZONE_MOVABLE = 0" and "ns \<le> ne"
    and "b_zone_movable_pfn b nid \<noteq> 0 \<longrightarrow> ns \<le> b_zone_movable_pfn b nid \<and> ne \<le> b_highest b (b_movable_zone b)"
    and "adjust_zone_range_for_zone_movable b nid z ns ne (max (b_lowest b z) ns) (min (b_highest b z) ne) = (s, e)"
    and "adjust_zone_range_for_zone_movable b nid z ns ne (b_lowest b z) (b_highest b z) = (s', e')"
  shows "e < s \<Longrightarrow> ns \<le> s \<and> e \<le> ne" (is "_ \<Longrightarrow> ?one")
    and "(if e' < ns \<or> s' > ne then 0 else min e' ne - max s' ns) = (if s \<le> e then e - s else 0)" (is ?two)
    and "ns \<le> p \<Longrightarrow> p < ne \<Longrightarrow> p \<in> zone_set b nid z \<longleftrightarrow> s \<le> p \<and> p < e"
proof -
  let ?low = "b_lowest b z" and ?high = "b_highest b z" and ?zmp = "b_zone_movable_pfn b nid"
  have lh: "?low \<le> ?high" using assms(1) by blast
  have mov: "z = ZONE_MOVABLE \<Longrightarrow> ?low = 0 \<and> ?high = 0"
    using assms(2) lh by (auto simp: word_le_nat_alt word_unat_eq_iff)
  note ad = assms(5,6) [unfolded adjust_zone_range_for_zone_movable_def]
  show "e < s \<Longrightarrow> ?one"
    using ad(1) assms(3,4) mov by (auto simp: min_def max_def word_le_nat_alt word_less_nat_alt split: if_splits)
  show ?two
    using ad assms(3,4) mov lh
    by (auto simp: min_def max_def word_le_nat_alt word_less_nat_alt split: if_splits)
      (simp_all add: word_unat_eq_iff)
  show "ns \<le> p \<Longrightarrow> p < ne \<Longrightarrow> p \<in> zone_set b nid z \<longleftrightarrow> s \<le> p \<and> p < e"
    using ad(1) assms(3,4) mov lh
    by (auto simp: zone_set_def Let_def min_def max_def word_le_nat_alt word_less_nat_alt split: if_splits)
qed

lemma card_split: "s \<le> e \<Longrightarrow> unat (e - s) = card ({s ..< e} - F) + card (F \<inter> {s ..< e :: ulong})"
proof -
  assume "s \<le> e"
  then have "unat (e - s) = card {s ..< e}" by (simp add: card_frames unat_gap)
  also have "\<dots> = card (({s ..< e} - F) \<union> (F \<inter> {s ..< e}))" by (rule arg_cong [of _ _ card]) blast
  also have "\<dots> = card ({s ..< e} - F) + card (F \<inter> {s ..< e})" by (rule card_Un_disjoint) auto
  finally show ?thesis .
qed

lemma regions_ok_hd_last: "regions_ok rs \<Longrightarrow> rs \<noteq> [] \<Longrightarrow> rg_start (hd rs) \<le> rg_end (last rs)"
proof (cases rs)
  case (Cons r ts)
  assume ok: "regions_ok rs"
  show ?thesis
  proof (cases "ts = []")
    case False
    with ok Cons have "rg_end r \<le> rg_start (last ts)" "rg_start (last ts) \<le> rg_end (last ts)" "rg_start r \<le> rg_end r"
      by (auto simp: regions_ok_def)
    with Cons False show ?thesis by simp
  qed (use ok Cons in simp)
qed simp

lemma zone_sizes:
  assumes "node_ready B b nid"
  shows "\<exists>a. zone_absent_pages_in_node B b nid z = Some a \<and>
    unat (zone_spanned_pages_in_node B b nid z) = unat a + card (node_frames B b nid \<inter> zone_set b nid z)"
proof -
  let ?rs = "active_regions B (b_map b) nid" and ?F = "node_frames B b nid"
  let ?ns = "rg_start (hd ?rs)" and ?ne = "rg_end (last ?rs)"
  from assms have ok: "regions_ok ?rs" "?rs \<noteq> []" "?ns \<noteq> - 1"
    and zones: "\<forall>z. b_lowest b z \<le> b_highest b z" "b_highest b ZONE_MOVABLE = 0"
      "b_zone_movable_pfn b nid \<noteq> 0 \<longrightarrow> ?ns \<le> b_zone_movable_pfn b nid \<and> ?ne \<le> b_highest b (b_movable_zone b)"
    by (auto simp: node_ready_def)
  note range = node_range [OF ok]
  have le: "?ns \<le> ?ne" by (rule regions_ok_hd_last [OF ok(1,2)])
  obtain s e where ad: "adjust_zone_range_for_zone_movable b nid z ?ns ?ne (max (b_lowest b z) ?ns) (min (b_highest b z) ?ne) = (s, e)"
    by fastforce
  obtain s' e' where ad': "adjust_zone_range_for_zone_movable b nid z ?ns ?ne (b_lowest b z) (b_highest b z) = (s', e')"
    by fastforce
  note zr = zone_range [OF zones(1,2) le zones(3) ad ad']
  have sp: "zone_spanned_pages_in_node B b nid z = (if s \<le> e then e - s else 0)"
    using zr(2) by (simp add: zone_spanned_pages_in_node_def range ad')
  have ab: "zone_absent_pages_in_node B b nid z = k__absent_pages_in_range B b nid s e"
    by (simp add: zone_absent_pages_in_node_def range ad)
  have F: "?F \<inter> zone_set b nid z = ?F \<inter> {s ..< e}"
    using zr(3) node_frames_bounds [OF ok(1)] by auto
  show ?thesis
  proof (cases "s \<le> e")
    case True
    with absent_pages_count [OF ok(1,2) True] show ?thesis
      by (auto simp: sp ab F card_split [OF True, of ?F])
  next
    case False
    with zr(1) absent_pages_inverted [OF _ ok(2), of e s] show ?thesis
      by (simp add: sp ab F)
  qed
qed

text \<open>The zones of a node cut the address space into disjoint parts.\<close>

definition zones_contiguous :: "boot_state \<Rightarrow> bool" where
  "zones_contiguous b \<longleftrightarrow> b_highest b ZONE_DMA = b_lowest b ZONE_NORMAL
     \<and> b_highest b ZONE_NORMAL = b_lowest b ZONE_HIGHMEM \<and> (\<forall>z. b_lowest b z \<le> b_highest b z)
     \<and> b_highest b ZONE_MOVABLE = 0"

lemma zones_split: "[0..<MAX_NR_ZONES] = [ZONE_DMA, ZONE_NORMAL, ZONE_HIGHMEM, ZONE_MOVABLE]"
  by (simp add: zone_type_defs upt_rec)

lemma zone_set_cover:
  assumes "zones_contiguous b" and "b_lowest b ZONE_DMA \<le> p" and "p < b_highest b ZONE_HIGHMEM"
  shows "(\<Sum>z\<leftarrow>[0..<MAX_NR_ZONES]. if p \<in> zone_set b nid z then 1 else 0) = (1 :: nat)"
proof -
  have lh: "b_lowest b ZONE_DMA \<le> b_highest b ZONE_DMA" "b_lowest b ZONE_NORMAL \<le> b_highest b ZONE_NORMAL"
    "b_lowest b ZONE_HIGHMEM \<le> b_highest b ZONE_HIGHMEM"
    and eq: "b_lowest b ZONE_NORMAL = b_highest b ZONE_DMA" "b_lowest b ZONE_HIGHMEM = b_highest b ZONE_NORMAL"
    using assms(1) unfolding zones_contiguous_def by metis+
  have "ZONE_DMA \<noteq> ZONE_MOVABLE" "ZONE_NORMAL \<noteq> ZONE_MOVABLE" "ZONE_HIGHMEM \<noteq> ZONE_MOVABLE"
    by (simp_all add: zone_type_defs)
  with lh assms(2,3) show ?thesis
    unfolding zones_split
    by (simp add: zone_set_def Let_def eq) (auto simp: word_le_nat_alt word_less_nat_alt)
qed

lemma sum_list_card_swap:
  assumes "finite F"
  shows "(\<Sum>z\<leftarrow>zs. card (F \<inter> S z)) = (\<Sum>p\<in>F. \<Sum>z\<leftarrow>zs. if p \<in> S z then 1 else 0 :: nat)"
proof (induction zs)
  case (Cons z zs)
  have "card (F \<inter> S z) = (\<Sum>p\<in>F. if p \<in> S z then 1 else 0 :: nat)"
    using assms by (simp add: sum.If_cases)
  with Cons.IH show ?case by (simp add: sum.distrib)
qed simp

lemma zone_sets_partition:
  assumes "zones_contiguous b" and "\<And>p. p \<in> F \<Longrightarrow> b_lowest b ZONE_DMA \<le> p \<and> p < b_highest b ZONE_HIGHMEM"
  shows "(\<Sum>z\<leftarrow>[0..<MAX_NR_ZONES]. card (F \<inter> zone_set b nid z)) = card F"
  by (subst sum_list_card_swap) (use zone_set_cover [OF assms(1)] assms(2) in simp_all)

lemma fold_spanned:
  "fold (\<lambda>i n. n + f i) is (x :: ulong) = x + (\<Sum>i\<leftarrow>is. f i)"
  by (induction "is" arbitrary: x) (simp_all add: add.assoc)

lemma fold_present:
  assumes "\<And>i. \<exists>a. g i = Some a \<and> unat (f i) = unat a + c i"
  shows "fold (\<lambda>i n. do { n \<leftarrow> n; a \<leftarrow> g i; Some (n - a) }) is (Some ((\<Sum>i\<leftarrow>is. f i) + x)) =
    Some (of_nat (\<Sum>i\<leftarrow>is. c i) + (x :: ulong))"
proof (induction "is" arbitrary: x)
  case (Cons i "is")
  obtain a where a: "g i = Some a" "unat (f i) = unat a + c i" using assms by blast
  have "f i = a + of_nat (c i)"
    using arg_cong [OF a(2), of "of_nat :: nat \<Rightarrow> ulong"] by simp
  then have "(\<Sum>i\<leftarrow>i # is. f i) + x - a = (\<Sum>i\<leftarrow>is. f i) + (of_nat (c i) + x)"
    by (simp add: algebra_simps)
  with Cons.IH [of "of_nat (c i) + x"] a(1) show ?case
    by (simp add: algebra_simps)
qed simp

lemma node_total:
  assumes "node_ready B b nid" and "zones_contiguous b"
    and "\<And>p. p \<in> node_frames B b nid \<Longrightarrow> b_lowest b ZONE_DMA \<le> p \<and> p < b_highest b ZONE_HIGHMEM"
  shows "\<exists>t p. calculate_node_totalpages B b nid = Some (t, p) \<and> unat p = card (node_frames B b nid)"
proof -
  let ?F = "node_frames B b nid" and ?c = "\<lambda>z. card (node_frames B b nid \<inter> zone_set b nid z)"
  have "fold (\<lambda>i n. do { n \<leftarrow> n; a \<leftarrow> zone_absent_pages_in_node B b nid i; Some (n - a) }) [0..<MAX_NR_ZONES]
      (Some (\<Sum>i\<leftarrow>[0..<MAX_NR_ZONES]. zone_spanned_pages_in_node B b nid i)) =
    Some (of_nat (\<Sum>z\<leftarrow>[0..<MAX_NR_ZONES]. ?c z))"
    using fold_present [OF zone_sizes [OF assms(1)], where x = 0] by simp
  moreover have "(\<Sum>z\<leftarrow>[0..<MAX_NR_ZONES]. ?c z) = card ?F"
    by (rule zone_sets_partition [OF assms(2,3)])
  moreover have "card ?F < 2 ^ 32"
  proof -
    have "card ?F \<le> card {b_lowest b ZONE_DMA ..< b_highest b ZONE_HIGHMEM}"
      by (rule card_mono) (use assms(3) in auto)
    also have "\<dots> < 2 ^ 32"
      using unat_less_top [of "b_highest b ZONE_HIGHMEM"] by (simp add: card_frames)
    finally show ?thesis .
  qed
  ultimately show ?thesis
    by (simp add: calculate_node_totalpages_def fold_spanned Let_def unat_of_nat take_bit_nat_eq_self_iff)
qed

lemma early_calculate_frame: "\<exists>t h. early_calculate_totalpages b = (t, b\<lparr>b_high_memory := h\<rparr>)"
proof -
  have "\<exists>t' h'. fold (\<lambda>r (n, b). (n + f r, if P r then b\<lparr>b_high_memory := (b_high_memory b)(rg_nid r := True)\<rparr> else b))
      rs (t, b\<lparr>b_high_memory := h\<rparr>) = (t', b\<lparr>b_high_memory := h'\<rparr>)" for rs :: "node_active_region list"
      and t :: ulong and h f P
    by (induction rs arbitrary: t h) auto
  from this [of "\<lambda>r. rg_end r - rg_start r" "\<lambda>r. rg_end r - rg_start r \<noteq> 0" "b_map b" 0 "b_high_memory b"]
  show ?thesis
    by (simp add: early_calculate_totalpages_def Let_def)
qed

lemma no_movable:
  assumes "b_required_kernelcore b = 0" and "b_required_movablecore b = 0"
  shows "find_zone_movable_pfns_for_nodes B b = Some b"
proof -
  obtain t h where "early_calculate_totalpages b = (t, b\<lparr>b_high_memory := h\<rparr>)"
    using early_calculate_frame by blast
  with assms show ?thesis
    by (simp add: find_zone_movable_pfns_for_nodes_def Let_def)
qed

lemma zone_bounds_eq:
  "zone_bounds mz [1..<MAX_NR_ZONES] b = b\<lparr>
     b_lowest := (b_lowest b)(ZONE_NORMAL := b_highest b ZONE_DMA,
       ZONE_HIGHMEM := max (mz ZONE_NORMAL) (b_highest b ZONE_DMA)),
     b_highest := (b_highest b)(ZONE_NORMAL := max (mz ZONE_NORMAL) (b_highest b ZONE_DMA),
       ZONE_HIGHMEM := max (mz ZONE_HIGHMEM) (max (mz ZONE_NORMAL) (b_highest b ZONE_DMA)))\<rparr>"
  by (simp add: zone_type_defs upt_rec numeral_2_eq_2)

text \<open>What the heap sort of \<open>lib/sort.c\<close> promises, and a map whose ranges share no frame.\<close>

definition sort_ok :: "boot_env \<Rightarrow> bool" where
  "sort_ok B \<longleftrightarrow> (\<forall>m. mset (lib_sort B cmp_node_active_region m) = mset m
     \<and> sorted_wrt (\<lambda>r t. cmp_node_active_region r t \<le> 0) (lib_sort B cmp_node_active_region m))"

definition map_ok :: "node_active_region list \<Rightarrow> bool" where
  "map_ok m \<longleftrightarrow> (\<forall>r \<in> set m. rg_start r < rg_end r) \<and> (\<forall>p. length (filter (\<lambda>r. p \<in> frames r) m) \<le> 1)"

lemma regions_ok_sorted:
  assumes "map_ok m" and "sorted_wrt (\<lambda>r t. cmp_node_active_region r t \<le> 0) m"
  shows "regions_ok m"
  using assms
proof (induction m)
  case (Cons r m)
  have "map_ok m"
    unfolding map_ok_def
  proof (intro conjI allI)
    show "length (filter (\<lambda>t. p \<in> frames t) m) \<le> 1" for p
      using Cons.prems(1) by (auto simp: map_ok_def dest!: spec [of _ p] split: if_splits)
  qed (use Cons.prems(1) in \<open>auto simp: map_ok_def\<close>)
  moreover have "rg_end r \<le> rg_start t" if t: "t \<in> set m" for t
  proof (rule ccontr)
    assume "\<not> rg_end r \<le> rg_start t"
    moreover have "rg_start r \<le> rg_start t"
      using Cons.prems(2) t by (auto simp: cmp_node_active_region_def split: if_splits)
    ultimately have r: "rg_start t \<in> frames r" by (simp add: frames_def)
    have "rg_start t < rg_end t" using Cons.prems(1) t by (simp add: map_ok_def)
    then have "t \<in> set (filter (\<lambda>u. rg_start t \<in> frames u) m)"
      using t by (simp add: frames_def)
    then have "0 < length (filter (\<lambda>u. rg_start t \<in> frames u) m)" by (rule length_pos_if_in_set)
    moreover have "length (filter (\<lambda>u. rg_start t \<in> frames u) (r # m)) \<le> 1"
      using Cons.prems(1) unfolding map_ok_def by blast
    ultimately show False using r by simp
  qed
  moreover have "rg_start r \<le> rg_end r" using Cons.prems(1) by (simp add: map_ok_def less_imp_le)
  ultimately show ?case
    using Cons by simp
qed (simp add: regions_ok_def)

lemma map_ok_mset: "mset m = mset m' \<Longrightarrow> map_ok m \<longleftrightarrow> map_ok m'"
proof -
  assume eq: "mset m = mset m'"
  then have "set m = set m'" by (rule mset_eq_setD)
  moreover have "length (filter P m) = length (filter P m')" for P
    using eq by (metis mset_filter size_mset)
  ultimately show ?thesis by (simp add: map_ok_def)
qed

lemma regions_ok_nodes: "regions_ok m \<Longrightarrow> regions_ok (active_regions B m nid)"
  by (simp add: active_regions_filter regions_ok_filter)

lemma fold_min_start:
  "fold (\<lambda>r n. min n (rg_start r)) rs (x :: ulong) \<le> x"
  "r \<in> set rs \<Longrightarrow> fold (\<lambda>r n. min n (rg_start r)) rs (x :: ulong) \<le> rg_start r"
proof -
  show 1: "fold (\<lambda>r n. min n (rg_start r)) rs (x :: ulong) \<le> x" for rs x
  proof (induction rs arbitrary: x)
    case (Cons r rs)
    from Cons [of "min x (rg_start r)"] show ?case by simp
  qed simp
  show "r \<in> set rs \<Longrightarrow> fold (\<lambda>r n. min n (rg_start r)) rs (x :: ulong) \<le> rg_start r"
  proof (induction rs arbitrary: x)
    case (Cons t rs)
    with 1 [of rs "min x (rg_start t)"] show ?case by auto
  qed simp
qed

lemma find_min_le:
  assumes "r \<in> set (b_map b)"
  shows "find_min_pfn_with_active_regions B b \<le> rg_start r"
proof -
  have "active_regions B (b_map b) (MAX_NUMNODES B) = b_map b"
    by (simp add: active_regions_filter region_in_nid_def)
  with fold_min_start(2) [OF assms, of "- 1"] show ?thesis
    by (simp add: find_min_pfn_with_active_regions_def find_min_pfn_for_node_def
        fold_indices [of "\<lambda>r n. min n (rg_start r)"] active_regions_def Let_def)
qed

lemma active_frames:
  "mset m = mset m' \<Longrightarrow> covered (active_regions B m nid) = covered (active_regions B m' nid)"
  using mset_eq_setD [of m m'] by (simp add: active_regions_filter covered_def)

lemma hd_start_neq:
  assumes "r \<in> set m" and "map_ok m"
  shows "rg_start r \<noteq> - 1"
proof -
  have "rg_start r < rg_end r" using assms unfolding map_ok_def by blast
  from less_le_trans [OF this word_order.extremum] show ?thesis by simp
qed

lemma boot_bounds:
  assumes "sort_ok B" and "map_ok (b_map b)" and "b_required_kernelcore b = 0" and "b_required_movablecore b = 0"
    and "r0 \<in> set (b_map b)" and "rg_start r0 \<le> mz ZONE_DMA"
    and "\<And>r. r \<in> set (b_map b) \<Longrightarrow> rg_end r \<le> mz ZONE_HIGHMEM"
  shows "\<exists>b'. init_zone_bounds B mz b = Some b' \<and> zones_contiguous b' \<and> mset (b_map b') = mset (b_map b)
    \<and> regions_ok (b_map b') \<and> b_zone_movable_pfn b' nid = 0
    \<and> (\<forall>r \<in> set (b_map b). b_lowest b' ZONE_DMA \<le> rg_start r \<and> rg_end r \<le> b_highest b' ZONE_HIGHMEM)"
proof -
  let ?m = "lib_sort B cmp_node_active_region (b_map b)"
  have m: "mset ?m = mset (b_map b)" "sorted_wrt (\<lambda>r t. cmp_node_active_region r t \<le> 0) ?m"
    using assms(1) by (auto simp: sort_ok_def)
  have sorted: "regions_ok ?m"
    by (rule regions_ok_sorted [OF _ m(2)]) (use assms(2) map_ok_mset [OF m(1)] in simp)
  let ?b = "b\<lparr>b_map := ?m, b_lowest := \<lambda>_. 0, b_highest := \<lambda>_. 0\<rparr>"
  let ?lo = "find_min_pfn_with_active_regions B ?b"
  have lo: "?lo \<le> rg_start r" if "r \<in> set (b_map b)" for r
    using find_min_le [of r ?b] that mset_eq_setD [OF m(1)] by simp
  have le: "?lo \<le> mz ZONE_DMA" using lo [OF assms(5)] assms(6) by (rule order_trans)
  have ne: "ZONE_NORMAL \<noteq> ZONE_DMA" "ZONE_HIGHMEM \<noteq> ZONE_DMA" "ZONE_HIGHMEM \<noteq> ZONE_NORMAL"
    "ZONE_MOVABLE \<noteq> ZONE_DMA" "ZONE_MOVABLE \<noteq> ZONE_NORMAL" "ZONE_MOVABLE \<noteq> ZONE_HIGHMEM" "ZONE_DMA = 0"
    by (simp_all add: zone_type_defs)
  obtain b' where b': "init_zone_bounds B mz b = Some b'" "b_map b' = ?m" "b_zone_movable_pfn b' = (\<lambda>_. 0)"
    and lows: "b_lowest b' ZONE_DMA = ?lo" "b_lowest b' ZONE_NORMAL = mz ZONE_DMA"
      "b_lowest b' ZONE_HIGHMEM = max (mz ZONE_NORMAL) (mz ZONE_DMA)"
      "\<And>z. z \<notin> {ZONE_DMA, ZONE_NORMAL, ZONE_HIGHMEM} \<Longrightarrow> b_lowest b' z = 0"
    and highs: "b_highest b' ZONE_DMA = mz ZONE_DMA" "b_highest b' ZONE_NORMAL = max (mz ZONE_NORMAL) (mz ZONE_DMA)"
      "b_highest b' ZONE_HIGHMEM = max (mz ZONE_HIGHMEM) (max (mz ZONE_NORMAL) (mz ZONE_DMA))"
      "\<And>z. z \<notin> {ZONE_DMA, ZONE_NORMAL, ZONE_HIGHMEM} \<Longrightarrow> b_highest b' z = 0"
    using assms(3,4) ne
    by (auto simp: init_zone_bounds_def sort_node_map_def zone_bounds_eq [unfolded One_nat_def] no_movable Let_def)
  have "b_lowest b' z \<le> b_highest b' z" for z
    using lows highs le by (cases "z \<in> {ZONE_DMA, ZONE_NORMAL, ZONE_HIGHMEM}") auto
  moreover have "b_highest b' ZONE_MOVABLE = 0" using highs(4) ne by auto
  ultimately have "zones_contiguous b'"
    using lows highs by (simp add: zones_contiguous_def)
  with b' lows(1) highs(3) sorted m(1) lo assms(7) show ?thesis
    by (auto simp: le_max_iff_disj)
qed

text \<open>
  C21. Boot accounts for every frame: after the architecture has registered disjoint ranges below
  the highest frame of the last zone and given no \<open>kernelcore\<close> or \<open>movablecore\<close>, the zone bounds
  computed by \<open>free_area_init_nodes\<close> make \<open>calculate_node_totalpages\<close> report, for each node with
  memory, exactly the number of its registered frames as present, without a \<open>BUG_ON\<close>, whatever
  holes there are and wherever the zones are cut.
\<close>

theorem boot_pages_accounted:
  assumes "sort_ok B" and "map_ok (b_map b)" and "b_required_kernelcore b = 0" and "b_required_movablecore b = 0"
    and "r0 \<in> set (b_map b)" and "region_in_nid B nid r0" and "rg_start (hd (b_map b)) \<le> mz ZONE_DMA"
    and "\<And>r. r \<in> set (b_map b) \<Longrightarrow> rg_end r \<le> mz ZONE_HIGHMEM"
  shows "\<exists>b' t p. init_zone_bounds B mz b = Some b' \<and> calculate_node_totalpages B b' nid = Some (t, p)
    \<and> unat p = card (node_frames B b nid)"
proof -
  have "hd (b_map b) \<in> set (b_map b)" using assms(5) by (cases "b_map b") auto
  from boot_bounds [OF assms(1-4) this assms(7,8), of nid] obtain b' where
    init: "init_zone_bounds B mz b = Some b'" and cont: "zones_contiguous b'"
    and ms: "mset (b_map b') = mset (b_map b)" and ok: "regions_ok (b_map b')" and "b_zone_movable_pfn b' nid = 0"
    and bounds: "\<And>r. r \<in> set (b_map b) \<Longrightarrow> b_lowest b' ZONE_DMA \<le> rg_start r \<and> rg_end r \<le> b_highest b' ZONE_HIGHMEM"
    by blast
  have fr: "node_frames B b' nid = node_frames B b nid"
    unfolding node_frames_def by (rule active_frames [OF ms])
  have ne: "active_regions B (b_map b') nid \<noteq> []"
    using assms(5,6) mset_eq_setD [OF ms] by (auto simp: active_regions_filter filter_empty_conv)
  moreover have "rg_start (hd (active_regions B (b_map b') nid)) \<noteq> - 1"
  proof (rule hd_start_neq [where m = "b_map b'"])
    show "hd (active_regions B (b_map b') nid) \<in> set (b_map b')"
      using hd_in_set [OF ne] by (simp add: active_regions_filter)
  qed (use assms(2) map_ok_mset [OF ms] in simp)
  ultimately have "node_ready B b' nid"
    using regions_ok_nodes [OF ok] cont \<open>b_zone_movable_pfn b' nid = 0\<close>
    by (simp add: node_ready_def zones_contiguous_def)
  moreover have "b_lowest b' ZONE_DMA \<le> p \<and> p < b_highest b' ZONE_HIGHMEM" if "p \<in> node_frames B b' nid" for p
    using that bounds mset_eq_setD [OF ms]
    by (fastforce simp: node_frames_def covered_def frames_def active_regions_filter)
  ultimately show ?thesis
    using node_total [OF _ cont, of B nid] init fr by auto
qed

text \<open>
  Counting holes is exact: over a sorted map of disjoint ranges, \<open>__absent_pages_in_range\<close>
  returns the number of frames of the requested range that no range of the node covers, trips no
  \<open>BUG_ON\<close> and does not wrap around.
\<close>

theorem absent_pages_exact:
  assumes "regions_ok (active_regions B (b_map b) nid)" and "active_regions B (b_map b) nid \<noteq> []" and "s \<le> e"
  shows "\<exists>n. k__absent_pages_in_range B b nid s e = Some n \<and> unat n = card ({s ..< e} - node_frames B b nid)"
  using assms by (rule absent_pages_count)

text \<open>
  With a movable zone cut off a node at any frame from its first one on, what a zone spans and
  what it misses differ by exactly the frames of the node that lie in the zone, although the two
  numbers are computed from differently clamped ranges.
\<close>

theorem zone_present_exact:
  assumes "node_ready B b nid"
  shows "\<exists>a. zone_absent_pages_in_node B b nid z = Some a \<and>
    unat (zone_spanned_pages_in_node B b nid z) = unat a + card (node_frames B b nid \<inter> zone_set b nid z)"
  using assms by (rule zone_sizes)

section \<open>A sample map\<close>

definition sample_boot_env :: boot_env where
  "sample_boot_env = \<lparr>MAX_NUMNODES = 1, lib_sort = (\<lambda>cmp m. sort_key rg_start m), memparse = (\<lambda>_. 0x1000000),
     memblock_find_in_range = (\<lambda>s e sz al. s), MEMBLOCK_ERROR = 0\<rparr>"

definition sample_boot :: boot_state where
  "sample_boot = \<lparr>b_map = [\<lparr>rg_start = 0x10, rg_end = 0x9f, rg_nid = 0\<rparr>, \<lparr>rg_start = 0x100, rg_end = 0x400, rg_nid = 0\<rparr>],
     b_lowest = (\<lambda>_. 0), b_highest = (\<lambda>z. if z = 0 then 0x1000 else 0), b_required_kernelcore = 0, b_required_movablecore = 0,
     b_zone_movable_pfn = (\<lambda>_. 0), b_movable_zone = 0, b_high_memory = (\<lambda>n. n = 0)\<rparr>"

lemma sample_sort_ok: "sort_ok sample_boot_env"
proof -
  have "sorted_wrt (\<lambda>r t. cmp_node_active_region r t \<le> 0) (sort_key rg_start m)" for m
    using sorted_sort_key [of rg_start m]
    by (auto simp: sorted_wrt_map sorted_map cmp_node_active_region_def elim: sorted_wrt_mono_rel [rotated])
  then show ?thesis by (simp add: sort_ok_def sample_boot_env_def)
qed

lemma sample_map_ok: "map_ok (b_map sample_boot)"
  by (auto simp: map_ok_def sample_boot_def frames_def word_le_nat_alt word_less_nat_alt)

section \<open>Registering and removing ranges\<close>

definition node_covered :: "node_active_region list \<Rightarrow> nat \<Rightarrow> ulong set" where
  "node_covered m nid = covered (filter (\<lambda>r. rg_nid r = nid) m)"

lemma node_covered_simps [simp]:
  "node_covered [] nid = {}"
  "node_covered (r # m) nid = (if rg_nid r = nid then frames r else {}) \<union> node_covered m nid"
  "node_covered (m @ m') nid = node_covered m nid \<union> node_covered m' nid"
  by (simp_all add: node_covered_def)

lemma add_merge_ConsE:
  assumes "add_merge nid s e (r # m) = Some m'" and "rg_start r \<le> rg_end r"
  obtains (other) t where "m' = r # t" "add_merge nid s e m = Some t"
    | (skip) "m' = r # m" "rg_nid r = nid" "rg_start r \<le> s" "e \<le> rg_end r"
    | (forward) "m' = r\<lparr>rg_end := e\<rparr> # m" "rg_nid r = nid" "s \<le> rg_end r" "rg_end r < e"
    | (backward) "m' = r\<lparr>rg_start := s\<rparr> # m" "rg_nid r = nid" "s < rg_start r" "rg_start r \<le> e" "e \<le> rg_end r"
  using assms by (auto split: if_splits)

lemma add_merge_covers:
  assumes "add_merge nid s e m = Some m'" and "s \<le> e" and "\<forall>r \<in> set m. rg_start r \<le> rg_end r"
  shows "node_covered m nid \<subseteq> node_covered m' nid \<and> node_covered m' nid \<subseteq> node_covered m nid \<union> {s ..< e}
    \<and> ((\<forall>r \<in> set m. rg_nid r = nid \<longrightarrow> \<not> (s < rg_start r \<and> rg_end r < e)) \<longrightarrow>
        {s ..< e} \<subseteq> node_covered m' nid)
    \<and> (\<forall>r \<in> set m'. rg_start r \<le> rg_end r) \<and> (\<forall>n. n \<noteq> nid \<longrightarrow> node_covered m' n = node_covered m n)
    \<and> length m' = length m"
  using assms(1,3)
proof (induction m arbitrary: m')
  case (Cons r m)
  have r: "rg_start r \<le> rg_end r" and m: "\<forall>r \<in> set m. rg_start r \<le> rg_end r" using Cons.prems(2) by auto
  from Cons.prems(1) r show ?case
  proof (cases rule: add_merge_ConsE)
    case (other t)
    from Cons.IH [OF other(2) m] r show ?thesis
      unfolding other(1) by auto
  next
    case skip
    with Cons.prems(2) show ?thesis by (auto simp: frames_def)
  next
    case forward
    with Cons.prems(2) show ?thesis by (fastforce simp: frames_def)
  next
    case backward
    with Cons.prems(2) show ?thesis by (fastforce simp: frames_def)
  qed
qed simp

lemma add_merge_length: "add_merge nid s e m = Some m' \<Longrightarrow> length m' = length m"
proof (induction m arbitrary: m')
  case (Cons r m)
  show ?case
  proof (cases "add_merge nid s e m")
    case (Some t)
    with Cons.prems Cons.IH [OF Some] show ?thesis by (auto split: if_splits)
  qed (use Cons.prems in \<open>auto split: if_splits\<close>)
qed simp

definition room :: "boot_env \<Rightarrow> boot_state \<Rightarrow> bool" where
  "room B b \<longleftrightarrow> length (b_map b) < MAX_ACTIVE_REGIONS B"

lemma add_active_range_spec:
  assumes "s \<le> e" and "\<forall>r \<in> set (b_map b). rg_start r \<le> rg_end r"
  shows "n \<noteq> nid \<Longrightarrow> node_covered (b_map (add_active_range B nid s e b)) n = node_covered (b_map b) n"
    and "node_covered (b_map b) nid \<subseteq> node_covered (b_map (add_active_range B nid s e b)) nid"
    and "node_covered (b_map (add_active_range B nid s e b)) nid \<subseteq> node_covered (b_map b) nid \<union> {s ..< e}"
    and "room B b \<Longrightarrow> \<forall>r \<in> set (b_map b). rg_nid r = nid \<longrightarrow> \<not> (s < rg_start r \<and> rg_end r < e) \<Longrightarrow>
      {s ..< e} \<subseteq> node_covered (b_map (add_active_range B nid s e b)) nid"
    and "\<forall>r \<in> set (b_map (add_active_range B nid s e b)). rg_start r \<le> rg_end r"
  using assms add_merge_covers [OF _ assms]
  by (auto simp: add_active_range_def room_def frames_def split: option.splits)

lemma add_active_range_length:
  "length (b_map b) \<le> MAX_ACTIVE_REGIONS B \<Longrightarrow> length (b_map (add_active_range B nid s e b)) \<le> MAX_ACTIVE_REGIONS B"
  "length (b_map b) \<le> length (b_map (add_active_range B nid s e b))"
  by (auto simp: add_active_range_def add_merge_length split: option.splits)

text \<open>
  C22. Registering a range never forgets a frame, never invents one and touches no other node; it
  registers all of the new range when there is room in the table and no registered range of the
  node lies strictly inside the new one.
\<close>

theorem add_active_range_correct:
  assumes "s \<le> e" and "\<forall>r \<in> set (b_map b). rg_start r \<le> rg_end r"
  shows "(\<forall>n. n \<noteq> nid \<longrightarrow> node_covered (b_map (add_active_range B nid s e b)) n = node_covered (b_map b) n)
    \<and> node_covered (b_map b) nid \<subseteq> node_covered (b_map (add_active_range B nid s e b)) nid
    \<and> node_covered (b_map (add_active_range B nid s e b)) nid \<subseteq> node_covered (b_map b) nid \<union> {s ..< e}
    \<and> (room B b \<and> (\<forall>r \<in> set (b_map b). rg_nid r = nid \<longrightarrow> \<not> (s < rg_start r \<and> rg_end r < e)) \<longrightarrow>
        node_covered (b_map (add_active_range B nid s e b)) nid = node_covered (b_map b) nid \<union> {s ..< e})"
  using add_active_range_spec [OF assms] by blast

text \<open>
  A new range that encloses the first registered range of its node only extends that range to
  the end: the frames of the new range in front of it stay unregistered, although there is room,
  and no error is reported.
\<close>

theorem add_active_range_loses_front:
  assumes "b_map b = r # m" and "rg_nid r = nid" and "s < rg_start r" and "rg_start r \<le> rg_end r" and "rg_end r < e"
    and "s \<notin> node_covered m nid"
  shows "s \<notin> node_covered (b_map (add_active_range B nid s e b)) nid"
  using assms by (auto simp: add_active_range_def frames_def)

lemma shrink_region_length:
  assumes "length (b_map b) \<le> MAX_ACTIVE_REGIONS B"
  shows "length (b_map (snd (shrink_region B nid s e i (x, b)))) \<le> MAX_ACTIVE_REGIONS B"
proof -
  have "length (b_map (upd_region i f b)) = length (b_map b)" for f by (simp add: upd_region_def)
  with assms add_active_range_length(1) [of "upd_region i f b" B for f] show ?thesis
    by (auto simp: shrink_region_def Let_def)
qed

lemma shrink_loop_ends:
  assumes "length (b_map b) \<le> MAX_ACTIVE_REGIONS B"
    and "\<And>j. i = Some j \<Longrightarrow> MAX_ACTIVE_REGIONS B < fuel + j \<and> j < MAX_ACTIVE_REGIONS B"
  shows "\<exists>y t. shrink_loop fuel B nid s e i (x, b) = Some (y, t)"
  using assms
proof (induction fuel arbitrary: i x b)
  case 0
  then show ?case by (cases i) auto
next
  case (Suc fuel)
  show ?case
  proof (cases i)
    case (Some j)
    obtain y c where st: "shrink_region B nid s e j (x, b) = (y, c)" by fastforce
    have c: "length (b_map c) \<le> MAX_ACTIVE_REGIONS B"
      using shrink_region_length [OF Suc.prems(1), of nid s e j x] by (simp add: st)
    have "MAX_ACTIVE_REGIONS B < fuel + k \<and> k < MAX_ACTIVE_REGIONS B"
      if "next_active_region_index_in_nid B (b_map c) j nid = Some k" for k
      using active_region_index_bounds [OF that [unfolded next_active_region_index_in_nid_def]] Suc.prems(2) [OF Some] c
      by auto
    from Suc.IH [where i = "next_active_region_index_in_nid B (b_map c) j nid" and x = y, OF c this] st Some show ?thesis
      by (simp add: Let_def)
  qed simp
qed

text \<open>
  \<open>remove_active_range\<close> ends, although it registers new ranges in the table while it walks it:
  the table never outgrows \<open>MAX_ACTIVE_REGIONS\<close>.
\<close>

theorem remove_active_range_ends:
  assumes "length (b_map b) \<le> MAX_ACTIVE_REGIONS B"
  shows "\<exists>b'. remove_active_range B nid s e b = Some b'"
proof -
  have "MAX_ACTIVE_REGIONS B < Suc (MAX_ACTIVE_REGIONS B) + j \<and> j < MAX_ACTIVE_REGIONS B"
    if "first_active_region_index_in_nid B (b_map b) nid = Some j" for j
    using active_region_index_bounds [OF that [unfolded first_active_region_index_in_nid_def]] assms by auto
  from shrink_loop_ends [OF assms this] obtain x t where
    "shrink_loop (Suc (MAX_ACTIVE_REGIONS B)) B nid s e (first_active_region_index_in_nid B (b_map b) nid) (False, b) = Some (x, t)"
    by blast
  then show ?thesis
    by (simp add: remove_active_range_def)
qed

section \<open>The theorems on the sample map\<close>

lemma sample_regions_ok: "regions_ok (b_map sample_boot)"
  by (simp add: sample_boot_def regions_ok_def word_le_nat_alt)

lemma sample_active: "active_regions sample_boot_env (b_map sample_boot) nid = (if nid < 2 then b_map sample_boot else [])"
  by (simp add: active_regions_filter region_in_nid_def sample_boot_env_def sample_boot_def)

theorem boot_pages_accounted_witness:
  "\<exists>b' t p. init_zone_bounds sample_boot_env (\<lambda>z. if z = ZONE_DMA then 0x100 else 0x1000) sample_boot = Some b'
     \<and> calculate_node_totalpages sample_boot_env b' 0 = Some (t, p) \<and> unat p = 0x38f"
proof -
  have "node_frames sample_boot_env sample_boot 0 = {0x10 ..< 0x9f} \<union> {0x100 ..< 0x400}"
    by (simp add: node_frames_def sample_active) (simp add: sample_boot_def frames_def)
  moreover have "card ({0x10 ..< 0x9f} \<union> {0x100 ..< 0x400 :: ulong}) = 0x38f"
    by (subst card_Un_disjoint) (auto simp: card_frames word_le_nat_alt word_less_nat_alt)
  moreover have "b_required_kernelcore sample_boot = 0" "b_required_movablecore sample_boot = 0"
    "region_in_nid sample_boot_env 0 (hd (b_map sample_boot))" "hd (b_map sample_boot) \<in> set (b_map sample_boot)"
    "rg_start (hd (b_map sample_boot)) \<le> 0x100"
    by (simp_all add: sample_boot_def region_in_nid_def)
  moreover have "rg_end r \<le> 0x1000" if "r \<in> set (b_map sample_boot)" for r
    using that by (auto simp: sample_boot_def word_le_nat_alt)
  moreover have "ZONE_HIGHMEM \<noteq> ZONE_DMA" by (simp add: zone_type_defs)
  ultimately show ?thesis
    using boot_pages_accounted [OF sample_sort_ok sample_map_ok, of "hd (b_map sample_boot)" 0
        "\<lambda>z. if z = ZONE_DMA then 0x100 else 0x1000"] by simp
qed

theorem absent_pages_exact_witness:
  "\<exists>n. k__absent_pages_in_range sample_boot_env sample_boot 0 0 0x100 = Some n \<and> unat n = 0x71"
proof -
  have "{0 ..< 0x100} - node_frames sample_boot_env sample_boot 0 = {0 ..< 0x10} \<union> {0x9f ..< 0x100}"
    unfolding node_frames_def sample_active
    by (auto simp: sample_boot_def frames_def word_le_nat_alt word_less_nat_alt)
  moreover have "card ({0 ..< 0x10} \<union> {0x9f ..< 0x100 :: ulong}) = 0x71"
    by (subst card_Un_disjoint) (auto simp: card_frames word_le_nat_alt word_less_nat_alt)
  ultimately show ?thesis
    using absent_pages_exact [of sample_boot_env sample_boot 0 0 "0x100"] sample_regions_ok
    by (simp add: sample_active) (simp add: sample_boot_def)
qed

theorem zone_present_exact_witness:
  "\<exists>a. zone_absent_pages_in_node sample_boot_env sample_boot 0 ZONE_DMA = Some a \<and>
    unat (zone_spanned_pages_in_node sample_boot_env sample_boot 0 ZONE_DMA) =
      unat a + card (node_frames sample_boot_env sample_boot 0 \<inter> zone_set sample_boot 0 ZONE_DMA)"
proof -
  have "node_ready sample_boot_env sample_boot 0"
    using sample_regions_ok unfolding node_ready_def sample_active
    by (auto simp: sample_boot_def zone_type_defs)
  then show ?thesis by (rule zone_present_exact)
qed

theorem add_active_range_correct_witness:
  "node_covered (b_map (add_active_range sample_boot_env 0 0x9f 0x100 sample_boot)) 0 =
     node_covered (b_map sample_boot) 0 \<union> {0x9f ..< 0x100}"
  using add_active_range_correct [of "0x9f" "0x100" sample_boot 0 sample_boot_env] sample_regions_ok
  by (auto simp: regions_ok_def room_def MAX_ACTIVE_REGIONS_def sample_boot_env_def)
    (auto simp: sample_boot_def)

theorem add_active_range_loses_front_witness:
  "0x8 \<notin> node_covered (b_map (add_active_range sample_boot_env 0 0x8 0xa0 sample_boot)) 0"
  by (rule add_active_range_loses_front [where r = "hd (b_map sample_boot)" and m = "tl (b_map sample_boot)"])
    (simp_all add: sample_boot_def frames_def)

theorem remove_active_range_ends_witness:
  "\<exists>b'. remove_active_range sample_boot_env 0 0x20 0x30 sample_boot = Some b'"
  by (rule remove_active_range_ends) (simp add: sample_boot_def MAX_ACTIVE_REGIONS_def sample_boot_env_def)

end
