(* ===== verification/Page_Blocks.thy ===== *)
theory Page_Blocks
  imports Watermark Node_Map
begin

text \<open>
  The flags of page blocks in \<open>Linux/page_alloc.c\<close>: a few bits for each block of
  \<open>pageblock_nr_pages\<close> frames, in a bitmap of the zone, read and written in groups; and the
  operations on them that take whole page blocks out of the allocator
  (\<open>set_migratetype_isolate\<close>, \<open>__offline_isolated_pages\<close>) or reserve them.
\<close>

section \<open>Reading and writing a group\<close>

lemma push_bit_1_exp: "push_bit 1 (2 ^ k :: nat) = 2 ^ Suc k"
  by (simp add: push_bit_eq_mult)

lemma get_group_fold:
  fixes f :: nat
  defines "g \<equiv> \<lambda>B x i (flags, value). (if B (x + i) then flags OR value else flags, push_bit 1 value)"
  shows "snd (fold (g B x) [a ..< a + n] (f, 2 ^ k)) = 2 ^ (k + n)
    \<and> (\<forall>j. bit (fst (fold (g B x) [a ..< a + n] (f, 2 ^ k))) j \<longleftrightarrow>
        bit f j \<or> (k \<le> j \<and> j < k + n \<and> B (x + a + (j - k))))"
proof (induction n)
  case (Suc n)
  obtain fl v where r: "fold (g B x) [a ..< a + n] (f, 2 ^ k) = (fl, v)" by fastforce
  with Suc have v: "v = 2 ^ (k + n)" and fl: "\<And>j. bit fl j \<longleftrightarrow> bit f j \<or> (k \<le> j \<and> j < k + n \<and> B (x + a + (j - k)))"
    by simp_all
  have "fold (g B x) [a ..< a + Suc n] (f, 2 ^ k) = g B x (a + n) (fl, v)" using r by simp
  moreover have "B (x + (a + n)) = B (x + a + (k + n - k))" by (simp add: add.assoc)
  ultimately show ?case
    by (auto simp: g_def v fl push_bit_1_exp bit_or_iff bit_exp_iff less_Suc_eq simp del: push_bit_of_1)
qed auto

lemma set_group_fold:
  fixes flags :: nat
  defines "h \<equiv> \<lambda>x i (bitmap, value). (bitmap(x + i := (flags AND value \<noteq> 0)), push_bit 1 value)"
  shows "snd (fold (h x) [a ..< a + n] (B, 2 ^ k)) = 2 ^ (k + n)
    \<and> (\<forall>y. fst (fold (h x) [a ..< a + n] (B, 2 ^ k)) y \<longleftrightarrow>
        (if x + a \<le> y \<and> y < x + a + n then bit flags (k + (y - (x + a))) else B y))"
proof (induction n)
  case (Suc n)
  obtain C v where r: "fold (h x) [a ..< a + n] (B, 2 ^ k) = (C, v)" by fastforce
  with Suc have v: "v = 2 ^ (k + n)" and C: "\<And>y. C y \<longleftrightarrow> (if x + a \<le> y \<and> y < x + a + n then bit flags (k + (y - (x + a))) else B y)"
    by simp_all
  have "fold (h x) [a ..< a + Suc n] (B, 2 ^ k) = h x (a + n) (C, v)" using r by simp
  moreover have "(flags AND 2 ^ (k + n) \<noteq> 0) = bit flags (k + n)" by (simp add: and_exp_eq_0_iff_not_bit)
  ultimately show ?case
    by (auto simp: h_def v C push_bit_1_exp)
qed auto


lemma get_group_bits:
  "bit (get_pageblock_flags_group E page a b s) j \<longleftrightarrow>
     j < Suc b - a \<and> k_pageblock s (page_zone E page) (pfn_to_bitidx E (page_zone E page) page s + a + j)"
proof (cases "a \<le> Suc b")
  case True
  then have "[a ..< Suc b] = [a ..< a + (Suc b - a)]" by simp
  with get_group_fold [of "k_pageblock s (page_zone E page)" "pfn_to_bitidx E (page_zone E page) page s" a "Suc b - a" 0 0]
  show ?thesis by (simp add: get_pageblock_flags_group_def Let_def del: upt_Suc)
qed (simp add: get_pageblock_flags_group_def Let_def)

lemma set_group_bits:
  assumes "z_start_pfn (zone_at s (page_zone E page)) \<le> page"
    and "page < z_start_pfn (zone_at s (page_zone E page)) + z_spanned_pages (zone_at s (page_zone E page))" and "a \<le> Suc b"
  shows "\<exists>t. set_pageblock_flags_group E page flags a b s = Some t \<and> k_zones t = k_zones s
    \<and> (\<forall>z y. k_pageblock t z y = (if z = page_zone E page \<and> pfn_to_bitidx E z page s + a \<le> y
           \<and> y < pfn_to_bitidx E z page s + Suc b
         then bit flags (y - (pfn_to_bitidx E z page s + a)) else k_pageblock s z y))"
proof -
  have n: "a + (Suc b - a) = Suc b" using assms(3) by simp
  show ?thesis
    using assms(1,2) set_group_fold [of "pfn_to_bitidx E (page_zone E page) page s" flags a "Suc b - a"
        "k_pageblock s (page_zone E page)" 0, unfolded n]
    by (auto simp: set_pageblock_flags_group_def Let_def add.assoc [symmetric] n simp del: upt_Suc)
qed

lemma bitidx_zones: "k_zones t = k_zones s \<Longrightarrow> pfn_to_bitidx E z q t = pfn_to_bitidx E z q s"
  by (simp add: pfn_to_bitidx_def zone_at_def)

text \<open>Page blocks start \<open>NR_PAGEBLOCK_BITS\<close> apart.\<close>

lemma bitidx_apart:
  assumes "pfn_to_bitidx E z q s \<noteq> pfn_to_bitidx E z p s"
  shows "pfn_to_bitidx E z q s + NR_PAGEBLOCK_BITS E \<le> pfn_to_bitidx E z p s
    \<or> pfn_to_bitidx E z p s + NR_PAGEBLOCK_BITS E \<le> pfn_to_bitidx E z q s"
proof -
  have "m * n + n \<le> k * n \<or> k * n + n \<le> m * n" if "m * n \<noteq> k * n" for m k n :: nat
  proof (cases "m < k")
    case True
    then have "Suc m * n \<le> k * n" by (intro mult_le_mono1) simp
    then show ?thesis by simp
  next
    case False
    with that have "k < m" by (cases "k = m") auto
    then have "Suc k * n \<le> m * n" by (intro mult_le_mono1) simp
    then show ?thesis by simp
  qed
  with assms show ?thesis unfolding pfn_to_bitidx_def Let_def by blast
qed

lemma flags_roundtrip:
  assumes "z_start_pfn (zone_at s (page_zone E page)) \<le> page"
    and "page < z_start_pfn (zone_at s (page_zone E page)) + z_spanned_pages (zone_at s (page_zone E page))"
    and "a \<le> b" and "b < NR_PAGEBLOCK_BITS E"
  defines "same_block \<equiv> \<lambda>q. page_zone E q = page_zone E page
      \<and> pfn_to_bitidx E (page_zone E page) q s = pfn_to_bitidx E (page_zone E page) page s"
  shows "\<exists>t. set_pageblock_flags_group E page flags a b s = Some t
    \<and> (\<forall>q. same_block q \<longrightarrow> get_pageblock_flags_group E q a b t = take_bit (Suc b - a) flags)
    \<and> (\<forall>q c d. d < NR_PAGEBLOCK_BITS E \<longrightarrow> (same_block q \<longrightarrow> d < a \<or> b < c) \<longrightarrow>
        get_pageblock_flags_group E q c d t = get_pageblock_flags_group E q c d s)"
proof -
  let ?z = "page_zone E page" and ?x = "pfn_to_bitidx E (page_zone E page) page s"
  obtain t where t: "set_pageblock_flags_group E page flags a b s = Some t" "k_zones t = k_zones s"
    "\<And>z y. k_pageblock t z y = (if z = ?z \<and> pfn_to_bitidx E z page s + a \<le> y \<and> y < pfn_to_bitidx E z page s + Suc b
         then bit flags (y - (pfn_to_bitidx E z page s + a)) else k_pageblock s z y)"
    using set_group_bits [OF assms(1,2), of a b flags] assms(3) by auto
  note idx = bitidx_zones [OF t(2)]
  have "get_pageblock_flags_group E q a b t = take_bit (Suc b - a) flags" if "same_block q" for q
  proof (rule bit_eqI)
    fix j show "bit (get_pageblock_flags_group E q a b t) j = bit (take_bit (Suc b - a) flags) j"
      using that assms(3) by (auto simp: get_group_bits bit_take_bit_iff idx t(3) same_block_def)
  qed
  moreover have "get_pageblock_flags_group E q c d t = get_pageblock_flags_group E q c d s"
    if d: "d < NR_PAGEBLOCK_BITS E" and other: "same_block q \<Longrightarrow> d < a \<or> b < c" for q c d
  proof (rule bit_eqI)
    fix j
    let ?y = "pfn_to_bitidx E (page_zone E q) q s + c + j"
    have "k_pageblock t (page_zone E q) ?y = k_pageblock s (page_zone E q) ?y" if j: "j < Suc d - c"
    proof -
      have "\<not> (page_zone E q = ?z \<and> ?x + a \<le> ?y \<and> ?y < ?x + Suc b)"
      proof
        assume *: "page_zone E q = ?z \<and> ?x + a \<le> ?y \<and> ?y < ?x + Suc b"
        then show False
          using other bitidx_apart [of E ?z q s page] d j assms(4)
          by (cases "same_block q") (auto simp: same_block_def)
      qed
      then show ?thesis by (auto simp: t(3))
    qed
    then show "bit (get_pageblock_flags_group E q c d t) j = bit (get_pageblock_flags_group E q c d s) j"
      by (auto simp: get_group_bits idx)
  qed
  ultimately show ?thesis using t(1) by blast
qed


lemma set_pageblock_bounds:
  assumes "set_pageblock_flags_group E p flags a b s = Some t"
  shows "z_start_pfn (zone_at s (page_zone E p)) \<le> p"
    and "p < z_start_pfn (zone_at s (page_zone E p)) + z_spanned_pages (zone_at s (page_zone E p))"
  using assms unfolding set_pageblock_flags_group_def Let_def by (simp_all split: if_splits)

text \<open>A migrate type that is recorded is the one that is read.\<close>

lemma migratetype_roundtrip:
  assumes "set_pageblock_migratetype E p mt s = Some t" and mt: "mt < 2 ^ (Suc (PB_migrate_end E) - PB_migrate E)"
    and bits: "PB_migrate E \<le> PB_migrate_end E" "PB_migrate_end E < NR_PAGEBLOCK_BITS E" and "\<not> page_group_by_mobility_disabled E"
  shows "get_pageblock_migratetype E p t = mt"
proof -
  have set: "set_pageblock_flags_group E p mt (PB_migrate E) (PB_migrate_end E) s = Some t"
    using assms(1,5) by (simp add: set_pageblock_migratetype_def)
  from flags_roundtrip [OF set_pageblock_bounds [OF set] bits, of mt] set
  have "get_pageblock_flags_group E p (PB_migrate E) (PB_migrate_end E) t = take_bit (Suc (PB_migrate_end E) - PB_migrate E) mt"
    by auto
  with mt show ?thesis unfolding get_pageblock_migratetype_def by (simp add: take_bit_nat_eq_self)
qed

text \<open>
  C18. The flags of a page block: writing a group for a page of the zone and reading it for any page of
  the same page block gives back what was written, cut to the bits of the group; no other group of
  the block, no other page block and no other zone changes.
\<close>

theorem pageblock_flags_roundtrip:
  assumes "z_start_pfn (zone_at s (page_zone E page)) \<le> page"
    and "page < z_start_pfn (zone_at s (page_zone E page)) + z_spanned_pages (zone_at s (page_zone E page))"
    and "a \<le> b" and "b < NR_PAGEBLOCK_BITS E"
  defines "same_block \<equiv> \<lambda>q. page_zone E q = page_zone E page
      \<and> pfn_to_bitidx E (page_zone E page) q s = pfn_to_bitidx E (page_zone E page) page s"
  shows "\<exists>t. set_pageblock_flags_group E page flags a b s = Some t
    \<and> (\<forall>q. same_block q \<longrightarrow> get_pageblock_flags_group E q a b t = take_bit (Suc b - a) flags)
    \<and> (\<forall>q c d. d < NR_PAGEBLOCK_BITS E \<longrightarrow> (same_block q \<longrightarrow> d < a \<or> b < c) \<longrightarrow>
        get_pageblock_flags_group E q c d t = get_pageblock_flags_group E q c d s)"
  unfolding same_block_def using flags_roundtrip [OF assms(1-4)] by blast

theorem pageblock_flags_roundtrip_witness:
  "\<exists>t. set_pageblock_flags_group sample_env 2000 5 0 2 sample_state = Some t
     \<and> get_pageblock_flags_group sample_env 1024 0 2 t = 5
     \<and> get_pageblock_flags_group sample_env 1023 0 2 t = get_pageblock_flags_group sample_env 1023 0 2 sample_state"
proof -
  have e: "page_zone sample_env q = 0" "pageblock_order sample_env = 10" "NR_PAGEBLOCK_BITS sample_env = 3" for q
    by (simp_all add: sample_env_def)
  have z: "z_start_pfn (zone_at sample_state z) = 0" "z_spanned_pages (zone_at sample_state z) = 4096" for z
    by (simp_all add: zone_at_def sample_state_def sample_zone_def)
  have idx: "pfn_to_bitidx sample_env 0 2000 sample_state = 3" "pfn_to_bitidx sample_env 0 1024 sample_state = 3"
    "pfn_to_bitidx sample_env 0 1023 sample_state = 0"
    by (simp_all add: pfn_to_bitidx_def e z)
  from pageblock_flags_roundtrip [of sample_state sample_env 2000 0 2 5] obtain t where
    t: "set_pageblock_flags_group sample_env 2000 5 0 2 sample_state = Some t"
    "\<And>q. pfn_to_bitidx sample_env 0 q sample_state = 3 \<Longrightarrow> get_pageblock_flags_group sample_env q 0 2 t = 5"
    "\<And>q. pfn_to_bitidx sample_env 0 q sample_state \<noteq> 3 \<Longrightarrow>
       get_pageblock_flags_group sample_env q 0 2 t = get_pageblock_flags_group sample_env q 0 2 sample_state"
    by (auto simp: e z idx take_bit_eq_mod)
  then show ?thesis using idx by auto
qed

section \<open>Isolating page blocks\<close>

text \<open>
  The notifier chain (outside this repository) answers with an error or the number of pages its
  members hold. \<open>page_count\<close> reads the head of a compound page.
\<close>

definition page_count :: "page_ptr \<Rightarrow> kstate \<Rightarrow> int" where
  "page_count p s = pg_count (page_at s (if PageTail p s then pg_first_page (page_at s p) else p))"

function count_immobile_loop :: "kenv \<Rightarrow> page_ptr \<Rightarrow> nat \<Rightarrow> nat \<Rightarrow> nat \<Rightarrow> kstate \<Rightarrow> bool" where
  "count_immobile_loop E pfn cnt iter found s =
     (if iter < pageblock_nr_pages E then
        (let check = pfn + iter
         in if \<not> pfn_valid_within E check then count_immobile_loop E pfn cnt (iter + 1) found s
            else if page_count check s = 0
            then count_immobile_loop E pfn cnt
              (if PageBuddy check s then iter + 2 ^ page_order check s else iter + 1) found s
            else let found = (if \<not> PageLRU check s then found + 1 else found)
                 in if found > cnt then False else count_immobile_loop E pfn cnt (iter + 1) found s)
      else True)"
  by pat_completeness auto
termination
  by (relation "measure (\<lambda>(E, pfn, cnt, iter, found, s). pageblock_nr_pages E - iter)")
    (auto intro!: diff_less_mono2)

declare count_immobile_loop.simps [simp del]

definition k__count_immobile_pages :: "kenv \<Rightarrow> alloc_env \<Rightarrow> zone_ptr \<Rightarrow> page_ptr \<Rightarrow> nat \<Rightarrow> kstate \<Rightarrow> bool" where
  "k__count_immobile_pages E W z page cnt s =
     (if zone_idx W z = ZONE_MOVABLE then True
      else if get_pageblock_migratetype E page s = MIGRATE_MOVABLE then True
      else count_immobile_loop E page cnt 0 0 s)"

definition is_pageblock_removable_nolock :: "kenv \<Rightarrow> alloc_env \<Rightarrow> page_ptr \<Rightarrow> kstate \<Rightarrow> bool" where
  "is_pageblock_removable_nolock E W page s = k__count_immobile_pages E W (page_zone E page) page 0 s"

definition EBUSY :: int where "EBUSY = 16"

definition set_migratetype_isolate ::
  "kenv \<Rightarrow> alloc_env \<Rightarrow> (page_ptr \<Rightarrow> kstate \<Rightarrow> nat option) \<Rightarrow> page_ptr \<Rightarrow> kstate \<Rightarrow> (int \<times> kstate) option" where
  "set_migratetype_isolate E W memory_isolate_notify page s = do {
     let z = page_zone E page;
     s \<leftarrow> spin_lock (ZoneLock z) s;
     let ret = (case memory_isolate_notify page s of None \<Rightarrow> - EBUSY
       | Some pages_found \<Rightarrow> if k__count_immobile_pages E W z page pages_found s then 0 else - EBUSY);
     s \<leftarrow> (if ret = 0 then do {
         s \<leftarrow> set_pageblock_migratetype E page MIGRATE_ISOLATE s;
         (moved, s) \<leftarrow> move_freepages_block E z page MIGRATE_ISOLATE s;
         Some s
       } else Some s);
     s \<leftarrow> spin_unlock (ZoneLock z) s;
     s \<leftarrow> (if ret = 0 then drain_all_pages E s else Some s);
     Some (ret, s)
   }"

definition unset_migratetype_isolate :: "kenv \<Rightarrow> page_ptr \<Rightarrow> kstate \<Rightarrow> kstate option" where
  "unset_migratetype_isolate E page s = do {
     let z = page_zone E page;
     s \<leftarrow> spin_lock (ZoneLock z) s;
     s \<leftarrow> (if get_pageblock_migratetype E page s \<noteq> MIGRATE_ISOLATE then Some s
       else do {
         s \<leftarrow> set_pageblock_migratetype E page MIGRATE_MOVABLE s;
         (moved, s) \<leftarrow> move_freepages_block E z page MIGRATE_MOVABLE s;
         Some s
       });
     spin_unlock (ZoneLock z) s
   }"

text \<open>Taking the free blocks of an isolated range out of the allocator for good.\<close>

function offline_loop :: "kenv \<Rightarrow> (page_ptr \<Rightarrow> bool) \<Rightarrow> zone_ptr \<Rightarrow> page_ptr \<Rightarrow> page_ptr \<Rightarrow> kstate \<Rightarrow> kstate option" where
  "offline_loop E pfn_valid z pfn end_pfn s =
     (if pfn < end_pfn then
        (if \<not> pfn_valid pfn then offline_loop E pfn_valid z (pfn + 1) end_pfn s
         else if page_count pfn s \<noteq> 0 \<or> \<not> PageBuddy pfn s then None
         else let order = page_order pfn s
           in case free_list_del z pfn s of None \<Rightarrow> None
            | Some s \<Rightarrow> (case rmv_page_order pfn s of None \<Rightarrow> None
            | Some s \<Rightarrow>
                let s = add_nr_free z order (- 1) s;
                    s = k__mod_zone_page_state E z NR_FREE_PAGES (- (2 ^ order)) s;
                    s = fold (\<lambda>i. set_bit_k PG_reserved (pfn + i)) [0 ..< 2 ^ order] s
                in offline_loop E pfn_valid z (pfn + 2 ^ order) end_pfn s))
      else Some s)"
  by pat_completeness auto
termination
  by (relation "measure (\<lambda>(E, v, z, pfn, end_pfn, s). end_pfn - pfn)") (auto intro!: diff_less_mono2)

declare offline_loop.simps [simp del]

definition k__offline_isolated_pages ::
  "kenv \<Rightarrow> (page_ptr \<Rightarrow> bool) \<Rightarrow> page_ptr \<Rightarrow> page_ptr \<Rightarrow> kstate \<Rightarrow> kstate option" where
  "k__offline_isolated_pages E pfn_valid start_pfn end_pfn s =
     (case find pfn_valid [start_pfn ..< end_pfn] of
        None \<Rightarrow> Some s
      | Some pfn \<Rightarrow> do {
          let z = page_zone E pfn;
          s \<leftarrow> spin_lock (ZoneLock z) s;
          s \<leftarrow> offline_loop E pfn_valid z start_pfn end_pfn s;
          spin_unlock (ZoneLock z) s
        })"

definition is_free_buddy_page :: "kenv \<Rightarrow> page_ptr \<Rightarrow> kstate \<Rightarrow> (bool \<times> kstate) option" where
  "is_free_buddy_page E page s = do {
     let z = page_zone E page;
     s \<leftarrow> spin_lock (ZoneLock z) s;
     let found = list_ex (\<lambda>order. let page_head = page - (page AND (2 ^ order - 1))
         in PageBuddy page_head s \<and> page_order page_head s \<ge> order) [0 ..< MAX_ORDER];
     s \<leftarrow> spin_unlock (ZoneLock z) s;
     Some (found, s)
   }"

section \<open>The reserve\<close>

text \<open>
  One page block of the loop of \<open>setup_zone_migrate_reserve\<close>; the number of blocks still to
  reserve is threaded through. \<open>page_to_nid\<close> and \<open>zone_to_nid\<close> are the nodes of a page and of a
  zone.
\<close>

definition reserve_block ::
  "kenv \<Rightarrow> (page_ptr \<Rightarrow> bool) \<Rightarrow> (page_ptr \<Rightarrow> nat) \<Rightarrow> (zone_ptr \<Rightarrow> nat) \<Rightarrow> zone_ptr \<Rightarrow> page_ptr \<Rightarrow>
     int \<times> kstate \<Rightarrow> (int \<times> kstate) option" where
  "reserve_block E pfn_valid page_to_nid zone_to_nid z pfn rs =
     (let (reserve, s) = rs
      in if \<not> pfn_valid pfn then Some (reserve, s)
      else if page_to_nid pfn \<noteq> zone_to_nid z then Some (reserve, s)
      else if PageReserved pfn s then Some (reserve, s)
      else let block_migratetype = get_pageblock_migratetype E pfn s
      in if reserve > 0 \<and> block_migratetype = MIGRATE_RESERVE then Some (reserve - 1, s)
      else if reserve > 0 \<and> block_migratetype = MIGRATE_MOVABLE then do {
        s \<leftarrow> set_pageblock_migratetype E pfn MIGRATE_RESERVE s;
        (moved, s) \<leftarrow> move_freepages_block E z pfn MIGRATE_RESERVE s;
        Some (reserve - 1, s)
      }
      else if block_migratetype = MIGRATE_RESERVE then do {
        s \<leftarrow> set_pageblock_migratetype E pfn MIGRATE_MOVABLE s;
        (moved, s) \<leftarrow> move_freepages_block E z pfn MIGRATE_MOVABLE s;
        Some (reserve, s)
      }
      else Some (reserve, s))"

text \<open>
  \<open>reserve\<close> is an \<open>int\<close>, computed from the watermark in an \<open>unsigned long\<close>; frame numbers do not
  wrap on the way to \<open>end_pfn\<close>.
\<close>

definition setup_zone_migrate_reserve ::
  "kenv \<Rightarrow> (page_ptr \<Rightarrow> bool) \<Rightarrow> (page_ptr \<Rightarrow> nat) \<Rightarrow> (zone_ptr \<Rightarrow> nat) \<Rightarrow> zone_ptr \<Rightarrow> kstate \<Rightarrow> kstate option" where
  "setup_zone_migrate_reserve E pfn_valid page_to_nid zone_to_nid z s = do {
     let start_pfn = z_start_pfn (zone_at s z);
     let end_pfn = start_pfn + z_spanned_pages (zone_at s z);
     let n = pageblock_nr_pages E;
     let min_wmark_pages = (word_of_int (z_watermark (zone_at s z) WMARK_MIN) :: ulong);
     let reserve = sint (drop_bit (pageblock_order E) ((min_wmark_pages + (of_nat n - 1)) div of_nat n * of_nat n));
     let reserve = min 2 reserve;
     (reserve, s) \<leftarrow> forK (reserve_block E pfn_valid page_to_nid zone_to_nid z)
       (map (\<lambda>i. start_pfn + i * n) [0 ..< (end_pfn - start_pfn + n - 1) div n]) (reserve, s);
     Some s
   }"


section \<open>Free pages\<close>

lemma head_of: "p - (p AND (2 ^ k - 1)) = 2 ^ k * (p div 2 ^ k)" for p :: nat
proof -
  have "p AND (2 ^ k - 1) = p mod 2 ^ k"
    by (simp add: take_bit_eq_mod [symmetric] take_bit_eq_mask mask_eq_exp_minus_1)
  then show ?thesis by (simp add: minus_mod_eq_mult_div)
qed

text \<open>
  With every zone in order, \<open>is_free_buddy_page\<close>, which looks for a marked head at each aligned
  address below the page, answers exactly whether the frame is free, and changes nothing.
\<close>

theorem is_free_buddy_page_exact:
  assumes ok: "\<forall>z. buddy_ok E z s" and "ZoneLock (page_zone E p) \<notin> k_held s"
  shows "is_free_buddy_page E p s = Some (p \<in> free_frames (page_zone E p) s, s)"
proof -
  let ?z = "page_zone E p"
  let ?head = "\<lambda>order. p - (p AND (2 ^ order - 1))"
  have "(\<exists>order < MAX_ORDER. PageBuddy (?head order) s \<and> page_order (?head order) s \<ge> order) \<longleftrightarrow> p \<in> free_frames ?z s"
  proof
    assume "\<exists>order < MAX_ORDER. PageBuddy (?head order) s \<and> page_order (?head order) s \<ge> order"
    then obtain k where k: "PageBuddy (?head k) s" "k \<le> page_order (?head k) s" by blast
    let ?h = "?head k" and ?zh = "page_zone E (?head k)"
    have blk: "(?h, page_order ?h s) \<in> blocks ?zh s"
      using buddy_okD(12) [OF ok [rule_format, of ?zh] refl k(1)] .
    have "?h \<le> p" "p < ?h + 2 ^ k"
      unfolding head_of using dividend_less_times_div [of "2 ^ k" p] by (simp_all add: add.commute)
    moreover have "(2 :: nat) ^ k \<le> 2 ^ page_order ?h s" using k(2) by (rule power_increasing) simp
    ultimately have "p \<in> span ?h (page_order ?h s)"
      unfolding span_iff using less_le_trans add_left_mono by blast
    then have fr: "p \<in> free_frames ?zh s" using block_span [OF blk] by blast
    from in_zone_zone [OF buddy_okD(7) [OF ok [rule_format, of ?zh] fr]] fr show "p \<in> free_frames ?z s" by simp
  next
    assume "p \<in> free_frames ?z s"
    then obtain q i where b: "(q, i) \<in> blocks ?z s" "p \<in> span q i" by (auto simp: free_frames_iff)
    note okz = ok [rule_format, of ?z]
    from buddy_okD(3) [OF okz b(1)] obtain m where q: "q = 2 ^ i * m" by (elim dvdE)
    have "p div 2 ^ i = m" using b(2) unfolding q by (intro div_nat_eqI) (simp_all add: mult.commute)
    then have "?head i = q" unfolding head_of q by simp
    then show "\<exists>order < MAX_ORDER. PageBuddy (?head order) s \<and> page_order (?head order) s \<ge> order"
      using block_order [OF okz b(1)] buddy_okD(4,5) [OF okz b(1)] by auto
  qed
  moreover have "PageBuddy q (s\<lparr>k_held := H\<rparr>) = PageBuddy q s" "page_order q (s\<lparr>k_held := H\<rparr>) = page_order q s" for q H
    by (simp_all add: PageBuddy_def page_order_def)
  ultimately show ?thesis
    using assms(2) by (simp add: is_free_buddy_page_def Let_def list_ex_iff Bex_def)
qed

lemma buddy_ok_cong:
  assumes "zone_at t z = zone_at s z" and "k_pages t = k_pages s"
  shows "buddy_ok E z t = buddy_ok E z s"
proof -
  have "page_at t = page_at s" using assms(2) by (simp add: page_at_def fun_eq_iff)
  moreover have "free_list t z = free_list s z" "nr_free z t = nr_free z s"
    using assms(1) by (simp_all add: free_list_def nr_free_def fun_eq_iff)
  ultimately show ?thesis
    using assms(1) by (simp add: buddy_ok_def blocks_def free_frames_def in_zone_def bad_range_def
        page_outside_zone_boundaries_def PageBuddy_def page_order_def PageCompound_def test_bit_def)
qed

text \<open>Only zone 0 has free pages.\<close>

definition one_zone_sample :: kstate where
  "one_zone_sample = buddy_sample\<lparr>k_zones := \<lambda>z. if z = 0 then k_zones buddy_sample 0 else sample_zone\<rparr>"

lemma one_zone_ok: "buddy_ok sample_env z one_zone_sample"
proof (cases "z = 0")
  case True
  have "buddy_ok sample_env 0 one_zone_sample = buddy_ok sample_env 0 buddy_sample"
    by (rule buddy_ok_cong) (simp_all add: one_zone_sample_def zone_at_def)
  with True sample_buddy_ok show ?thesis by simp
next
  case False
  then have "free_list one_zone_sample z = (\<lambda>_ _. [])" "nr_free z one_zone_sample = (\<lambda>_. 0)"
    by (simp_all add: free_list_def nr_free_def one_zone_sample_def zone_at_def sample_zone_def fun_eq_iff)
  moreover have "PageBuddy q one_zone_sample = PageBuddy q buddy_sample" for q
    by (simp add: PageBuddy_def page_at_def one_zone_sample_def)
  moreover have "pg_count (page_at one_zone_sample 8) = 0"
    by (simp add: page_at_def one_zone_sample_def buddy_sample_def idle_page_def)
  moreover have "page_zone sample_env q = 0" for q by (simp add: sample_env_def)
  ultimately show ?thesis
    using False by (simp add: buddy_ok_def blocks_def free_frames_def lists_ok_def sample_buddy)
qed

theorem is_free_buddy_page_exact_witness:
  "is_free_buddy_page sample_env 11 one_zone_sample = Some (True, one_zone_sample)"
proof -
  have "ZoneLock (page_zone sample_env 11) \<notin> k_held one_zone_sample"
    by (simp add: one_zone_sample_def buddy_sample_def sample_state_def)
  moreover have "free_frames 0 one_zone_sample = free_frames 0 buddy_sample"
    by (simp add: free_frames_def blocks_def free_list_def zone_at_def one_zone_sample_def)
  moreover have "page_zone sample_env 11 = 0" by (simp add: sample_env_def)
  ultimately show ?thesis
    using is_free_buddy_page_exact [of sample_env one_zone_sample 11] one_zone_ok by (simp add: sample_free_frames)
qed

end
