(* ===== verification/Swap.thy ===== *)
theory Swap
  imports Buddy
begin

text \<open>
  \<open>Linux/swap.c\<close>: dropping references to pages, the per-CPU page vectors through which pages
  reach the LRU lists, activation, and \<open>mark_page_accessed\<close>, which in this kernel marks the
  whole memory chain of a page as referenced. Also \<open>page_evictable\<close> of \<open>Linux/vmscan.c\<close> and
  \<open>is_mlocked_vma\<close> of \<open>Linux/internal.h\<close>, on which it rests. Disabling interrupts and pinning
  the CPU have no effect on a sequential state; the compound lock is not configured. A page
  vector is the list of its pages, and its \<open>cold\<close> flag is never set.
\<close>

section \<open>Evictable pages\<close>

definition is_mlocked_vma :: "kenv \<Rightarrow> vm_area \<Rightarrow> page_ptr \<Rightarrow> kstate \<Rightarrow> (bool \<times> kstate) option" where
  "is_mlocked_vma E vma page s = do {
     s \<leftarrow> guardK (\<not> PageLRU page s) s;
     if vm_flags vma AND (VM_LOCKED E OR VM_SPECIAL E) \<noteq> VM_LOCKED E then Some (False, s)
     else do {
       let (was, s) = TestSetPageMlocked page s;
       let s = (if \<not> was
          then count_vm_events E UNEVICTABLE_PGMLOCKED 1 (inc_zone_page_state E page NR_MLOCK s)
          else s);
       Some (True, s)
     }
   }"

definition page_evictable ::
  "kenv \<Rightarrow> page_ptr \<Rightarrow> vm_area option \<Rightarrow> kstate \<Rightarrow> (bool \<times> kstate) option" where
  "page_evictable E page vma s =
     (if mapping_unevictable E page s then Some (False, s)
      else if PageMlocked page s then Some (False, s)
      else case vma of None \<Rightarrow> Some (True, s)
        | Some v \<Rightarrow> map_option (\<lambda>(m, s). (\<not> m, s)) (is_mlocked_vma E v page s))"

section \<open>Dropping a reference\<close>

definition k__page_cache_release :: "kenv \<Rightarrow> page_ptr \<Rightarrow> kstate \<Rightarrow> kstate option" where
  "k__page_cache_release E page s =
     (if PageLRU page s then do {
        let z = page_zone E page;
        s \<leftarrow> spin_lock (LruLock z) s;
        s \<leftarrow> guardK (PageLRU page s) s;
        let s = ClearPageLRU page s;
        s \<leftarrow> del_page_from_lru E z page s;
        spin_unlock (LruLock z) s
      } else Some s)"

definition k__put_single_page :: "kenv \<Rightarrow> page_ptr \<Rightarrow> kstate \<Rightarrow> kstate option" where
  "k__put_single_page E page s = do {
     s \<leftarrow> k__page_cache_release E page s;
     free_hot_cold_page E page False s
   }"

text \<open>The destructor that \<open>prep_compound_page\<close> sets is \<open>free_compound_page\<close>.\<close>

definition k__put_compound_page :: "kenv \<Rightarrow> page_ptr \<Rightarrow> kstate \<Rightarrow> kstate option" where
  "k__put_compound_page E page s = do {
     s \<leftarrow> k__page_cache_release E page s;
     free_compound_page E page s
   }"

definition out_put_single :: "kenv \<Rightarrow> page_ptr \<Rightarrow> kstate \<Rightarrow> kstate option" where
  "out_put_single E page s = do {
     (zero, s) \<leftarrow> put_page_testzero page s;
     if zero then k__put_single_page E page s else Some s
   }"

definition out_put_head :: "kenv \<Rightarrow> page_ptr \<Rightarrow> page_ptr \<Rightarrow> kstate \<Rightarrow> kstate option" where
  "out_put_head E page_head page s = do {
     (zero, s) \<leftarrow> put_page_testzero page_head s;
     s \<leftarrow> (if zero then k__put_single_page E page_head s else Some s);
     out_put_single E page s
   }"

definition put_compound_page :: "kenv \<Rightarrow> page_ptr \<Rightarrow> kstate \<Rightarrow> kstate option" where
  "put_compound_page E page s =
     (if PageTail page s then do {
        let page_head = pg_first_page (page_at s page);
        let (got, s) = (if PageTail page s then get_page_unless_zero page_head s else (False, s));
        if got then
          (if \<not> PageHead page_head s then do {
             s \<leftarrow> guardK (\<not> PageTail page s) s;
             out_put_head E page_head page s
           }
           else if \<not> PageTail page s then do {
             s \<leftarrow> guardK (\<not> PageHead page_head s) s;
             out_put_head E page_head page s
           }
           else do {
             s \<leftarrow> guardK (page_head = pg_first_page (page_at s page)) s;
             (zero, s) \<leftarrow> put_page_testzero page_head s;
             s \<leftarrow> guardK (\<not> zero) s;
             s \<leftarrow> guardK (pg_count (page_at s page) > 0) s;
             let s = k__put_page page s;
             s \<leftarrow> guardK (pg_count (page_at s page_head) > 0) s;
             (zero, s) \<leftarrow> put_page_testzero page_head s;
             if zero then (if PageHead page_head s then k__put_compound_page E page_head s
                           else k__put_single_page E page_head s)
             else Some s
           })
        else do {
          s \<leftarrow> guardK (\<not> PageTail page s) s;
          out_put_single E page s
        }
      }
      else do {
        (zero, s) \<leftarrow> put_page_testzero page s;
        if zero then (if PageHead page s then k__put_compound_page E page s
                      else k__put_single_page E page s)
        else Some s
      })"

definition put_page :: "kenv \<Rightarrow> page_ptr \<Rightarrow> kstate \<Rightarrow> kstate option" where
  "put_page E page s =
     (if PageCompound page s then put_compound_page E page s
      else do {
        (zero, s) \<leftarrow> put_page_testzero page s;
        if zero then k__put_single_page E page s else Some s
      })"

text \<open>\<open>put_pages_list\<close> takes the pages from the tail of the list.\<close>

definition put_pages_list :: "kenv \<Rightarrow> page_ptr list \<Rightarrow> kstate \<Rightarrow> kstate option" where
  "put_pages_list E pages = forK (put_page E) (rev pages)"

text \<open>Changing to the zone of the next page, holding the LRU lock of one zone at a time.\<close>

definition unlock_zone :: "zone_ptr option \<Rightarrow> kstate \<Rightarrow> kstate option" where
  "unlock_zone zone s = (case zone of None \<Rightarrow> Some s | Some z \<Rightarrow> spin_unlock (LruLock z) s)"

definition switch_zone :: "zone_ptr option \<Rightarrow> zone_ptr \<Rightarrow> kstate \<Rightarrow> kstate option" where
  "switch_zone zone pagezone s =
     (if zone \<noteq> Some pagezone then do {
        s \<leftarrow> unlock_zone zone s;
        spin_lock (LruLock pagezone) s
      } else Some s)"

fun release_pages_loop ::
  "kenv \<Rightarrow> bool \<Rightarrow> page_ptr list \<Rightarrow> zone_ptr option \<Rightarrow> page_ptr list \<Rightarrow> kstate \<Rightarrow>
     (zone_ptr option \<times> page_ptr list \<times> kstate) option" where
  "release_pages_loop E cold [] zone pages_to_free s = Some (zone, pages_to_free, s)"
| "release_pages_loop E cold (page # pages) zone pages_to_free s =
     (if PageCompound page s then do {
        s \<leftarrow> unlock_zone zone s;
        s \<leftarrow> put_compound_page E page s;
        release_pages_loop E cold pages None pages_to_free s
      }
      else do {
        (zero, s) \<leftarrow> put_page_testzero page s;
        if \<not> zero then release_pages_loop E cold pages zone pages_to_free s
        else do {
          (zone, s) \<leftarrow> (if PageLRU page s then do {
              s \<leftarrow> switch_zone zone (page_zone E page) s;
              s \<leftarrow> guardK (PageLRU page s) s;
              let s = ClearPageLRU page s;
              s \<leftarrow> del_page_from_lru E (page_zone E page) page s;
              Some (Some (page_zone E page), s)
            } else Some (zone, s));
          let pages_to_free = pages_to_free @ [page];
          if length pages_to_free = pagevec_size E then do {
            s \<leftarrow> unlock_zone zone s;
            s \<leftarrow> k__pagevec_free E pages_to_free cold s;
            release_pages_loop E cold pages None [] s
          }
          else release_pages_loop E cold pages zone pages_to_free s
        }
      })"

definition release_pages :: "kenv \<Rightarrow> page_ptr list \<Rightarrow> bool \<Rightarrow> kstate \<Rightarrow> kstate option" where
  "release_pages E pages cold s = do {
     (zone, pages_to_free, s) \<leftarrow> release_pages_loop E cold pages None [] s;
     s \<leftarrow> unlock_zone zone s;
     if pages_to_free = [] then Some s else k__pagevec_free E pages_to_free cold s
   }"

section \<open>Page vectors\<close>

definition lru_move_tail :: "zone_ptr \<Rightarrow> page_ptr \<Rightarrow> lru_list \<Rightarrow> kstate \<Rightarrow> kstate option" where
  "lru_move_tail z p l s = do {
     s \<leftarrow> lru_list_del z p s;
     Some (upd_zone z (\<lambda>zn. zn\<lparr>z_lru := (z_lru zn)(l := z_lru zn l @ [p])\<rparr>) s)
   }"

fun move_tail_loop ::
  "kenv \<Rightarrow> page_ptr list \<Rightarrow> zone_ptr option \<Rightarrow> int \<Rightarrow> kstate \<Rightarrow> (zone_ptr option \<times> int \<times> kstate) option" where
  "move_tail_loop E [] zone pgmoved s = Some (zone, pgmoved, s)"
| "move_tail_loop E (page # pages) zone pgmoved s = do {
     let pagezone = page_zone E page;
     s \<leftarrow> switch_zone zone pagezone s;
     (pgmoved, s) \<leftarrow> (if PageLRU page s \<and> \<not> PageActive page s \<and> \<not> PageUnevictable page s
        then do {
          s \<leftarrow> lru_move_tail pagezone page (page_lru_base_type page s) s;
          Some (pgmoved + 1, s)
        } else Some (pgmoved, s));
     move_tail_loop E pages (Some pagezone) pgmoved s
   }"

definition pagevec_move_tail :: "kenv \<Rightarrow> page_ptr list \<Rightarrow> kstate \<Rightarrow> kstate option" where
  "pagevec_move_tail E pvec s = do {
     (zone, pgmoved, s) \<leftarrow> move_tail_loop E pvec None 0 s;
     s \<leftarrow> unlock_zone zone s;
     let s = count_vm_events E PGROTATED pgmoved s;
     release_pages E pvec False s
   }"

definition set_rotate_pvec :: "nat \<Rightarrow> page_ptr list \<Rightarrow> kstate \<Rightarrow> kstate" where
  "set_rotate_pvec cpu xs s = s\<lparr>k_lru_rotate_pvecs := (k_lru_rotate_pvecs s)(cpu := xs)\<rparr>"

definition set_add_pvec :: "nat \<Rightarrow> lru_list \<Rightarrow> page_ptr list \<Rightarrow> kstate \<Rightarrow> kstate" where
  "set_add_pvec cpu l xs s = s\<lparr>k_lru_add_pvecs :=
     (k_lru_add_pvecs s)(cpu := (k_lru_add_pvecs s cpu)(l := xs))\<rparr>"

definition rotate_reclaimable_page :: "kenv \<Rightarrow> page_ptr \<Rightarrow> kstate \<Rightarrow> kstate option" where
  "rotate_reclaimable_page E page s =
     (if \<not> PageLocked page s \<and> \<not> PageDirty page s \<and> \<not> PageActive page s
         \<and> \<not> PageUnevictable page s \<and> PageLRU page s
      then do {
        let s = get_page page s;
        let pvec = k_lru_rotate_pvecs s (cur_cpu E) @ [page];
        let s = set_rotate_pvec (cur_cpu E) pvec s;
        if length pvec = pagevec_size E then do {
          s \<leftarrow> pagevec_move_tail E pvec s;
          Some (set_rotate_pvec (cur_cpu E) [] s)
        } else Some s
      } else Some s)"

definition update_page_reclaim_stat :: "zone_ptr \<Rightarrow> bool \<Rightarrow> bool \<Rightarrow> kstate \<Rightarrow> kstate" where
  "update_page_reclaim_stat z file rotated = upd_zone z (\<lambda>zn.
     let f = of_bool file;
         rs = z_reclaim_stat zn;
         rs = rs\<lparr>recent_scanned := (recent_scanned rs)(f := recent_scanned rs f + 1)\<rparr>;
         rs = (if rotated
               then rs\<lparr>recent_rotated := (recent_rotated rs)(f := recent_rotated rs f + 1)\<rparr> else rs)
     in zn\<lparr>z_reclaim_stat := rs\<rparr>)"

text \<open>The part of \<open>activate_page\<close> under the LRU lock.\<close>

definition activate_locked :: "kenv \<Rightarrow> zone_ptr \<Rightarrow> page_ptr \<Rightarrow> kstate \<Rightarrow> kstate option" where
  "activate_locked E z page s =
     (if PageLRU page s \<and> \<not> PageActive page s \<and> \<not> PageUnevictable page s
      then do {
        let file = page_is_file_cache page s;
        let lru = page_lru_base_type page s;
        s \<leftarrow> del_page_from_lru_list E z page lru s;
        let s = SetPageActive page s;
        let lru = lru + LRU_ACTIVE;
        let s = add_page_to_lru_list E z page lru s;
        let s = count_vm_events E PGACTIVATE 1 s;
        Some (update_page_reclaim_stat z file True s)
      } else Some s)"

definition activate_page :: "kenv \<Rightarrow> page_ptr \<Rightarrow> kstate \<Rightarrow> kstate option" where
  "activate_page E page s = do {
     let z = page_zone E page;
     s \<leftarrow> spin_lock (LruLock z) s;
     s \<leftarrow> activate_locked E z page s;
     spin_unlock (LruLock z) s
   }"

text \<open>
  \<open>mark_page_accessed\<close>. The chain is written through the page's pointer without its lock.
\<close>

definition touch_chain :: "page_ptr \<Rightarrow> kstate \<Rightarrow> kstate option" where
  "touch_chain page s = (case pg_chain (page_at s page) of
      None \<Rightarrow> Some s
    | Some c \<Rightarrow> upd_chain c (\<lambda>ch. ch\<lparr>mc_ref_counter := mc_nr_links ch, mc_delegate := Some page\<rparr>) s)"

definition mark_page_accessed :: "kenv \<Rightarrow> page_ptr \<Rightarrow> kstate \<Rightarrow> kstate option" where
  "mark_page_accessed E page s = do {
     s \<leftarrow> touch_chain page s;
     (test, s) \<leftarrow> (if \<not> PageActive page s \<and> \<not> PageUnevictable page s then do {
         (r, s) \<leftarrow> PageReferenced page s;
         Some (r \<noteq> 0 \<and> PageLRU page s, s)
       } else Some (False, s));
     if test then do {
       s \<leftarrow> (if PageLinked page s \<and> \<not> k__PageReferenced page s
             then SetPageReferenced page s else Some s);
       s \<leftarrow> activate_page E page s;
       ClearPageReferenced page s
     }
     else if \<not> k__PageReferenced page s then SetPageReferenced page s
     else Some s
   }"

fun pagevec_lru_add_loop ::
  "kenv \<Rightarrow> lru_list \<Rightarrow> page_ptr list \<Rightarrow> zone_ptr option \<Rightarrow> kstate \<Rightarrow> (zone_ptr option \<times> kstate) option" where
  "pagevec_lru_add_loop E lru [] zone s = Some (zone, s)"
| "pagevec_lru_add_loop E lru (page # pages) zone s = do {
     let pagezone = page_zone E page;
     s \<leftarrow> switch_zone zone pagezone s;
     s \<leftarrow> guardK (\<not> PageActive page s) s;
     s \<leftarrow> guardK (\<not> PageUnevictable page s) s;
     s \<leftarrow> guardK (\<not> PageLRU page s) s;
     let s = SetPageLRU page s;
     let active = is_active_lru lru;
     let file = is_file_lru lru;
     let s = (if active then SetPageActive page s else s);
     let s = update_page_reclaim_stat pagezone file active s;
     let s = add_page_to_lru_list E pagezone page lru s;
     pagevec_lru_add_loop E lru pages (Some pagezone) s
   }"

definition k____pagevec_lru_add :: "kenv \<Rightarrow> page_ptr list \<Rightarrow> lru_list \<Rightarrow> kstate \<Rightarrow> kstate option" where
  "k____pagevec_lru_add E pvec lru s = do {
     s \<leftarrow> guardK (\<not> is_unevictable_lru lru) s;
     (zone, s) \<leftarrow> pagevec_lru_add_loop E lru pvec None s;
     s \<leftarrow> unlock_zone zone s;
     release_pages E pvec False s
   }"

definition k__lru_cache_add :: "kenv \<Rightarrow> page_ptr \<Rightarrow> lru_list \<Rightarrow> kstate \<Rightarrow> kstate option" where
  "k__lru_cache_add E page lru s = do {
     let s = get_page page s;
     let pvec = k_lru_add_pvecs s (cur_cpu E) lru @ [page];
     let s = set_add_pvec (cur_cpu E) lru pvec s;
     if length pvec = pagevec_size E then do {
       s \<leftarrow> k____pagevec_lru_add E pvec lru s;
       Some (set_add_pvec (cur_cpu E) lru [] s)
     } else Some s
   }"

definition lru_cache_add_lru :: "kenv \<Rightarrow> page_ptr \<Rightarrow> lru_list \<Rightarrow> kstate \<Rightarrow> kstate option" where
  "lru_cache_add_lru E page lru s = do {
     s \<leftarrow> (if PageActive page s then do {
         s \<leftarrow> guardK (\<not> PageUnevictable page s) s;
         Some (ClearPageActive page s)
       }
       else if PageUnevictable page s then do {
         s \<leftarrow> guardK (\<not> PageActive page s) s;
         Some (ClearPageUnevictable page s)
       }
       else Some s);
     s \<leftarrow> guardK (\<not> (PageLRU page s \<or> PageActive page s \<or> PageUnevictable page s)) s;
     k__lru_cache_add E page lru s
   }"

definition add_page_to_unevictable_list :: "kenv \<Rightarrow> page_ptr \<Rightarrow> kstate \<Rightarrow> kstate option" where
  "add_page_to_unevictable_list E page s = do {
     let z = page_zone E page;
     s \<leftarrow> spin_lock (LruLock z) s;
     let s = SetPageUnevictable page s;
     let s = SetPageLRU page s;
     let s = add_page_to_lru_list E z page LRU_UNEVICTABLE s;
     spin_unlock (LruLock z) s
   }"

definition drain_cpu_pagevecs :: "kenv \<Rightarrow> nat \<Rightarrow> kstate \<Rightarrow> kstate option" where
  "drain_cpu_pagevecs E cpu s = do {
     s \<leftarrow> forK (\<lambda>lru s. if k_lru_add_pvecs s cpu lru \<noteq> [] then do {
           s \<leftarrow> k____pagevec_lru_add E (k_lru_add_pvecs s cpu lru) lru s;
           Some (set_add_pvec cpu lru [] s)
         } else Some s) for_each_lru s;
     if k_lru_rotate_pvecs s cpu \<noteq> [] then do {
       s \<leftarrow> pagevec_move_tail E (k_lru_rotate_pvecs s cpu) s;
       Some (set_rotate_pvec cpu [] s)
     } else Some s
   }"

definition lru_add_drain :: "kenv \<Rightarrow> kstate \<Rightarrow> kstate option" where
  "lru_add_drain E = drain_cpu_pagevecs E (cur_cpu E)"

text \<open>\<open>schedule_on_each_cpu\<close> runs the work on every online CPU and waits for it.\<close>

definition lru_add_drain_all :: "kenv \<Rightarrow> kstate \<Rightarrow> kstate option" where
  "lru_add_drain_all E = forK (\<lambda>cpu. lru_add_drain (E\<lparr>cur_cpu := cpu\<rparr>)) [0 ..< online_cpus E]"

definition k__pagevec_release :: "kenv \<Rightarrow> page_ptr list \<Rightarrow> kstate \<Rightarrow> kstate option" where
  "k__pagevec_release E pvec s = do {
     s \<leftarrow> lru_add_drain E s;
     release_pages E pvec False s
   }"

definition lru_add_page_tail :: "kenv \<Rightarrow> zone_ptr \<Rightarrow> page_ptr \<Rightarrow> page_ptr \<Rightarrow> kstate \<Rightarrow> kstate option" where
  "lru_add_page_tail E z page page_tail s = do {
     s \<leftarrow> guardK (PageHead page s) s;
     s \<leftarrow> guardK (\<not> PageCompound page_tail s) s;
     s \<leftarrow> guardK (\<not> PageLRU page_tail s) s;
     s \<leftarrow> guardK (LruLock z \<in> k_held s) s;
     let s = SetPageLRU page_tail s;
     (ev, s) \<leftarrow> page_evictable E page_tail None s;
     if ev then do {
       let active = PageActive page s;
       let lru = (if active then LRU_ACTIVE_ANON else LRU_INACTIVE_ANON);
       let s = (if active then SetPageActive page_tail s else s);
       let s = update_page_reclaim_stat z False active s;
       let head = (if PageLRU page s then BeforePage page else ListHead lru);
       Some (k__add_page_to_lru_list E z page_tail lru head s)
     }
     else do {
       let s = SetPageUnevictable page_tail s;
       Some (add_page_to_lru_list E z page_tail LRU_UNEVICTABLE s)
     }
   }"

definition pagevec_strip :: "kenv \<Rightarrow> page_ptr list \<Rightarrow> kstate \<Rightarrow> kstate option" where
  "pagevec_strip E = forK (\<lambda>page s.
     if page_has_private page s \<and> \<not> PageLocked page s then do {
       let s = set_bit_k PG_locked page s;
       let s = (if page_has_private page s then try_to_release_page E page s else s);
       s \<leftarrow> guardK (PageLocked page s) s;
       Some (clear_bit_k PG_locked page s)
     } else Some s)"

definition swap_setup :: "kenv \<Rightarrow> nat \<Rightarrow> nat" where
  "swap_setup E totalram_pages =
     (let megs = totalram_pages div 2 ^ (20 - PAGE_SHIFT E)
      in if megs < 16 then 2 else 3)"

section \<open>The LRU operations and the memory chains\<close>

lemma add_page_to_lru_list_quiet [kframe]:
  "chain_quiet s (k__add_page_to_lru_list E z p l h s)"
  "chain_quiet s (add_page_to_lru_list E z p l s)"
  "chain_quiet s (update_page_reclaim_stat z f r s)"
  by (simp_all add: add_page_to_lru_list_def k__add_page_to_lru_list_def
      update_page_reclaim_stat_def)

lemmas lru_quiet_simps [simp] = add_page_to_lru_list_quiet [THEN chain_quiet_iff]

lemma lru_list_del_quiet: "lru_list_del z p s = Some t \<Longrightarrow> chain_quiet s t"
  by (auto simp: lru_list_del_def split: if_splits)

lemma del_page_from_lru_list_quiet: "del_page_from_lru_list E z p l s = Some t \<Longrightarrow> chain_quiet s t"
  by (auto simp: del_page_from_lru_list_def split: Option.bind_splits dest: lru_list_del_quiet)

lemma del_page_from_lru_quiet: "del_page_from_lru E z p s = Some t \<Longrightarrow> chain_quiet s t"
  by (auto simp: del_page_from_lru_eq clear_lru_state_def split: if_splits)

lemma page_cache_release_quiet:
  assumes "k__page_cache_release E p s = Some t"
  shows "chain_quiet s t"
proof (cases "PageLRU p s")
  case True
  let ?l = "LruLock (page_zone E p)"
  let ?s0 = "s\<lparr>k_held := insert ?l (k_held s)\<rparr>"
  from assms True obtain u where u: "?l \<notin> k_held s"
    "del_page_from_lru E (page_zone E p) p (ClearPageLRU p ?s0) = Some u" "spin_unlock ?l u = Some t"
    by (auto simp: k__page_cache_release_def Let_def split: Option.bind_splits if_splits)
  have "chain_quiet ?s0 u"
    by (rule chain_quiet_trans [OF _ del_page_from_lru_quiet [OF u(2)]]) (simp del: bits_held)
  then show ?thesis
    by (rule locked_quiet [OF u(1) _ u(3)])
qed (use assms in \<open>simp add: k__page_cache_release_def\<close>)

lemma put_single_page_freed:
  assumes "k__put_single_page E p s = Some t" and "mlock_quiet E" and "chains_ok (view s)"
  shows "\<exists>P \<subseteq> {p}. chain_freed P s t"
proof -
  from assms(1) obtain u where u: "k__page_cache_release E p s = Some u" "free_hot_cold_page E p False u = Some t"
    by (auto simp: k__put_single_page_def split: Option.bind_splits)
  note q = page_cache_release_quiet [OF u(1)]
  from free_hot_cold_page_freed [OF u(2) assms(2) chains_ok_quiet [OF q assms(3)]]
  show ?thesis
    by (auto intro: chain_freed_quiet(1) [OF q])
qed

lemma put_compound_page_dtor_freed:
  assumes "k__put_compound_page E p s = Some t" and "mlock_quiet E" and "chains_ok (view s)"
  shows "\<exists>P \<subseteq> {p}. chain_freed P s t"
proof -
  from assms(1) obtain u where u: "k__page_cache_release E p s = Some u" "free_compound_page E p u = Some t"
    by (auto simp: k__put_compound_page_def split: Option.bind_splits)
  note q = page_cache_release_quiet [OF u(1)]
  from free_pages_ok_freed [OF u(2) [unfolded free_compound_page_def] assms(2) chains_ok_quiet [OF q assms(3)]]
  show ?thesis
    by (auto intro: chain_freed_quiet(1) [OF q])
qed

lemma put_page_testzero_quiet: "put_page_testzero p s = Some (z, t) \<Longrightarrow> chain_quiet s t"
  by (auto simp: put_page_testzero_def Let_def split: if_splits intro: kframe)

lemma chain_freed_none: "chains_ok (view s) \<Longrightarrow> chain_quiet s t \<Longrightarrow> \<exists>P \<subseteq> {p}. chain_freed P s t"
  by (intro exI [of _ "{}"])
    (auto simp: chain_freed_def chain_quiet_def same_rest_def simp flip: view_sel(2))

lemma put_last_freed:
  assumes "(if z then (if head then k__put_compound_page E p s else k__put_single_page E p s) else Some s) = Some t"
    and "mlock_quiet E" and "chains_ok (view s)"
  shows "\<exists>P \<subseteq> {p}. chain_freed P s t"
  using assms put_compound_page_dtor_freed [of E p s t] put_single_page_freed [of E p s t]
    chain_freed_none [of s s p]
  by (auto split: if_splits)

lemmas put_last_single_freed = put_last_freed [where head = False, unfolded if_False]

lemma put_testzero_freed:
  assumes "put_page_testzero p s = Some (z, u)" and "chains_ok (view s)"
    and "chains_ok (view u) \<Longrightarrow> \<exists>P \<subseteq> A. chain_freed P u t"
  shows "\<exists>P \<subseteq> A. chain_freed P s t"
proof -
  note q = put_page_testzero_quiet [OF assms(1)]
  from assms(3) [OF chains_ok_quiet [OF q assms(2)]] show ?thesis
    by (blast intro: chain_freed_quiet(1) [OF q])
qed

lemma get_page_unless_zero_quiet: "get_page_unless_zero p s = (g, t) \<Longrightarrow> chain_quiet s t"
  by (auto simp: get_page_unless_zero_def Let_def split: if_splits intro: kframe)

lemma out_put_single_freed:
  assumes "out_put_single E p s = Some t" and "mlock_quiet E" and "chains_ok (view s)"
  shows "\<exists>P \<subseteq> {p}. chain_freed P s t"
proof -
  from assms(1) obtain z u where u: "put_page_testzero p s = Some (z, u)"
    "(if z then k__put_single_page E p u else Some u) = Some t"
    by (auto simp: out_put_single_def split: Option.bind_splits)
  from put_last_single_freed [OF u(2) assms(2)] show ?thesis
    by (rule put_testzero_freed [OF u(1) assms(3)])
qed

lemma out_put_head_freed:
  assumes "out_put_head E h p s = Some t" and "mlock_quiet E" and "chains_ok (view s)"
  shows "\<exists>P \<subseteq> {p, h}. chain_freed P s t"
proof -
  from assms(1) obtain z u v where u: "put_page_testzero h s = Some (z, u)"
    "(if z then k__put_single_page E h u else Some u) = Some v" "out_put_single E p v = Some t"
    by (auto simp: out_put_head_def split: Option.bind_splits)
  have "\<exists>P \<subseteq> {p, h}. chain_freed P u t" if "chains_ok (view u)"
  proof -
    from put_last_single_freed [OF u(2) assms(2) that] obtain P where
      P: "P \<subseteq> {h}" "chain_freed P u v" by blast
    then have "chains_ok (view v)" by (simp add: chain_freed_def)
    from out_put_single_freed [OF u(3) assms(2) this] obtain Q where "Q \<subseteq> {p}" "chain_freed Q v t" by blast
    with P show ?thesis by (intro exI [of _ "P \<union> Q"]) (auto intro: chain_freed_trans)
  qed
  then show ?thesis by (rule put_testzero_freed [OF u(1) assms(3)])
qed

lemma put_compound_page_freed:
  assumes "put_compound_page E p s = Some t" and "mlock_quiet E" and "chains_ok (view s)"
  shows "\<exists>P \<subseteq> (if PageTail p s then {p, pg_first_page (page_at s p)} else {p}). chain_freed P s t"
proof (cases "PageTail p s")
  case False
  with assms(1) obtain z u where u: "put_page_testzero p s = Some (z, u)"
    "(if z then (if PageHead p u then k__put_compound_page E p u else k__put_single_page E p u) else Some u) = Some t"
    by (auto simp: put_compound_page_def split: Option.bind_splits)
  have "\<exists>P \<subseteq> {p}. chain_freed P s t"
    by (rule put_testzero_freed [OF u(1) assms(3)]) (rule put_last_freed [OF u(2) assms(2)])
  with False show ?thesis by simp
next
  case True
  let ?h = "pg_first_page (page_at s p)"
  obtain g u where g: "get_page_unless_zero ?h s = (g, u)" by fastforce
  note q = get_page_unless_zero_quiet [OF g]
  note oku = chains_ok_quiet [OF q assms(3)]
  have "\<exists>P \<subseteq> {p, ?h}. chain_freed P u t"
  proof (cases "g \<and> PageHead ?h u \<and> PageTail p u")
    case True
    with assms(1) \<open>PageTail p s\<close> g obtain v w z where
      v: "put_page_testzero ?h u = Some (False, v)"
      and w: "put_page_testzero ?h (k__put_page p v) = Some (z, w)"
      and t: "(if z then (if PageHead ?h w then k__put_compound_page E ?h w else k__put_single_page E ?h w) else Some w) = Some t"
      by (auto simp: put_compound_page_def Let_def split: Option.bind_splits if_splits)
    note qv = put_page_testzero_quiet [OF v]
    have qk: "chain_quiet u (k__put_page p v)" by (rule chain_quiet_trans [OF qv]) (simp add: kframe)
    have "\<exists>P \<subseteq> {?h}. chain_freed P (k__put_page p v) t"
      by (rule put_testzero_freed [OF w chains_ok_quiet [OF qk oku]]) (rule put_last_freed [OF t assms(2)])
    then show ?thesis by (blast intro: chain_freed_quiet(1) [OF qk])
  next
    case False
    with assms(1) \<open>PageTail p s\<close> g have "out_put_head E ?h p u = Some t \<or> out_put_single E p u = Some t"
      by (auto simp: put_compound_page_def Let_def split: Option.bind_splits if_splits)
    with out_put_head_freed [of E ?h p u t] out_put_single_freed [of E p u t] assms(2) oku show ?thesis
      by blast
  qed
  with True show ?thesis by (auto intro: chain_freed_quiet(1) [OF q])
qed

text \<open>
  C24. Dropping a reference to a page with \<open>put_page\<close>, ordinary or compound, with all chains in
  order: the page can only leave its chain, and so can the head of its compound page when it is a
  tail; no other page changes its chain, all chains stay in order and no lock stays held, whether a
  page was freed or not.
\<close>

theorem put_page_keeps_chains:
  assumes "put_page E p s = Some t" and "mlock_quiet E" and "chains_ok (view s)"
  shows "chains_ok (view t) \<and> k_held t = k_held s
    \<and> (\<forall>q. q \<noteq> p \<and> \<not> (PageTail p s \<and> q = pg_first_page (page_at s p)) \<longrightarrow>
        pg_chain (page_at t q) = pg_chain (page_at s q))
    \<and> (\<forall>q. pg_chain (page_at t q) \<in> {None, pg_chain (page_at s q)})"
proof -
  have "\<exists>P \<subseteq> (if PageTail p s then {p, pg_first_page (page_at s p)} else {p}). chain_freed P s t"
  proof (cases "PageCompound p s")
    case True
    with assms(1) put_compound_page_freed [OF _ assms(2,3), of p t] show ?thesis
      by (simp add: put_page_def)
  next
    case False
    with assms(1) have "out_put_single E p s = Some t" "\<not> PageTail p s"
      by (simp_all add: put_page_def out_put_single_def PageCompound_iff)
    with out_put_single_freed [OF _ assms(2,3), of p t] show ?thesis by simp
  qed
  then show ?thesis
    by (auto simp: chain_freed_def same_rest_def split: if_splits)
qed

section \<open>Activation\<close>

lemma activate_locked_quiet: "activate_locked E z p s = Some t \<Longrightarrow> chain_quiet s t"
  by (auto simp: activate_locked_def Let_def split: Option.bind_splits if_splits
      dest: del_page_from_lru_list_quiet)

lemma activate_page_quiet:
  assumes "activate_page E p s = Some t"
  shows "chain_quiet s t"
proof -
  let ?l = "LruLock (page_zone E p)"
  from assms obtain u where u: "?l \<notin> k_held s" "spin_unlock ?l u = Some t"
    "activate_locked E (page_zone E p) p (s\<lparr>k_held := insert ?l (k_held s)\<rparr>) = Some u"
    by (auto simp: activate_page_def Let_def split: Option.bind_splits)
  then show ?thesis
    by (blast intro: locked_quiet activate_locked_quiet)
qed

lemma clear_set_bits_lru [simp]:
  "lru_wf (set_bit_k f p s) z = lru_wf s z" "lru_wf (s\<lparr>k_held := H\<rparr>) z = lru_wf s z"
  "lru_size E (set_bit_k f p s) z l = lru_size E s z l"
  "lru_size E (s\<lparr>k_held := H\<rparr>) z l = lru_size E s z l"
  "lru_wf (count_vm_events E e n s) z = lru_wf s z"
  "lru_size E (count_vm_events E' e n s) z l = lru_size E s z l"
  by (simp_all add: lru_wf_def lru_size_def)

lemma reclaim_stat_zone [simp]:
  "z_lru (zone_at (update_page_reclaim_stat z f r s) y) = z_lru (zone_at s y)"
  "page_at (update_page_reclaim_stat z f r s) p = page_at s p"
  "test_bit g p (update_page_reclaim_stat z f r s) = test_bit g p s"
  "k_held (update_page_reclaim_stat z f r s) = k_held s"
  "zone_count n (update_page_reclaim_stat z f r s) = zone_count n s"
  by (auto simp: update_page_reclaim_stat_def zone_at_upd_zone Let_def intro!: zone_count_cong)

lemma lru_ok_frame:
  assumes "z_lru (zone_at t z) = z_lru (zone_at s z)" and "zone_count n t = zone_count n s"
    and "\<And>l p. p \<in> set (z_lru (zone_at s z) l) \<Longrightarrow> page_at t p = page_at s p"
  shows "lru_ok E n t z = lru_ok E n s z"
proof -
  have "page_lru p t = page_lru p s \<and> PageLRU p t = PageLRU p s"
    if "p \<in> set (z_lru (zone_at s z) l)" for p l
    using assms(3) [OF that]
    by (simp add: page_lru_def page_lru_base_type_def page_is_file_cache_def PageLinked_def test_bit_def)
  with assms(1,2) show ?thesis
    by (auto simp: lru_ok_def lru_wf_def lru_acct_def lru_drift_def lru_size_def lru_placed_def)
qed

lemma lru_ok_on_page_lru:
  assumes "lru_ok E n s z" and "on_lru p (zone_at s z)"
  shows "p \<in> set (z_lru (zone_at s z) (page_lru p s))"
proof -
  from assms obtain l where l: "p \<in> set (z_lru (zone_at s z) l)"
    by (auto simp: lru_ok_def on_lru_wf)
  with assms(1) have "page_lru p s = l"
    by (auto simp: lru_ok_def lru_placed_def)
  with l show ?thesis by simp
qed

text \<open>
  On lists that are in order, \<open>activate_page\<close> returns, keeps the lists in order, and leaves
  an evictable page that was on a list active and on the active list of its kind; other pages
  are not touched.
\<close>

theorem activate_page_correct:
  assumes "lru_ok E n s (page_zone E p)" and "cur_cpu E < n"
    and "LruLock (page_zone E p) \<notin> k_held s"
    and "PageLRU p s = on_lru p (zone_at s (page_zone E p))"
  shows "\<exists>t. activate_page E p s = Some t \<and> k_held t = k_held s
    \<and> lru_ok E n t (page_zone E p)
    \<and> (\<forall>q. q \<noteq> p \<longrightarrow> page_at t q = page_at s q)
    \<and> (PageLRU p s \<and> \<not> PageUnevictable p s \<longrightarrow>
        PageActive p t \<and> p \<in> set (z_lru (zone_at t (page_zone E p)) (page_lru_base_type p s + LRU_ACTIVE)))"
proof (cases "PageLRU p s \<and> \<not> PageActive p s \<and> \<not> PageUnevictable p s")
  case False
  let ?z = "page_zone E p"
  have "activate_page E p s = Some s"
    using False assms(3) by (auto simp: activate_page_def activate_locked_def)
  moreover have "p \<in> set (z_lru (zone_at s ?z) (page_lru_base_type p s + LRU_ACTIVE))"
    if "PageLRU p s" "\<not> PageUnevictable p s" "PageActive p s"
    using lru_ok_on_page_lru [OF assms(1), of p] that assms(4) by (simp add: page_lru_def Let_def)
  ultimately show ?thesis
    using False assms(1) by auto
next
  case True
  let ?z = "page_zone E p" and ?b = "page_lru_base_type p s"
  let ?s0 = "s\<lparr>k_held := insert (LruLock ?z) (k_held s)\<rparr>"
  from assms(1) have wf: "lru_wf s ?z" and acct: "lru_acct E n s ?z" and pl: "lru_placed s ?z"
    by (simp_all add: lru_ok_def)
  from True assms(4) wf pl have on: "p \<in> set (z_lru (zone_at s ?z) ?b)"
    using lru_ok_on_page_lru [OF assms(1), of p] by (simp add: page_lru_def Let_def)
  define u where "u = k__mod_zone_page_state E ?z (NR_LRU_BASE + ?b) (- hpage_nr_pages E p)
      (upd_zone ?z (lru_remove p) ?s0)"
  have u: "del_page_from_lru_list E ?z p ?b ?s0 = Some u"
    using del_page_from_lru_list_Some [of ?s0 ?z p ?b E ?b] wf on by (simp add: u_def)
  define v where "v = SetPageActive p u"
  define w where "w = add_page_to_lru_list E ?z p (?b + LRU_ACTIVE) v"
  define x where "x = update_page_reclaim_stat ?z (page_is_file_cache p s) True (count_vm_events E PGACTIVATE 1 w)"
  have base: "page_lru_base_type p ?s0 = ?b" "page_is_file_cache p ?s0 = page_is_file_cache p s"
    by (auto simp: page_lru_base_type_def page_is_file_cache_def)
  have run: "activate_page E p s = Some (x\<lparr>k_held := k_held s\<rparr>)"
    using True assms(3) u base
    by (simp add: activate_page_def activate_locked_def Let_def x_def w_def v_def
        add_page_to_lru_list_def k__add_page_to_lru_list_def u_def insert_Diff_if)
  have off: "\<not> on_lru p (zone_at v ?z)"
    by (simp add: v_def u_def on_lru_iff zone_at_upd_zone)
  have wfv: "lru_wf v ?z"
    using wf by (simp add: v_def u_def lru_wf_remove)
  have driftv: "lru_drift E n v ?z m = lru_drift E n s ?z m" for m
    using lru_drift_del [OF assms(2), of ?s0 ?z p ?b ?b u m] wf on u
    by (simp add: v_def lru_drift_def)
  have lv: "page_lru p v = ?b + LRU_ACTIVE"
    using True by (auto simp: page_lru_def page_lru_base_type_def page_is_file_cache_def v_def u_def
        PageLinked_def Let_def)
  have other: "page_at v q = page_at s q" if "q \<noteq> p" for q
    using that by (simp add: v_def u_def page_at_bits_other)
  have "lru_placed v ?z"
  proof (rule lru_placed_cong [OF pl])
    fix l q assume q: "q \<in> set (z_lru (zone_at v ?z) l)"
    with off wfv have "q \<noteq> p" by (auto simp: on_lru_wf)
    with q other show "q \<in> set (z_lru (zone_at s ?z) l) \<and> page_at v q = page_at s q"
      by (simp add: v_def u_def zone_at_upd_zone)
  qed
  with wfv acct driftv have okv: "lru_ok E n v ?z"
    by (simp add: lru_ok_def lru_acct_def)
  have "PageLRU p v"
    using True by (simp add: v_def u_def)
  with lru_ok_keep [OF assms(2) okv, of p] off lv have "lru_ok E n w ?z"
    by (simp add: w_def)
  then have "lru_ok E n (x\<lparr>k_held := k_held s\<rparr>) ?z"
    by (subst lru_ok_frame [where s = w]) (simp_all add: x_def)
  moreover have "p \<in> set (z_lru (zone_at x ?z) (?b + LRU_ACTIVE))"
    by (simp add: x_def w_def add_page_to_lru_list_def k__add_page_to_lru_list_def zone_at_upd_zone)
  moreover have "PageActive p x"
    by (simp add: x_def w_def v_def add_page_to_lru_list_def k__add_page_to_lru_list_def)
  moreover have "page_at x q = page_at s q" if "q \<noteq> p" for q
    using other [OF that]
    by (simp add: x_def w_def add_page_to_lru_list_def k__add_page_to_lru_list_def)
  ultimately show ?thesis
    using run by auto
qed

section \<open>Marking a page as accessed\<close>

lemma touch_chain_view:
  assumes "touch_chain p s = Some t"
  shows "view t = v_touch p (view s) \<and> same_rest s t \<and> k_pages t = k_pages s \<and> k_zones t = k_zones s"
  using assms upd_chain_cases(2-5)
  by (auto simp: touch_chain_def v_touch_def split: option.splits)

lemma touch_chain_total: "chains_ok (view s) \<Longrightarrow> \<exists>t. touch_chain p s = Some t"
  using chains_ok_ex [of "view s" p]
  by (auto simp: touch_chain_def upd_chain_def split: option.split)

lemma v_bump_sel [simp]:
  "v_chain_of (v_bump p d v) = v_chain_of v" "v_ref (v_bump p d v) = v_ref v"
  "v_chains (v_bump p d v) c = (if v_chain_of v p = Some c
     then map_option (\<lambda>ch. ch\<lparr>mc_ref_counter := mc_ref_counter ch + d\<rparr>) (v_chains v c)
     else v_chains v c)"
  by (auto simp: v_bump_def v_upd_def split: option.splits)

lemma v_touch_sel [simp]:
  "v_chain_of (v_touch p v) = v_chain_of v" "v_ref (v_touch p v) = v_ref v"
  "v_chains (v_touch p v) c = (if v_chain_of v p = Some c
     then map_option (\<lambda>ch. ch\<lparr>mc_ref_counter := mc_nr_links ch, mc_delegate := Some p\<rparr>) (v_chains v c)
     else v_chains v c)"
  by (auto simp: v_touch_def v_upd_def split: option.splits)

lemma v_set_ref_sel [simp]:
  "v_chain_of (v_set_ref p b v) = v_chain_of v" "v_chains (v_set_ref p b v) = v_chains v"
  "v_ref (v_set_ref p b v) = (v_ref v)(p := b)"
  by (simp_all add: v_set_ref_def)

text \<open>What \<open>mark_page_accessed\<close> leaves: the page's chain, if any, touched, its count off by at most one.\<close>

definition v_marked :: "page_ptr \<Rightarrow> chain_view \<Rightarrow> chain_view \<Rightarrow> bool" where
  "v_marked p v w \<longleftrightarrow> v_chain_of w = v_chain_of v
     \<and> (\<forall>c. v_chain_of v p \<noteq> Some c \<longrightarrow> v_chains w c = v_chains v c)
     \<and> (\<forall>c ch. v_chain_of v p = Some c \<longrightarrow> v_chains v c = Some ch \<longrightarrow>
         (\<exists>r. \<bar>r - mc_nr_links ch\<bar> \<le> 1
           \<and> v_chains w c = Some (ch\<lparr>mc_ref_counter := r, mc_delegate := Some p\<rparr>)))"

lemma near_links_ex [simp]:
  "\<bar>a - mc_nr_links ch\<bar> \<le> 1 \<Longrightarrow> \<exists>r. \<bar>r - mc_nr_links ch\<bar> \<le> 1 \<and>
     ch\<lparr>mc_ref_counter := a, mc_delegate := q\<rparr> = ch\<lparr>mc_ref_counter := r, mc_delegate := q\<rparr>"
  by blast

lemma SetPageReferenced_view:
  assumes "SetPageReferenced p s = Some t" and "link_free p s"
  shows "view t = v_bump p 1 (v_set_ref p True (view s)) \<and> same_rest s t"
  using assms by (auto simp: SetPageReferenced_eq same_rest_def)

lemma ClearPageReferenced_view:
  assumes "ClearPageReferenced p s = Some t" and "link_free p s"
  shows "view t = (if v_ref (view s) p then v_bump p (- 1) (v_set_ref p False (view s)) else view s)
    \<and> same_rest s t"
  using assms by (auto simp: ClearPageReferenced_eq same_rest_def)

lemma link_free_view:
  "chains_ok (view s) \<Longrightarrow> LinkLock p \<notin> k_held s \<Longrightarrow> link_free p s"
  by (simp add: link_free_def chains_ok_live)

lemma chains_ok_set: "chains_ok v \<Longrightarrow> chains_ok (v_bump p 1 (v_set_ref p True v))"
  by (rule chains_ok_ref) auto

lemma chains_ok_clr: "chains_ok v \<Longrightarrow> v_ref v p \<Longrightarrow> chains_ok (v_bump p (- 1) (v_set_ref p False v))"
  by (rule chains_ok_ref) auto

lemma upd_ref_delegate [simp]:
  "ch\<lparr>mc_ref_counter := a, mc_delegate := q, mc_ref_counter := b\<rparr> = ch\<lparr>mc_ref_counter := b, mc_delegate := q\<rparr>"
  by simp

lemma bind_eq_SomeE:
  assumes "Option.bind m f = Some t"
  obtains u where "m = Some u" "f u = Some t"
  using assms by (cases m) auto

lemma mark_page_accessed_view:
  assumes m: "mark_page_accessed E p s = Some t" and ok: "chains_ok (view s)"
    and free: "LinkLock p \<notin> k_held s"
  shows "chains_ok (view t) \<and> same_rest s t \<and> v_marked p (view s) (view t)"
proof -
  obtain u where u: "touch_chain p s = Some u"
    using touch_chain_total [OF ok] by blast
  note tu = touch_chain_view [OF u]
  have oku: "chains_ok (view u)"
    using tu chains_ok_touch [OF ok] by simp
  have fu: "link_free p u"
    by (rule link_free_view [OF oku]) (use free tu in \<open>simp add: same_rest_def\<close>)
  have mu: "v_marked p (view s) (view u)"
    using tu by (auto simp: v_marked_def)
  let ?r = "if k__PageReferenced p u then 1 else chain_ref p u"
  let ?test = "\<not> PageActive p u \<and> \<not> PageUnevictable p u \<and> ?r \<noteq> 0 \<and> PageLRU p u"
  let ?act = "Option.bind (if PageLinked p u \<and> \<not> k__PageReferenced p u
      then SetPageReferenced p u else Some u)
      (\<lambda>v. Option.bind (activate_page E p v) (ClearPageReferenced p))"
  let ?set = "if \<not> k__PageReferenced p u then SetPageReferenced p u else Some u"
  have "mark_page_accessed E p s = (if ?test then ?act else ?set)"
    by (cases "\<not> PageActive p u \<and> \<not> PageUnevictable p u")
      (auto simp: mark_page_accessed_def u PageReferenced_eq [OF fu])
  with m consider (act) "?act = Some t" | (set) "SetPageReferenced p u = Some t" | (none) "t = u"
    by (auto split: if_splits)
  then show ?thesis
  proof cases
    case act': act
    then obtain v w where act: "(if PageLinked p u \<and> \<not> k__PageReferenced p u
        then SetPageReferenced p u else Some u) = Some v"
      "activate_page E p v = Some w" "ClearPageReferenced p w = Some t"
      by (elim bind_eq_SomeE) blast
    have v: "chains_ok (view v) \<and> same_rest u v
        \<and> (view v = view u \<or> v_chain_of (view u) p \<noteq> None \<and> \<not> v_ref (view u) p
          \<and> view v = v_bump p 1 (v_set_ref p True (view u)))"
      using act(1) SetPageReferenced_view [OF _ fu] chains_ok_set [OF oku, of p] oku
      by (auto simp: PageLinked_def split: if_splits)
    note w = chain_quiet_rest [OF activate_page_quiet [OF act(2)]]
    have okw: "chains_ok (view w)" using v w by simp
    have fw: "link_free p w"
      by (rule link_free_view [OF okw]) (use free tu v w in \<open>simp add: same_rest_def\<close>)
    note c = ClearPageReferenced_view [OF act(3) fw]
    have "chains_ok (view t)"
      using c okw chains_ok_clr [OF okw, of p] by (auto split: if_splits)
    moreover have "same_rest s t"
      using tu v w c by (auto intro: same_rest_trans)
    moreover have "v_marked p (view s) (view t)"
    proof -
      have "view w = view v" using w by simp
      with c v tu show ?thesis
        by (auto simp: v_marked_def simp del: view_sel split: if_splits)
    qed
    ultimately show ?thesis by blast
  next
    case set
    note c = SetPageReferenced_view [OF set fu]
    have "v_marked p (view s) (view t)"
      using c tu by (auto simp: v_marked_def simp del: view_sel)
    with c tu chains_ok_set [OF oku] show ?thesis
      by (auto intro: same_rest_trans)
  next
    case none
    with tu oku mu show ?thesis by simp
  qed
qed

text \<open>
  C23. \<open>mark_page_accessed\<close> on a page of a chain makes the whole chain look accessed: all chains
  stay in order, no page changes its chain, the page becomes the delegate, and when the chain
  has at least two pages (and no more than the 32-bit \<open>ref_counter\<close> can hold), \<open>PageReferenced\<close> afterwards answers non-zero for every page of it.
\<close>

theorem mark_page_accessed_chain:
  assumes "mark_page_accessed E p s = Some t" and "chains_ok (view s)" and "k_held s = {}"
    and "pg_chain (page_at s p) = Some c" and "k_chains s c = Some ch"
  shows "chains_ok (view t) \<and> k_held t = {}
    \<and> (\<forall>q. pg_chain (page_at t q) = pg_chain (page_at s q))
    \<and> (\<exists>ch'. k_chains t c = Some ch' \<and> mc_links ch' = mc_links ch \<and> mc_delegate ch' = Some p)
    \<and> (2 \<le> mc_nr_links ch \<and> mc_nr_links ch < 2 ^ 31 \<longrightarrow>
        (\<forall>q \<in> set (mc_links ch). \<exists>r. PageReferenced q t = Some (r, t) \<and> r \<noteq> 0))"
proof -
  from mark_page_accessed_view [OF assms(1,2)] assms(3)
  have ok: "chains_ok (view t)" and rest: "same_rest s t" and mk: "v_marked p (view s) (view t)"
    by auto
  from mk assms(4,5) obtain r where r: "\<bar>r - mc_nr_links ch\<bar> \<le> 1"
    "v_chains (view t) c = Some (ch\<lparr>mc_ref_counter := r, mc_delegate := Some p\<rparr>)"
    by (auto simp: v_marked_def)
  have same: "pg_chain (page_at t q) = pg_chain (page_at s q)" for q
    using mk by (simp add: v_marked_def flip: view_sel(2))
  have held: "k_held t = {}"
    using rest assms(3) by (simp add: same_rest_def)
  have "\<exists>x. PageReferenced q t = Some (x, t) \<and> x \<noteq> 0"
    if "2 \<le> mc_nr_links ch" "mc_nr_links ch < 2 ^ 31" "q \<in> set (mc_links ch)" for q
  proof -
    have "pg_chain (page_at t q) = Some c"
      using chains_okD(3) [OF assms(2), of c ch q] assms(5) that(3) by (simp add: same)
    with r have "chain_ref q t = atomic_read r"
      by (simp add: chain_ref_def chain_at_def)
    moreover have "0 < r" "r \<le> 2 ^ 31" using r(1) that(1,2) by linarith+
    then have "atomic_read r \<noteq> 0" by (auto dest: atomic_read_zeroD)
    moreover have "link_free q t"
      by (rule link_free_view [OF ok]) (simp add: held)
    ultimately show ?thesis
      by (simp add: PageReferenced_eq)
  qed
  with ok held same r(2) show ?thesis by auto
qed

section \<open>When marking a page returns\<close>

text \<open>
  \<open>PG_lru\<close> is set on exactly the pages that are on a list of their zone (\<open>lru_member\<close>). This much
  is true of the lists also when their counters have drifted, and it is all that the list
  operations need in order to return. \<open>lru_same\<close> relates states with the same lists and bits.
\<close>

definition lru_member :: "kenv \<Rightarrow> kstate \<Rightarrow> bool" where
  "lru_member E s \<longleftrightarrow> (\<forall>p. PageLRU p s = on_lru p (zone_at s (page_zone E p)))"

definition lru_same :: "kstate \<Rightarrow> kstate \<Rightarrow> bool" where
  "lru_same s t \<longleftrightarrow> (\<forall>z. z_lru (zone_at t z) = z_lru (zone_at s z)) \<and> (\<forall>p. PageLRU p t = PageLRU p s)"

lemma lru_same_refl [simp]: "lru_same s s"
  by (simp add: lru_same_def)

lemma lru_same_trans: "lru_same s t \<Longrightarrow> lru_same t u \<Longrightarrow> lru_same s u"
  by (simp add: lru_same_def)

lemma lru_member_same: "lru_same s t \<Longrightarrow> lru_member E t = lru_member E s"
  by (simp add: lru_same_def lru_member_def on_lru_def)

lemma lru_same_pages: "k_zones t = k_zones s \<Longrightarrow> k_pages t = k_pages s \<Longrightarrow> lru_same s t"
  by (simp add: lru_same_def zone_at_def test_bit_def page_at_def)

lemma lru_same_bits [simp]:
  "f \<noteq> PG_lru \<Longrightarrow> lru_same a (set_bit_k f p s) = lru_same a s"
  "f \<noteq> PG_lru \<Longrightarrow> lru_same a (clear_bit_k f p s) = lru_same a s"
  "lru_same a (bump_ref p d s) = lru_same a s" "lru_same a (s\<lparr>k_held := H\<rparr>) = lru_same a s"
  "lru_same a (set_page_chain p c s) = lru_same a s"
  by (simp_all add: lru_same_def set_page_chain_def)
    (simp add: test_bit_def page_at_upd_page)

lemma lru_member_frame [simp]:
  "f \<noteq> PG_lru \<Longrightarrow> lru_member E (set_bit_k f p s) = lru_member E s"
  "f \<noteq> PG_lru \<Longrightarrow> lru_member E (clear_bit_k f p s) = lru_member E s"
  "lru_member E (bump_ref p d s) = lru_member E s" "lru_member E (s\<lparr>k_held := H\<rparr>) = lru_member E s"
  by (rule lru_member_same, simp)+

lemma on_lru_remove [simp]: "on_lru q (lru_remove p zn) \<longleftrightarrow> q \<noteq> p \<and> on_lru q zn"
  by (auto simp: on_lru_iff)

lemma on_lru_insert [simp]:
  "l < NR_LRU_LISTS \<Longrightarrow> on_lru q (lru_insert p (ListHead l) zn) \<longleftrightarrow> q = p \<or> on_lru q zn"
  by (auto simp: on_lru_iff)

lemma on_lru_lists: "z_lru zn = z_lru zm \<Longrightarrow> on_lru p zn = on_lru p zm"
  by (simp add: on_lru_def)

lemma on_lru_frame [simp]:
  "on_lru q (zone_at (k__mod_zone_page_state E z i d s) y) = on_lru q (zone_at s y)"
  "on_lru q (zone_at (update_page_reclaim_stat z f r s) y) = on_lru q (zone_at s y)"
  by (rule on_lru_lists, simp)+

lemma activate_locked_total:
  assumes "lru_member E s" and z: "z = page_zone E p"
  shows "\<exists>t. activate_locked E z p s = Some t \<and> k_held t = k_held s \<and> lru_member E t"
proof (cases "PageLRU p s \<and> \<not> PageActive p s \<and> \<not> PageUnevictable p s")
  case True
  with assms have on: "on_lru p (zone_at s z)"
    by (simp add: lru_member_def)
  let ?b = "page_lru_base_type p s"
  define t where "t = update_page_reclaim_stat z (page_is_file_cache p s) True
    (count_vm_events E PGACTIVATE 1 (add_page_to_lru_list E z p (?b + LRU_ACTIVE)
      (SetPageActive p (k__mod_zone_page_state E z (NR_LRU_BASE + ?b) (- hpage_nr_pages E p)
        (upd_zone z (lru_remove p) s)))))"
  have "activate_locked E z p s = Some t"
    using True on by (simp add: activate_locked_def del_page_from_lru_list_def lru_list_del_def t_def Let_def)
  moreover have "?b + LRU_ACTIVE < NR_LRU_LISTS"
    by (simp add: page_lru_base_type_def lru_list_defs)
  then have "on_lru q (zone_at t y) = on_lru q (zone_at s y)" for q y
    using on by (auto simp: t_def zone_at_upd_zone add_page_to_lru_list_def
        k__add_page_to_lru_list_def simp del: lru_insert.simps split: if_splits)
  moreover have "PageLRU q t = PageLRU q s" for q
    by (simp add: t_def add_page_to_lru_list_def k__add_page_to_lru_list_def)
  moreover have "k_held t = k_held s"
    by (simp add: t_def add_page_to_lru_list_def k__add_page_to_lru_list_def)
  ultimately show ?thesis
    using assms(1) by (simp add: lru_member_def)
next
  case False
  with assms show ?thesis by (auto simp: activate_locked_def)
qed

lemma activate_page_total:
  assumes "lru_member E s" and "LruLock (page_zone E p) \<notin> k_held s"
  shows "\<exists>t. activate_page E p s = Some t \<and> lru_member E t"
proof -
  let ?s0 = "s\<lparr>k_held := insert (LruLock (page_zone E p)) (k_held s)\<rparr>"
  have "lru_member E ?s0"
    using assms(1) by simp
  from activate_locked_total [OF this refl, of p] obtain t where
    t: "activate_locked E (page_zone E p) p ?s0 = Some t" "k_held t = k_held ?s0" "lru_member E t"
    by auto
  with assms(2) have "activate_page E p s = Some (t\<lparr>k_held := k_held s\<rparr>)"
    by (simp add: activate_page_def insert_Diff_if)
  with t(3) show ?thesis
    by simp
qed

lemma mark_page_accessed_total:
  assumes ok: "chains_ok (view s)" and held: "k_held s = {}" and mem: "lru_member E s"
  shows "\<exists>t. mark_page_accessed E p s = Some t \<and> lru_member E t"
proof -
  obtain u where u: "touch_chain p s = Some u"
    using touch_chain_total [OF ok] by blast
  note tu = touch_chain_view [OF u]
  have oku: "chains_ok (view u)"
    using tu chains_ok_touch [OF ok] by simp
  have heldu: "k_held u = {}"
    using tu held by (simp add: same_rest_def)
  have fu: "link_free p u"
    by (rule link_free_view [OF oku]) (simp add: heldu)
  have memu: "lru_member E u"
    using mem tu lru_member_same [OF lru_same_pages, of u s] by simp
  let ?v = "if PageLinked p u \<and> \<not> k__PageReferenced p u then bump_ref p 1 (k__SetPageReferenced p u) else u"
  have memv: "lru_member E ?v" and heldv: "k_held ?v = {}"
    using memu heldu by simp_all
  have okv: "chains_ok (view ?v)"
    using oku chains_ok_set [OF oku, of p] by simp
  obtain w where w: "activate_page E p ?v = Some w" "lru_member E w"
    using activate_page_total [OF memv] heldv by auto
  note qw = chain_quiet_rest [OF activate_page_quiet [OF w(1)]]
  have fw: "link_free p w"
    by (rule link_free_view) (use qw okv heldv in \<open>simp_all add: same_rest_def\<close>)
  let ?x = "if k__PageReferenced p w then bump_ref p (- 1) (k__ClearPageReferenced p w) else w"
  let ?y = "if \<not> k__PageReferenced p u then bump_ref p 1 (k__SetPageReferenced p u) else u"
  let ?r = "if k__PageReferenced p u then 1 else chain_ref p u"
  have set: "(if b then SetPageReferenced p u else Some u) =
      Some (if b then bump_ref p 1 (k__SetPageReferenced p u) else u)" for b
    by (simp add: SetPageReferenced_eq [OF fu])
  have "mark_page_accessed E p s = Some (if \<not> PageActive p u \<and> \<not> PageUnevictable p u \<and> ?r \<noteq> 0
      \<and> PageLRU p u then ?x else ?y)"
    by (cases "\<not> PageActive p u \<and> \<not> PageUnevictable p u")
      (auto simp: mark_page_accessed_def u PageReferenced_eq [OF fu] set w(1)
        ClearPageReferenced_eq [OF fw] simp del: if_split split: if_split)
  moreover have "lru_member E ?x" "lru_member E ?y"
    using w(2) memu by simp_all
  ultimately show ?thesis
    by simp
qed

section \<open>The theorems on the small machine\<close>

lemma put_run: "\<exists>t. put_page sample_env 9 linked_state = Some t"
proof -
  have 9: "page_at linked_state 9 = sample_page"
    by (simp add: linked_state_def page_at_def)
  define u where "u = upd_page 9 (\<lambda>pg. pg\<lparr>pg_count := 0\<rparr>) linked_state"
  have u9: "page_at u 9 = sample_page\<lparr>pg_count := 0\<rparr>" "\<And>f. \<not> test_bit f 9 u"
    by (simp_all add: u_def page_at_upd_page 9 test_bit_def) (simp add: sample_page_def)
  have z: "zone_at u z = sample_zone" for z
    by (simp add: u_def linked_state_def zone_at_def sample_state_def)
  have test: "put_page_testzero 9 linked_state = Some (True, u)"
    by (simp add: put_page_testzero_def 9 u_def Let_def page_at_upd_page)
      (simp add: sample_page_def upd_page_def 9 [unfolded page_at_def sample_page_def])
  have check: "free_pages_prepare sample_env 9 0 u = Some (True, u)"
    by (simp add: free_pages_prepare_def free_pages_check_def PageAnon_def page_mapcount_def u9)
      (simp add: sample_page_def)
  have block: "get_pageblock_migratetype sample_env 9 s = MIGRATE_MOVABLE" if "k_pageblock s = k_pageblock u" for s
  proof -
    define n where "n = unat (of_nat 9 - of_nat (z_start_pfn (zone_at s (page_zone sample_env 9))) :: ulong) div 2 ^ pageblock_order sample_env"
    have "pfn_to_bitidx sample_env (page_zone sample_env 9) 9 s = n * 3"
      by (simp add: pfn_to_bitidx_def n_def) (simp add: sample_env_def)
    moreover have "k_pageblock s z b = (b mod 3 = 1)" for z b
      using that by (simp add: u_def linked_state_def sample_state_def)
    moreover have "[PB_migrate sample_env ..< Suc (PB_migrate_end sample_env)] = [0, 1, 2]"
      by (simp add: sample_env_def numeral_2_eq_2)
    ultimately show ?thesis
      by (simp add: get_pageblock_migratetype_def get_pageblock_flags_group_def mod_Suc MIGRATE_MOVABLE_def
          del: upt_Suc)
  qed
  have pcp: "pcp_count (ps_pcp (z_pageset (zone_at s z) 0)) = 0 \<Longrightarrow>
      pcp_high (ps_pcp (z_pageset (zone_at s z) 0)) = 6 \<Longrightarrow>
      free_to_pcp sample_env z 9 False MIGRATE_MOVABLE s \<noteq> None" for s z
    by (simp add: free_to_pcp_def migrate_defs sample_env_def Let_def upd_pcp_def set_pcp_list_def
        zone_at_upd_zone)
  have "free_hot_cold_page sample_env 9 False u \<noteq> None"
    by (simp add: free_hot_cold_page_def test_and_clear_bit_def u9 check Let_def block pcp z
        set_page_private_def sample_zone_def)

  moreover have "\<not> PageCompound 9 linked_state"
    by (simp add: PageCompound_def 9) (simp add: sample_page_def)
  ultimately show ?thesis
    by (simp add: put_page_def test k__put_single_page_def k__page_cache_release_def u9)
qed

theorem put_page_keeps_chains_witness:
  "\<exists>t. put_page sample_env 9 linked_state = Some t \<and> chains_ok (view t) \<and> pg_chain (page_at t 7) = Some 1"
proof -
  from put_run obtain t where run: "put_page sample_env 9 linked_state = Some t" by blast
  have "\<not> PageTail 9 linked_state"
    by (simp add: test_bit_def page_at_def linked_state_def sample_page_def)
  with put_page_keeps_chains [OF run sample_mlock_quiet linked_chains_ok] run show ?thesis
    by (auto simp: linked_state_sel)
qed

lemma lru_sample_sel: "page_at lru_sample q = page_at (SetPageLRU 7 sample_state) q" "k_held lru_sample = {}"
  by (simp_all add: lru_sample_def add_page_to_lru_list_def k__add_page_to_lru_list_def)
    (simp add: sample_state_def)

lemma lru_sample_ok: "lru_ok sample_env 1 lru_sample 0"
  using lru_ok_keep [OF sample_cpu sample_lru_ok, of 7 7]
  by (simp add: lru_sample_def page_lru_sample sample_off_lru)

theorem activate_page_correct_witness:
  "\<exists>t. activate_page sample_env 7 lru_sample = Some t \<and> lru_ok sample_env 1 t 0 \<and> PageActive 7 t"
proof -
  have z: "page_zone sample_env 7 = 0" by (simp add: sample_env_def)
  have lru: "PageLRU 7 lru_sample" "\<not> PageUnevictable 7 lru_sample"
    using lru_sample_sel(1) [of 7] by (simp_all add: test_bit_def set_bit_k_def page_at_upd_page)
      (simp add: page_at_def sample_defs)
  have "on_lru 7 (zone_at lru_sample 0)"
    unfolding on_lru_iff
    using lru_sample_list by (intro exI [of _ LRU_INACTIVE_FILE] conjI) (simp add: lru_list_defs, simp)
  with activate_page_correct [of sample_env 1 lru_sample 7] lru_sample_ok sample_cpu lru lru_sample_sel(2) z
  show ?thesis by auto
qed

lemma linked_lru_member: "lru_member sample_env linked_state"
  by (simp add: lru_member_def on_lru_iff test_bit_def page_at_def zone_at_def linked_state_def sample_defs)

theorem mark_page_accessed_chain_witness:
  "\<exists>t. mark_page_accessed sample_env 7 linked_state = Some t
     \<and> (\<exists>r. PageReferenced 8 t = Some (r, t) \<and> r \<noteq> 0)"
proof -
  from mark_page_accessed_total [OF linked_chains_ok linked_state_sel(3) linked_lru_member] obtain t where
    t: "mark_page_accessed sample_env 7 linked_state = Some t" by blast
  from linked_state_sel(2) obtain ch where ch: "k_chains linked_state 1 = Some ch" by auto
  then have "mc_nr_links ch = 2" "mc_links ch = [7, 8]"
    by (auto simp: linked_state_def)
  moreover have "pg_chain (page_at linked_state 7) = Some 1"
    by (simp add: linked_state_sel)
  ultimately show ?thesis
    using mark_page_accessed_chain [OF t linked_chains_ok linked_state_sel(3) _ ch] t by auto
qed

end
