(* ===== verification/Isolate.thy ===== *)
theory Isolate
  imports Page_Blocks Swap
begin

text \<open>
  The half of \<open>Linux/vmscan.c\<close> that takes pages off the LRU lists and puts them back:
  \<open>isolate_lru_page\<close> and \<open>putback_lru_page\<close> for one page, and for reclaim the batch isolation
  of a list with its lumpy extension, the counters of the isolated pages, and the putback of
  what was not reclaimed. A temporary list is the list of its pages, head first, and
  \<open>list_move\<close> takes a page off the list of the zone it is on. The memory controller is not
  configured and tracing is left out.
\<close>

section \<open>One page\<close>

definition EINVAL :: int where "EINVAL = 22"

definition isolate_lru_page :: "kenv \<Rightarrow> page_ptr \<Rightarrow> kstate \<Rightarrow> (int \<times> kstate) option" where
  "isolate_lru_page E page s =
     (if PageLRU page s then do {
        let z = page_zone E page;
        s \<leftarrow> spin_lock (LruLock z) s;
        let (got, s) = (if PageLRU page s then get_page_unless_zero page s else (False, s));
        (ret, s) \<leftarrow> (if got then do {
            let lru = page_lru page s;
            let s = ClearPageLRU page s;
            s \<leftarrow> del_page_from_lru_list E z page lru s;
            Some (0, s)
          } else Some (- EBUSY, s));
        s \<leftarrow> spin_unlock (LruLock z) s;
        Some (ret, s)
      } else Some (- EBUSY, s))"

text \<open>
  The \<open>redo\<close> of \<open>putback_lru_page\<close>: it runs again when the page became evictable after it was
  put on the unevictable list; the result is the list the page was put on last.
\<close>

partial_function (option) putback_redo ::
  "kenv \<Rightarrow> page_ptr \<Rightarrow> nat \<Rightarrow> kstate \<Rightarrow> (lru_list \<times> kstate) option" where
  "putback_redo E page active s = do {
     let s = ClearPageUnevictable page s;
     (evictable, s) \<leftarrow> page_evictable E page None s;
     if evictable then do {
       let lru = active + page_lru_base_type page s;
       s \<leftarrow> lru_cache_add_lru E page lru s;
       Some (lru, s)
     }
     else do {
       s \<leftarrow> add_page_to_unevictable_list E page s;
       (evictable, s) \<leftarrow> page_evictable E page None s;
       if evictable then do {
         (ret, s) \<leftarrow> isolate_lru_page E page s;
         if ret = 0 then do {
           s \<leftarrow> put_page E page s;
           putback_redo E page active s
         } else Some (LRU_UNEVICTABLE, s)
       } else Some (LRU_UNEVICTABLE, s)
     }
   }"

definition putback_lru_page :: "kenv \<Rightarrow> page_ptr \<Rightarrow> kstate \<Rightarrow> kstate option" where
  "putback_lru_page E page s = do {
     let (active, s) = TestClearPageActive page s;
     let was_unevictable = PageUnevictable page s;
     s \<leftarrow> guardK (\<not> PageLRU page s) s;
     (lru, s) \<leftarrow> putback_redo E page (of_bool active) s;
     let s = (if was_unevictable \<and> lru \<noteq> LRU_UNEVICTABLE
              then count_vm_events E UNEVICTABLE_PGRESCUED 1 s
              else if \<not> was_unevictable \<and> lru = LRU_UNEVICTABLE
              then count_vm_events E UNEVICTABLE_PGCULLED 1 s
              else s);
     put_page E page s
   }"

section \<open>A batch from one list\<close>

text \<open>The isolation modes 0, 1 and 2 of \<open>swap.h\<close>.\<close>

datatype isolate_mode = ISOLATE_INACTIVE | ISOLATE_ACTIVE | ISOLATE_BOTH

definition k__isolate_lru_page :: "page_ptr \<Rightarrow> isolate_mode \<Rightarrow> bool \<Rightarrow> kstate \<Rightarrow> int \<times> kstate" where
  "k__isolate_lru_page page mode file s =
     (if \<not> PageLRU page s then (- EINVAL, s)
      else if mode \<noteq> ISOLATE_BOTH \<and> (\<not> PageActive page s) \<noteq> (mode = ISOLATE_INACTIVE) then (- EINVAL, s)
      else if mode \<noteq> ISOLATE_BOTH \<and> page_is_file_cache page s \<noteq> file then (- EINVAL, s)
      else if PageUnevictable page s then (- EINVAL, s)
      else let (got, s) = get_page_unless_zero page s
           in if got then (0, ClearPageLRU page s) else (- EBUSY, s))"

definition lru_list_move :: "zone_ptr \<Rightarrow> page_ptr \<Rightarrow> lru_list \<Rightarrow> kstate \<Rightarrow> kstate option" where
  "lru_list_move z page l s = do {
     s \<leftarrow> lru_list_del z page s;
     Some (upd_zone z (lru_insert page (ListHead l)) s)
   }"

text \<open>
  The lumpy part: the frames of the aligned block around the tag page, until one cannot be
  taken. The result counts the pages taken. \<open>swap\<close> is \<open>nr_swap_pages\<close>.
\<close>

fun lumpy_loop ::
  "kenv \<Rightarrow> int \<Rightarrow> isolate_mode \<Rightarrow> bool \<Rightarrow> page_ptr \<Rightarrow> page_ptr list \<Rightarrow> page_ptr list \<Rightarrow> kstate \<Rightarrow>
     (nat \<times> page_ptr list \<times> kstate) option" where
  "lumpy_loop E swap mode file page [] dst s = Some (0, dst, s)"
| "lumpy_loop E swap mode file page (cursor # pfns) dst s =
     (if cursor = page then lumpy_loop E swap mode file page pfns dst s
      else if \<not> pfn_valid_within E cursor then Some (0, dst, s)
      else if page_zone E cursor \<noteq> page_zone E page then Some (0, dst, s)
      else if swap \<le> 0 \<and> PageAnon cursor s \<and> \<not> PageSwapCache cursor s then Some (0, dst, s)
      else let (ret, s) = k__isolate_lru_page cursor mode file s
           in if ret = 0 then do {
                s \<leftarrow> lru_list_del (page_zone E cursor) cursor s;
                (taken, dst, s) \<leftarrow> lumpy_loop E swap mode file page pfns (cursor # dst) s;
                Some (Suc taken, dst, s)
              }
              else if page_count cursor s = 0 then lumpy_loop E swap mode file page pfns dst s
              else Some (0, dst, s))"

function isolate_loop ::
  "kenv \<Rightarrow> int \<Rightarrow> zone_ptr \<Rightarrow> lru_list \<Rightarrow> nat \<Rightarrow> isolate_mode \<Rightarrow> bool \<Rightarrow> nat \<Rightarrow> nat \<Rightarrow> int \<Rightarrow> page_ptr list \<Rightarrow>
     kstate \<Rightarrow> (int \<times> nat \<times> page_ptr list \<times> kstate) option" where
  "isolate_loop E swap z src order mode file nr_to_scan scan nr_taken dst s =
     (if scan < nr_to_scan \<and> z_lru (zone_at s z) src \<noteq> [] then do {
        let page = last (z_lru (zone_at s z) src);
        s \<leftarrow> guardK (PageLRU page s) s;
        let (ret, s) = k__isolate_lru_page page mode file s;
        if ret = 0 then do {
          s \<leftarrow> lru_list_del z page s;
          let pfn = page div 2 ^ order * 2 ^ order;
          (lumpy, dst, s) \<leftarrow> (if order = 0 then Some (0, page # dst, s)
            else lumpy_loop E swap mode file page [pfn ..< pfn + 2 ^ order] (page # dst) s);
          isolate_loop E swap z src order mode file nr_to_scan (scan + 1 + lumpy)
            (nr_taken + hpage_nr_pages E page * (1 + int lumpy)) dst s
        }
        else if ret = - EBUSY then do {
          s \<leftarrow> lru_list_move z page src s;
          isolate_loop E swap z src order mode file nr_to_scan (scan + 1) nr_taken dst s
        }
        else None
      }
      else Some (nr_taken, scan, dst, s))"
  by pat_completeness auto
termination
  by (relation "measure (\<lambda>(E, swap, z, src, order, mode, file, nr_to_scan, scan, rest). nr_to_scan - scan)") auto

declare isolate_loop.simps [simp del]

definition isolate_lru_pages ::
  "kenv \<Rightarrow> int \<Rightarrow> nat \<Rightarrow> zone_ptr \<Rightarrow> lru_list \<Rightarrow> page_ptr list \<Rightarrow> nat \<Rightarrow> isolate_mode \<Rightarrow> bool \<Rightarrow> kstate \<Rightarrow>
     (int \<times> nat \<times> page_ptr list \<times> kstate) option" where
  "isolate_lru_pages E swap nr_to_scan z src dst order mode file s =
     isolate_loop E swap z src order mode file nr_to_scan 0 0 dst s"

definition isolate_pages_global ::
  "kenv \<Rightarrow> int \<Rightarrow> nat \<Rightarrow> page_ptr list \<Rightarrow> nat \<Rightarrow> isolate_mode \<Rightarrow> zone_ptr \<Rightarrow> bool \<Rightarrow> bool \<Rightarrow> kstate \<Rightarrow>
     (int \<times> nat \<times> page_ptr list \<times> kstate) option" where
  "isolate_pages_global E swap nr dst order mode z active file s =
     (let lru = LRU_BASE;
          lru = (if active then lru + LRU_ACTIVE else lru);
          lru = (if file then lru + LRU_FILE else lru)
      in isolate_lru_pages E swap nr z lru dst order mode file s)"

section \<open>Counting the isolated pages, and putting pages back\<close>

text \<open>\<open>cnt\<close> is \<open>count\<close>, the caller's array; the only caller passes one.\<close>

fun clear_active_flags ::
  "kenv \<Rightarrow> page_ptr list \<Rightarrow> (lru_list \<Rightarrow> int) \<Rightarrow> kstate \<Rightarrow> int \<times> (lru_list \<Rightarrow> int) \<times> kstate" where
  "clear_active_flags E [] cnt s = (0, cnt, s)"
| "clear_active_flags E (page # page_list) cnt s =
     (let numpages = hpage_nr_pages E page;
          lru = page_lru_base_type page s;
          (lru, active, s) = (if PageActive page s
            then (lru + LRU_ACTIVE, numpages, ClearPageActive page s) else (lru, 0, s));
          (nr_active, cnt, s) = clear_active_flags E page_list (cnt(lru := cnt lru + numpages)) s
      in (nr_active + active, cnt, s))"

definition upd_reclaim_stat :: "zone_ptr \<Rightarrow> (zone_reclaim_stat \<Rightarrow> zone_reclaim_stat) \<Rightarrow> kstate \<Rightarrow> kstate" where
  "upd_reclaim_stat z f = upd_zone z (\<lambda>zn. zn\<lparr>z_reclaim_stat := f (z_reclaim_stat zn)\<rparr>)"

definition add_recent_scanned :: "zone_ptr \<Rightarrow> bool \<Rightarrow> int \<Rightarrow> kstate \<Rightarrow> kstate" where
  "add_recent_scanned z file n = upd_reclaim_stat z (\<lambda>rs. rs\<lparr>recent_scanned :=
     (recent_scanned rs)(of_bool file := recent_scanned rs (of_bool file) + nat n)\<rparr>)"

definition add_recent_rotated :: "zone_ptr \<Rightarrow> bool \<Rightarrow> int \<Rightarrow> kstate \<Rightarrow> kstate" where
  "add_recent_rotated z file n = upd_reclaim_stat z (\<lambda>rs. rs\<lparr>recent_rotated :=
     (recent_rotated rs)(of_bool file := recent_rotated rs (of_bool file) + nat n)\<rparr>)"

definition update_isolated_counts ::
  "kenv \<Rightarrow> zone_ptr \<Rightarrow> page_ptr list \<Rightarrow> kstate \<Rightarrow> int \<times> int \<times> kstate" where
  "update_isolated_counts E z isolated_list s =
     (let (nr_active, cnt, s) = clear_active_flags E isolated_list (\<lambda>_. 0) s;
          s = count_vm_events E PGDEACTIVATE nr_active s;
          s = k__mod_zone_page_state E z NR_ACTIVE_FILE (- cnt LRU_ACTIVE_FILE) s;
          s = k__mod_zone_page_state E z NR_INACTIVE_FILE (- cnt LRU_INACTIVE_FILE) s;
          s = k__mod_zone_page_state E z NR_ACTIVE_ANON (- cnt LRU_ACTIVE_ANON) s;
          s = k__mod_zone_page_state E z NR_INACTIVE_ANON (- cnt LRU_INACTIVE_ANON) s;
          nr_anon = cnt LRU_ACTIVE_ANON + cnt LRU_INACTIVE_ANON;
          nr_file = cnt LRU_ACTIVE_FILE + cnt LRU_INACTIVE_FILE;
          s = k__mod_zone_page_state E z NR_ISOLATED_ANON nr_anon s;
          s = k__mod_zone_page_state E z NR_ISOLATED_FILE nr_file s;
          s = add_recent_scanned z False nr_anon s;
          s = add_recent_scanned z True nr_file s
      in (nr_anon, nr_file, s))"

text \<open>The pages are taken from the tail of the list: the loop runs over the reversed list.\<close>

fun putback_loop ::
  "kenv \<Rightarrow> zone_ptr \<Rightarrow> page_ptr list \<Rightarrow> page_ptr list \<Rightarrow> kstate \<Rightarrow> (page_ptr list \<times> kstate) option" where
  "putback_loop E z [] pvec s = Some (pvec, s)"
| "putback_loop E z (page # pages) pvec s = do {
     s \<leftarrow> guardK (\<not> PageLRU page s) s;
     (evictable, s) \<leftarrow> page_evictable E page None s;
     if \<not> evictable then do {
       s \<leftarrow> spin_unlock (LruLock z) s;
       s \<leftarrow> putback_lru_page E page s;
       s \<leftarrow> spin_lock (LruLock z) s;
       putback_loop E z pages pvec s
     }
     else do {
       let s = SetPageLRU page s;
       let lru = page_lru page s;
       let s = add_page_to_lru_list E z page lru s;
       let s = (if is_active_lru lru
                then add_recent_rotated z (is_file_lru lru) (hpage_nr_pages E page) s else s);
       let pvec = pvec @ [page];
       if length pvec = pagevec_size E then do {
         s \<leftarrow> spin_unlock (LruLock z) s;
         s \<leftarrow> k__pagevec_release E pvec s;
         s \<leftarrow> spin_lock (LruLock z) s;
         putback_loop E z pages [] s
       }
       else putback_loop E z pages pvec s
     }
   }"

definition putback_lru_pages ::
  "kenv \<Rightarrow> zone_ptr \<Rightarrow> int \<Rightarrow> int \<Rightarrow> page_ptr list \<Rightarrow> kstate \<Rightarrow> kstate option" where
  "putback_lru_pages E z nr_anon nr_file page_list s = do {
     s \<leftarrow> spin_lock (LruLock z) s;
     (pvec, s) \<leftarrow> putback_loop E z (rev page_list) [] s;
     let s = k__mod_zone_page_state E z NR_ISOLATED_ANON (- nr_anon) s;
     let s = k__mod_zone_page_state E z NR_ISOLATED_FILE (- nr_file) s;
     s \<leftarrow> spin_unlock (LruLock z) s;
     if pvec = [] then Some s else k__pagevec_release E pvec s
   }"

section \<open>Pages that became evictable\<close>

partial_function (option) check_move_unevictable_loop ::
  "kenv \<Rightarrow> page_ptr \<Rightarrow> zone_ptr \<Rightarrow> kstate \<Rightarrow> kstate option" where
  "check_move_unevictable_loop E page z s = do {
     let s = ClearPageUnevictable page s;
     (evictable, s) \<leftarrow> page_evictable E page None s;
     if evictable then do {
       let l = page_lru_base_type page s;
       let s = k__dec_zone_state E z NR_UNEVICTABLE s;
       s \<leftarrow> lru_list_move z page l s;
       let s = k__inc_zone_state E z (NR_INACTIVE_ANON + l) s;
       Some (count_vm_events E UNEVICTABLE_PGRESCUED 1 s)
     }
     else do {
       let s = SetPageUnevictable page s;
       s \<leftarrow> lru_list_move z page LRU_UNEVICTABLE s;
       (evictable, s) \<leftarrow> page_evictable E page None s;
       if evictable then check_move_unevictable_loop E page z s else Some s
     }
   }"

definition check_move_unevictable_page :: "kenv \<Rightarrow> page_ptr \<Rightarrow> zone_ptr \<Rightarrow> kstate \<Rightarrow> kstate option" where
  "check_move_unevictable_page E page z s = do {
     s \<leftarrow> guardK (\<not> PageActive page s) s;
     check_move_unevictable_loop E page z s
   }"

text \<open>
  The page at the tail of the unevictable list; on an empty list \<open>lru_to_page\<close> makes a page of
  the list head itself. \<open>trylock_page\<close> and \<open>unlock_page\<close> are the bit \<open>PG_locked\<close>.
\<close>

definition scan_unevictable_step :: "kenv \<Rightarrow> zone_ptr \<Rightarrow> kstate \<Rightarrow> kstate option" where
  "scan_unevictable_step E z s =
     (if z_lru (zone_at s z) LRU_UNEVICTABLE = [] then None
      else do {
        let page = last (z_lru (zone_at s z) LRU_UNEVICTABLE);
        if PageLocked page s then Some s
        else do {
          let s = set_bit_k PG_locked page s;
          s \<leftarrow> (if PageLRU page s \<and> PageUnevictable page s
                then check_move_unevictable_page E page z s else Some s);
          Some (clear_bit_k PG_locked page s)
        }
      })"

definition SCAN_UNEVICTABLE_BATCH_SIZE :: nat where "SCAN_UNEVICTABLE_BATCH_SIZE = 16"

function scan_unevictable_batches :: "kenv \<Rightarrow> zone_ptr \<Rightarrow> nat \<Rightarrow> kstate \<Rightarrow> kstate option" where
  "scan_unevictable_batches E z nr_to_scan s =
     (if nr_to_scan > 0 then do {
        let batch_size = min nr_to_scan SCAN_UNEVICTABLE_BATCH_SIZE;
        s \<leftarrow> spin_lock (LruLock z) s;
        s \<leftarrow> forK (\<lambda>_. scan_unevictable_step E z) [0 ..< batch_size] s;
        s \<leftarrow> spin_unlock (LruLock z) s;
        scan_unevictable_batches E z (nr_to_scan - batch_size) s
      } else Some s)"
  by pat_completeness auto
termination
  by (relation "measure (\<lambda>(E, z, n, s). n)") (auto simp: SCAN_UNEVICTABLE_BATCH_SIZE_def)

declare scan_unevictable_batches.simps [simp del]

definition scan_zone_unevictable_pages :: "kenv \<Rightarrow> alloc_env \<Rightarrow> zone_ptr \<Rightarrow> kstate \<Rightarrow> kstate option" where
  "scan_zone_unevictable_pages E W z s =
     scan_unevictable_batches E z (nat (zone_page_state W z NR_UNEVICTABLE s)) s"

definition scan_all_zones_unevictable_pages :: "kenv \<Rightarrow> alloc_env \<Rightarrow> kstate \<Rightarrow> kstate option" where
  "scan_all_zones_unevictable_pages E W = forK (scan_zone_unevictable_pages E W) (all_zones E)"

section \<open>One page there and back\<close>

text \<open>A page that has been isolated: one more reference and no \<open>PG_lru\<close>.\<close>

definition isolated_page :: "page \<Rightarrow> page" where
  "isolated_page pg = pg\<lparr>pg_count := pg_count pg + 1, pg_flags := unset_bit (pg_nr PG_lru) (pg_flags pg)\<rparr>"

lemma EBUSY_ne [simp]: "EBUSY \<noteq> 0" "EINVAL \<noteq> 0" "- EBUSY \<noteq> 0"
  by (simp_all add: EBUSY_def EINVAL_def)

lemma zones_readers:
  assumes "k_zones t = k_zones s"
  shows "zone_at t = zone_at s" "zone_count n t = zone_count n s" "lru_wf t z = lru_wf s z"
    "lru_drift E n t z l = lru_drift E n s z l"
proof -
  show za: "zone_at t = zone_at s" using assms by (simp add: zone_at_def fun_eq_iff)
  show zc: "zone_count n t = zone_count n s" for n by (rule zone_count_cong) (simp_all add: za)
  show "lru_wf t z = lru_wf s z" "lru_drift E n t z l = lru_drift E n s z l"
    by (simp_all add: lru_wf_def lru_drift_def lru_size_def za zc)
qed

lemma del_list_lru_ok:
  assumes "cur_cpu E < n" and "lru_ok E n s z" and "on_lru p (zone_at s z)"
    and s2: "k_zones s2 = k_zones s" "\<And>q. q \<noteq> p \<Longrightarrow> page_at s2 q = page_at s q"
  shows "\<exists>t. del_page_from_lru_list E z p (page_lru p s) s2 = Some t \<and> lru_ok E n t z
    \<and> \<not> on_lru p (zone_at t z) \<and> k_pages t = k_pages s2 \<and> k_held t = k_held s2
    \<and> k_lru_add_pvecs t = k_lru_add_pvecs s2 \<and> (\<forall>y. y \<noteq> z \<longrightarrow> z_lru (zone_at t y) = z_lru (zone_at s y))"
proof -
  from assms(2) have ok: "lru_wf s z" "lru_acct E n s z" "lru_placed s z" by (simp_all add: lru_ok_def)
  note rd = zones_readers [OF s2(1)]
  have on: "p \<in> set (z_lru (zone_at s2 z) (page_lru p s))"
    using lru_ok_on_page_lru [OF assms(2,3)] by (simp add: rd)
  have wf: "lru_wf s2 z" using ok(1) by (simp add: rd)
  let ?t = "k__mod_zone_page_state E z (NR_LRU_BASE + page_lru p s) (- hpage_nr_pages E p)
     (upd_zone z (lru_remove p) s2)"
  have del: "del_page_from_lru_list E z p (page_lru p s) s2 = Some ?t"
    by (rule del_page_from_lru_list_Some [OF wf on])
  have off: "\<not> on_lru p (zone_at ?t z)" by (simp add: on_lru_iff zone_at_upd_zone)
  have "lru_drift E n ?t z m = 0" for m
    using lru_drift_del [OF assms(1) wf on del, of m] ok(2) by (simp add: rd lru_acct_def)
  moreover have wft: "lru_wf ?t z" using wf by (simp add: lru_wf_remove)
  moreover have "lru_placed ?t z"
  proof (rule lru_placed_cong [OF ok(3)])
    fix l q assume q: "q \<in> set (z_lru (zone_at ?t z) l)"
    with off wft have "q \<noteq> p" by (auto simp: on_lru_wf)
    with q s2 show "q \<in> set (z_lru (zone_at s z) l) \<and> page_at ?t q = page_at s q"
      by (auto simp: zone_at_upd_zone rd)
  qed
  ultimately show ?thesis
    using del off by (auto simp: lru_ok_def lru_acct_def zone_at_upd_zone rd)
qed

lemma page_count_upd [simp]:
  "pg_count (page_at (get_page p s) q) = pg_count (page_at s q) + (if q = p then 1 else 0)"
  by (simp add: get_page_def page_at_upd_page)

lemma get_page_frame [simp]:
  "test_bit f q (get_page p s) = test_bit f q s" "k_zones (get_page p s) = k_zones s"
  "k_held (get_page p s) = k_held s" "k_lru_add_pvecs (get_page p s) = k_lru_add_pvecs s"
  "page_lru_base_type q (get_page p s) = page_lru_base_type q s" "page_lru q (get_page p s) = page_lru q s"
  "q \<noteq> p \<Longrightarrow> page_at (get_page p s) q = page_at s q"
  by (auto simp: get_page_def test_bit_def page_at_upd_page page_lru_def page_lru_base_type_def
      page_is_file_cache_def PageLinked_def Let_def)

lemma pvecs_bits [simp]:
  "k_lru_add_pvecs (set_bit_k f p s) = k_lru_add_pvecs s" "k_lru_add_pvecs (clear_bit_k f p s) = k_lru_add_pvecs s"
  by (simp_all add: set_bit_k_def clear_bit_k_def)

lemma page_lru_base_type_bits [simp]:
  "f \<noteq> PG_swapbacked \<Longrightarrow> page_lru_base_type q (clear_bit_k f p s) = page_lru_base_type q s"
  by (simp add: page_lru_base_type_def page_is_file_cache_def PageLinked_def)

lemma isolate_lru_page_spec:
  assumes "cur_cpu E < n" and "lru_ok E n s z" and z: "z = page_zone E p"
    and "PageLRU p s" and "on_lru p (zone_at s z)" and "LruLock z \<notin> k_held s"
    and "pg_count (page_at s p) \<noteq> 0"
  shows "\<exists>t. isolate_lru_page E p s = Some (0, t) \<and> lru_ok E n t z \<and> \<not> on_lru p (zone_at t z)
    \<and> k_held t = k_held s \<and> k_lru_add_pvecs t = k_lru_add_pvecs s
    \<and> (\<forall>q. page_at t q = (if q = p then isolated_page (page_at s p) else page_at s q))"
proof -
  define s2 where "s2 = ClearPageLRU p (get_page p (s\<lparr>k_held := insert (LruLock z) (k_held s)\<rparr>))"
  have s2: "k_zones s2 = k_zones s" "\<And>q. q \<noteq> p \<Longrightarrow> page_at s2 q = page_at s q"
    by (simp_all add: s2_def page_at_bits_other)
  from del_list_lru_ok [OF assms(1,2,5) s2] obtain t where
    t: "del_page_from_lru_list E z p (page_lru p s) s2 = Some t" "lru_ok E n t z" "\<not> on_lru p (zone_at t z)"
      "k_pages t = k_pages s2" "k_held t = k_held s2" "k_lru_add_pvecs t = k_lru_add_pvecs s2"
    by blast
  have lru: "page_lru p (s\<lparr>k_held := H\<rparr>) = page_lru p s" for H
    by (rule page_readers_cong) simp
  have "isolate_lru_page E p s = Some (0, t\<lparr>k_held := k_held s\<rparr>)"
    using assms(4,6,7) t(1,5)
    unfolding s2_def z by (simp add: isolate_lru_page_def get_page_unless_zero_def lru Let_def)
  moreover have "lru_ok E n (t\<lparr>k_held := k_held s\<rparr>) z"
    using t(2) by (subst lru_ok_frame [where s = t]) simp_all
  moreover have "page_at t q = (if q = p then isolated_page (page_at s p) else page_at s q)" for q
    using t(4) by (simp add: page_at_def s2_def isolated_page_def get_page_def clear_bit_k_def upd_page_def)
  ultimately show ?thesis
    using t(3,6) by (intro exI [of _ "t\<lparr>k_held := k_held s\<rparr>"]) (simp add: s2_def)
qed

text \<open>
  Putting an evictable page back when its page vector has room: it joins the vector of the list
  its flags and its chain name.
\<close>

lemma putback_lru_page_spec:
  assumes "\<not> PageLRU p t" and ev: "\<And>u. \<not> mapping_unevictable E p u" and "\<not> PageMlocked p t"
    and "\<not> PageUnevictable p t" and "\<not> PageCompound p t" and "0 < pg_count (page_at t p)"
    and room: "Suc (length (k_lru_add_pvecs t (cur_cpu E) (page_lru p t))) < pagevec_size E"
  shows "\<exists>u. putback_lru_page E p t = Some u \<and> k_zones u = k_zones t \<and> k_held u = k_held t
    \<and> k_lru_add_pvecs u (cur_cpu E) (page_lru p t) = k_lru_add_pvecs t (cur_cpu E) (page_lru p t) @ [p]
    \<and> pg_count (page_at u p) = pg_count (page_at t p) \<and> (\<forall>q. q \<noteq> p \<longrightarrow> page_at u q = page_at t q)"
proof -
  let ?cpu = "cur_cpu E" and ?l = "page_lru p t"
  define t1 where "t1 = ClearPageActive p t"
  define t2 where "t2 = set_add_pvec ?cpu ?l (k_lru_add_pvecs t ?cpu ?l @ [p]) (get_page p t1)"
  define u where "u = upd_page p (\<lambda>pg. pg\<lparr>pg_count := pg_count pg - 1\<rparr>) t2"
  have base: "page_lru_base_type p t1 = page_lru_base_type p t" by (simp add: t1_def)
  have l: "of_bool (PageActive p t) + page_lru_base_type p t = ?l"
    using assms(4) by (simp add: page_lru_def LRU_ACTIVE_def Let_def)
  have l_un: "?l \<noteq> LRU_UNEVICTABLE"
    using assms(4) by (auto simp: page_lru_def page_lru_base_type_def lru_list_defs Let_def)
  have add: "lru_cache_add_lru E p ?l t1 = Some t2"
    using assms(1,4) room by (simp add: lru_cache_add_lru_def k__lru_cache_add_def t2_def t1_def Let_def)
  have redo: "putback_redo E p (of_bool (PageActive p t)) t1 = Some (?l, t2)"
    using assms(3,4) add l
    by (subst putback_redo.simps) (cases "PageActive p t"; simp add: page_evictable_def ev t1_def Let_def)
  have pg2: "page_at t2 q = page_at (get_page p t1) q" for q
    by (simp add: t2_def set_add_pvec_def)
  have "put_page_testzero p t2 = Some (False, u)"
    using assms(6) pg2 by (simp add: put_page_testzero_def u_def t1_def page_at_upd_page)
  moreover have "\<not> PageCompound p t2"
  proof -
    have "test_bit f p t2 = test_bit f p (get_page p t1)" for f by (simp add: test_bit_def pg2)
    then show ?thesis using assms(5) by (simp add: PageCompound_iff t1_def)
  qed
  ultimately have put: "put_page E p t2 = Some u" by (simp add: put_page_def)
  have "putback_lru_page E p t = Some u"
    using assms(1,4) redo put l_un
    by (cases "PageActive p t") (simp_all add: putback_lru_page_def test_and_clear_bit_def t1_def)
  moreover have "k_zones u = k_zones t" "k_held u = k_held t"
    "k_lru_add_pvecs u ?cpu ?l = k_lru_add_pvecs t ?cpu ?l @ [p]"
    by (simp_all add: u_def t2_def set_add_pvec_def t1_def)
  moreover have "pg_count (page_at u p) = pg_count (page_at t p)"
    by (simp add: u_def page_at_upd_page pg2) (simp add: t1_def)
  moreover have "page_at u q = page_at t q" if "q \<noteq> p" for q
    using that by (simp add: u_def page_at_upd_page pg2) (simp add: t1_def page_at_bits_other)
  ultimately show ?thesis by blast
qed

text \<open>
  C29. Taking an evictable page off its LRU list and putting it back is a round trip: from lists in
  order, \<open>isolate_lru_page\<close> succeeds, leaves the page on no list with one more reference and the
  lists in order, and \<open>putback_lru_page\<close> then queues it in the page vector of exactly the list it
  was taken from, the reference of the isolation passing to the vector; no other page and no
  lock changes.
\<close>

theorem isolate_putback_roundtrip:
  assumes "cur_cpu E < n" and "lru_ok E n s (page_zone E p)" and "PageLRU p s"
    and "on_lru p (zone_at s (page_zone E p))" and "LruLock (page_zone E p) \<notin> k_held s"
    and "0 < pg_count (page_at s p)" and "\<And>u. \<not> mapping_unevictable E p u" and "\<not> PageMlocked p s"
    and "\<not> PageUnevictable p s" and "\<not> PageCompound p s"
    and "Suc (length (k_lru_add_pvecs s (cur_cpu E) (page_lru p s))) < pagevec_size E"
  shows "\<exists>t u. isolate_lru_page E p s = Some (0, t) \<and> \<not> on_lru p (zone_at t (page_zone E p))
    \<and> lru_ok E n t (page_zone E p) \<and> pg_count (page_at t p) = pg_count (page_at s p) + 1
    \<and> putback_lru_page E p t = Some u \<and> lru_ok E n u (page_zone E p) \<and> k_held u = k_held s
    \<and> k_lru_add_pvecs u (cur_cpu E) (page_lru p s) = k_lru_add_pvecs s (cur_cpu E) (page_lru p s) @ [p]
    \<and> pg_count (page_at u p) = pg_count (page_at s p) + 1
    \<and> (\<forall>q. q \<noteq> p \<longrightarrow> page_at u q = page_at s q)"
proof -
  let ?z = "page_zone E p"
  have "pg_count (page_at s p) \<noteq> 0" using assms(6) by simp
  from isolate_lru_page_spec [OF assms(1,2) refl assms(3-5) this] obtain t where
    t: "isolate_lru_page E p s = Some (0, t)" "lru_ok E n t ?z" "\<not> on_lru p (zone_at t ?z)"
      "k_held t = k_held s" "k_lru_add_pvecs t = k_lru_add_pvecs s"
    and pg: "\<And>q. page_at t q = (if q = p then isolated_page (page_at s p) else page_at s q)"
    by blast
  have fl: "test_bit f p t = (f \<noteq> PG_lru \<and> test_bit f p s)" for f
    using pg_nr_inj [of f PG_lru] unfolding test_bit_def pg isolated_page_def by auto
  have "PageLinked p t = PageLinked p s" by (simp add: PageLinked_def pg isolated_page_def)
  then have lru: "page_lru p t = page_lru p s"
    by (simp add: page_lru_def page_lru_base_type_def page_is_file_cache_def fl)
  have cnt: "pg_count (page_at t p) = pg_count (page_at s p) + 1" by (simp add: pg isolated_page_def)
  have "\<not> PageCompound p t" using assms(10) by (simp add: PageCompound_iff fl)
  from putback_lru_page_spec [of p t E, OF _ assms(7) _ _ this] assms(6,8,9,11) fl lru cnt t(5) obtain u where
    u: "putback_lru_page E p t = Some u" "k_zones u = k_zones t" "k_held u = k_held t"
      "k_lru_add_pvecs u (cur_cpu E) (page_lru p s) = k_lru_add_pvecs s (cur_cpu E) (page_lru p s) @ [p]"
      "pg_count (page_at u p) = pg_count (page_at t p)" "\<forall>q. q \<noteq> p \<longrightarrow> page_at u q = page_at t q"
    by auto
  have "lru_ok E n u ?z = lru_ok E n t ?z"
  proof (rule lru_ok_frame)
    show "z_lru (zone_at u ?z) = z_lru (zone_at t ?z)" "zone_count n u = zone_count n t"
      using zones_readers [OF u(2)] by simp_all
    fix l q assume "q \<in> set (z_lru (zone_at t ?z) l)"
    with t(2,3) have "q \<noteq> p" by (auto simp: on_lru_wf lru_ok_def)
    with u(6) show "page_at u q = page_at t q" by simp
  qed
  with t u pg cnt show ?thesis by auto
qed

section \<open>What a batch takes\<close>

text \<open>A page that the scan of a list takes or rotates, whatever its reference count.\<close>

definition eligible :: "isolate_mode \<Rightarrow> bool \<Rightarrow> page_ptr \<Rightarrow> kstate \<Rightarrow> bool" where
  "eligible mode file p s \<longleftrightarrow> PageLRU p s \<and> \<not> PageUnevictable p s
     \<and> (mode = ISOLATE_BOTH \<or> PageActive p s = (mode = ISOLATE_ACTIVE) \<and> page_is_file_cache p s = file)"

text \<open>The state after a batch took \<open>good\<close> off the lists of the zone and left \<open>rest\<close> on one of them.\<close>

definition isolated_state :: "zone_ptr \<Rightarrow> lru_list \<Rightarrow> page_ptr list \<Rightarrow> page_ptr list \<Rightarrow> kstate \<Rightarrow> kstate" where
  "isolated_state z l good rest s = s\<lparr>
     k_pages := (\<lambda>p. if p \<in> set good then isolated_page (k_pages s p) else k_pages s p),
     k_zones := (k_zones s)(z := (k_zones s z)\<lparr>z_lru := (z_lru (k_zones s z))(l := rest)\<rparr>)\<rparr>"

definition has_ref :: "kstate \<Rightarrow> page_ptr \<Rightarrow> bool" where
  "has_ref s p \<longleftrightarrow> pg_count (page_at s p) \<noteq> 0"

lemma k__isolate_eligible:
  "eligible mode file p s \<Longrightarrow> k__isolate_lru_page p mode file s =
     (if has_ref s p then (0, upd_page p isolated_page s) else (- EBUSY, s))"
  by (cases mode) (auto simp: eligible_def k__isolate_lru_page_def get_page_unless_zero_def
      has_ref_def isolated_page_def get_page_def clear_bit_k_def upd_page_def)

lemma k__isolate_ret: "fst (k__isolate_lru_page p mode file s) \<in> {0, - EBUSY, - EINVAL}"
  by (auto simp: k__isolate_lru_page_def get_page_unless_zero_def)

lemma removeAll_last:
  "distinct xs \<Longrightarrow> xs \<noteq> [] \<Longrightarrow> removeAll (last xs) xs = butlast xs"
  by (induction xs rule: rev_induct) (auto simp: removeAll_append)

lemma lru_remove_last:
  assumes "lru_wf s z" and "z_lru (zone_at s z) l \<noteq> []"
  shows "lru_remove (last (z_lru (zone_at s z) l)) (zone_at s z) =
    (zone_at s z)\<lparr>z_lru := (z_lru (zone_at s z))(l := butlast (z_lru (zone_at s z) l))\<rparr>"
proof -
  let ?p = "last (z_lru (zone_at s z) l)"
  have "?p \<in> set (z_lru (zone_at s z) l)" using assms(2) by simp
  then have "removeAll ?p (z_lru (zone_at s z) m) = z_lru (zone_at s z) m" if "m \<noteq> l" for m
    using assms(1) that unfolding lru_wf_def by (metis removeAll_id)
  moreover have "removeAll ?p (z_lru (zone_at s z) l) = butlast (z_lru (zone_at s z) l)"
    using assms by (intro removeAll_last) (simp_all add: lru_wf_def)
  ultimately show ?thesis
    by (simp add: lru_remove_def fun_eq_iff)
qed

lemma on_lru_last: "lru_wf s z \<Longrightarrow> z_lru (zone_at s z) l \<noteq> [] \<Longrightarrow> on_lru (last (z_lru (zone_at s z) l)) (zone_at s z)"
  by (auto simp: on_lru_wf intro: last_in_set)

text \<open>One round of the loop: the tail page is taken, or rotated when nobody holds a reference.\<close>

lemma isolate_loop_round:
  assumes wf: "lru_wf s z" and xs: "z_lru (zone_at s z) l = ys @ [p]" and el: "eligible mode file p s"
    and "scan < n"
  shows "isolate_loop E swap z l 0 mode file n scan taken dst s =
    (if has_ref s p
     then isolate_loop E swap z l 0 mode file n (Suc scan) (taken + hpage_nr_pages E p) (p # dst)
       (isolated_state z l [p] ys s)
     else isolate_loop E swap z l 0 mode file n (Suc scan) taken dst (isolated_state z l [] (p # ys) s))"
proof -
  have ne: "z_lru (zone_at s z) l \<noteq> []" and lst: "last (z_lru (zone_at s z) l) = p"
    using xs by simp_all
  have rm: "lru_remove p (zone_at s z) = (zone_at s z)\<lparr>z_lru := (z_lru (zone_at s z))(l := ys)\<rparr>"
    using lru_remove_last [OF wf ne] xs by simp
  have on: "on_lru p (zone_at s z)" using on_lru_last [OF wf ne] lst by simp
  have lru: "PageLRU p s" using el by (simp add: eligible_def)
  have iso: "upd_zone z (lru_remove p) (upd_page p isolated_page s) = isolated_state z l [p] ys s"
    using rm by (simp add: isolated_state_def upd_zone_def upd_page_def zone_at_def fun_eq_iff fun_upd_def)
  have rot: "upd_zone z (lru_insert p (ListHead l)) (upd_zone z (lru_remove p) s) = isolated_state z l [] (p # ys) s"
    using rm by (simp add: isolated_state_def upd_zone_def zone_at_def)
  show ?thesis
    using assms(4) by (subst isolate_loop.simps)
      (simp add: ne lst lru k__isolate_eligible [OF el] lru_list_del_def lru_list_move_def on iso rot)
qed

lemma isolated_state_sel:
  "z_lru (zone_at (isolated_state z l good rest s) z) = (z_lru (zone_at s z))(l := rest)"
  "page_at (isolated_state z l good rest s) q =
     (if q \<in> set good then isolated_page (page_at s q) else page_at s q)"
  by (simp_all add: isolated_state_def zone_at_def page_at_def)

lemma isolated_state_add:
  "set g \<inter> set h = {} \<Longrightarrow>
    isolated_state z l h r2 (isolated_state z l g r1 s) = isolated_state z l (g @ h) r2 s"
  by (rule kstate.equality) (auto simp: isolated_state_def fun_eq_iff)

lemma lru_wf_isolated:
  assumes "lru_wf s z" and "set rest \<subseteq> set (z_lru (zone_at s z) l)" and "distinct rest"
  shows "lru_wf (isolated_state z l good rest s) z"
  unfolding lru_wf_def isolated_state_sel(1)
proof (intro conjI allI impI)
  fix a show "distinct (((z_lru (zone_at s z))(l := rest)) a)"
    using assms(1,3) by (simp add: lru_wf_def)
next
  fix a b p assume "p \<in> set (((z_lru (zone_at s z))(l := rest)) a)" "p \<in> set (((z_lru (zone_at s z))(l := rest)) b)"
  then have "p \<in> set (z_lru (zone_at s z) a)" "p \<in> set (z_lru (zone_at s z) b)"
    using assms(2) by (auto split: if_splits)
  with assms(1) show "a = b" by (simp add: lru_wf_def)
next
  fix a p assume "p \<in> set (((z_lru (zone_at s z))(l := rest)) a)"
  then have "p \<in> set (z_lru (zone_at s z) a)" using assms(2) by (auto split: if_splits)
  with assms(1) show "a < NR_LRU_LISTS" unfolding lru_wf_def by blast
qed

lemma eligible_cong: "page_at t p = page_at s p \<Longrightarrow> eligible mode file p t = eligible mode file p s"
  by (simp add: eligible_def test_bit_def page_is_file_cache_def)

lemma isolated_state_id: "z_lru (zone_at s z) l = rest \<Longrightarrow> isolated_state z l [] rest s = s"
  by (auto simp: isolated_state_def zone_at_def)

lemma isolate_loop_spec:
  assumes "lru_wf s z" and "z_lru (zone_at s z) l = ys @ rev bs"
    and "\<forall>p \<in> set (z_lru (zone_at s z) l). eligible mode file p s" and "n = scan + length bs"
  shows "isolate_loop E swap z l 0 mode file n scan taken dst s = Some
     (taken + (\<Sum>p \<leftarrow> filter (has_ref s) bs. hpage_nr_pages E p), n, rev (filter (has_ref s) bs) @ dst,
      isolated_state z l (filter (has_ref s) bs) (rev (filter (\<lambda>p. \<not> has_ref s p) bs) @ ys) s)"
  using assms
proof (induction bs arbitrary: ys scan taken dst s)
  case Nil
  then show ?case
    by (subst isolate_loop.simps) (simp add: isolated_state_id)
next
  case (Cons p bs)
  let ?good = "has_ref s p"
  let ?rest = "if ?good then ys @ rev bs else p # ys @ rev bs"
  let ?s = "isolated_state z l (if ?good then [p] else []) ?rest s"
  have xs: "z_lru (zone_at s z) l = (ys @ rev bs) @ [p]" using Cons.prems(2) by simp
  have dist: "distinct ((ys @ rev bs) @ [p])"
    using Cons.prems(1) xs unfolding lru_wf_def by metis
  have el: "eligible mode file p s" using Cons.prems(3) xs by simp
  have wf: "lru_wf ?s z"
    using dist xs by (intro lru_wf_isolated [OF Cons.prems(1)]) auto
  have lru: "z_lru (zone_at ?s z) l = (if ?good then ys else p # ys) @ rev bs"
    by (simp add: isolated_state_sel)
  have same: "has_ref ?s q = has_ref s q \<and> (?good \<longrightarrow> q \<noteq> p)" if "q \<in> set (ys @ rev bs)" for q
    using dist that by (auto simp: has_ref_def isolated_state_sel)
  have el': "\<forall>q \<in> set (z_lru (zone_at ?s z) l). eligible mode file q ?s"
  proof
    fix q assume q: "q \<in> set (z_lru (zone_at ?s z) l)"
    then have "q \<in> set (z_lru (zone_at s z) l)" using lru xs by (auto split: if_splits)
    then have "eligible mode file q s" using Cons.prems(3) by blast
    moreover have "page_at ?s q = page_at s q"
      using q lru dist by (auto simp: isolated_state_sel split: if_splits)
    ultimately show "eligible mode file q ?s" using eligible_cong by metis
  qed
  have flt: "filter (has_ref ?s) bs = filter (has_ref s) bs"
    "filter (\<lambda>p. \<not> has_ref ?s p) bs = filter (\<lambda>p. \<not> has_ref s p) bs"
    using same by (auto intro!: filter_cong)
  have "isolate_loop E swap z l 0 mode file n scan taken dst s =
      isolate_loop E swap z l 0 mode file n (Suc scan) (if ?good then taken + hpage_nr_pages E p else taken)
        (if ?good then p # dst else dst) ?s"
    using isolate_loop_round [OF Cons.prems(1) xs el, of scan n] Cons.prems(4) by simp
  also have "\<dots> = Some ((if ?good then taken + hpage_nr_pages E p else taken) + (\<Sum>p \<leftarrow> filter (has_ref s) bs. hpage_nr_pages E p),
      n, rev (filter (has_ref s) bs) @ (if ?good then p # dst else dst),
      isolated_state z l (filter (has_ref s) bs) (rev (filter (\<lambda>p. \<not> has_ref s p) bs) @ (if ?good then ys else p # ys)) ?s)"
    using Cons.IH [OF wf lru el'] Cons.prems(4) flt by simp
  also have "isolated_state z l (filter (has_ref s) bs) (rev (filter (\<lambda>p. \<not> has_ref s p) bs) @ (if ?good then ys else p # ys)) ?s
      = isolated_state z l (filter (has_ref s) (p # bs)) (rev (filter (\<lambda>p. \<not> has_ref s p) (p # bs)) @ ys) s"
    using dist by (subst isolated_state_add) auto
  finally show ?case by (auto simp: add.assoc)
qed

definition plain_lru :: "bool \<Rightarrow> bool \<Rightarrow> lru_list" where
  "plain_lru active file = LRU_BASE + (if active then LRU_ACTIVE else 0) + (if file then LRU_FILE else 0)"

lemma isolate_pages_global_eq:
  "isolate_pages_global E swap n dst order mode z active file s =
     isolate_loop E swap z (plain_lru active file) order mode file n 0 0 dst s"
  by (simp add: isolate_pages_global_def isolate_lru_pages_def plain_lru_def Let_def)

lemma isolate_pages_spec:
  assumes "lru_wf s z" and xs: "xs = z_lru (zone_at s z) (plain_lru active file)"
    and "n \<le> length xs" and "\<forall>p \<in> set xs. eligible mode file p s"
    and b: "batch = take n (rev xs)" and g: "good = filter (has_ref s) batch"
  shows "isolate_pages_global E swap n dst 0 mode z active file s = Some
    ((\<Sum>p \<leftarrow> good. hpage_nr_pages E p), n, rev good @ dst,
     isolated_state z (plain_lru active file) good
       (rev (filter (\<lambda>p. \<not> has_ref s p) batch) @ take (length xs - n) xs) s)"
proof -
  have "xs = take (length xs - n) xs @ rev batch"
    using b by (simp add: rev_take)
  then have "z_lru (zone_at s z) (plain_lru active file) = take (length xs - n) xs @ rev batch"
    using xs by simp
  from isolate_loop_spec [OF assms(1) this, where scan = 0 and n = n] show ?thesis
    using assms(3,4) xs b g by (simp add: isolate_pages_global_eq)
qed

text \<open>
  C28. Without lumpy reclaim (order 0), reclaim takes pages from the tail of a plain list. On a list
  of at least \<open>n\<close> pages that all fit the mode the batch returns without \<open>BUG\<close>, looks at exactly the
  last \<open>n\<close> pages, takes those whose reference count is not 0 (count raised, \<open>PG_lru\<close> cleared, the
  page at the tail taken first), moves the pages being freed elsewhere to the front, and changes
  nothing else; the list scanned is none of those of chained pages. At a higher order the code also
  takes the frames next to a page, from whatever list they are on.
\<close>

theorem isolate_pages_correct:
  assumes "lru_wf s z" and "xs = z_lru (zone_at s z) (plain_lru active file)"
    and "n \<le> length xs" and "\<forall>p \<in> set xs. eligible mode file p s"
    and "batch = take n (rev xs)" and "good = filter (has_ref s) batch"
  shows "isolate_pages_global E swap n dst 0 mode z active file s = Some
      ((\<Sum>p \<leftarrow> good. hpage_nr_pages E p), n, rev good @ dst,
       isolated_state z (plain_lru active file) good
         (rev (filter (\<lambda>p. \<not> has_ref s p) batch) @ take (length xs - n) xs) s)
    \<and> \<not> is_linked_lru (plain_lru active file)"
  using isolate_pages_spec [OF assms] by (auto simp: plain_lru_def is_linked_lru_def lru_list_defs)

section \<open>The counters of the isolated pages\<close>

text \<open>The list that \<open>clear_active_flags\<close> counts a page for.\<close>

definition page_kind :: "page_ptr \<Rightarrow> kstate \<Rightarrow> lru_list" where
  "page_kind p s = page_lru_base_type p s + (if PageActive p s then LRU_ACTIVE else 0)"

lemma page_kind_cong: "page_at t p = page_at s p \<Longrightarrow> page_kind p t = page_kind p s"
  by (simp add: page_kind_def page_lru_base_type_def page_is_file_cache_def PageLinked_def test_bit_def)

lemma clear_active_flags_spec:
  assumes "distinct ps"
  shows "\<exists>t. clear_active_flags E ps c s = ((\<Sum>p \<leftarrow> filter (\<lambda>p. PageActive p s) ps. hpage_nr_pages E p),
      \<lambda>l. c l + (\<Sum>p \<leftarrow> filter (\<lambda>p. page_kind p s = l) ps. hpage_nr_pages E p), t)
    \<and> k_zones t = k_zones s \<and> k_held t = k_held s
    \<and> (\<forall>q. q \<notin> set ps \<longrightarrow> page_at t q = page_at s q)
    \<and> (\<forall>q \<in> set ps. \<not> PageActive q t)"
  using assms
proof (induction ps arbitrary: c s)
  case (Cons p ps)
  let ?s = "ClearPageActive p s"
  let ?c = "c(page_kind p s := c (page_kind p s) + hpage_nr_pages E p)"
  have s': "(if PageActive p s then ?s else s) = ?s" by simp
  have same: "page_kind q ?s = page_kind q s" "PageActive q ?s = PageActive q s" if "q \<in> set ps" for q
  proof -
    have "q \<noteq> p" using Cons.prems that by auto
    then show "page_kind q ?s = page_kind q s" "PageActive q ?s = PageActive q s"
      by (auto intro!: page_kind_cong simp: page_at_bits_other)
  qed
  have "distinct ps" using Cons.prems by simp
  from Cons.IH [OF this, of ?c ?s] obtain t where t:
    "clear_active_flags E ps ?c ?s = ((\<Sum>p \<leftarrow> filter (\<lambda>p. PageActive p ?s) ps. hpage_nr_pages E p),
      \<lambda>l. ?c l + (\<Sum>p \<leftarrow> filter (\<lambda>p. page_kind p ?s = l) ps. hpage_nr_pages E p), t)"
    "k_zones t = k_zones ?s" "k_held t = k_held ?s"
    "\<forall>q. q \<notin> set ps \<longrightarrow> page_at t q = page_at ?s q" "\<forall>q \<in> set ps. \<not> PageActive q t"
    by (elim exE conjE) (rule that)
  have flt: "filter (\<lambda>p. PageActive p ?s) ps = filter (\<lambda>p. PageActive p s) ps"
    "filter (\<lambda>p. page_kind p ?s = l) ps = filter (\<lambda>p. page_kind p s = l) ps" for l
    by (rule filter_cong_on_set, use same in simp)+
  have "clear_active_flags E (p # ps) c s = ((\<Sum>p \<leftarrow> filter (\<lambda>p. PageActive p s) (p # ps). hpage_nr_pages E p),
      \<lambda>l. c l + (\<Sum>p \<leftarrow> filter (\<lambda>p. page_kind p s = l) (p # ps). hpage_nr_pages E p), t)"
  proof (cases "PageActive p s")
    case True
    then have "clear_active_flags E (p # ps) c s = (let (n, c', u) = clear_active_flags E ps ?c ?s
        in (n + hpage_nr_pages E p, c', u))"
      by (simp add: page_kind_def Let_def)
    with t(1) flt True show ?thesis by (auto simp: fun_eq_iff)
  next
    case False
    then have "clear_active_flags E (p # ps) c s = clear_active_flags E ps ?c ?s"
      by (simp add: page_kind_def Let_def split: prod.split)
    with t(1) flt False show ?thesis by (auto simp: fun_eq_iff)
  qed
  moreover have "k_zones t = k_zones s" "k_held t = k_held s" using t(2,3) by simp_all
  moreover have "page_at t q = page_at s q" if "q \<notin> set (p # ps)" for q
    using t(4) that by (simp add: page_at_bits_other)
  moreover have "\<not> PageActive p t"
  proof -
    have "page_at t p = page_at ?s p" using t(4) Cons.prems by simp
    then show ?thesis by (simp add: test_bit_def clear_bit_k_def page_at_upd_page)
  qed
  ultimately show ?case using t(5) by (intro exI [of _ t]) (simp only:, simp)
qed (auto simp: fun_eq_iff)

definition kind_size :: "kenv \<Rightarrow> kstate \<Rightarrow> page_ptr list \<Rightarrow> lru_list \<Rightarrow> int" where
  "kind_size E s ps l = (\<Sum>p \<leftarrow> filter (\<lambda>p. page_kind p s = l) ps. hpage_nr_pages E p)"

lemma upd_reclaim_stat_frame [simp]:
  "zone_count n (upd_reclaim_stat z f s) = zone_count n s"
  "z_lru (zone_at (upd_reclaim_stat z f s) y) = z_lru (zone_at s y)"
  "page_at (upd_reclaim_stat z f s) p = page_at s p" "k_held (upd_reclaim_stat z f s) = k_held s"
  by (auto simp: upd_reclaim_stat_def zone_at_upd_zone intro!: zone_count_cong)

lemmas recent_defs = add_recent_scanned_def add_recent_rotated_def

lemma update_isolated_counts_spec:
  assumes "distinct ps" and "cur_cpu E < n"
  shows "\<exists>t. update_isolated_counts E z ps s =
      (kind_size E s ps LRU_ACTIVE_ANON + kind_size E s ps LRU_INACTIVE_ANON,
       kind_size E s ps LRU_ACTIVE_FILE + kind_size E s ps LRU_INACTIVE_FILE, t)
    \<and> z_lru (zone_at t z) = z_lru (zone_at s z)
    \<and> (\<forall>i. zone_count n t z i = zone_count n s z i
      - (if i = NR_ACTIVE_FILE then kind_size E s ps LRU_ACTIVE_FILE else 0)
      - (if i = NR_INACTIVE_FILE then kind_size E s ps LRU_INACTIVE_FILE else 0)
      - (if i = NR_ACTIVE_ANON then kind_size E s ps LRU_ACTIVE_ANON else 0)
      - (if i = NR_INACTIVE_ANON then kind_size E s ps LRU_INACTIVE_ANON else 0)
      + (if i = NR_ISOLATED_ANON
         then kind_size E s ps LRU_ACTIVE_ANON + kind_size E s ps LRU_INACTIVE_ANON else 0)
      + (if i = NR_ISOLATED_FILE
         then kind_size E s ps LRU_ACTIVE_FILE + kind_size E s ps LRU_INACTIVE_FILE else 0))"
proof -
  from clear_active_flags_spec [OF assms(1), of E "\<lambda>_. 0" s] obtain t0 where
    run: "clear_active_flags E ps (\<lambda>_. 0) s =
      ((\<Sum>p \<leftarrow> filter (\<lambda>p. PageActive p s) ps. hpage_nr_pages E p), kind_size E s ps, t0)"
    and z: "k_zones t0 = k_zones s"
    by (auto simp: kind_size_def [abs_def])
  have "zone_count n t0 = zone_count n s"
    using z by (intro zone_count_cong) (simp_all add: zone_at_def)
  moreover have "zone_at t0 = zone_at s" using z by (simp add: zone_at_def fun_eq_iff)
  ultimately show ?thesis
    using assms(2) by (simp add: update_isolated_counts_def run recent_defs vmstat.val_modz Let_def)
qed

lemma sum_list_partition:
  fixes f :: "'a \<Rightarrow> int"
  shows "(\<Sum>x \<leftarrow> filter P xs. f x) + (\<Sum>x \<leftarrow> filter (\<lambda>x. \<not> P x) xs. f x) = (\<Sum>x \<leftarrow> xs. f x)"
  by (induction xs) auto

definition pages_size :: "kenv \<Rightarrow> page_ptr list \<Rightarrow> int" where
  "pages_size E ps = (\<Sum>p \<leftarrow> ps. hpage_nr_pages E p)"

lemma pages_size_simps [simp]:
  "pages_size E (xs @ ys) = pages_size E xs + pages_size E ys" "pages_size E (rev xs) = pages_size E xs"
  by (simp_all add: pages_size_def rev_map [symmetric])

lemma pages_size_partition:
  "pages_size E (filter P ps) + pages_size E (filter (\<lambda>p. \<not> P p) ps) = pages_size E ps"
  unfolding pages_size_def by (rule sum_list_partition)

lemma kind_size_split:
  assumes "\<And>p. p \<in> set ps \<Longrightarrow> page_kind p u = (if P p then l + LRU_LINKED else l)"
  shows "kind_size E u ps m = (if m = l then pages_size E (filter (\<lambda>p. \<not> P p) ps)
    else if m = l + LRU_LINKED then pages_size E (filter P ps) else 0)"
proof -
  have "filter (\<lambda>p. page_kind p u = m) ps = filter (\<lambda>p. if m = l then \<not> P p
      else if m = l + LRU_LINKED then P p else False) ps"
    by (rule filter_cong_on_set) (simp add: assms LRU_LINKED_def)
  then show ?thesis
    by (simp add: kind_size_def pages_size_def)
qed

lemma page_kind_isolated:
  assumes "p \<in> set good" and "eligible ISOLATE_INACTIVE file p s"
  shows "page_kind p (isolated_state z l good r s) =
    (if PageLinked p s then plain_lru False file + LRU_LINKED else plain_lru False file)"
proof -
  let ?u = "isolated_state z l good r s"
  have "PageActive p ?u = PageActive p s" "PageLinked p ?u = PageLinked p s"
    "page_is_file_cache p ?u = page_is_file_cache p s"
    using assms(1) by (simp_all add: test_bit_def isolated_state_sel isolated_page_def
        PageLinked_def page_is_file_cache_def bit_unset_bit_iff)
  with assms(2) show ?thesis
    by (auto simp: eligible_def page_kind_def page_lru_base_type_def plain_lru_def lru_list_defs Let_def)
qed

lemma lru_size_isolated:
  assumes "xs = z_lru (zone_at s z) l" and "batch = take n (rev xs)"
  shows "lru_size E (isolated_state z l (filter P batch) (rev (filter (\<lambda>p. \<not> P p) batch) @ take (length xs - n) xs) s) z m
    = lru_size E s z m - (if m = l then pages_size E (filter P batch) else 0)"
proof (cases "m = l")
  case True
  have "xs = take (length xs - n) xs @ rev batch" using assms(2) by (simp add: rev_take)
  then have "pages_size E xs = pages_size E (take (length xs - n) xs) + pages_size E batch"
    by (metis pages_size_simps)
  with True assms(1) pages_size_partition [of E P batch] show ?thesis
    by (simp add: lru_size_def pages_size_def [symmetric] isolated_state_sel)
qed (simp add: lru_size_def isolated_state_sel)

text \<open>
  A batch of the inactive list followed by \<open>update_isolated_counts\<close>: the pages of the batch
  that belong to a memory chain are counted for a list of chained pages, which
  \<open>update_isolated_counts\<close> does not write back.
\<close>

lemma isolate_counts_spec:
  assumes "lru_wf s z" and "cur_cpu E < c" and l: "l = plain_lru False file"
    and xs: "xs = z_lru (zone_at s z) l" and "n \<le> length xs"
    and el: "\<forall>p \<in> set xs. eligible ISOLATE_INACTIVE file p s"
  shows "\<exists>taken pages u a f t.
      isolate_pages_global E swap n [] 0 ISOLATE_INACTIVE z False file s = Some (taken, n, pages, u)
    \<and> update_isolated_counts E z pages u = (a, f, t)
    \<and> (let chained = pages_size E (filter (\<lambda>p. PageLinked p s) pages)
       in (if file then f else a) = taken - chained
        \<and> zone_count c t z (NR_ISOLATED_ANON + of_bool file)
            = zone_count c s z (NR_ISOLATED_ANON + of_bool file) + taken - chained
        \<and> (\<forall>m < NR_LRU_LISTS. lru_drift E c t z m = lru_drift E c s z m + (if m = l then chained else 0)))"
proof -
  define batch where "batch = take n (rev xs)"
  define good where "good = filter (has_ref s) batch"
  define u where "u = isolated_state z l good (rev (filter (\<lambda>p. \<not> has_ref s p) batch) @ take (length xs - n) xs) s"
  have iso: "isolate_pages_global E swap n [] 0 ISOLATE_INACTIVE z False file s
      = Some (pages_size E good, n, rev good, u)"
    using isolate_pages_spec [OF assms(1) xs [unfolded l] assms(5) el batch_def good_def, of E swap "[]"]
    by (simp add: pages_size_def u_def l)
  have dg: "distinct (rev good)"
    using assms(1) xs by (simp add: good_def batch_def lru_wf_def)
  from update_isolated_counts_spec [OF dg assms(2), of z u] obtain a f t where
    t: "update_isolated_counts E z (rev good) u = (a, f, t)"
    and af: "a = kind_size E u (rev good) LRU_ACTIVE_ANON + kind_size E u (rev good) LRU_INACTIVE_ANON"
      "f = kind_size E u (rev good) LRU_ACTIVE_FILE + kind_size E u (rev good) LRU_INACTIVE_FILE"
    and tz: "z_lru (zone_at t z) = z_lru (zone_at u z)"
    and tc: "\<And>i. zone_count c t z i = zone_count c u z i
      - (if i = NR_ACTIVE_FILE then kind_size E u (rev good) LRU_ACTIVE_FILE else 0)
      - (if i = NR_INACTIVE_FILE then kind_size E u (rev good) LRU_INACTIVE_FILE else 0)
      - (if i = NR_ACTIVE_ANON then kind_size E u (rev good) LRU_ACTIVE_ANON else 0)
      - (if i = NR_INACTIVE_ANON then kind_size E u (rev good) LRU_INACTIVE_ANON else 0)
      + (if i = NR_ISOLATED_ANON then a else 0) + (if i = NR_ISOLATED_FILE then f else 0)"
    by auto
  define chained where "chained = pages_size E (filter (\<lambda>p. PageLinked p s) (rev good))"
  have "set good \<subseteq> set xs" by (auto simp: good_def batch_def dest: in_set_takeD)
  then have kind: "page_kind p u = (if PageLinked p s then l + LRU_LINKED else l)" if "p \<in> set (rev good)" for p
    using page_kind_isolated [of p good "file" s z l] el that by (auto simp: u_def l)
  have ks: "kind_size E u (rev good) m = (if m = l then pages_size E (filter (\<lambda>p. \<not> PageLinked p s) (rev good))
      else if m = l + LRU_LINKED then pages_size E (filter (\<lambda>p. PageLinked p s) (rev good)) else 0)" for m
    by (rule kind_size_split) (rule kind)
  have rest: "pages_size E (filter (\<lambda>p. \<not> PageLinked p s) (rev good)) = pages_size E good - chained"
    using pages_size_partition [of E "\<lambda>p. PageLinked p s" "rev good"] by (simp add: chained_def)
  have ks4: "kind_size E u (rev good) LRU_ACTIVE_ANON = 0" "kind_size E u (rev good) LRU_ACTIVE_FILE = 0"
    "kind_size E u (rev good) LRU_INACTIVE_ANON = (if file then 0 else pages_size E good - chained)"
    "kind_size E u (rev good) LRU_INACTIVE_FILE = (if file then pages_size E good - chained else 0)"
    unfolding ks rest by (simp_all add: l plain_lru_def lru_list_defs)
  have uc: "zone_count c u = zone_count c s"
    by (rule zone_count_cong) (simp_all add: u_def isolated_state_def zone_at_def)
  have tc': "zone_count c t z i = zone_count c s z i
      - (if i = NR_LRU_BASE + l then pages_size E good - chained else 0)
      + (if i = NR_ISOLATED_ANON + of_bool file then pages_size E good - chained else 0)" for i
    using tc [of i] unfolding af ks4 uc
    by (cases "file") (simp_all add: l plain_lru_def lru_list_defs zone_stat_defs)
  have drift: "lru_drift E c t z m = lru_drift E c s z m + (if m = l then chained else 0)" if "m < NR_LRU_LISTS" for m
  proof -
    have "lru_size E t z m = lru_size E u z m" by (simp add: lru_size_def tz)
    moreover have "NR_LRU_BASE + m \<noteq> NR_ISOLATED_ANON + of_bool file"
      using that by (simp add: NR_LRU_LISTS_def zone_stat_defs)
    ultimately show ?thesis
      using lru_size_isolated [OF xs batch_def, where E = E and P = "has_ref s" and m = m]
      by (simp add: lru_drift_def tc' u_def good_def)
  qed
  have "zone_count c t z (NR_ISOLATED_ANON + of_bool file)
      = zone_count c s z (NR_ISOLATED_ANON + of_bool file) + pages_size E good - chained"
    using tc' [of "NR_ISOLATED_ANON + of_bool file"]
    by (simp add: l plain_lru_def lru_list_defs zone_stat_defs)
  moreover have "(if file then f else a) = pages_size E good - chained" unfolding af ks4 by simp
  ultimately show ?thesis
    using iso t drift
    by (intro exI [of _ "pages_size E good"] exI [of _ "rev good"] exI [of _ u] exI [of _ a] exI [of _ f] exI [of _ t])
      (simp add: chained_def [symmetric] Let_def del: rev_filter)
qed

text \<open>
  C27. Reclaim loses count of chained pages. When a batch is taken, without lumpy reclaim (order 0),
  off a plain inactive list of at least \<open>n\<close> pages that all fit the mode, and accounted for, every
  LRU counter follows its list except that of the scanned list, which stays too high by the pages of
  the batch that belong to a memory chain (linking moves no page between lists, so such pages are
  there); the same pages are missing from the isolated count, which \<open>putback_lru_pages\<close> later gives
  back. Without chained pages in the batch nothing drifts.
\<close>

theorem isolate_counts_drift:
  assumes "lru_wf s z" and "cur_cpu E < c" and "l = plain_lru False file"
    and "xs = z_lru (zone_at s z) l" and "n \<le> length xs"
    and "\<forall>p \<in> set xs. eligible ISOLATE_INACTIVE file p s"
  shows "\<exists>taken pages u a f t.
      isolate_pages_global E swap n [] 0 ISOLATE_INACTIVE z False file s = Some (taken, n, pages, u)
    \<and> update_isolated_counts E z pages u = (a, f, t)
    \<and> (let chained = pages_size E (filter (\<lambda>p. PageLinked p s) pages)
       in (if file then f else a) = taken - chained
        \<and> zone_count c t z (NR_ISOLATED_ANON + of_bool file)
            = zone_count c s z (NR_ISOLATED_ANON + of_bool file) + taken - chained
        \<and> (\<forall>m < NR_LRU_LISTS. lru_drift E c t z m = lru_drift E c s z m + (if m = l then chained else 0)))"
  using assms by (rule isolate_counts_spec)

section \<open>The theorems on the small machine\<close>

theorem isolate_putback_roundtrip_witness:
  "\<exists>t u. isolate_lru_page sample_env 7 lru_sample = Some (0, t) \<and> putback_lru_page sample_env 7 t = Some u
     \<and> k_lru_add_pvecs u 0 LRU_INACTIVE_FILE = [7]"
proof -
  have pg: "page_at lru_sample 7 = page_at (SetPageLRU 7 sample_state) 7"
    and tb: "test_bit f 7 lru_sample = test_bit f 7 (SetPageLRU 7 sample_state)"
    and lr: "page_lru 7 lru_sample = page_lru 7 (SetPageLRU 7 sample_state)"
    and ad: "k_lru_add_pvecs lru_sample = k_lru_add_pvecs sample_state" for f
    by (simp_all add: lru_sample_def add_page_to_lru_list_def k__add_page_to_lru_list_def)
  have s: "\<not> test_bit f 7 sample_state" "pg_count (page_at sample_state 7) = 1"
    "k_lru_add_pvecs sample_state = (\<lambda>_ _. [])" "lru_ok sample_env (Suc 0) lru_sample 0" for f
    using lru_sample_ok by (simp_all add: test_bit_def page_at_def sample_defs)
  have env: "cur_cpu sample_env = 0" "page_zone sample_env 7 = 0" "pagevec_size sample_env = 14"
    "\<not> mapping_unevictable sample_env 7 u" for u
    by (simp_all add: sample_env_def)
  have on: "on_lru 7 (zone_at lru_sample 0)"
    using lru_sample_list by (auto simp: on_lru_iff lru_list_defs intro!: exI [of _ LRU_INACTIVE_FILE])
  show ?thesis
    using isolate_putback_roundtrip [of sample_env 1 lru_sample 7]
    by (simp add: env lru_sample_sel(2) on pg tb lr ad s PageCompound_iff page_lru_sample) blast
qed

text \<open>Pages 7 and 9 on the inactive file list, page 7 a member of chain 1.\<close>

definition two_on_list :: kstate where
  "two_on_list = linked_state\<lparr>
     k_pages := (k_pages linked_state)(7 := (k_pages linked_state 7)\<lparr>pg_flags := set_bit 5 0\<rparr>,
       9 := sample_page\<lparr>pg_flags := set_bit 5 0\<rparr>),
     k_zones := (\<lambda>_. sample_zone\<lparr>z_lru := (\<lambda>l. if l = LRU_INACTIVE_FILE then [7, 9] else [])\<rparr>)\<rparr>"

lemma two_on_list_sel:
  "z_lru (zone_at two_on_list 0) LRU_INACTIVE_FILE = [7, 9]" "lru_wf two_on_list 0"
  "\<forall>p \<in> set [7, 9]. eligible ISOLATE_INACTIVE True p two_on_list"
  "has_ref two_on_list 7" "has_ref two_on_list 9"
  "PageLinked 7 two_on_list" "\<not> PageLinked 9 two_on_list"
proof -
  show "z_lru (zone_at two_on_list 0) LRU_INACTIVE_FILE = [7, 9]" "lru_wf two_on_list 0"
    "has_ref two_on_list 7" "has_ref two_on_list 9" "PageLinked 7 two_on_list" "\<not> PageLinked 9 two_on_list"
    by (simp_all add: two_on_list_def lru_wf_def has_ref_def zone_at_def page_at_def PageLinked_def
        linked_state_def sample_defs lru_list_defs)
  show "\<forall>p \<in> set [7, 9]. eligible ISOLATE_INACTIVE True p two_on_list"
    by (simp add: eligible_def two_on_list_def test_bit_def page_at_def page_is_file_cache_def
        linked_state_def sample_defs)
qed

lemma plain_inactive_file: "plain_lru False True = LRU_INACTIVE_FILE"
  by (simp add: plain_lru_def lru_list_defs)

theorem isolate_pages_correct_witness:
  "\<exists>t. isolate_pages_global sample_env 0 1 [] 0 ISOLATE_INACTIVE 0 False True two_on_list
     = Some (1, 1, [9], t) \<and> z_lru (zone_at t 0) LRU_INACTIVE_FILE = [7]"
  using isolate_pages_correct [of two_on_list 0 "[7, 9]" False True 1 ISOLATE_INACTIVE "[9]" "[9]" sample_env 0 "[]"]
    two_on_list_sel
  by (simp add: plain_inactive_file isolated_state_sel sample_env_def)

theorem isolate_counts_drift_witness:
  "\<exists>taken pages u a f t.
      isolate_pages_global sample_env 0 2 [] 0 ISOLATE_INACTIVE 0 False True two_on_list = Some (taken, 2, pages, u)
    \<and> update_isolated_counts sample_env 0 pages u = (a, f, t)"
  using isolate_counts_drift [of two_on_list 0 sample_env 1 LRU_INACTIVE_FILE True "[7, 9]" 2 0]
    two_on_list_sel sample_cpu
  by (simp add: plain_inactive_file) blast
end
