(* ===== verification/Shrink.thy ===== *)
theory Shrink
  imports Isolate "HOL-Library.Sublist"
begin

text \<open>
  Reclaiming the pages of a batch (\<open>Linux/vmscan.c\<close>): the reclaim modes and \<open>struct
  scan_control\<close>, the decision \<open>page_check_references\<close> takes from the referenced state of a page
  and of its memory chain, writing a page out and detaching it from its mapping, the walk over
  an isolated batch, and the shrinking of one inactive or active list. The \<open>goto\<close> labels of
  \<open>shrink_page_list\<close> are the values of \<open>page_fate\<close>. What the code calls outside this repository
  is in the record \<open>reclaim_env\<close>; the lock of an address space is left out.
\<close>

section \<open>Scan control\<close>

definition RECLAIM_MODE_SINGLE :: ulong where "RECLAIM_MODE_SINGLE = 0x01"
definition RECLAIM_MODE_ASYNC :: ulong where "RECLAIM_MODE_ASYNC = 0x02"
definition RECLAIM_MODE_SYNC :: ulong where "RECLAIM_MODE_SYNC = 0x04"
definition RECLAIM_MODE_LUMPYRECLAIM :: ulong where "RECLAIM_MODE_LUMPYRECLAIM = 0x08"
definition RECLAIM_MODE_COMPACTION :: ulong where "RECLAIM_MODE_COMPACTION = 0x10"

lemmas reclaim_mode_defs = RECLAIM_MODE_SINGLE_def RECLAIM_MODE_ASYNC_def RECLAIM_MODE_SYNC_def
  RECLAIM_MODE_LUMPYRECLAIM_def RECLAIM_MODE_COMPACTION_def

text \<open>The memory cgroup and the node mask of a request are not configured.\<close>

record scan_control =
  sc_nr_scanned :: nat
  sc_nr_reclaimed :: nat
  sc_nr_to_reclaim :: nat
  sc_hibernation_mode :: bool
  sc_gfp_mask :: "gfp_flag set"
  sc_may_writepage :: bool
  sc_may_unmap :: bool
  sc_may_swap :: bool
  sc_swappiness :: nat
  sc_order :: nat
  sc_reclaim_mode :: ulong

definition DEF_PRIORITY :: nat where "DEF_PRIORITY = 12"
definition SWAP_CLUSTER_MAX :: nat where "SWAP_CLUSTER_MAX = 32"

text \<open>The results of \<open>try_to_unmap\<close>, from \<open>rmap.h\<close>.\<close>

datatype swap_result = SWAP_SUCCESS | SWAP_AGAIN | SWAP_FAIL | SWAP_MLOCK

text \<open>The answers of \<open>compaction_suitable\<close>, from \<open>compaction.h\<close>.\<close>

datatype compact_result = COMPACT_SKIPPED | COMPACT_CONTINUE | COMPACT_PARTIAL | COMPACT_COMPLETE

type_synonym mapping_ptr = nat

record reclaim_env =
  mm :: kenv
  wm :: alloc_env
  compaction_build :: bool
  current_is_kswapd :: bool
  pf_swapwrite :: bool
  fatal_signal_pending :: "kstate \<Rightarrow> bool"
  nr_swap_pages :: "kstate \<Rightarrow> int"
  total_swap_pages :: "kstate \<Rightarrow> int"
  vm_swap_full :: "kstate \<Rightarrow> bool"
  buffer_heads_over_limit :: "kstate \<Rightarrow> bool"
  congestion_wait :: "kstate \<Rightarrow> kstate"
  page_referenced_locked :: "page_ptr \<Rightarrow> kstate \<Rightarrow> (nat \<times> ulong) \<times> kstate"
  page_mapping :: "page_ptr \<Rightarrow> kstate \<Rightarrow> mapping_ptr option"
  wait_on_page_writeback :: "page_ptr \<Rightarrow> kstate \<Rightarrow> kstate"
  add_to_swap :: "page_ptr \<Rightarrow> kstate \<Rightarrow> bool \<times> kstate"
  try_to_unmap :: "page_ptr \<Rightarrow> kstate \<Rightarrow> swap_result \<times> kstate"
  try_to_release_gfp :: "gfp_flag set \<Rightarrow> page_ptr \<Rightarrow> kstate \<Rightarrow> bool \<times> kstate"
  try_to_free_swap :: "page_ptr \<Rightarrow> kstate \<Rightarrow> kstate"
  try_to_free_buffers :: "page_ptr \<Rightarrow> kstate \<Rightarrow> bool \<times> kstate"
  clear_page_dirty_for_io :: "page_ptr \<Rightarrow> kstate \<Rightarrow> bool \<times> kstate"
  has_writepage :: "mapping_ptr \<Rightarrow> bool"
  writepage :: "mapping_ptr \<Rightarrow> page_ptr \<Rightarrow> kstate \<Rightarrow> int \<times> kstate"
  bdi_write_congested :: "mapping_ptr \<Rightarrow> kstate \<Rightarrow> bool"
  own_backing_dev :: "mapping_ptr \<Rightarrow> bool"
  lock_page_nosync :: "page_ptr \<Rightarrow> kstate \<Rightarrow> kstate option"
  mapping_set_error :: "mapping_ptr \<Rightarrow> int \<Rightarrow> kstate \<Rightarrow> kstate"
  AOP_WRITEPAGE_ACTIVATE :: int
  delete_from_swap_cache :: "page_ptr \<Rightarrow> kstate \<Rightarrow> kstate"
  swapcache_free :: "nat \<Rightarrow> page_ptr \<Rightarrow> kstate \<Rightarrow> kstate"
  remove_from_page_cache :: "page_ptr \<Rightarrow> kstate \<Rightarrow> kstate"
  freepage :: "mapping_ptr \<Rightarrow> (page_ptr \<Rightarrow> kstate \<Rightarrow> kstate) option"
  throttle_vm_writeout :: "gfp_flag set \<Rightarrow> kstate \<Rightarrow> kstate"
  compaction_suitable :: "zone_ptr \<Rightarrow> nat \<Rightarrow> kstate \<Rightarrow> compact_result"
  cpuset_zone_allowed_hardwall :: "zone_ptr \<Rightarrow> bool"
  gfp_zone :: "gfp_flag set \<Rightarrow> nat"
  disable_swap_token :: "kstate \<Rightarrow> kstate"
  wakeup_flusher_threads :: "nat \<Rightarrow> kstate \<Rightarrow> kstate"
  wait_iff_congested :: "kstate \<Rightarrow> kstate"
  laptop_mode :: bool
  vm_swappiness :: nat
  reclaimed_slab :: "kstate \<Rightarrow> nat"
  reset_reclaimed_slab :: "kstate \<Rightarrow> kstate"

definition zone_nr_lru_pages :: "reclaim_env \<Rightarrow> zone_ptr \<Rightarrow> lru_list \<Rightarrow> kstate \<Rightarrow> nat" where
  "zone_nr_lru_pages V z lru s = nat (zone_page_state (wm V) z (NR_LRU_BASE + lru) s)"

definition set_reclaim_mode :: "reclaim_env \<Rightarrow> nat \<Rightarrow> bool \<Rightarrow> scan_control \<Rightarrow> scan_control" where
  "set_reclaim_mode V priority sync sc =
     (let syncmode = (if sync then RECLAIM_MODE_SYNC else RECLAIM_MODE_ASYNC);
          mode = (if compaction_build V then RECLAIM_MODE_COMPACTION else RECLAIM_MODE_LUMPYRECLAIM)
      in sc\<lparr>sc_reclaim_mode :=
           (if sc_order sc > PAGE_ALLOC_COSTLY_ORDER then mode OR syncmode
            else if sc_order sc \<noteq> 0 \<and> priority < DEF_PRIORITY - 2 then mode OR syncmode
            else RECLAIM_MODE_SINGLE OR RECLAIM_MODE_ASYNC)\<rparr>)"

definition reset_reclaim_mode :: "scan_control \<Rightarrow> scan_control" where
  "reset_reclaim_mode sc = sc\<lparr>sc_reclaim_mode := RECLAIM_MODE_SINGLE OR RECLAIM_MODE_ASYNC\<rparr>"

section \<open>Is the page in use?\<close>

datatype page_references = PAGEREF_RECLAIM | PAGEREF_RECLAIM_CLEAN | PAGEREF_KEEP | PAGEREF_ACTIVATE

text \<open>
  \<open>TestClearPageReferenced\<close> and \<open>SetPageReferenced\<close> are the operations of this kernel, which
  look at and count into the memory chain of the page.
\<close>

definition page_check_references ::
  "reclaim_env \<Rightarrow> page_ptr \<Rightarrow> scan_control \<Rightarrow> kstate \<Rightarrow> (page_references \<times> kstate) option" where
  "page_check_references V page sc s = do {
     let ((referenced_ptes, vm_flags), s) = page_referenced_locked V page s;
     (referenced_page, s) \<leftarrow> TestClearPageReferenced page s;
     if sc_reclaim_mode sc AND RECLAIM_MODE_LUMPYRECLAIM \<noteq> 0 then Some (PAGEREF_RECLAIM, s)
     else if vm_flags AND VM_LOCKED (mm V) \<noteq> 0 then Some (PAGEREF_RECLAIM, s)
     else if referenced_ptes \<noteq> 0 then
       (if PageAnon page s then Some (PAGEREF_ACTIVATE, s)
        else do {
          s \<leftarrow> SetPageReferenced page s;
          if referenced_page \<noteq> 0 then Some (PAGEREF_ACTIVATE, s) else Some (PAGEREF_KEEP, s)
        })
     else if referenced_page \<noteq> 0 \<and> \<not> PageSwapBacked page s then Some (PAGEREF_RECLAIM_CLEAN, s)
     else Some (PAGEREF_RECLAIM, s)
   }"

section \<open>Writing out and detaching a page\<close>

definition unlock_page :: "page_ptr \<Rightarrow> kstate \<Rightarrow> kstate option" where
  "unlock_page page s = do {
     s \<leftarrow> guardK (PageLocked page s) s;
     Some (clear_bit_k PG_locked page s)
   }"

definition page_mapped :: "page_ptr \<Rightarrow> kstate \<Rightarrow> bool" where
  "page_mapped page s \<longleftrightarrow> pg_mapcount (page_at s page) \<ge> 0"

definition is_page_cache_freeable :: "page_ptr \<Rightarrow> kstate \<Rightarrow> bool" where
  "is_page_cache_freeable page s \<longleftrightarrow> page_count page s - of_bool (page_has_private page s) = 2"

definition may_write_to_queue :: "reclaim_env \<Rightarrow> mapping_ptr \<Rightarrow> scan_control \<Rightarrow> kstate \<Rightarrow> bool" where
  "may_write_to_queue V mapping sc s =
     (if pf_swapwrite V then True
      else if \<not> bdi_write_congested V mapping s then True
      else if own_backing_dev V mapping then True
      else sc_order sc > PAGE_ALLOC_COSTLY_ORDER)"

definition handle_write_error :: "reclaim_env \<Rightarrow> mapping_ptr \<Rightarrow> page_ptr \<Rightarrow> int \<Rightarrow> kstate \<Rightarrow> kstate option" where
  "handle_write_error V mapping page err s = do {
     s \<leftarrow> lock_page_nosync V page s;
     let s = (if page_mapping V page s = Some mapping then mapping_set_error V mapping err s else s);
     unlock_page page s
   }"

datatype pageout_t = PAGE_KEEP | PAGE_ACTIVATE | PAGE_SUCCESS | PAGE_CLEAN

text \<open>The part of \<open>pageout\<close> after \<open>clear_page_dirty_for_io\<close> found the page dirty.\<close>

definition write_page ::
  "reclaim_env \<Rightarrow> page_ptr \<Rightarrow> mapping_ptr \<Rightarrow> scan_control \<Rightarrow> kstate \<Rightarrow> (pageout_t \<times> kstate) option" where
  "write_page V page mapping sc s = do {
     let s = set_bit_k PG_reclaim page s;
     let (res, s) = writepage V mapping page s;
     s \<leftarrow> (if res < 0 then handle_write_error V mapping page res s else Some s);
     if res = AOP_WRITEPAGE_ACTIVATE V then Some (PAGE_ACTIVATE, clear_bit_k PG_reclaim page s)
     else do {
       let s = (if PageWriteback page s \<and> sc_reclaim_mode sc AND RECLAIM_MODE_SYNC \<noteq> 0
                then wait_on_page_writeback V page s else s);
       let s = (if \<not> PageWriteback page s then clear_bit_k PG_reclaim page s else s);
       Some (PAGE_SUCCESS, inc_zone_page_state (mm V) page NR_VMSCAN_WRITE s)
     }
   }"

definition pageout ::
  "reclaim_env \<Rightarrow> page_ptr \<Rightarrow> mapping_ptr option \<Rightarrow> scan_control \<Rightarrow> kstate \<Rightarrow> (pageout_t \<times> kstate) option" where
  "pageout V page mapping sc s =
     (if \<not> is_page_cache_freeable page s then Some (PAGE_KEEP, s)
      else case mapping of
        None \<Rightarrow>
          (if page_has_private page s then
             let (freed, s) = try_to_free_buffers V page s
             in if freed then Some (PAGE_CLEAN, clear_bit_k PG_dirty page s) else Some (PAGE_KEEP, s)
           else Some (PAGE_KEEP, s))
      | Some mapping \<Rightarrow>
          (if \<not> has_writepage V mapping then Some (PAGE_ACTIVATE, s)
           else if \<not> may_write_to_queue V mapping sc s then Some (PAGE_KEEP, s)
           else let (dirty, s) = clear_page_dirty_for_io V page s
                in if dirty then write_page V page mapping sc s else Some (PAGE_CLEAN, s)))"

text \<open>\<open>page_freeze_refs\<close> is a compare-and-swap of the reference count with 0.\<close>

definition set_count :: "int \<Rightarrow> page_ptr \<Rightarrow> kstate \<Rightarrow> kstate" where
  "set_count n page = upd_page page (\<lambda>pg. pg\<lparr>pg_count := n\<rparr>)"

definition k__remove_mapping :: "reclaim_env \<Rightarrow> mapping_ptr \<Rightarrow> page_ptr \<Rightarrow> kstate \<Rightarrow> (bool \<times> kstate) option" where
  "k__remove_mapping V mapping page s = do {
     s \<leftarrow> guardK (PageLocked page s) s;
     s \<leftarrow> guardK (Some mapping = page_mapping V page s) s;
     if pg_count (page_at s page) \<noteq> 2 then Some (False, s)
     else do {
       let s = set_count 0 page s;
       if PageDirty page s then Some (False, set_count 2 page s)
       else if PageSwapCache page s then do {
         let swap = pg_private (page_at s page);
         let s = delete_from_swap_cache V page s;
         Some (True, swapcache_free V swap page s)
       }
       else do {
         let freepage = freepage V mapping;
         let s = remove_from_page_cache V page s;
         Some (True, case freepage of None \<Rightarrow> s | Some f \<Rightarrow> f page s)
       }
     }
   }"

definition remove_mapping :: "reclaim_env \<Rightarrow> mapping_ptr \<Rightarrow> page_ptr \<Rightarrow> kstate \<Rightarrow> (bool \<times> kstate) option" where
  "remove_mapping V mapping page s = do {
     (removed, s) \<leftarrow> k__remove_mapping V mapping page s;
     if removed then Some (True, set_count 1 page s) else Some (False, s)
   }"

section \<open>The walk over an isolated batch\<close>

fun free_page_list_loop :: "kenv \<Rightarrow> page_ptr list \<Rightarrow> page_ptr list \<Rightarrow> kstate \<Rightarrow> kstate option" where
  "free_page_list_loop E [] freed_pvec s =
     (if freed_pvec = [] then Some s else k__pagevec_free E freed_pvec True s)"
| "free_page_list_loop E (page # pages) freed_pvec s =
     (let freed_pvec = freed_pvec @ [page]
      in if length freed_pvec = pagevec_size E then do {
           s \<leftarrow> k__pagevec_free E freed_pvec True s;
           free_page_list_loop E pages [] s
         }
         else free_page_list_loop E pages freed_pvec s)"

definition free_page_list :: "kenv \<Rightarrow> page_ptr list \<Rightarrow> kstate \<Rightarrow> kstate option" where
  "free_page_list E pages = free_page_list_loop E pages []"

text \<open>
  Where a round of the walk leaves its page: on one of the labels, or, for a page whose last
  reference is a speculative one, counted as reclaimed and forgotten. With it come what the
  round adds to \<open>nr_dirty\<close> and \<open>nr_congested\<close>.
\<close>

datatype page_fate = FreeIt | FreedElsewhere | CullMlocked | ActivateLocked | KeepLocked | Keep | KeepLumpy

type_synonym round_result = "(page_fate \<times> nat \<times> nat \<times> kstate) option"

definition shrink_free ::
  "reclaim_env \<Rightarrow> page_ptr \<Rightarrow> mapping_ptr option \<Rightarrow> scan_control \<Rightarrow> nat \<Rightarrow> kstate \<Rightarrow> round_result" where
  "shrink_free V page mapping sc dirty s = do {
     let had_private = page_has_private page s;
     let (released, s) = (if had_private then try_to_release_gfp V (sc_gfp_mask sc) page s else (True, s));
     if \<not> released then Some (ActivateLocked, dirty, 0, s)
     else if had_private \<and> mapping = None \<and> page_count page s = 1 then do {
       s \<leftarrow> unlock_page page s;
       (zero, s) \<leftarrow> put_page_testzero page s;
       Some (if zero then FreeIt else FreedElsewhere, dirty, 0, s)
     }
     else case mapping of
       None \<Rightarrow> Some (KeepLocked, dirty, 0, s)
     | Some mapping \<Rightarrow> do {
         (removed, s) \<leftarrow> k__remove_mapping V mapping page s;
         if removed then Some (FreeIt, dirty, 0, clear_bit_k PG_locked page s)
         else Some (KeepLocked, dirty, 0, s)
       }
   }"

definition shrink_write ::
  "reclaim_env \<Rightarrow> page_ptr \<Rightarrow> mapping_ptr option \<Rightarrow> scan_control \<Rightarrow> bool \<Rightarrow> page_references \<Rightarrow> kstate \<Rightarrow> round_result" where
  "shrink_write V page mapping sc may_enter_fs references s =
     (if PageDirty page s then
        (if references = PAGEREF_RECLAIM_CLEAN then Some (KeepLocked, 1, 0, s)
         else if \<not> may_enter_fs then Some (KeepLocked, 1, 0, s)
         else if \<not> sc_may_writepage sc then Some (KeepLocked, 1, 0, s)
         else do {
           (res, s) \<leftarrow> pageout V page mapping sc s;
           case res of
             PAGE_KEEP \<Rightarrow> Some (KeepLocked, 1, 1, s)
           | PAGE_ACTIVATE \<Rightarrow> Some (ActivateLocked, 1, 0, s)
           | PAGE_SUCCESS \<Rightarrow>
               (if PageWriteback page s then Some (KeepLumpy, 1, 0, s)
                else if PageDirty page s then Some (Keep, 1, 0, s)
                else if PageLocked page s then Some (Keep, 1, 0, s)
                else let s = set_bit_k PG_locked page s
                     in if PageDirty page s \<or> PageWriteback page s then Some (KeepLocked, 1, 0, s)
                        else shrink_free V page (page_mapping V page s) sc 1 s)
           | PAGE_CLEAN \<Rightarrow> shrink_free V page mapping sc 1 s
         })
      else shrink_free V page mapping sc 0 s)"

definition shrink_unmap ::
  "reclaim_env \<Rightarrow> page_ptr \<Rightarrow> scan_control \<Rightarrow> bool \<Rightarrow> page_references \<Rightarrow> kstate \<Rightarrow> round_result" where
  "shrink_unmap V page sc may_enter_fs references s =
     (if PageAnon page s \<and> \<not> PageSwapCache page s \<and> GFP_IO \<notin> sc_gfp_mask sc then Some (KeepLocked, 0, 0, s)
      else let (swapped, may_enter_fs, s) = (if PageAnon page s \<and> \<not> PageSwapCache page s
             then let (ok, s) = add_to_swap V page s in (ok, True, s) else (True, may_enter_fs, s))
           in if \<not> swapped then Some (ActivateLocked, 0, 0, s)
              else let mapping = page_mapping V page s;
                       (unmapped, s) = (if page_mapped page s \<and> mapping \<noteq> None
                         then try_to_unmap V page s else (SWAP_SUCCESS, s))
                   in case unmapped of
                        SWAP_FAIL \<Rightarrow> Some (ActivateLocked, 0, 0, s)
                      | SWAP_AGAIN \<Rightarrow> Some (KeepLocked, 0, 0, s)
                      | SWAP_MLOCK \<Rightarrow> Some (CullMlocked, 0, 0, s)
                      | SWAP_SUCCESS \<Rightarrow> shrink_write V page mapping sc may_enter_fs references s)"

text \<open>From the check for writeback on; \<open>sc\<close> changes no more in the round.\<close>

definition shrink_check ::
  "reclaim_env \<Rightarrow> page_ptr \<Rightarrow> scan_control \<Rightarrow> kstate \<Rightarrow> round_result" where
  "shrink_check V page sc s = do {
     let may_enter_fs = (GFP_FS \<in> sc_gfp_mask sc \<or> PageSwapCache page s \<and> GFP_IO \<in> sc_gfp_mask sc);
     if PageWriteback page s \<and> \<not> (sc_reclaim_mode sc AND RECLAIM_MODE_SYNC \<noteq> 0 \<and> may_enter_fs)
     then do {
       s \<leftarrow> unlock_page page s;
       Some (KeepLumpy, 0, 0, s)
     }
     else do {
       let s = (if PageWriteback page s then wait_on_page_writeback V page s else s);
       (references, s) \<leftarrow> page_check_references V page sc s;
       case references of
         PAGEREF_ACTIVATE \<Rightarrow> Some (ActivateLocked, 0, 0, s)
       | PAGEREF_KEEP \<Rightarrow> Some (KeepLocked, 0, 0, s)
       | _ \<Rightarrow> shrink_unmap V page sc may_enter_fs references s
     }
   }"

definition scanned :: "nat \<Rightarrow> scan_control \<Rightarrow> scan_control" where
  "scanned n sc = sc\<lparr>sc_nr_scanned := sc_nr_scanned sc + n\<rparr>"

definition shrink_one ::
  "reclaim_env \<Rightarrow> zone_ptr \<Rightarrow> page_ptr \<Rightarrow> scan_control \<Rightarrow> kstate \<Rightarrow>
     (page_fate \<times> nat \<times> nat \<times> scan_control \<times> kstate) option" where
  "shrink_one V z page sc s =
     (if PageLocked page s then Some (Keep, 0, 0, sc, s)
      else do {
        let s = set_bit_k PG_locked page s;
        s \<leftarrow> guardK (\<not> PageActive page s) s;
        s \<leftarrow> guardK (page_zone (mm V) page = z) s;
        let sc = scanned 1 sc;
        (evictable, s) \<leftarrow> page_evictable (mm V) page None s;
        if \<not> evictable then Some (CullMlocked, 0, 0, sc, s)
        else if \<not> sc_may_unmap sc \<and> page_mapped page s then Some (KeepLocked, 0, 0, sc, s)
        else do {
          let sc = (if page_mapped page s \<or> PageSwapCache page s then scanned 1 sc else sc);
          (fate, dirty, congested, s) \<leftarrow> shrink_check V page sc s;
          Some (fate, dirty, congested, sc, s)
        }
      })"

text \<open>The local variables of the walk that the labels write.\<close>

record shrink_acc =
  ret_pages :: "page_ptr list"
  freed_pages :: "page_ptr list"
  pgactivate :: int
  acc_reclaimed :: nat

definition keep_lumpy :: "page_ptr \<Rightarrow> shrink_acc \<Rightarrow> kstate \<Rightarrow> (shrink_acc \<times> kstate) option" where
  "keep_lumpy page a s = do {
     s \<leftarrow> guardK (\<not> (PageLRU page s \<or> PageUnevictable page s)) s;
     Some (a\<lparr>ret_pages := page # ret_pages a\<rparr>, s)
   }"

definition settle ::
  "reclaim_env \<Rightarrow> page_ptr \<Rightarrow> page_fate \<Rightarrow> shrink_acc \<Rightarrow> scan_control \<Rightarrow> kstate \<Rightarrow>
     (shrink_acc \<times> scan_control \<times> kstate) option" where
  "settle V page fate a sc s = (case fate of
       FreeIt \<Rightarrow> Some (a\<lparr>acc_reclaimed := acc_reclaimed a + 1, freed_pages := page # freed_pages a\<rparr>, sc, s)
     | FreedElsewhere \<Rightarrow> Some (a\<lparr>acc_reclaimed := acc_reclaimed a + 1\<rparr>, sc, s)
     | CullMlocked \<Rightarrow> do {
         let s = (if PageSwapCache page s then try_to_free_swap V page s else s);
         s \<leftarrow> unlock_page page s;
         s \<leftarrow> putback_lru_page (mm V) page s;
         Some (a, reset_reclaim_mode sc, s)
       }
     | ActivateLocked \<Rightarrow> do {
         let s = (if PageSwapCache page s \<and> vm_swap_full V s then try_to_free_swap V page s else s);
         s \<leftarrow> guardK (\<not> PageActive page s) s;
         let s = SetPageActive page s;
         s \<leftarrow> unlock_page page s;
         (a, s) \<leftarrow> keep_lumpy page (a\<lparr>pgactivate := pgactivate a + 1\<rparr>) s;
         Some (a, reset_reclaim_mode sc, s)
       }
     | KeepLocked \<Rightarrow> do {
         s \<leftarrow> unlock_page page s;
         (a, s) \<leftarrow> keep_lumpy page a s;
         Some (a, reset_reclaim_mode sc, s)
       }
     | Keep \<Rightarrow> do {
         (a, s) \<leftarrow> keep_lumpy page a s;
         Some (a, reset_reclaim_mode sc, s)
       }
     | KeepLumpy \<Rightarrow> do {
         (a, s) \<leftarrow> keep_lumpy page a s;
         Some (a, sc, s)
       })"

text \<open>The pages are taken from the tail: the loop runs over the reversed list.\<close>

fun shrink_page_loop ::
  "reclaim_env \<Rightarrow> zone_ptr \<Rightarrow> page_ptr list \<Rightarrow> nat \<Rightarrow> nat \<Rightarrow> shrink_acc \<Rightarrow> scan_control \<Rightarrow> kstate \<Rightarrow>
     (nat \<times> nat \<times> shrink_acc \<times> scan_control \<times> kstate) option" where
  "shrink_page_loop V z [] nr_dirty nr_congested a sc s = Some (nr_dirty, nr_congested, a, sc, s)"
| "shrink_page_loop V z (page # pages) nr_dirty nr_congested a sc s = do {
     (fate, dirty, congested, sc, s) \<leftarrow> shrink_one V z page sc s;
     (a, sc, s) \<leftarrow> settle V page fate a sc s;
     shrink_page_loop V z pages (nr_dirty + dirty) (nr_congested + congested) a sc s
   }"

text \<open>The result: the number of reclaimed pages, and what is left on the list.\<close>

definition shrink_page_list ::
  "reclaim_env \<Rightarrow> page_ptr list \<Rightarrow> zone_ptr \<Rightarrow> scan_control \<Rightarrow> kstate \<Rightarrow>
     (nat \<times> page_ptr list \<times> scan_control \<times> kstate) option" where
  "shrink_page_list V page_list z sc s = do {
     (nr_dirty, nr_congested, a, sc, s) \<leftarrow> shrink_page_loop V z (rev page_list) 0 0
       \<lparr>ret_pages = [], freed_pages = [], pgactivate = 0, acc_reclaimed = 0\<rparr> sc s;
     let s = (if nr_dirty = nr_congested \<and> nr_dirty \<noteq> 0 then zone_set_flag z ZONE_CONGESTED s else s);
     s \<leftarrow> free_page_list (mm V) (freed_pages a) s;
     Some (acc_reclaimed a, ret_pages a, sc, count_vm_events (mm V) PGACTIVATE (pgactivate a) s)
   }"

section \<open>The referenced state of a page decides\<close>

lemma PageAnon_frame [simp]:
  "PageAnon p (bump_ref q d s) = PageAnon p s" "PageAnon p (clear_bit_k f q s) = PageAnon p s"
  by (simp_all add: PageAnon_def clear_bit_k_def page_at_upd_page)

lemma link_free_frame [simp]:
  "link_free p (clear_bit_k f q s) = link_free p s" "link_free p (set_bit_k f q s) = link_free p s"
  "link_free p (bump_ref q d s) = link_free p s"
  by (simp_all add: link_free_def)

text \<open>What \<open>TestClearPageReferenced\<close> leaves behind and what it answers.\<close>

definition cleared_ref :: "page_ptr \<Rightarrow> kstate \<Rightarrow> kstate" where
  "cleared_ref p s = (if k__PageReferenced p s then bump_ref p (- 1) (k__ClearPageReferenced p s) else s)"

definition in_use :: "page_ptr \<Rightarrow> kstate \<Rightarrow> bool" where
  "in_use p s \<longleftrightarrow> k__PageReferenced p s \<or> chain_ref p (cleared_ref p s) \<noteq> 0"

lemma or_int_eq_0_iff: "(a OR b :: int) = 0 \<longleftrightarrow> a = 0 \<and> b = 0"
  by (simp add: bit_eq_iff bit_or_iff) blast

lemma TestClear_in_use:
  "link_free p s \<Longrightarrow> \<exists>r. TestClearPageReferenced p s = Some (r, cleared_ref p s) \<and> (r \<noteq> 0) = in_use p s"
  by (simp add: TestClearPageReferenced_eq Let_def cleared_ref_def [symmetric] in_use_def or_int_eq_0_iff)

lemma page_check_references_spec:
  assumes ref: "page_referenced_locked V p s = ((ptes, flags), u)" and "link_free p u"
  shows "page_check_references V p sc s = Some
    (if sc_reclaim_mode sc AND RECLAIM_MODE_LUMPYRECLAIM \<noteq> 0 \<or> flags AND VM_LOCKED (mm V) \<noteq> 0
     then (PAGEREF_RECLAIM, cleared_ref p u)
     else if ptes \<noteq> 0 \<and> PageAnon p u then (PAGEREF_ACTIVATE, cleared_ref p u)
     else if ptes \<noteq> 0 then
       (if in_use p u then PAGEREF_ACTIVATE else PAGEREF_KEEP,
        bump_ref p 1 (k__SetPageReferenced p (cleared_ref p u)))
     else (if in_use p u \<and> \<not> PageSwapBacked p u then PAGEREF_RECLAIM_CLEAN else PAGEREF_RECLAIM,
        cleared_ref p u))"
proof -
  from TestClear_in_use [OF assms(2)] obtain r where
    r: "TestClearPageReferenced p u = Some (r, cleared_ref p u)" "(r \<noteq> 0) = in_use p u" by blast
  have "link_free p (cleared_ref p u)" "PageAnon p (cleared_ref p u) = PageAnon p u"
    "PageSwapBacked p (cleared_ref p u) = PageSwapBacked p u"
    using assms(2) by (simp_all add: cleared_ref_def)
  with r show ?thesis
    by (simp add: page_check_references_def ref SetPageReferenced_eq)
qed

text \<open>
  C31. The verdict of reclaim on a page, in full. Under lumpy reclaim, or when the page is in a locked
  area, it is reclaimed whatever its references. A page with page table references is activated
  when it is anonymous, and otherwise marked referenced again and activated or kept according to
  its previous state. A page without them is reclaimed, but only if clean when it is file backed
  and in use. A page is in use when its own bit was set or when the reference counter of its
  memory chain, after its own share is taken off, is not zero: one referenced page speaks for
  all pages of its chain.
\<close>

theorem page_check_references_table:
  assumes "page_referenced_locked V p s = ((ptes, flags), u)" and "link_free p u"
  shows "page_check_references V p sc s = Some
    (if sc_reclaim_mode sc AND RECLAIM_MODE_LUMPYRECLAIM \<noteq> 0 \<or> flags AND VM_LOCKED (mm V) \<noteq> 0
     then (PAGEREF_RECLAIM, cleared_ref p u)
     else if ptes \<noteq> 0 \<and> PageAnon p u then (PAGEREF_ACTIVATE, cleared_ref p u)
     else if ptes \<noteq> 0 then
       (if in_use p u then PAGEREF_ACTIVATE else PAGEREF_KEEP,
        bump_ref p 1 (k__SetPageReferenced p (cleared_ref p u)))
     else (if in_use p u \<and> \<not> PageSwapBacked p u then PAGEREF_RECLAIM_CLEAN else PAGEREF_RECLAIM,
        cleared_ref p u))"
  using assms by (rule page_check_references_spec)

lemma chain_ref_bump_any:
  "link_free p s \<Longrightarrow> chain_ref p (bump_ref p d s) = (if PageLinked p s then atomic_read (chain_ref p s + d) else 0)"
  by (auto simp: link_free_def chain_ref_bump)

lemma in_use_iff:
  "link_free p s \<Longrightarrow> in_use p s \<longleftrightarrow> k__PageReferenced p s
     \<or> PageLinked p s \<and> chain_ref p s \<noteq> 0"
  by (cases "PageLinked p s") (auto simp: in_use_def cleared_ref_def chain_ref_bump_any)

lemma chain_keeps_dirty:
  assumes "\<not> PageLocked p s" and "\<not> PageActive p s" and "page_zone (mm V) p = z"
    and "\<And>u. \<not> mapping_unevictable (mm V) p u" and "\<not> PageMlocked p s"
    and "\<not> page_mapped p s" and "\<not> PageWriteback p s" and "\<not> PageAnon p s" and "\<not> PageSwapBacked p s"
    and "PageDirty p s" and "\<not> k__PageReferenced p s"
    and "PageLinked p s" and "link_free p s" and "chain_ref p s \<noteq> 0"
    and "\<And>u. page_referenced_locked V p u = ((0, flags), u)" and "flags AND VM_LOCKED (mm V) = 0"
    and "sc_reclaim_mode sc AND RECLAIM_MODE_LUMPYRECLAIM = 0"
  shows "shrink_one V z p sc s = Some
    (KeepLocked, 1, 0, scanned (if PageSwapCache p s then 2 else 1) sc, set_bit_k PG_locked p s)"
proof -
  let ?s = "set_bit_k PG_locked p s"
  have lf: "link_free p ?s" and use: "in_use p ?s" and ref: "\<not> k__PageReferenced p ?s"
    using assms(11-14) by (simp_all add: in_use_iff)
  have anon: "\<not> PageAnon p ?s" and unmapped: "\<not> page_mapped p ?s"
    using assms(6,8) by (simp_all add: PageAnon_def page_mapped_def set_bit_k_def page_at_upd_page)
  have mode: "sc_reclaim_mode (scanned n sc') = sc_reclaim_mode sc'" for n sc'
    by (simp add: scanned_def)
  have "page_check_references V p (scanned n sc) ?s = Some (PAGEREF_RECLAIM_CLEAN, ?s)" for n
    using page_check_references_spec [OF assms(15) lf, of "scanned n sc"] assms(9,16,17) use ref
    by (simp add: mode cleared_ref_def)
  moreover have "shrink_unmap V p sc' fs PAGEREF_RECLAIM_CLEAN ?s = Some (KeepLocked, 1, 0, ?s)" for sc' fs
    using anon unmapped assms(10) by (simp add: shrink_unmap_def shrink_write_def Let_def)
  ultimately have chk: "shrink_check V p (scanned n sc) ?s = Some (KeepLocked, 1, 0, ?s)" for n
    using assms(7) by (simp add: shrink_check_def Let_def)
  have two: "scanned 1 (scanned 1 sc) = scanned 2 sc" by (simp add: scanned_def)
  show ?thesis
    using assms(1-5) unmapped chk
    by (simp add: shrink_one_def page_evictable_def Let_def two [unfolded One_nat_def])
qed

lemma unlock_locked: "\<not> test_bit f p s \<Longrightarrow> clear_bit_k f p (set_bit_k f p s) = s"
proof -
  assume "\<not> test_bit f p s"
  then have "unset_bit (pg_nr f) (set_bit (pg_nr f) (pg_flags (k_pages s p))) = pg_flags (k_pages s p)"
    by (auto simp: test_bit_def page_at_def bit_unset_bit_iff bit_set_bit_iff intro!: bit_eqI)
  then show ?thesis by (simp add: clear_bit_k_def set_bit_k_def upd_page_def)
qed

text \<open>
  C30. Reclaim does not write out a page whose chain is in use. The page is an unlocked, inactive,
  dirty page of a file, isolated from the LRU lists, evictable and not mlocked, neither mapped nor
  under writeback, of which no page table says it was used and that lies in no locked area; its own
  referenced bit is clear, but its chain counts a reference; lumpy reclaim is off. Its round in the
  walk puts it on the list of pages to put back and counts it as dirty, and the walk goes on with the
  other pages in the very state it had: the page is unlocked again, still dirty and still of its
  chain, and no reference count changed.
\<close>

theorem chain_defers_writeback:
  assumes "\<not> PageLocked p s" and "\<not> PageActive p s" and "page_zone (mm V) p = z"
    and "\<And>u. \<not> mapping_unevictable (mm V) p u" and "\<not> PageMlocked p s"
    and "\<not> page_mapped p s" and "\<not> PageWriteback p s" and "\<not> PageAnon p s" and "\<not> PageSwapBacked p s"
    and "PageDirty p s" and "\<not> k__PageReferenced p s" and "\<not> PageLRU p s" and "\<not> PageUnevictable p s"
    and "PageLinked p s" and "link_free p s" and "chain_ref p s \<noteq> 0"
    and "\<And>u. page_referenced_locked V p u = ((0, flags), u)" and "flags AND VM_LOCKED (mm V) = 0"
    and "sc_reclaim_mode sc AND RECLAIM_MODE_LUMPYRECLAIM = 0"
  shows "shrink_page_loop V z (p # ps) nr_dirty nr_congested a sc s =
    shrink_page_loop V z ps (nr_dirty + 1) nr_congested (a\<lparr>ret_pages := p # ret_pages a\<rparr>)
      (reset_reclaim_mode (scanned (if PageSwapCache p s then 2 else 1) sc)) s"
proof -
  have "settle V p KeepLocked a sc' (set_bit_k PG_locked p s) =
      Some (a\<lparr>ret_pages := p # ret_pages a\<rparr>, reset_reclaim_mode sc', s)" for sc'
    using assms(1,12,13) by (simp add: settle_def unlock_page_def unlock_locked keep_lumpy_def)
  with chain_keeps_dirty [OF assms(1-11,14-19)] show ?thesis by simp
qed

section \<open>What the walk returns\<close>

definition settled :: "page_ptr \<Rightarrow> shrink_acc \<Rightarrow> shrink_acc \<Rightarrow> bool" where
  "settled page a a' \<longleftrightarrow>
     ret_pages a' = page # ret_pages a \<and> acc_reclaimed a' = acc_reclaimed a
   \<or> ret_pages a' = ret_pages a \<and> acc_reclaimed a' = acc_reclaimed a + 1
   \<or> ret_pages a' = ret_pages a \<and> acc_reclaimed a' = acc_reclaimed a"

definition same_request :: "nat \<Rightarrow> scan_control \<Rightarrow> scan_control \<Rightarrow> bool" where
  "same_request n sc sc' \<longleftrightarrow> sc_nr_scanned sc \<le> sc_nr_scanned sc' \<and> sc_nr_scanned sc' \<le> sc_nr_scanned sc + n
     \<and> sc' = sc\<lparr>sc_nr_scanned := sc_nr_scanned sc', sc_reclaim_mode := sc_reclaim_mode sc'\<rparr>"

lemma same_request_refl: "same_request n sc sc"
  by (simp add: same_request_def)

lemma same_request_trans:
  assumes "same_request m a b" and "same_request n b c"
  shows "same_request (m + n) a c"
proof -
  have "c = b\<lparr>sc_nr_scanned := sc_nr_scanned c, sc_reclaim_mode := sc_reclaim_mode c\<rparr>"
    using assms(2) by (simp add: same_request_def)
  also have "b = a\<lparr>sc_nr_scanned := sc_nr_scanned b, sc_reclaim_mode := sc_reclaim_mode b\<rparr>"
    using assms(1) by (simp add: same_request_def)
  finally have "c = a\<lparr>sc_nr_scanned := sc_nr_scanned c, sc_reclaim_mode := sc_reclaim_mode c\<rparr>" by simp
  with assms show ?thesis unfolding same_request_def by linarith
qed

lemma same_request_simps:
  "same_request k sc (scanned k sc)" "same_request n sc (reset_reclaim_mode sc)"
  by (simp_all add: same_request_def scanned_def reset_reclaim_mode_def)

lemma keep_lumpy_Some [simp]:
  "keep_lumpy page a s = Some (a', t) \<longleftrightarrow>
     \<not> PageLRU page s \<and> \<not> PageUnevictable page s \<and> a' = a\<lparr>ret_pages := page # ret_pages a\<rparr> \<and> t = s"
  by (auto simp: keep_lumpy_def)

lemma settle_spec:
  "settle V page fate a sc s = Some (a', sc', t) \<Longrightarrow> settled page a a' \<and> (sc' = sc \<or> sc' = reset_reclaim_mode sc)"
  by (cases fate) (auto simp: settle_def settled_def Let_def split: Option.bind_splits if_splits)

lemma shrink_one_scanned:
  assumes "shrink_one V z page sc s = Some (fate, d, c, sc', t)"
  shows "same_request 2 sc sc'"
proof -
  have "sc' = sc \<or> sc' = scanned 1 sc \<or> sc' = scanned 1 (scanned 1 sc)"
    using assms by (auto simp: shrink_one_def Let_def split: if_splits Option.bind_splits prod.splits)
  then show ?thesis
    by (auto simp: same_request_def scanned_def)
qed

lemma shrink_page_loop_spec:
  assumes "shrink_page_loop V z ps d c a sc s = Some (d', c', a', sc', t)"
  shows "\<exists>ks. ret_pages a' = ks @ ret_pages a \<and> subseq (rev ks) ps
    \<and> acc_reclaimed a \<le> acc_reclaimed a' \<and> acc_reclaimed a' + length ks \<le> acc_reclaimed a + length ps
    \<and> same_request (2 * length ps) sc sc'"
  using assms
proof (induction ps arbitrary: d c a sc s)
  case Nil
  then show ?case by (simp add: same_request_refl)
next
  case (Cons p ps)
  from Cons.prems obtain fate d1 c1 sc1 s1 a2 sc2 s2 where
    one: "shrink_one V z p sc s = Some (fate, d1, c1, sc1, s1)"
    and st: "settle V p fate a sc1 s1 = Some (a2, sc2, s2)"
    and run: "shrink_page_loop V z ps (d + d1) (c + c1) a2 sc2 s2 = Some (d', c', a', sc', t)"
    by (auto split: Option.bind_splits)
  from Cons.IH [OF run] obtain ks where ks: "ret_pages a' = ks @ ret_pages a2" "subseq (rev ks) ps"
    "acc_reclaimed a2 \<le> acc_reclaimed a'" "acc_reclaimed a' + length ks \<le> acc_reclaimed a2 + length ps"
    "same_request (2 * length ps) sc2 sc'" by blast
  have "same_request 2 sc sc2"
    using same_request_trans [OF shrink_one_scanned [OF one], of 0 sc2] settle_spec [OF st] same_request_simps(2) [of 0 sc1]
      same_request_refl [of 0 sc1]
    by auto
  then have req: "same_request (2 * length (p # ps)) sc sc'"
    using same_request_trans [OF _ ks(5), of 2 sc] by simp
  have "settled p a a2" using settle_spec [OF st] by simp
  then consider "ret_pages a2 = p # ret_pages a" "acc_reclaimed a2 = acc_reclaimed a"
    | "ret_pages a2 = ret_pages a" "acc_reclaimed a \<le> acc_reclaimed a2" "acc_reclaimed a2 \<le> acc_reclaimed a + 1"
    unfolding settled_def by fastforce
  then show ?case
  proof cases
    case 1
    with ks req show ?thesis by (intro exI [of _ "ks @ [p]"]) auto
  next
    case 2
    with ks req show ?thesis by (intro exI [of _ ks]) auto
  qed
qed

lemma subseq_rev_rev: "subseq xs ys \<Longrightarrow> subseq (rev xs) (rev ys)"
  by (induction rule: list_emb.induct) (auto intro: subseq_rev_drop_many list_emb_append_mono)

text \<open>
  C32. What \<open>shrink_page_list\<close> hands back. However the calls it makes behave, when it returns, the
  pages left on the list are a subsequence of the isolated pages in their old order, each page is
  either left on the list or counted as reclaimed at most once, between no and two scans are
  counted per page, and of the request only the scan count and the reclaim mode change.
\<close>

theorem shrink_page_list_accounts:
  assumes "shrink_page_list V ps z sc s = Some (nr_reclaimed, left, sc', t)"
  shows "subseq left ps \<and> nr_reclaimed + length left \<le> length ps
    \<and> same_request (2 * length ps) sc sc'"
proof -
  from assms obtain d c a u where
    "shrink_page_loop V z (rev ps) 0 0 \<lparr>ret_pages = [], freed_pages = [], pgactivate = 0, acc_reclaimed = 0\<rparr> sc s
      = Some (d, c, a, sc', u)" and res: "nr_reclaimed = acc_reclaimed a" "left = ret_pages a"
    by (auto simp: shrink_page_list_def Let_def split: Option.bind_splits)
  from shrink_page_loop_spec [OF this(1)] obtain ks where
    "ret_pages a = ks" "subseq (rev ks) (rev ps)" "acc_reclaimed a + length ks \<le> length ps"
    "same_request (2 * length ps) sc sc'" by auto
  with res subseq_rev_rev [of "rev ks" "rev ps"] show ?thesis by simp
qed

section \<open>The theorems on the small machine\<close>

definition sample_reclaim_env :: reclaim_env where
  "sample_reclaim_env = \<lparr>mm = sample_env, wm = sample_alloc_env, compaction_build = False,
     current_is_kswapd = True, pf_swapwrite = False, fatal_signal_pending = (\<lambda>_. False),
     nr_swap_pages = (\<lambda>_. 0), total_swap_pages = (\<lambda>_. 0), vm_swap_full = (\<lambda>_. False),
     buffer_heads_over_limit = (\<lambda>_. False), congestion_wait = (\<lambda>s. s),
     page_referenced_locked = (\<lambda>_ s. ((0, 0), s)), page_mapping = (\<lambda>_ _. Some 1),
     wait_on_page_writeback = (\<lambda>_ s. s), add_to_swap = (\<lambda>_ s. (False, s)),
     try_to_unmap = (\<lambda>_ s. (SWAP_SUCCESS, s)), try_to_release_gfp = (\<lambda>_ _ s. (True, s)),
     try_to_free_swap = (\<lambda>_ s. s), try_to_free_buffers = (\<lambda>_ s. (True, s)),
     clear_page_dirty_for_io = (\<lambda>_ s. (True, s)), has_writepage = (\<lambda>_. True),
     writepage = (\<lambda>_ _ s. (0, s)), bdi_write_congested = (\<lambda>_ _. False), own_backing_dev = (\<lambda>_. False),
     lock_page_nosync = (\<lambda>_ s. Some s), mapping_set_error = (\<lambda>_ _ s. s),
     AOP_WRITEPAGE_ACTIVATE = 0x80000, delete_from_swap_cache = (\<lambda>_ s. s),
     swapcache_free = (\<lambda>_ _ s. s), remove_from_page_cache = (\<lambda>_ s. s), freepage = (\<lambda>_. None),
     throttle_vm_writeout = (\<lambda>_ s. s), compaction_suitable = (\<lambda>_ _ _. COMPACT_SKIPPED),
     cpuset_zone_allowed_hardwall = (\<lambda>_. True), gfp_zone = (\<lambda>_. 1), disable_swap_token = (\<lambda>s. s),
     wakeup_flusher_threads = (\<lambda>_ s. s), wait_iff_congested = (\<lambda>s. s), laptop_mode = False,
     vm_swappiness = 60, reclaimed_slab = (\<lambda>_. 0), reset_reclaimed_slab = (\<lambda>s. s)\<rparr>"

definition sample_request :: scan_control where
  "sample_request = \<lparr>sc_nr_scanned = 0, sc_nr_reclaimed = 0, sc_nr_to_reclaim = 32,
     sc_hibernation_mode = False, sc_gfp_mask = {GFP_WAIT, GFP_IO, GFP_FS}, sc_may_writepage = True,
     sc_may_unmap = True, sc_may_swap = True, sc_swappiness = 60, sc_order = 0,
     sc_reclaim_mode = RECLAIM_MODE_SINGLE OR RECLAIM_MODE_ASYNC\<rparr>"

text \<open>Chain 1 in use by one reference, its page 7 dirty and itself not referenced.\<close>

definition chain_in_use_state :: kstate where
  "chain_in_use_state = linked_state\<lparr>
     k_pages := (k_pages linked_state)(7 := (k_pages linked_state 7)\<lparr>pg_flags := set_bit 4 0\<rparr>),
     k_chains := [1 \<mapsto> \<lparr>mc_id = 0, mc_attributes = None, mc_nr_links = 2, mc_links = [7, 8],
        mc_anchor = None, mc_ref_counter = 1, mc_delegate = Some 8, mc_evict_cnt = 0\<rparr>]\<rparr>"

lemma chain_in_use_sel:
  "test_bit f 7 chain_in_use_state = (f = PG_dirty)" "PageLinked 7 chain_in_use_state"
  "link_free 7 chain_in_use_state" "chain_ref 7 chain_in_use_state = 1"
  "\<not> PageAnon 7 chain_in_use_state" "\<not> page_mapped 7 chain_in_use_state"
  by (cases f, simp_all add: test_bit_def page_at_def PageLinked_def link_free_def linked_live_def chain_at_def
      chain_ref_def PageAnon_def page_mapped_def chain_in_use_state_def linked_state_def sample_defs)

lemma sample_request_mode: "sc_reclaim_mode sample_request AND RECLAIM_MODE_LUMPYRECLAIM = 0"
  by (simp add: sample_request_def reclaim_mode_defs)

theorem page_check_references_table_witness:
  "\<exists>t. page_check_references sample_reclaim_env 7 sample_request chain_in_use_state = Some (PAGEREF_RECLAIM_CLEAN, t)"
  using page_check_references_table [of sample_reclaim_env 7 chain_in_use_state 0 0 chain_in_use_state sample_request]
  by (simp add: chain_in_use_sel in_use_iff sample_request_mode) (simp add: sample_reclaim_env_def)

theorem chain_defers_writeback_witness:
  "\<exists>sc t. shrink_page_list sample_reclaim_env [7] 0 sample_request chain_in_use_state = Some (0, [7], sc, t)
     \<and> page_at t 7 = page_at chain_in_use_state 7"
proof -
  let ?a = "\<lparr>ret_pages = [], freed_pages = [], pgactivate = 0, acc_reclaimed = 0\<rparr>"
  have "shrink_page_loop sample_reclaim_env 0 [7] 0 0 ?a sample_request chain_in_use_state =
      Some (1, 0, ?a\<lparr>ret_pages := [7]\<rparr>, reset_reclaim_mode (scanned 1 sample_request), chain_in_use_state)"
    using chain_defers_writeback [of 7 chain_in_use_state sample_reclaim_env 0 0 sample_request "[]" 0 0 ?a]
    by (simp add: chain_in_use_sel sample_request_mode) (simp add: sample_reclaim_env_def sample_env_def)
  then show ?thesis
    by (simp add: shrink_page_list_def free_page_list_def page_at_def count_vm_events_def)
qed

definition locked_page_state :: kstate where
  "locked_page_state = set_bit_k PG_locked 7 sample_state"

theorem shrink_page_list_accounts_witness:
  "\<exists>left sc t. shrink_page_list sample_reclaim_env [7] 0 sample_request locked_page_state = Some (0, left, sc, t)
     \<and> subseq left [7]"
proof -
  have "\<not> test_bit f 7 sample_state" for f by (simp add: test_bit_def page_at_def sample_defs)
  then obtain sc t where run: "shrink_page_list sample_reclaim_env [7] 0 sample_request locked_page_state = Some (0, [7], sc, t)"
    by (auto simp: shrink_page_list_def shrink_one_def settle_def keep_lumpy_def locked_page_state_def
        free_page_list_def Let_def)
  with shrink_page_list_accounts [OF run] show ?thesis by blast
qed
end
