(* ===== verification/Reclaim.thy ===== *)
theory Reclaim
  imports Shrink
begin

text \<open>
  Which lists reclaim shrinks and how far (\<open>Linux/vmscan.c\<close>): \<open>shrink_inactive_list\<close> and
  \<open>shrink_active_list\<close>, the balance between anonymous and file pages in \<open>get_scan_count\<close>,
  \<open>shrink_zone\<close>, slab shrinking and direct reclaim. A \<open>scan_control\<close> passed by pointer is
  returned. Sums of page counts that the code keeps in \<open>unsigned long\<close> wrap around at \<open>2 ^ 32\<close>
  where the code multiplies or subtracts them.
\<close>

section \<open>Shrinking the inactive list\<close>

definition too_many_isolated :: "reclaim_env \<Rightarrow> zone_ptr \<Rightarrow> bool \<Rightarrow> kstate \<Rightarrow> bool" where
  "too_many_isolated V z file s =
     (if current_is_kswapd V then False
      else let count = (\<lambda>i. nat (zone_page_state (wm V) z i s));
               inactive = (if file then count NR_INACTIVE_FILE else count NR_INACTIVE_ANON);
               isolated = (if file then count NR_ISOLATED_FILE else count NR_ISOLATED_ANON)
           in isolated > inactive)"

text \<open>The wait at the head of \<open>shrink_inactive_list\<close>: \<open>True\<close> when the task is about to die.\<close>

partial_function (option) throttle_isolated ::
  "reclaim_env \<Rightarrow> zone_ptr \<Rightarrow> bool \<Rightarrow> kstate \<Rightarrow> (bool \<times> kstate) option" where
  "throttle_isolated V z file s =
     (if too_many_isolated V z file s then
        (let s = congestion_wait V s
         in if fatal_signal_pending V s then Some (True, s) else throttle_isolated V z file s)
      else Some (False, s))"

definition should_reclaim_stall :: "reclaim_env \<Rightarrow> int \<Rightarrow> nat \<Rightarrow> nat \<Rightarrow> scan_control \<Rightarrow> bool" where
  "should_reclaim_stall V nr_taken nr_freed priority sc =
     (if current_is_kswapd V then False
      else if sc_reclaim_mode sc AND RECLAIM_MODE_SINGLE \<noteq> 0 then False
      else if int nr_freed = nr_taken then False
      else priority \<le> (if sc_order sc > PAGE_ALLOC_COSTLY_ORDER then DEF_PRIORITY else DEF_PRIORITY div 3))"

definition add_pages_scanned :: "zone_ptr \<Rightarrow> nat \<Rightarrow> kstate \<Rightarrow> kstate" where
  "add_pages_scanned z n = upd_zone z (\<lambda>zn. zn\<lparr>z_pages_scanned := z_pages_scanned zn + n\<rparr>)"

text \<open>From the reclaim of an isolated batch to the putback of the rest.\<close>

definition shrink_batch ::
  "reclaim_env \<Rightarrow> int \<Rightarrow> page_ptr list \<Rightarrow> zone_ptr \<Rightarrow> scan_control \<Rightarrow> nat \<Rightarrow> int \<Rightarrow> int \<Rightarrow> kstate \<Rightarrow>
     (nat \<times> scan_control \<times> kstate) option" where
  "shrink_batch V nr_taken page_list z sc priority nr_anon nr_file s = do {
     (nr_reclaimed, page_list, sc, s) \<leftarrow> shrink_page_list V page_list z sc s;
     (nr_reclaimed, page_list, sc, s) \<leftarrow>
       (if should_reclaim_stall V nr_taken nr_reclaimed priority sc then do {
          let sc = set_reclaim_mode V priority True sc;
          (more, page_list, sc, s) \<leftarrow> shrink_page_list V page_list z sc s;
          Some (nr_reclaimed + more, page_list, sc, s)
        } else Some (nr_reclaimed, page_list, sc, s));
     let s = (if current_is_kswapd V
              then count_vm_events (mm V) KSWAPD_STEAL (int nr_reclaimed) s else s);
     let s = count_vm_events (mm V) (PGSTEAL z) (int nr_reclaimed) s;
     s \<leftarrow> putback_lru_pages (mm V) z nr_anon nr_file page_list s;
     Some (nr_reclaimed, sc, s)
   }"

definition shrink_inactive_list ::
  "reclaim_env \<Rightarrow> nat \<Rightarrow> zone_ptr \<Rightarrow> scan_control \<Rightarrow> nat \<Rightarrow> bool \<Rightarrow> kstate \<Rightarrow>
     (nat \<times> scan_control \<times> kstate) option" where
  "shrink_inactive_list V nr_to_scan z sc priority file s = do {
     (dying, s) \<leftarrow> throttle_isolated V z file s;
     if dying then Some (SWAP_CLUSTER_MAX, sc, s)
     else do {
       let sc = set_reclaim_mode V priority False sc;
       s \<leftarrow> lru_add_drain (mm V) s;
       s \<leftarrow> spin_lock (LruLock z) s;
       let mode = (if sc_reclaim_mode sc AND RECLAIM_MODE_LUMPYRECLAIM \<noteq> 0
                   then ISOLATE_BOTH else ISOLATE_INACTIVE);
       (nr_taken, nr_scanned, page_list, s) \<leftarrow>
         isolate_pages_global (mm V) (nr_swap_pages V s) nr_to_scan [] (sc_order sc) mode z False file s;
       let s = add_pages_scanned z nr_scanned s;
       let s = count_vm_events (mm V) (if current_is_kswapd V then PGSCAN_KSWAPD z else PGSCAN_DIRECT z)
         (int nr_scanned) s;
       if nr_taken = 0 then do {
         s \<leftarrow> spin_unlock (LruLock z) s;
         Some (0, sc, s)
       }
       else do {
         let (nr_anon, nr_file, s) = update_isolated_counts (mm V) z page_list s;
         s \<leftarrow> spin_unlock (LruLock z) s;
         shrink_batch V nr_taken page_list z sc priority nr_anon nr_file s
       }
     }
   }"

section \<open>Shrinking the active list\<close>

text \<open>
  The pages come from the tail of the list. The page vector is flushed when it is full and at
  the end.
\<close>

fun move_active_loop ::
  "reclaim_env \<Rightarrow> zone_ptr \<Rightarrow> lru_list \<Rightarrow> page_ptr list \<Rightarrow> page_ptr list \<Rightarrow> int \<Rightarrow> kstate \<Rightarrow>
     (int \<times> kstate) option" where
  "move_active_loop V z lru [] pvec pgmoved s = Some (pgmoved, s)"
| "move_active_loop V z lru (page # pages) pvec pgmoved s = do {
     s \<leftarrow> guardK (\<not> PageLRU page s) s;
     let s = SetPageLRU page s;
     let s = upd_zone z (lru_insert page (ListHead lru)) s;
     let pgmoved = pgmoved + hpage_nr_pages (mm V) page;
     let pvec = pvec @ [page];
     if length pvec = pagevec_size (mm V) \<or> pages = [] then do {
       s \<leftarrow> spin_unlock (LruLock z) s;
       s \<leftarrow> (if buffer_heads_over_limit V s then pagevec_strip (mm V) pvec s else Some s);
       s \<leftarrow> k__pagevec_release (mm V) pvec s;
       s \<leftarrow> spin_lock (LruLock z) s;
       move_active_loop V z lru pages [] pgmoved s
     }
     else move_active_loop V z lru pages pvec pgmoved s
   }"

definition move_active_pages_to_lru ::
  "reclaim_env \<Rightarrow> zone_ptr \<Rightarrow> page_ptr list \<Rightarrow> lru_list \<Rightarrow> kstate \<Rightarrow> kstate option" where
  "move_active_pages_to_lru V z pages lru s = do {
     (pgmoved, s) \<leftarrow> move_active_loop V z lru (rev pages) [] 0 s;
     let s = k__mod_zone_page_state (mm V) z (NR_LRU_BASE + lru) pgmoved s;
     Some (if \<not> is_active_lru lru then count_vm_events (mm V) PGDEACTIVATE pgmoved s else s)
   }"

text \<open>Sorting the pages held: back to the active list, or to the inactive one.\<close>

fun sort_active_loop ::
  "reclaim_env \<Rightarrow> page_ptr list \<Rightarrow> page_ptr list \<Rightarrow> page_ptr list \<Rightarrow> int \<Rightarrow> kstate \<Rightarrow>
     (page_ptr list \<times> page_ptr list \<times> int \<times> kstate) option" where
  "sort_active_loop V [] l_active l_inactive nr_rotated s = Some (l_active, l_inactive, nr_rotated, s)"
| "sort_active_loop V (page # pages) l_active l_inactive nr_rotated s = do {
     (evictable, s) \<leftarrow> page_evictable (mm V) page None s;
     if \<not> evictable then do {
       s \<leftarrow> putback_lru_page (mm V) page s;
       sort_active_loop V pages l_active l_inactive nr_rotated s
     }
     else do {
       let ((referenced, flags), s) = page_referenced (mm V) page s;
       let nr_rotated = (if referenced \<noteq> 0 then nr_rotated + hpage_nr_pages (mm V) page else nr_rotated);
       if referenced \<noteq> 0 \<and> flags AND VM_EXEC (mm V) \<noteq> 0 \<and> page_is_file_cache page s
       then sort_active_loop V pages (page # l_active) l_inactive nr_rotated s
       else sort_active_loop V pages l_active (page # l_inactive) nr_rotated (ClearPageActive page s)
     }
   }"

definition shrink_active_list ::
  "reclaim_env \<Rightarrow> nat \<Rightarrow> zone_ptr \<Rightarrow> scan_control \<Rightarrow> bool \<Rightarrow> kstate \<Rightarrow> kstate option" where
  "shrink_active_list V nr_pages z sc file s = do {
     s \<leftarrow> lru_add_drain (mm V) s;
     s \<leftarrow> spin_lock (LruLock z) s;
     (nr_taken, pgscanned, l_hold, s) \<leftarrow>
       isolate_pages_global (mm V) (nr_swap_pages V s) nr_pages [] (sc_order sc) ISOLATE_ACTIVE z True file s;
     let s = add_pages_scanned z pgscanned s;
     let s = add_recent_scanned z file nr_taken s;
     let s = count_vm_events (mm V) (PGREFILL z) (int pgscanned) s;
     let s = k__mod_zone_page_state (mm V) z (if file then NR_ACTIVE_FILE else NR_ACTIVE_ANON) (- nr_taken) s;
     let s = k__mod_zone_page_state (mm V) z (NR_ISOLATED_ANON + of_bool file) nr_taken s;
     s \<leftarrow> spin_unlock (LruLock z) s;
     (l_active, l_inactive, nr_rotated, s) \<leftarrow> sort_active_loop V (rev l_hold) [] [] 0 s;
     s \<leftarrow> spin_lock (LruLock z) s;
     let s = add_recent_rotated z file nr_rotated s;
     s \<leftarrow> move_active_pages_to_lru V z l_active (LRU_ACTIVE + of_bool file * LRU_FILE) s;
     s \<leftarrow> move_active_pages_to_lru V z l_inactive (LRU_BASE + of_bool file * LRU_FILE) s;
     let s = k__mod_zone_page_state (mm V) z (NR_ISOLATED_ANON + of_bool file) (- nr_taken) s;
     spin_unlock (LruLock z) s
   }"

section \<open>One list of a zone\<close>

definition ul :: "nat \<Rightarrow> nat" where
  "ul n = n mod 2 ^ 32"

definition inactive_anon_is_low_global :: "reclaim_env \<Rightarrow> zone_ptr \<Rightarrow> kstate \<Rightarrow> bool" where
  "inactive_anon_is_low_global V z s =
     (let active = nat (zone_page_state (wm V) z NR_ACTIVE_ANON s);
          inactive = nat (zone_page_state (wm V) z NR_INACTIVE_ANON s)
      in ul (inactive * z_inactive_ratio (zone_at s z)) < active)"

definition inactive_anon_is_low :: "reclaim_env \<Rightarrow> zone_ptr \<Rightarrow> kstate \<Rightarrow> bool" where
  "inactive_anon_is_low V z s =
     (if total_swap_pages V s = 0 then False else inactive_anon_is_low_global V z s)"

definition inactive_file_is_low_global :: "reclaim_env \<Rightarrow> zone_ptr \<Rightarrow> kstate \<Rightarrow> bool" where
  "inactive_file_is_low_global V z s =
     (nat (zone_page_state (wm V) z NR_ACTIVE_FILE s) > nat (zone_page_state (wm V) z NR_INACTIVE_FILE s))"

definition inactive_file_is_low :: "reclaim_env \<Rightarrow> zone_ptr \<Rightarrow> kstate \<Rightarrow> bool" where
  "inactive_file_is_low V z s = inactive_file_is_low_global V z s"

definition inactive_list_is_low :: "reclaim_env \<Rightarrow> zone_ptr \<Rightarrow> bool \<Rightarrow> kstate \<Rightarrow> bool" where
  "inactive_list_is_low V z file s =
     (if file then inactive_file_is_low V z s else inactive_anon_is_low V z s)"

definition shrink_list ::
  "reclaim_env \<Rightarrow> lru_list \<Rightarrow> nat \<Rightarrow> zone_ptr \<Rightarrow> scan_control \<Rightarrow> nat \<Rightarrow> kstate \<Rightarrow>
     (nat \<times> scan_control \<times> kstate) option" where
  "shrink_list V lru nr_to_scan z sc priority s =
     (let file = is_file_lru lru in
      if is_active_lru lru then do {
        s \<leftarrow> (if inactive_list_is_low V z file s then shrink_active_list V nr_to_scan z sc file s else Some s);
        Some (0, sc, s)
      }
      else shrink_inactive_list V nr_to_scan z sc priority file s)"

section \<open>How much to scan\<close>

text \<open>The number to scan now, and what stays saved.\<close>

definition nr_scan_try_batch :: "nat \<Rightarrow> nat \<Rightarrow> nat \<times> nat" where
  "nr_scan_try_batch nr_to_scan saved =
     (let nr = ul (saved + nr_to_scan)
      in if nr \<ge> SWAP_CLUSTER_MAX then (nr, 0) else (0, nr))"

definition halve_stats :: "nat \<Rightarrow> nat \<Rightarrow> zone_reclaim_stat \<Rightarrow> zone_reclaim_stat" where
  "halve_stats i pages rs = (if recent_scanned rs i > pages div 4
     then rs\<lparr>recent_scanned := (recent_scanned rs)(i := recent_scanned rs i div 2),
             recent_rotated := (recent_rotated rs)(i := recent_rotated rs i div 2)\<rparr> else rs)"

text \<open>\<open>ap\<close> and \<open>fp\<close>: the pressure on one of the two kinds of pages.\<close>

definition pressure :: "nat \<Rightarrow> nat \<Rightarrow> zone_reclaim_stat \<Rightarrow> nat" where
  "pressure prio i rs = ul ((prio + 1) * ul (recent_scanned rs i + 1)) div ul (recent_rotated rs i + 1)"

text \<open>
  The first half: \<open>fraction[0]\<close>, \<open>fraction[1]\<close>, \<open>denominator\<close> and \<open>noswap\<close>; with swap space and
  enough page cache they follow the recent rotations.
\<close>

definition balance_fractions ::
  "zone_ptr \<Rightarrow> scan_control \<Rightarrow> nat \<Rightarrow> nat \<Rightarrow> kstate \<Rightarrow> (nat \<times> nat \<times> nat \<times> bool \<times> kstate) option" where
  "balance_fractions z sc anon file s = do {
     let anon_prio = sc_swappiness sc;
     let file_prio = 200 - sc_swappiness sc;
     s \<leftarrow> spin_lock (LruLock z) s;
     let s = upd_reclaim_stat z (halve_stats 0 anon) s;
     let s = upd_reclaim_stat z (halve_stats 1 file) s;
     let rs = z_reclaim_stat (zone_at s z);
     s \<leftarrow> guardK (ul (recent_rotated rs 0 + 1) \<noteq> 0 \<and> ul (recent_rotated rs 1 + 1) \<noteq> 0) s;
     let ap = pressure anon_prio 0 rs;
     let fp = pressure file_prio 1 rs;
     s \<leftarrow> spin_unlock (LruLock z) s;
     Some (ap, fp, ul (ap + fp + 1), False, s)
   }"

definition scan_fractions ::
  "reclaim_env \<Rightarrow> zone_ptr \<Rightarrow> scan_control \<Rightarrow> kstate \<Rightarrow> (nat \<times> nat \<times> nat \<times> bool \<times> kstate) option" where
  "scan_fractions V z sc s =
     (if \<not> sc_may_swap sc \<or> nr_swap_pages V s \<le> 0 then Some (0, 1, 1, True, s)
      else let anon = ul (zone_nr_lru_pages V z LRU_ACTIVE_ANON s + zone_nr_lru_pages V z LRU_INACTIVE_ANON s);
               file = ul (zone_nr_lru_pages V z LRU_ACTIVE_FILE s + zone_nr_lru_pages V z LRU_INACTIVE_FILE s);
               free = nat (zone_page_state (wm V) z NR_FREE_PAGES s)
           in if int (ul (file + free)) \<le> z_watermark (zone_at s z) WMARK_HIGH then Some (1, 0, 1, False, s)
              else balance_fractions z sc anon file s)"

fun scan_count_loop ::
  "reclaim_env \<Rightarrow> zone_ptr \<Rightarrow> nat \<Rightarrow> bool \<Rightarrow> nat \<Rightarrow> nat \<Rightarrow> nat \<Rightarrow> lru_list list \<Rightarrow> (lru_list \<Rightarrow> nat) \<Rightarrow> kstate \<Rightarrow>
     ((lru_list \<Rightarrow> nat) \<times> kstate) option" where
  "scan_count_loop V z priority noswap f0 f1 denominator [] nr s = Some (nr, s)"
| "scan_count_loop V z priority noswap f0 f1 denominator (l # ls) nr s = do {
     let fraction = (if is_file_lru l then f1 else f0);
     let scan = zone_nr_lru_pages V z l s;
     s \<leftarrow> guardK ((priority \<noteq> 0 \<or> noswap) \<longrightarrow> denominator \<noteq> 0) s;
     let scan = (if priority \<noteq> 0 \<or> noswap
       then ul (scan div 2 ^ priority * fraction mod 2 ^ 64 div denominator) else scan);
     let (n, saved) = nr_scan_try_batch scan (nr_saved_scan (z_reclaim_stat (zone_at s z)) l);
     let s = upd_reclaim_stat z (\<lambda>rs. rs\<lparr>nr_saved_scan := (nr_saved_scan rs)(l := saved)\<rparr>) s;
     scan_count_loop V z priority noswap f0 f1 denominator ls (nr(l := n)) s
   }"

text \<open>Fails on a division by zero; entries of \<open>nr\<close> that the loop does not write are left.\<close>

definition get_scan_count ::
  "reclaim_env \<Rightarrow> zone_ptr \<Rightarrow> scan_control \<Rightarrow> (lru_list \<Rightarrow> nat) \<Rightarrow> nat \<Rightarrow> kstate \<Rightarrow>
     ((lru_list \<Rightarrow> nat) \<times> kstate) option" where
  "get_scan_count V z sc nr priority s = do {
     (f0, f1, denominator, noswap, s) \<leftarrow> scan_fractions V z sc s;
     scan_count_loop V z priority noswap f0 f1 denominator for_each_evictable_lru nr s
   }"

definition should_continue_reclaim ::
  "reclaim_env \<Rightarrow> zone_ptr \<Rightarrow> nat \<Rightarrow> nat \<Rightarrow> scan_control \<Rightarrow> kstate \<Rightarrow> bool" where
  "should_continue_reclaim V z nr_reclaimed nr_scanned sc s =
     (if sc_reclaim_mode sc AND RECLAIM_MODE_COMPACTION = 0 then False
      else if GFP_REPEAT \<in> sc_gfp_mask sc \<and> nr_reclaimed = 0 \<and> nr_scanned = 0 then False
      else if GFP_REPEAT \<notin> sc_gfp_mask sc \<and> nr_reclaimed = 0 then False
      else let pages_for_compaction = ul (2 * 2 ^ sc_order sc);
               inactive_lru_pages = ul (zone_nr_lru_pages V z LRU_INACTIVE_ANON s
                 + zone_nr_lru_pages V z LRU_INACTIVE_FILE s)
           in if sc_nr_reclaimed sc < pages_for_compaction \<and> inactive_lru_pages > pages_for_compaction
              then True
              else case compaction_suitable V z (sc_order sc) s of
                  COMPACT_PARTIAL \<Rightarrow> False | COMPACT_CONTINUE \<Rightarrow> False | _ \<Rightarrow> True)"

section \<open>A zone\<close>

text \<open>One round over the lists. What it takes from \<open>nr\<close> does not depend on the shrinking.\<close>

fun shrink_round ::
  "reclaim_env \<Rightarrow> zone_ptr \<Rightarrow> nat \<Rightarrow> (lru_list \<Rightarrow> nat) \<Rightarrow> lru_list list \<Rightarrow> nat \<Rightarrow> scan_control \<Rightarrow> kstate \<Rightarrow>
     (nat \<times> scan_control \<times> kstate) option" where
  "shrink_round V z priority nr [] nr_reclaimed sc s = Some (nr_reclaimed, sc, s)"
| "shrink_round V z priority nr (l # ls) nr_reclaimed sc s =
     (if nr l \<noteq> 0 then do {
        let nr_to_scan = min (nr l) SWAP_CLUSTER_MAX;
        (n, sc, s) \<leftarrow> shrink_list V l nr_to_scan z sc priority s;
        shrink_round V z priority nr ls (nr_reclaimed + n) sc s
      }
      else shrink_round V z priority nr ls nr_reclaimed sc s)"

definition after_round :: "(lru_list \<Rightarrow> nat) \<Rightarrow> lru_list \<Rightarrow> nat" where
  "after_round nr l = (if l \<in> set for_each_evictable_lru then nr l - min (nr l) SWAP_CLUSTER_MAX else nr l)"

definition work_left :: "(lru_list \<Rightarrow> nat) \<Rightarrow> nat" where
  "work_left nr = (\<Sum>l \<leftarrow> for_each_evictable_lru. nr l)"

lemma evictable_lrus: "for_each_evictable_lru = [0, 1, 2, 3, 4, 5, 6, 7]"
  by (simp add: for_each_evictable_lru_def lru_list_defs upt_conv_Cons)

lemma work_left_decreases:
  assumes "nr LRU_INACTIVE_ANON \<noteq> 0 \<or> nr LRU_ACTIVE_FILE \<noteq> 0 \<or> nr LRU_INACTIVE_FILE \<noteq> 0"
  shows "work_left (after_round nr) < work_left nr"
proof -
  have "after_round nr l \<le> nr l" for l by (simp add: after_round_def)
  moreover have "after_round nr l < nr l" if "nr l \<noteq> 0" "l \<in> set for_each_evictable_lru" for l
    using that by (simp add: after_round_def SWAP_CLUSTER_MAX_def)
  ultimately have "after_round nr 0 \<le> nr 0" "after_round nr 1 \<le> nr 1" "after_round nr 2 \<le> nr 2"
    "after_round nr 3 \<le> nr 3" "after_round nr 4 \<le> nr 4" "after_round nr 5 \<le> nr 5"
    "after_round nr 6 \<le> nr 6" "after_round nr 7 \<le> nr 7"
    "after_round nr 0 < nr 0 \<or> after_round nr 4 < nr 4 \<or> after_round nr 5 < nr 5"
    using assms by (auto simp: evictable_lrus lru_list_defs)
  then show ?thesis by (auto simp: work_left_def evictable_lrus)
qed

function shrink_rounds ::
  "reclaim_env \<Rightarrow> zone_ptr \<Rightarrow> nat \<Rightarrow> (lru_list \<Rightarrow> nat) \<Rightarrow> nat \<Rightarrow> nat \<Rightarrow> scan_control \<Rightarrow> kstate \<Rightarrow>
     (nat \<times> scan_control \<times> kstate) option" where
  "shrink_rounds V z priority nr nr_to_reclaim nr_reclaimed sc s =
     (if nr LRU_INACTIVE_ANON \<noteq> 0 \<or> nr LRU_ACTIVE_FILE \<noteq> 0 \<or> nr LRU_INACTIVE_FILE \<noteq> 0 then do {
        (nr_reclaimed, sc, s) \<leftarrow> shrink_round V z priority nr for_each_evictable_lru nr_reclaimed sc s;
        if nr_reclaimed \<ge> nr_to_reclaim \<and> priority < DEF_PRIORITY then Some (nr_reclaimed, sc, s)
        else shrink_rounds V z priority (after_round nr) nr_to_reclaim nr_reclaimed sc s
      }
      else Some (nr_reclaimed, sc, s))"
  by pat_completeness auto
termination
  by (relation "measure (\<lambda>(V, z, priority, nr, rest). work_left nr)") (auto intro: work_left_decreases)

declare shrink_rounds.simps [simp del]

text \<open>
  The \<open>restart\<close> of \<open>shrink_zone\<close> is taken for compaction only. \<open>nr\<close> is not initialised: the entry
  of the unevictable list, which nothing reads, is arbitrary.
\<close>

partial_function (option) shrink_zone ::
  "reclaim_env \<Rightarrow> nat \<Rightarrow> zone_ptr \<Rightarrow> scan_control \<Rightarrow> kstate \<Rightarrow> (scan_control \<times> kstate) option" where
  "shrink_zone V priority z sc s = do {
     let nr_scanned = sc_nr_scanned sc;
     (nr, s) \<leftarrow> get_scan_count V z sc (\<lambda>_. 0) priority s;
     (nr_reclaimed, sc, s) \<leftarrow> shrink_rounds V z priority nr (sc_nr_to_reclaim sc) 0 sc s;
     let sc = sc\<lparr>sc_nr_reclaimed := sc_nr_reclaimed sc + nr_reclaimed\<rparr>;
     s \<leftarrow> (if inactive_anon_is_low V z s then shrink_active_list V SWAP_CLUSTER_MAX z sc False s else Some s);
     if should_continue_reclaim V z nr_reclaimed (sc_nr_scanned sc - nr_scanned) sc s
     then shrink_zone V priority z sc s
     else Some (sc, throttle_vm_writeout V (sc_gfp_mask sc) s)
   }"

section \<open>Direct reclaim\<close>

definition zone_reclaimable_pages :: "reclaim_env \<Rightarrow> zone_ptr \<Rightarrow> kstate \<Rightarrow> nat" where
  "zone_reclaimable_pages V z s =
     (let count = (\<lambda>i. nat (zone_page_state (wm V) z i s));
          nr = count NR_ACTIVE_FILE + count NR_INACTIVE_FILE
      in ul (if nr_swap_pages V s > 0 then nr + (count NR_ACTIVE_ANON + count NR_INACTIVE_ANON) else nr))"

text \<open>\<open>global_page_state\<close> reads the low 32 bits of a counter, a negative one as 0.\<close>

definition global_reclaimable_pages :: "reclaim_env \<Rightarrow> kstate \<Rightarrow> nat" where
  "global_reclaimable_pages V s =
     (let count = (\<lambda>i. nat (atomic_read (k_vm_stat s i)));
          nr = count NR_ACTIVE_FILE + count NR_INACTIVE_FILE
      in ul (if nr_swap_pages V s > 0 then nr + (count NR_ACTIVE_ANON + count NR_INACTIVE_ANON) else nr))"

definition zone_reclaimable :: "reclaim_env \<Rightarrow> zone_ptr \<Rightarrow> kstate \<Rightarrow> bool" where
  "zone_reclaimable V z s \<longleftrightarrow> z_pages_scanned (zone_at s z) < ul (zone_reclaimable_pages V z s * 6)"

text \<open>The zones of a request.\<close>

definition request_zones :: "reclaim_env \<Rightarrow> zone_ptr list \<Rightarrow> scan_control \<Rightarrow> zone_ptr list" where
  "request_zones V zonelist sc = zones_upto (wm V) (gfp_zone V (sc_gfp_mask sc)) zonelist"

fun shrink_zones_loop ::
  "reclaim_env \<Rightarrow> nat \<Rightarrow> zone_ptr list \<Rightarrow> scan_control \<Rightarrow> kstate \<Rightarrow> (scan_control \<times> kstate) option" where
  "shrink_zones_loop V priority [] sc s = Some (sc, s)"
| "shrink_zones_loop V priority (z # zs) sc s =
     (if \<not> populated_zone (zone_at s z) then shrink_zones_loop V priority zs sc s
      else if \<not> cpuset_zone_allowed_hardwall V z then shrink_zones_loop V priority zs sc s
      else if z_all_unreclaimable (zone_at s z) \<and> priority \<noteq> DEF_PRIORITY
      then shrink_zones_loop V priority zs sc s
      else do {
        (sc, s) \<leftarrow> shrink_zone V priority z sc s;
        shrink_zones_loop V priority zs sc s
      })"

definition shrink_zones ::
  "reclaim_env \<Rightarrow> nat \<Rightarrow> zone_ptr list \<Rightarrow> scan_control \<Rightarrow> kstate \<Rightarrow> (scan_control \<times> kstate) option" where
  "shrink_zones V priority zonelist sc s = shrink_zones_loop V priority (request_zones V zonelist sc) sc s"

definition all_unreclaimable :: "reclaim_env \<Rightarrow> zone_ptr list \<Rightarrow> scan_control \<Rightarrow> kstate \<Rightarrow> bool" where
  "all_unreclaimable V zonelist sc s = list_all (\<lambda>z.
     \<not> populated_zone (zone_at s z) \<or> \<not> cpuset_zone_allowed_hardwall V z \<or> \<not> zone_reclaimable V z s)
     (request_zones V zonelist sc)"

text \<open>
  Slab shrinking. A shrinker is its callback with the seeks it costs and the scan count it still
  owes (a \<open>long\<close>); the list is guarded by a semaphore that a writer may hold.
\<close>

record shrinker =
  shr_id :: nat
  shr_seeks :: nat
  shr_nr :: int
  shr_shrink :: "nat \<Rightarrow> gfp_flag set \<Rightarrow> kstate \<Rightarrow> int \<times> kstate"

record slab_state =
  shrinker_writer :: bool
  shrinker_list :: "shrinker list"

definition register_shrinker :: "shrinker \<Rightarrow> slab_state \<Rightarrow> slab_state" where
  "register_shrinker sh L = L\<lparr>shrinker_list := shrinker_list L @ [sh\<lparr>shr_nr := 0\<rparr>]\<rparr>"

definition unregister_shrinker :: "shrinker \<Rightarrow> slab_state \<Rightarrow> slab_state option" where
  "unregister_shrinker sh L =
     (if shr_id sh \<in> set (map shr_id (shrinker_list L))
      then Some (L\<lparr>shrinker_list := filter (\<lambda>x. shr_id x \<noteq> shr_id sh) (shrinker_list L)\<rparr>) else None)"

definition SHRINK_BATCH :: nat where "SHRINK_BATCH = 128"

function slab_batches ::
  "reclaim_env \<Rightarrow> shrinker \<Rightarrow> gfp_flag set \<Rightarrow> nat \<Rightarrow> nat \<Rightarrow> kstate \<Rightarrow> nat \<times> nat \<times> kstate" where
  "slab_batches V sh gfp_mask total_scan ret s =
     (if total_scan \<ge> SHRINK_BATCH then
        let (nr_before, s) = shr_shrink sh 0 gfp_mask s;
            (shrink_ret, s) = shr_shrink sh SHRINK_BATCH gfp_mask s
        in if shrink_ret = - 1 then (ret, total_scan, s)
           else let ret = (if shrink_ret < nr_before then ret + nat (nr_before - shrink_ret) else ret);
                    s = count_vm_events (mm V) SLABS_SCANNED (int SHRINK_BATCH) s
                in slab_batches V sh gfp_mask (total_scan - SHRINK_BATCH) ret s
      else (ret, total_scan, s))"
  by pat_completeness auto
termination
  by (relation "measure (\<lambda>(V, sh, gfp_mask, total_scan, rest). total_scan)") (auto simp: SHRINK_BATCH_def)

declare slab_batches.simps [simp del]

text \<open>What a shrinker owes: the new \<open>nr\<close>, in the arithmetic of the code.\<close>

definition slab_target :: "nat \<Rightarrow> nat \<Rightarrow> nat \<Rightarrow> shrinker \<Rightarrow> int option" where
  "slab_target nr_scanned lru_pages max_pass sh =
     (if shr_seeks sh = 0 \<or> ul (lru_pages + 1) = 0 then None
      else let delta = ul (4 * nr_scanned) div shr_seeks sh;
               delta = delta * max_pass mod 2 ^ 64;
               delta = delta div ul (lru_pages + 1);
               nr = long (shr_nr sh + int delta);
               nr = (if nr < 0 then long (int max_pass) else nr)
           in Some (if ulong_of nr > int (ul (max_pass * 2)) then long (int (ul (max_pass * 2))) else nr))"

definition shrink_one_slab ::
  "reclaim_env \<Rightarrow> nat \<Rightarrow> gfp_flag set \<Rightarrow> nat \<Rightarrow> shrinker \<Rightarrow> nat \<Rightarrow> kstate \<Rightarrow> (nat \<times> shrinker \<times> kstate) option" where
  "shrink_one_slab V nr_scanned gfp_mask lru_pages sh ret s = do {
     let (pass, s) = shr_shrink sh 0 gfp_mask s;
     let max_pass = nat (ulong_of pass);
     nr \<leftarrow> slab_target nr_scanned lru_pages max_pass sh;
     let (ret, left, s) = slab_batches V sh gfp_mask (nat (ulong_of nr)) ret s;
     Some (ret, sh\<lparr>shr_nr := long (int left)\<rparr>, s)
   }"

fun shrink_slab_loop ::
  "reclaim_env \<Rightarrow> nat \<Rightarrow> gfp_flag set \<Rightarrow> nat \<Rightarrow> shrinker list \<Rightarrow> nat \<Rightarrow> kstate \<Rightarrow>
     (nat \<times> shrinker list \<times> kstate) option" where
  "shrink_slab_loop V nr_scanned gfp_mask lru_pages [] ret s = Some (ret, [], s)"
| "shrink_slab_loop V nr_scanned gfp_mask lru_pages (sh # shs) ret s = do {
     (ret, sh, s) \<leftarrow> shrink_one_slab V nr_scanned gfp_mask lru_pages sh ret s;
     (ret, shs, s) \<leftarrow> shrink_slab_loop V nr_scanned gfp_mask lru_pages shs ret s;
     Some (ret, sh # shs, s)
   }"

definition shrink_slab ::
  "reclaim_env \<Rightarrow> nat \<Rightarrow> gfp_flag set \<Rightarrow> nat \<Rightarrow> slab_state \<Rightarrow> kstate \<Rightarrow> (nat \<times> slab_state \<times> kstate) option" where
  "shrink_slab V nr_scanned gfp_mask lru_pages L s =
     (let nr_scanned = (if nr_scanned = 0 then SWAP_CLUSTER_MAX else nr_scanned)
      in if shrinker_writer L then Some (1, L, s)
         else do {
           (ret, shs, s) \<leftarrow> shrink_slab_loop V nr_scanned gfp_mask lru_pages (shrinker_list L) 0 s;
           Some (ret, L\<lparr>shrinker_list := shs\<rparr>, s)
         })"

text \<open>
  One priority after the other. \<open>reclaimed_slab\<close> of a task without a reclaim state is 0.
\<close>

fun direct_reclaim_loop ::
  "reclaim_env \<Rightarrow> zone_ptr list \<Rightarrow> nat list \<Rightarrow> nat \<Rightarrow> scan_control \<Rightarrow> slab_state \<Rightarrow> kstate \<Rightarrow>
     (scan_control \<times> slab_state \<times> kstate) option" where
  "direct_reclaim_loop V zonelist [] total_scanned sc L s = Some (sc, L, s)"
| "direct_reclaim_loop V zonelist (priority # ps) total_scanned sc L s = do {
     let sc = sc\<lparr>sc_nr_scanned := 0\<rparr>;
     let s = (if priority = 0 then disable_swap_token V s else s);
     (sc, s) \<leftarrow> shrink_zones V priority zonelist sc s;
     let lru_pages = ul (\<Sum>z \<leftarrow> filter (cpuset_zone_allowed_hardwall V) (request_zones V zonelist sc).
       zone_reclaimable_pages V z s);
     (freed, L, s) \<leftarrow> shrink_slab V (sc_nr_scanned sc) (sc_gfp_mask sc) lru_pages L s;
     let sc = sc\<lparr>sc_nr_reclaimed := sc_nr_reclaimed sc + reclaimed_slab V s\<rparr>;
     let s = reset_reclaimed_slab V s;
     let total_scanned = total_scanned + sc_nr_scanned sc;
     if sc_nr_reclaimed sc \<ge> sc_nr_to_reclaim sc then Some (sc, L, s)
     else do {
       let writeback_threshold = ul (sc_nr_to_reclaim sc + sc_nr_to_reclaim sc div 2);
       let (sc, s) = (if total_scanned > writeback_threshold
         then (sc\<lparr>sc_may_writepage := True\<rparr>, wakeup_flusher_threads V (if laptop_mode V then 0 else total_scanned) s)
         else (sc, s));
       let s = (if \<not> sc_hibernation_mode sc \<and> sc_nr_scanned sc \<noteq> 0 \<and> priority < DEF_PRIORITY - 2
         then wait_iff_congested V s else s);
       direct_reclaim_loop V zonelist ps total_scanned sc L s
     }
   }"

definition do_try_to_free_pages ::
  "reclaim_env \<Rightarrow> zone_ptr list \<Rightarrow> scan_control \<Rightarrow> slab_state \<Rightarrow> kstate \<Rightarrow>
     (nat \<times> slab_state \<times> kstate) option" where
  "do_try_to_free_pages V zonelist sc L s = do {
     let s = count_vm_events (mm V) ALLOCSTALL 1 s;
     (sc, L, s) \<leftarrow> direct_reclaim_loop V zonelist (rev [0 ..< Suc DEF_PRIORITY]) 0 sc L s;
     Some (if sc_nr_reclaimed sc \<noteq> 0 then sc_nr_reclaimed sc
           else if \<not> all_unreclaimable V zonelist sc s then 1 else 0, L, s)
   }"

definition new_request :: "gfp_flag set \<Rightarrow> bool \<Rightarrow> nat \<Rightarrow> bool \<Rightarrow> nat \<Rightarrow> nat \<Rightarrow> scan_control" where
  "new_request gfp_mask may_writepage nr_to_reclaim hibernation swappiness order =
     \<lparr>sc_nr_scanned = 0, sc_nr_reclaimed = 0, sc_nr_to_reclaim = nr_to_reclaim,
      sc_hibernation_mode = hibernation, sc_gfp_mask = gfp_mask, sc_may_writepage = may_writepage,
      sc_may_unmap = True, sc_may_swap = True, sc_swappiness = swappiness, sc_order = order,
      sc_reclaim_mode = 0\<rparr>"

definition try_to_free_pages ::
  "reclaim_env \<Rightarrow> zone_ptr list \<Rightarrow> nat \<Rightarrow> gfp_flag set \<Rightarrow> slab_state \<Rightarrow> kstate \<Rightarrow>
     (nat \<times> slab_state \<times> kstate) option" where
  "try_to_free_pages V zonelist order gfp_mask L s =
     do_try_to_free_pages V zonelist
       (new_request gfp_mask (\<not> laptop_mode V) SWAP_CLUSTER_MAX False (vm_swappiness V) order) L s"

text \<open>Hibernation: \<open>GFP_HIGHUSER_MOVABLE\<close> of \<open>gfp.h\<close>.\<close>

definition GFP_HIGHUSER_MOVABLE :: "gfp_flag set" where
  "GFP_HIGHUSER_MOVABLE = {GFP_WAIT, GFP_IO, GFP_FS, GFP_HARDWALL, GFP_HIGHMEM, GFP_MOVABLE}"

definition shrink_all_memory ::
  "reclaim_env \<Rightarrow> zone_ptr list \<Rightarrow> nat \<Rightarrow> slab_state \<Rightarrow> kstate \<Rightarrow> (nat \<times> slab_state \<times> kstate) option" where
  "shrink_all_memory V zonelist nr_to_reclaim L s =
     do_try_to_free_pages V zonelist
       (new_request GFP_HIGHUSER_MOVABLE True nr_to_reclaim True (vm_swappiness V) 0) L s"

section \<open>Chained pages and the lists that are shrunk\<close>

text \<open>
  Shrinking a list of chained pages shrinks the plain list of the same kind instead: only
  activity and file backing reach \<open>shrink_active_list\<close> and \<open>shrink_inactive_list\<close>, so the pages
  on the four lists of chained pages are never scanned, while their number, which
  \<open>get_scan_count\<close> turns into a share of its own, adds to the pressure on the plain lists.
\<close>

theorem shrink_list_of_chained_pages:
  assumes "is_linked_lru l"
  shows "shrink_list V l n z sc priority s = shrink_list V (l - LRU_LINKED) n z sc priority s
    \<and> \<not> is_linked_lru (l - LRU_LINKED)"
  using assms by (auto simp: shrink_list_def is_linked_lru_def is_file_lru_def is_active_lru_def lru_list_defs)

section \<open>Deferred scanning\<close>

text \<open>Asking again and again: the scans that are done, and what is saved at the end.\<close>

fun batch_run :: "nat list \<Rightarrow> nat \<Rightarrow> nat list \<times> nat" where
  "batch_run [] saved = ([], saved)"
| "batch_run (n # ns) saved =
     (let (now, saved) = nr_scan_try_batch n saved; (rest, saved) = batch_run ns saved
      in (now # rest, saved))"

lemma try_batch_spec:
  assumes "saved < SWAP_CLUSTER_MAX" and "n < 2 ^ 31" and "nr_scan_try_batch n saved = (now, saved')"
  shows "now + saved' = saved + n" and "saved' < SWAP_CLUSTER_MAX" and "now = 0 \<or> SWAP_CLUSTER_MAX \<le> now"
proof -
  have "ul (saved + n) = saved + n" using assms(1,2) by (simp add: ul_def SWAP_CLUSTER_MAX_def)
  with assms(1,3) show "now + saved' = saved + n" "saved' < SWAP_CLUSTER_MAX" "now = 0 \<or> SWAP_CLUSTER_MAX \<le> now"
    by (auto simp: nr_scan_try_batch_def Let_def SWAP_CLUSTER_MAX_def split: if_splits)
qed

text \<open>
  C33. Batching loses no scan. Whatever small amounts are asked for one after the other, every scan
  done is zero or at least \<open>SWAP_CLUSTER_MAX\<close> pages, less than that stays saved, and the scans done
  with what is saved at the end add up to what was saved before and all that was asked for.
\<close>

theorem batches_conserve_scans:
  assumes "saved < SWAP_CLUSTER_MAX" and "\<forall>n \<in> set ns. n < 2 ^ 31" and "batch_run ns saved = (scans, saved')"
  shows "sum_list scans + saved' = saved + sum_list ns \<and> saved' < SWAP_CLUSTER_MAX
    \<and> (\<forall>k \<in> set scans. k = 0 \<or> SWAP_CLUSTER_MAX \<le> k) \<and> length scans = length ns"
  using assms
proof (induction ns arbitrary: saved scans)
  case (Cons n ns)
  obtain now mid where b: "nr_scan_try_batch n saved = (now, mid)" by (cases "nr_scan_try_batch n saved")
  obtain rest where r: "batch_run ns mid = (rest, saved')" "scans = now # rest"
    using Cons.prems(3) b by (auto split: prod.splits)
  have "n < 2 ^ 31" "\<forall>n \<in> set ns. n < 2 ^ 31" using Cons.prems(2) by simp_all
  from try_batch_spec [OF Cons.prems(1) this(1) b] Cons.IH [OF _ this(2) r(1)] r(2) show ?case by auto
qed simp

section \<open>The scan counts fit their words\<close>

lemma ul_small [simp]: "n < 2 ^ 32 \<Longrightarrow> ul n = n"
  by (simp add: ul_def)

text \<open>The statistics of a zone within which the arithmetic of \<open>get_scan_count\<close> is exact.\<close>

definition stats_ok :: "zone_reclaim_stat \<Rightarrow> bool" where
  "stats_ok rs \<longleftrightarrow> (\<forall>i. recent_scanned rs i < 2 ^ 22 \<and> recent_rotated rs i < 2 ^ 31)
     \<and> (\<forall>l. nr_saved_scan rs l < SWAP_CLUSTER_MAX)"

lemma stats_ok_halve: "stats_ok rs \<Longrightarrow> stats_ok (halve_stats i n rs)"
  unfolding stats_ok_def halve_stats_def
  by (auto intro: le_less_trans [OF div_le_dividend])

lemma pressure_bound:
  assumes "stats_ok rs" and "prio \<le> 200"
  shows "pressure prio i rs < 2 ^ 30"
proof -
  have s: "recent_scanned rs i < 2 ^ 22" "recent_rotated rs i < 2 ^ 31" using assms(1) by (simp_all add: stats_ok_def)
  have "(prio + 1) * (recent_scanned rs i + 1) \<le> 201 * 2 ^ 22"
    using assms(2) s(1) by (intro mult_le_mono) simp_all
  then have "ul ((prio + 1) * ul (recent_scanned rs i + 1)) < 2 ^ 30"
    using s(1) by simp
  then show ?thesis
    unfolding pressure_def by (rule le_less_trans [OF div_le_dividend])
qed

lemma zone_reclaim_stat_upd [simp]:
  "z_reclaim_stat (zone_at (upd_reclaim_stat z f s) z) = f (z_reclaim_stat (zone_at s z))"
  by (simp add: upd_reclaim_stat_def zone_at_upd_zone)

text \<open>What the first half of \<open>get_scan_count\<close> leaves for the second.\<close>

lemma balance_fractions_spec:
  assumes "stats_ok (z_reclaim_stat (zone_at s z))" and "LruLock z \<notin> k_held s" and "sc_swappiness sc \<le> 200"
  shows "\<exists>f0 f1 d t. balance_fractions z sc anon file s = Some (f0, f1, d, False, t)
    \<and> f0 \<le> d \<and> f1 \<le> d \<and> 0 < d \<and> d < 2 ^ 32 \<and> stats_ok (z_reclaim_stat (zone_at t z)) \<and> k_held t = k_held s"
proof -
  let ?rs = "halve_stats 1 file (halve_stats 0 anon (z_reclaim_stat (zone_at s z)))"
  have ok: "stats_ok ?rs" by (intro stats_ok_halve assms(1))
  define ap where "ap = pressure (sc_swappiness sc) 0 ?rs"
  define fp where "fp = pressure (200 - sc_swappiness sc) 1 ?rs"
  have b: "ap < 2 ^ 30" "fp < 2 ^ 30"
    unfolding ap_def fp_def using pressure_bound [OF ok] assms(3) by simp_all
  have rot: "ul (recent_rotated ?rs i + 1) = recent_rotated ?rs i + 1" for i
  proof -
    have "recent_rotated ?rs i < 2 ^ 31" using ok by (simp add: stats_ok_def)
    then show ?thesis by simp
  qed
  have "balance_fractions z sc anon file s = Some (ap, fp, ap + fp + 1, False,
      upd_reclaim_stat z (halve_stats 1 file) (upd_reclaim_stat z (halve_stats 0 anon) s))"
    using assms(2) b rot [of 0] rot [of 1]
    by (simp add: balance_fractions_def Let_def ap_def fp_def) (simp add: upd_reclaim_stat_def)
  with b ok show ?thesis by simp
qed

lemma scan_fractions_spec:
  assumes "stats_ok (z_reclaim_stat (zone_at s z))" and "LruLock z \<notin> k_held s" and "sc_swappiness sc \<le> 200"
  shows "\<exists>f0 f1 d noswap t. scan_fractions V z sc s = Some (f0, f1, d, noswap, t)
    \<and> f0 \<le> d \<and> f1 \<le> d \<and> 0 < d \<and> d < 2 ^ 32 \<and> stats_ok (z_reclaim_stat (zone_at t z)) \<and> k_held t = k_held s"
proof -
  let ?anon = "ul (zone_nr_lru_pages V z LRU_ACTIVE_ANON s + zone_nr_lru_pages V z LRU_INACTIVE_ANON s)"
  let ?file = "ul (zone_nr_lru_pages V z LRU_ACTIVE_FILE s + zone_nr_lru_pages V z LRU_INACTIVE_FILE s)"
  have "scan_fractions V z sc s \<in> {Some (0, 1, 1, True, s), Some (1, 0, 1, False, s),
      balance_fractions z sc ?anon ?file s}"
    by (simp add: scan_fractions_def Let_def)
  with balance_fractions_spec [OF assms, of ?anon ?file] assms(1) show ?thesis by fastforce
qed

lemma fraction_le:
  assumes "f \<le> d" and "0 < d" and "d < 2 ^ 32" and "n < 2 ^ 32"
  shows "ul (n * f mod 2 ^ 64 div d) \<le> n"
proof -
  have "n * f < 2 ^ 32 * 2 ^ 32" using assms by (intro mult_strict_mono) auto
  then have "n * f mod 2 ^ 64 = n * f" by simp
  moreover have "n * f div d \<le> n" using assms(1,2) by (metis div_le_mono mult_le_mono2 nonzero_mult_div_cancel_right less_numeral_extra(3))
  ultimately show ?thesis by (simp add: ul_def)
qed

lemma scan_count_loop_spec:
  assumes "f0 \<le> d" and "f1 \<le> d" and "0 < d" and "d < 2 ^ 32"
    and size: "\<And>l u. zone_nr_lru_pages V z l u \<le> N" and N: "N < 2 ^ 31"
    and "stats_ok (z_reclaim_stat (zone_at s z))"
  shows "\<exists>nr' t. scan_count_loop V z priority noswap f0 f1 d ls nr s = Some (nr', t)
    \<and> (\<forall>l. if l \<in> set ls then nr' l < SWAP_CLUSTER_MAX + (if noswap then N div 2 ^ priority else N)
          \<and> nr' l < 2 ^ 32 \<and> (nr' l = 0 \<or> SWAP_CLUSTER_MAX \<le> nr' l) else nr' l = nr l)
    \<and> stats_ok (z_reclaim_stat (zone_at t z)) \<and> k_held t = k_held s"
  using assms(7)
proof (induction ls arbitrary: nr s)
  case (Cons l ls)
  let ?n = "zone_nr_lru_pages V z l s" and ?rs = "z_reclaim_stat (zone_at s z)"
  let ?f = "if is_file_lru l then f1 else f0"
  let ?scan = "if priority \<noteq> 0 \<or> noswap then ul (?n div 2 ^ priority * ?f mod 2 ^ 64 div d) else ?n"
  obtain now saved where b: "nr_scan_try_batch ?scan (nr_saved_scan ?rs l) = (now, saved)"
    by (cases "nr_scan_try_batch ?scan (nr_saved_scan ?rs l)")
  have n: "?n \<le> N" by (rule size)
  define m where "m = ?n div 2 ^ priority"
  define h where "h = N div 2 ^ priority"
  have m: "m \<le> h" "m \<le> ?n" "h \<le> N"
    unfolding m_def h_def using n by (simp_all only: div_le_mono div_le_dividend)
  have "ul (m * ?f mod 2 ^ 64 div d) \<le> m"
    using assms(1-4) m n N by (intro fraction_le) auto
  with m n have scan: "?scan \<le> (if noswap then h else N)" "?scan \<le> N"
    unfolding m_def [symmetric] by auto
  have saved: "nr_saved_scan ?rs l < SWAP_CLUSTER_MAX" using Cons.prems by (simp add: stats_ok_def)
  have "?scan < 2 ^ 31" using scan(2) N by simp
  note tb = try_batch_spec [OF saved this b]
  let ?u = "upd_reclaim_stat z (\<lambda>rs. rs\<lparr>nr_saved_scan := (nr_saved_scan rs)(l := saved)\<rparr>) s"
  have "stats_ok (z_reclaim_stat (zone_at ?u z))"
    using Cons.prems tb(2) by (simp add: stats_ok_def)
  from Cons.IH [OF this, of "nr(l := now)"] obtain nr' t where
    run: "scan_count_loop V z priority noswap f0 f1 d ls (nr(l := now)) ?u = Some (nr', t)"
    and each: "\<forall>k. if k \<in> set ls then nr' k < SWAP_CLUSTER_MAX + (if noswap then N div 2 ^ priority else N)
          \<and> nr' k < 2 ^ 32 \<and> (nr' k = 0 \<or> SWAP_CLUSTER_MAX \<le> nr' k) else nr' k = (nr(l := now)) k"
    and "stats_ok (z_reclaim_stat (zone_at t z))" "k_held t = k_held ?u" by blast
  moreover have "scan_count_loop V z priority noswap f0 f1 d (l # ls) nr s = Some (nr', t)"
    using run b assms(3) by (simp add: Let_def)
  moreover have "now < SWAP_CLUSTER_MAX + (if noswap then N div 2 ^ priority else N)" "now < 2 ^ 32"
    using tb(1) saved scan N unfolding h_def [symmetric] by (simp_all add: SWAP_CLUSTER_MAX_def split: if_splits)
  moreover note tb(3)
  ultimately show ?case by (intro exI [of _ nr'] exI [of _ t]) (auto split: if_splits)
qed simp

text \<open>
  C34. The scan counts are well typed. With statistics within the stated bounds, no LRU list longer
  than \<open>N < 2 ^ 31\<close> and a swappiness of at most 200, \<open>get_scan_count\<close> returns (nothing is divided by
  zero): for every evictable list the count is 0 or at least a batch (\<open>SWAP_CLUSTER_MAX\<close>), below \<open>N\<close>
  plus a batch (\<open>N\<close> scaled down by the priority when swapping is not allowed) and a 32-bit number,
  the entry of the unevictable list is not written, and less than a batch stays saved for each list,
  so the statistics are within the bounds again.
\<close>

theorem get_scan_count_typed:
  assumes "stats_ok (z_reclaim_stat (zone_at s z))" and "LruLock z \<notin> k_held s" and "sc_swappiness sc \<le> 200"
    and "\<And>l u. zone_nr_lru_pages V z l u \<le> N" and "N < 2 ^ 31"
  shows "\<exists>nr' t. get_scan_count V z sc nr priority s = Some (nr', t)
    \<and> (\<forall>l \<in> set for_each_evictable_lru. nr' l < SWAP_CLUSTER_MAX + N \<and> nr' l < 2 ^ 32
        \<and> (\<not> sc_may_swap sc \<longrightarrow> nr' l < SWAP_CLUSTER_MAX + N div 2 ^ priority)
        \<and> (nr' l = 0 \<or> SWAP_CLUSTER_MAX \<le> nr' l))
    \<and> (\<forall>l. l \<notin> set for_each_evictable_lru \<longrightarrow> nr' l = nr l)
    \<and> stats_ok (z_reclaim_stat (zone_at t z)) \<and> k_held t = k_held s"
proof -
  from scan_fractions_spec [OF assms(1-3), of V] obtain f0 f1 d noswap u where
    f: "scan_fractions V z sc s = Some (f0, f1, d, noswap, u)" "f0 \<le> d" "f1 \<le> d" "0 < d" "d < 2 ^ 32"
      "stats_ok (z_reclaim_stat (zone_at u z))" "k_held u = k_held s" by blast
  from scan_count_loop_spec [OF f(2-5) assms(4,5) f(6), of priority noswap for_each_evictable_lru nr] obtain nr' t where
    run: "scan_count_loop V z priority noswap f0 f1 d for_each_evictable_lru nr u = Some (nr', t)"
    and each: "\<forall>l \<in> set for_each_evictable_lru. nr' l < SWAP_CLUSTER_MAX + (if noswap then N div 2 ^ priority else N)
        \<and> nr' l < 2 ^ 32 \<and> (nr' l = 0 \<or> SWAP_CLUSTER_MAX \<le> nr' l)"
    and same: "\<forall>l. l \<notin> set for_each_evictable_lru \<longrightarrow> nr' l = nr l"
    and t: "stats_ok (z_reclaim_stat (zone_at t z))" "k_held t = k_held u" by (auto split: if_splits)
  have ns: "\<not> sc_may_swap sc \<longrightarrow> noswap" using f(1) by (auto simp: scan_fractions_def)
  define h where "h = N div 2 ^ priority"
  have "h \<le> N" unfolding h_def by (rule div_le_dividend)
  then have "nr' l < SWAP_CLUSTER_MAX + N \<and> nr' l < 2 ^ 32
      \<and> (\<not> sc_may_swap sc \<longrightarrow> nr' l < SWAP_CLUSTER_MAX + N div 2 ^ priority)
      \<and> (nr' l = 0 \<or> SWAP_CLUSTER_MAX \<le> nr' l)" if "l \<in> set for_each_evictable_lru" for l
    using bspec [OF each that] ns unfolding h_def [symmetric] by (cases noswap) auto
  with f(1,7) run t same show ?thesis by (simp add: get_scan_count_def)
qed

section \<open>The rounds over a zone end\<close>

lemma shrink_round_total:
  assumes "\<And>l n sc s. P s \<Longrightarrow> \<exists>m sc' t. shrink_list V l n z sc priority s = Some (m, sc', t) \<and> P t"
    and "P s"
  shows "\<exists>r sc' t. shrink_round V z priority nr ls reclaimed sc s = Some (r, sc', t) \<and> P t \<and> reclaimed \<le> r"
  using assms(2)
proof (induction ls arbitrary: reclaimed sc s)
  case (Cons l ls)
  show ?case
  proof (cases "nr l = 0")
    case True
    with Cons show ?thesis by simp
  next
    case False
    from assms(1) [OF Cons.prems, of l "min (nr l) SWAP_CLUSTER_MAX" sc] obtain m sc1 u where
      "shrink_list V l (min (nr l) SWAP_CLUSTER_MAX) z sc priority s = Some (m, sc1, u)" "P u" by blast
    moreover from Cons.IH [OF this(2), of "reclaimed + m" sc1] obtain r sc' t where
      "shrink_round V z priority nr ls (reclaimed + m) sc1 u = Some (r, sc', t)" "P t" "reclaimed + m \<le> r" by blast
    ultimately show ?thesis using False by (simp add: Let_def)
  qed
qed simp

text \<open>
  C35. The scan of a zone ends. If shrinking a list returns from every state of some kind and leads
  to such a state, the rounds over the lists return, whatever counts they start from and however
  little is reclaimed: each round takes a batch off every list with work left, and the number of
  reclaimed pages never falls.
\<close>

theorem shrink_rounds_end:
  assumes "\<And>l n sc s. P s \<Longrightarrow> \<exists>m sc' t. shrink_list V l n z sc priority s = Some (m, sc', t) \<and> P t"
    and "P s"
  shows "\<exists>r sc' t. shrink_rounds V z priority nr goal reclaimed sc s = Some (r, sc', t) \<and> P t \<and> reclaimed \<le> r"
  using assms(2)
proof (induction "work_left nr" arbitrary: nr reclaimed sc s rule: less_induct)
  case less
  show ?case
  proof (cases "nr LRU_INACTIVE_ANON \<noteq> 0 \<or> nr LRU_ACTIVE_FILE \<noteq> 0 \<or> nr LRU_INACTIVE_FILE \<noteq> 0")
    case False
    with less.prems show ?thesis by (subst shrink_rounds.simps) auto
  next
    case True
    from shrink_round_total [where P = P, OF assms(1) less.prems, of nr for_each_evictable_lru reclaimed sc]
    obtain r sc1 u where u: "shrink_round V z priority nr for_each_evictable_lru reclaimed sc s = Some (r, sc1, u)"
      "P u" "reclaimed \<le> r" by blast
    from less.hyps [OF work_left_decreases [OF True] u(2), of r sc1] obtain r' sc' t where
      "shrink_rounds V z priority (after_round nr) goal r sc1 u = Some (r', sc', t)" "P t" "r \<le> r'" by blast
    with u True show ?thesis
      by (subst shrink_rounds.simps) (auto intro: le_trans)
  qed
qed

section \<open>The theorems on the small machine\<close>

theorem shrink_list_of_chained_pages_witness:
  "shrink_list sample_reclaim_env LRU_INACTIVE_LINKED_FILE 32 0 sample_request 12 sample_state
   = shrink_list sample_reclaim_env LRU_INACTIVE_FILE 32 0 sample_request 12 sample_state"
  using shrink_list_of_chained_pages [of LRU_INACTIVE_LINKED_FILE sample_reclaim_env 32 0 sample_request 12 sample_state]
  by (simp add: is_linked_lru_def lru_list_defs)

theorem batches_conserve_scans_witness:
  "batch_run [20, 5, 40] 3 = ([0, 0, 68], 0) \<and> sum_list [0, 0, 68] + (0 :: nat) = 3 + sum_list [20, 5, 40]"
proof -
  have "batch_run [20, 5, 40] 3 = ([0, 0, 68], 0)"
    by (simp add: nr_scan_try_batch_def SWAP_CLUSTER_MAX_def)
  with batches_conserve_scans [of 3 "[20, 5, 40]" "[0, 0, 68]" 0] show ?thesis
    by (simp add: SWAP_CLUSTER_MAX_def)
qed

theorem get_scan_count_typed_witness:
  "\<exists>nr t. get_scan_count (sample_reclaim_env\<lparr>nr_swap_pages := \<lambda>_. 100,
      wm := sample_alloc_env\<lparr>zone_page_state := \<lambda>_ _ _. 1000\<rparr>\<rparr>) 0 sample_request (\<lambda>_. 0) 12 sample_state
    = Some (nr, t) \<and> nr LRU_INACTIVE_FILE < 2 ^ 32"
  using get_scan_count_typed [of sample_state 0 sample_request
      "sample_reclaim_env\<lparr>nr_swap_pages := \<lambda>_. 100, wm := sample_alloc_env\<lparr>zone_page_state := \<lambda>_ _ _. 1000\<rparr>\<rparr>"
      1000 "\<lambda>_. 0" 12]
  by (fastforce simp: stats_ok_def sample_request_def zone_nr_lru_pages_def zone_at_def sample_defs
      SWAP_CLUSTER_MAX_def evictable_lrus lru_list_defs)

text \<open>A machine with nothing to reclaim.\<close>

definition nothing_to_reclaim :: "kstate \<Rightarrow> bool" where
  "nothing_to_reclaim s \<longleftrightarrow> k_held s = {} \<and> (\<forall>l. z_lru (zone_at s 0) l = [])
     \<and> k_lru_add_pvecs s = (\<lambda>_ _. []) \<and> k_lru_rotate_pvecs s = (\<lambda>_. [])"

lemma drain_nothing: "nothing_to_reclaim s \<Longrightarrow> lru_add_drain sample_env s = Some s"
  by (simp add: nothing_to_reclaim_def lru_add_drain_def drain_cpu_pagevecs_def for_each_lru_def
      lru_list_defs upt_conv_Cons)

lemma shrink_inactive_nothing:
  assumes "nothing_to_reclaim s"
  shows "\<exists>m sc' t. shrink_inactive_list sample_reclaim_env n 0 sc priority file s = Some (m, sc', t)
    \<and> nothing_to_reclaim t"
proof -
  have env: "mm sample_reclaim_env = sample_env" "current_is_kswapd sample_reclaim_env"
    by (simp_all add: sample_reclaim_env_def)
  have throttle: "throttle_isolated sample_reclaim_env 0 file s = Some (False, s)"
    by (subst throttle_isolated.simps) (simp add: too_many_isolated_def env)
  have held: "k_held s = {}" and empty: "z_lru (zone_at s 0) l = []" for l
    using assms by (simp_all add: nothing_to_reclaim_def)
  have iso: "isolate_pages_global sample_env swap n [] order mode 0 False file (s\<lparr>k_held := H\<rparr>)
      = Some (0, 0, [], s\<lparr>k_held := H\<rparr>)" for swap order mode H
    by (simp add: isolate_pages_global_eq) (subst isolate_loop.simps, simp add: empty)
  show ?thesis
    using assms drain_nothing [OF assms]
    by (auto simp: shrink_inactive_list_def throttle env iso held Let_def nothing_to_reclaim_def
        add_pages_scanned_def count_vm_events_def upd_zone_def zone_at_def)
qed

lemma shrink_list_nothing:
  assumes "nothing_to_reclaim s"
  shows "\<exists>m sc' t. shrink_list sample_reclaim_env l n 0 sc priority s = Some (m, sc', t) \<and> nothing_to_reclaim t"
proof -
  have "\<not> inactive_list_is_low sample_reclaim_env 0 file s" for "file"
    by (simp add: inactive_list_is_low_def inactive_file_is_low_def inactive_file_is_low_global_def
        inactive_anon_is_low_def sample_reclaim_env_def sample_alloc_env_def zone_stat_defs)
  with shrink_inactive_nothing [OF assms] assms show ?thesis
    by (simp add: shrink_list_def Let_def)
qed

theorem shrink_rounds_end_witness:
  "\<exists>r sc' t. shrink_rounds sample_reclaim_env 0 12 (\<lambda>_. 100) 32 0 sample_request sample_state = Some (r, sc', t)
    \<and> nothing_to_reclaim t \<and> 0 \<le> r"
proof (rule shrink_rounds_end [where P = nothing_to_reclaim])
  show "nothing_to_reclaim sample_state"
    by (simp add: nothing_to_reclaim_def zone_at_def sample_defs)
qed (rule shrink_list_nothing)
end
