(* ===== verification/Kswapd.thy ===== *)
theory Kswapd
  imports Reclaim
begin

text \<open>
  The background reclaim of \<open>Linux/vmscan.c\<close>: when a node is balanced, \<open>balance_pgdat\<close> with its
  \<open>goto loop_again\<close>, the sleep of \<open>kswapd\<close> and its wakeup, and the rescue of the unevictable
  pages of a mapping. The zones of a node are a list, by rising index; what \<open>pgdat\<close>
  holds for \<open>kswapd\<close> is the record \<open>kswapd_node\<close>.
\<close>

section \<open>Is the node balanced?\<close>

definition pgdat_balanced :: "zone_ptr list \<Rightarrow> nat \<Rightarrow> nat \<Rightarrow> kstate \<Rightarrow> bool" where
  "pgdat_balanced node balanced_pages classzone_idx s =
     (let present_pages = ul (\<Sum>z \<leftarrow> take (classzone_idx + 1) node. z_present_pages (zone_at s z))
      in balanced_pages > present_pages div 4)"

fun check_zones ::
  "alloc_env \<Rightarrow> nat \<Rightarrow> nat \<Rightarrow> zone_ptr list \<Rightarrow> bool \<Rightarrow> nat \<Rightarrow> kstate \<Rightarrow> bool \<times> nat" where
  "check_zones W order classzone_idx [] all_zones_ok balanced s = (all_zones_ok, balanced)"
| "check_zones W order classzone_idx (z # zs) all_zones_ok balanced s =
     (let zn = zone_at s z in
      if \<not> populated_zone zn then check_zones W order classzone_idx zs all_zones_ok balanced s
      else if z_all_unreclaimable zn
      then check_zones W order classzone_idx zs all_zones_ok (ul (balanced + z_present_pages zn)) s
      else if \<not> zone_watermark_ok_safe W z order (z_watermark zn WMARK_HIGH) classzone_idx {} s
      then check_zones W order classzone_idx zs False balanced s
      else check_zones W order classzone_idx zs all_zones_ok (ul (balanced + z_present_pages zn)) s)"

definition sleeping_prematurely ::
  "alloc_env \<Rightarrow> zone_ptr list \<Rightarrow> nat \<Rightarrow> int \<Rightarrow> nat \<Rightarrow> kstate \<Rightarrow> bool" where
  "sleeping_prematurely W node order remaining classzone_idx s =
     (if remaining \<noteq> 0 then True
      else let (all_zones_ok, balanced) = check_zones W order classzone_idx node True 0 s
           in if order \<noteq> 0 then pgdat_balanced node balanced classzone_idx s
              else \<not> all_zones_ok)"

section \<open>Balancing a node\<close>

text \<open>Aging from the highest zone down, to the first zone below its high watermark.\<close>

fun find_end_zone ::
  "reclaim_env \<Rightarrow> nat \<Rightarrow> nat \<Rightarrow> scan_control \<Rightarrow> (nat \<times> zone_ptr) list \<Rightarrow> kstate \<Rightarrow> (nat option \<times> kstate) option" where
  "find_end_zone V order priority sc [] s = Some (None, s)"
| "find_end_zone V order priority sc ((i, z) # zs) s =
     (if \<not> populated_zone (zone_at s z) then find_end_zone V order priority sc zs s
      else if z_all_unreclaimable (zone_at s z) \<and> priority \<noteq> DEF_PRIORITY
      then find_end_zone V order priority sc zs s
      else do {
        s \<leftarrow> (if inactive_anon_is_low V z s
              then shrink_active_list V SWAP_CLUSTER_MAX z sc False s else Some s);
        if \<not> zone_watermark_ok_safe (wm V) z order (z_watermark (zone_at s z) WMARK_HIGH) 0 {} s
        then Some (Some i, s)
        else find_end_zone V order priority sc zs s
      })"

text \<open>The local variables of \<open>balance_pgdat\<close>; \<open>b_priority\<close> is -1 after the last round.\<close>

record balance =
  b_end_zone :: nat
  b_classzone :: nat
  b_priority :: int
  b_all_ok :: bool
  b_balanced :: nat
  b_under_min :: bool
  b_total :: nat
  b_sc :: scan_control
  b_slab :: slab_state

definition GFP_KERNEL :: "gfp_flag set" where
  "GFP_KERNEL = {GFP_WAIT, GFP_IO, GFP_FS}"

definition balanced_enough :: "zone_ptr list \<Rightarrow> nat \<Rightarrow> balance \<Rightarrow> kstate \<Rightarrow> bool" where
  "balanced_enough node order b s \<longleftrightarrow>
     b_all_ok b \<or> order \<noteq> 0 \<and> pgdat_balanced node (b_balanced b) (b_classzone b) s"

text \<open>After the shrinking: what the watermarks of the zone say.\<close>

definition judge_zone ::
  "reclaim_env \<Rightarrow> nat \<Rightarrow> nat \<Rightarrow> zone_ptr \<Rightarrow> balance \<Rightarrow> kstate \<Rightarrow> balance \<times> kstate" where
  "judge_zone V order i z b s =
     (let b = (if b_total b > SWAP_CLUSTER_MAX * 2
                  \<and> b_total b > sc_nr_reclaimed (b_sc b) + sc_nr_reclaimed (b_sc b) div 2
               then b\<lparr>b_sc := (b_sc b)\<lparr>sc_may_writepage := True\<rparr>\<rparr> else b)
      in if \<not> zone_watermark_ok_safe (wm V) z order (z_watermark (zone_at s z) WMARK_HIGH) (b_end_zone b) {} s
         then (b\<lparr>b_all_ok := False,
                 b_under_min := b_under_min b \<or>
                   \<not> zone_watermark_ok_safe (wm V) z order (z_watermark (zone_at s z) WMARK_MIN) (b_end_zone b) {} s\<rparr>, s)
         else (if i \<le> b_classzone b
               then b\<lparr>b_balanced := ul (b_balanced b + z_present_pages (zone_at s z))\<rparr> else b,
               zone_clear_flag z ZONE_CONGESTED s))"

text \<open>\<open>8*high_wmark_pages(zone)\<close> is an \<open>unsigned long\<close>. The memory controller does nothing.\<close>

definition balance_zone ::
  "reclaim_env \<Rightarrow> nat \<Rightarrow> nat \<Rightarrow> nat \<Rightarrow> nat \<Rightarrow> zone_ptr \<Rightarrow> balance \<Rightarrow> kstate \<Rightarrow> (balance \<times> kstate) option" where
  "balance_zone V order priority lru_pages i z b s =
     (if \<not> populated_zone (zone_at s z) then Some (b, s)
      else if z_all_unreclaimable (zone_at s z) \<and> priority \<noteq> DEF_PRIORITY then Some (b, s)
      else do {
        let sc = (b_sc b)\<lparr>sc_nr_scanned := 0\<rparr>;
        (sc, s) \<leftarrow>
          (if \<not> zone_watermark_ok_safe (wm V) z order (ulong_of (8 * z_watermark (zone_at s z) WMARK_HIGH))
              (b_end_zone b) {} s
           then shrink_zone V priority z sc s else Some (sc, s));
        let s = reset_reclaimed_slab V s;
        (nr_slab, L, s) \<leftarrow> shrink_slab V (sc_nr_scanned sc) GFP_KERNEL lru_pages (b_slab b) s;
        let sc = sc\<lparr>sc_nr_reclaimed := sc_nr_reclaimed sc + reclaimed_slab V s\<rparr>;
        let b = b\<lparr>b_sc := sc, b_slab := L, b_total := b_total b + sc_nr_scanned sc\<rparr>;
        if z_all_unreclaimable (zone_at s z) then Some (b, s)
        else let s = (if nr_slab = 0 \<and> \<not> zone_reclaimable V z s
                      then upd_zone z (\<lambda>zn. zn\<lparr>z_all_unreclaimable := True\<rparr>) s else s)
             in Some (judge_zone V order i z b s)
      })"

fun balance_zones ::
  "reclaim_env \<Rightarrow> nat \<Rightarrow> nat \<Rightarrow> nat \<Rightarrow> (nat \<times> zone_ptr) list \<Rightarrow> balance \<Rightarrow> kstate \<Rightarrow> (balance \<times> kstate) option" where
  "balance_zones V order priority lru_pages [] b s = Some (b, s)"
| "balance_zones V order priority lru_pages ((i, z) # zs) b s = do {
     (b, s) \<leftarrow> balance_zone V order priority lru_pages i z b s;
     balance_zones V order priority lru_pages zs b s
   }"

text \<open>One priority. The first result says that the loop over the priorities is left.\<close>

definition balance_priority ::
  "reclaim_env \<Rightarrow> zone_ptr list \<Rightarrow> nat \<Rightarrow> nat \<Rightarrow> balance \<Rightarrow> kstate \<Rightarrow> (bool \<times> balance \<times> kstate) option" where
  "balance_priority V node order priority b s = do {
     let s = (if priority = 0 then disable_swap_token V s else s);
     let b = b\<lparr>b_priority := int priority, b_all_ok := True, b_balanced := 0, b_under_min := False\<rparr>;
     let zones = zip [0 ..< length node] node;
     (found, s) \<leftarrow> find_end_zone V order priority (b_sc b) (rev zones) s;
     case found of
       None \<Rightarrow> Some (True, b, s)
     | Some i \<Rightarrow> do {
         let b = b\<lparr>b_end_zone := i, b_classzone := i\<rparr>;
         let lru_pages = ul (\<Sum>z \<leftarrow> take (i + 1) node. zone_reclaimable_pages V z s);
         (b, s) \<leftarrow> balance_zones V order priority lru_pages (take (i + 1) zones) b s;
         if balanced_enough node order b s then Some (True, b, s)
         else do {
           let s = (if b_total b \<noteq> 0 \<and> priority < DEF_PRIORITY - 2
             then (if b_under_min b then count_vm_events (mm V) KSWAPD_SKIP_CONGESTION_WAIT 1 s
                   else congestion_wait V s)
             else s);
           Some (sc_nr_reclaimed (b_sc b) \<ge> SWAP_CLUSTER_MAX, b, s)
         }
       }
   }"

fun balance_priorities ::
  "reclaim_env \<Rightarrow> zone_ptr list \<Rightarrow> nat \<Rightarrow> nat list \<Rightarrow> balance \<Rightarrow> kstate \<Rightarrow> (balance \<times> kstate) option" where
  "balance_priorities V node order [] b s = Some (b\<lparr>b_priority := - 1\<rparr>, s)"
| "balance_priorities V node order (priority # ps) b s = do {
     (stop, b, s) \<leftarrow> balance_priority V node order priority b s;
     if stop then Some (b, s) else balance_priorities V node order ps b s
   }"

text \<open>Before a sleep at a high order: every zone must meet its watermark at order 0.\<close>

fun confirm_zones :: "reclaim_env \<Rightarrow> int \<Rightarrow> zone_ptr list \<Rightarrow> kstate \<Rightarrow> bool \<times> kstate" where
  "confirm_zones V priority [] s = (True, s)"
| "confirm_zones V priority (z # zs) s =
     (if \<not> populated_zone (zone_at s z) then confirm_zones V priority zs s
      else if z_all_unreclaimable (zone_at s z) \<and> priority \<noteq> int DEF_PRIORITY then confirm_zones V priority zs s
      else if \<not> zone_watermark_ok (wm V) z 0 (z_watermark (zone_at s z) WMARK_HIGH) 0 {} s then (False, s)
      else confirm_zones V priority zs (zone_clear_flag z ZONE_CONGESTED s))"

text \<open>One pass from the label \<open>loop_again\<close>; the first result is the order of the next pass, if any.\<close>

definition balance_pass ::
  "reclaim_env \<Rightarrow> zone_ptr list \<Rightarrow> nat \<Rightarrow> balance \<Rightarrow> kstate \<Rightarrow> (nat option \<times> balance \<times> kstate) option" where
  "balance_pass V node order b s = do {
     let b = b\<lparr>b_total := 0, b_sc := (b_sc b)\<lparr>sc_nr_reclaimed := 0, sc_may_writepage := \<not> laptop_mode V\<rparr>\<rparr>;
     let s = count_vm_events (mm V) PAGEOUTRUN 1 s;
     (b, s) \<leftarrow> balance_priorities V node order (rev [0 ..< Suc DEF_PRIORITY]) b s;
     let at_0 = b\<lparr>b_sc := (b_sc b)\<lparr>sc_order := 0\<rparr>\<rparr>;
     let out = b\<lparr>b_classzone := b_end_zone b\<rparr>;
     if \<not> balanced_enough node order b s then
       (if sc_nr_reclaimed (b_sc b) < SWAP_CLUSTER_MAX then Some (Some 0, at_0, s) else Some (Some order, b, s))
     else if order \<noteq> 0 then
       (let (confirmed, s) = confirm_zones V (b_priority b) (take (b_end_zone b + 1) node) s
        in if confirmed then Some (None, out, s) else Some (Some 0, at_0, s))
     else Some (None, out, s)
   }"

text \<open>\<open>goto loop_again\<close>: the passes may never balance the node, and then there is no result.\<close>

partial_function (option) balance_again ::
  "reclaim_env \<Rightarrow> zone_ptr list \<Rightarrow> nat \<Rightarrow> balance \<Rightarrow> kstate \<Rightarrow> (nat \<times> balance \<times> kstate) option" where
  "balance_again V node order b s = do {
     (next_order, b, s) \<leftarrow> balance_pass V node order b s;
     case next_order of
       None \<Rightarrow> Some (order, b, s)
     | Some order \<Rightarrow> balance_again V node order b s
   }"

text \<open>
  \<open>nr_to_reclaim\<close> is \<open>ULONG_MAX\<close>. The variables that the code leaves uninitialised are written
  before they are read. Returned are the order and the class zone.
\<close>

definition balance_pgdat ::
  "reclaim_env \<Rightarrow> zone_ptr list \<Rightarrow> nat \<Rightarrow> nat \<Rightarrow> slab_state \<Rightarrow> kstate \<Rightarrow> (nat \<times> nat \<times> slab_state \<times> kstate) option" where
  "balance_pgdat V node order classzone_idx L s = do {
     let sc = new_request GFP_KERNEL False (2 ^ 32 - 1) False (vm_swappiness V) order;
     (order, b, s) \<leftarrow> balance_again V node order
       \<lparr>b_end_zone = 0, b_classzone = classzone_idx, b_priority = 0, b_all_ok = False, b_balanced = 0,
        b_under_min = False, b_total = 0, b_sc = sc, b_slab = L\<rparr> s;
     Some (order, b_classzone b, b_slab b, s)
   }"

section \<open>The kswapd thread\<close>

record kswapd_node =
  kn_zones :: "zone_ptr list"
  kswapd_max_order :: nat
  kn_classzone_idx :: nat
  kswapd_waiting :: bool

text \<open>
  What a sleeping \<open>kswapd\<close> leaves to others: while it is asleep other tasks run, which change the
  memory and, through \<open>wakeup_kswapd\<close>, its node.
\<close>

record sleep_env =
  freezing :: bool
  kthread_should_stop :: "kstate \<Rightarrow> bool"
  possible_cpus :: nat
  schedule_timeout :: "kswapd_node \<times> kstate \<Rightarrow> int \<times> kswapd_node \<times> kstate"
  schedule :: "kswapd_node \<times> kstate \<Rightarrow> kswapd_node \<times> kstate"
  try_to_freeze :: "kswapd_node \<times> kstate \<Rightarrow> bool \<times> kswapd_node \<times> kstate"

definition wakeup_kswapd ::
  "reclaim_env \<Rightarrow> zone_ptr \<Rightarrow> nat \<Rightarrow> nat \<Rightarrow> kswapd_node \<Rightarrow> kstate \<Rightarrow> bool \<times> kswapd_node" where
  "wakeup_kswapd V z order classzone_idx n s =
     (if \<not> populated_zone (zone_at s z) then (False, n)
      else if \<not> cpuset_zone_allowed_hardwall V z then (False, n)
      else let n = (if kswapd_max_order n < order
             then n\<lparr>kswapd_max_order := order, kn_classzone_idx := min (kn_classzone_idx n) classzone_idx\<rparr> else n)
           in if \<not> kswapd_waiting n then (False, n)
              else if zone_watermark_ok_safe (wm V) z order (z_watermark (zone_at s z) WMARK_LOW) 0 {} s then (False, n)
              else (True, n))"

definition kswapd_try_to_sleep ::
  "reclaim_env \<Rightarrow> sleep_env \<Rightarrow> nat \<Rightarrow> nat \<Rightarrow> kswapd_node \<Rightarrow> kstate \<Rightarrow> kswapd_node \<times> kstate" where
  "kswapd_try_to_sleep V S order classzone_idx n s =
     (if freezing S \<or> kthread_should_stop S s then (n, s)
      else let n = n\<lparr>kswapd_waiting := True\<rparr>;
               (remaining, n, s) = (if \<not> sleeping_prematurely (wm V) (kn_zones n) order 0 classzone_idx s
                 then let (r, n, s) = schedule_timeout S (n, s) in (r, n\<lparr>kswapd_waiting := True\<rparr>, s)
                 else (0, n, s));
               (n, s) = (if \<not> sleeping_prematurely (wm V) (kn_zones n) order remaining classzone_idx s
                 then let s = set_pgdat_percpu_threshold (mm V) (possible_cpus S) (kn_zones n)
                            (calculate_normal_threshold (mm V)) s;
                          (n, s) = schedule S (n, s)
                      in (n, set_pgdat_percpu_threshold (mm V) (possible_cpus S) (kn_zones n)
                            (calculate_pressure_threshold (mm V)) s)
                 else (n, count_vm_events (mm V) (if remaining \<noteq> 0 then KSWAPD_LOW_WMARK_HIT_QUICKLY
                            else KSWAPD_HIGH_WMARK_HIT_QUICKLY) 1 s))
           in (n\<lparr>kswapd_waiting := False\<rparr>, s))"

text \<open>\<open>MAX_NR_ZONES\<close> is 4. One round of the endless loop; the first result says it was left.\<close>

definition take_request :: "kswapd_node \<Rightarrow> nat \<times> nat \<times> kswapd_node" where
  "take_request n = (kswapd_max_order n, kn_classzone_idx n,
     n\<lparr>kswapd_max_order := 0, kn_classzone_idx := MAX_NR_ZONES - 1\<rparr>)"

definition kswapd_round ::
  "reclaim_env \<Rightarrow> sleep_env \<Rightarrow> nat \<Rightarrow> nat \<Rightarrow> kswapd_node \<Rightarrow> slab_state \<Rightarrow> kstate \<Rightarrow>
     (bool \<times> nat \<times> nat \<times> kswapd_node \<times> slab_state \<times> kstate) option" where
  "kswapd_round V S order classzone_idx n L s = do {
     let (new_order, new_classzone_idx, n) = take_request n;
     let (order, classzone_idx, n, s) =
       (if order < new_order \<or> classzone_idx > new_classzone_idx then (new_order, new_classzone_idx, n, s)
        else let (n, s) = kswapd_try_to_sleep V S order classzone_idx n s;
                 (order, classzone_idx, n) = take_request n
             in (order, classzone_idx, n, s));
     let (frozen, n, s) = try_to_freeze S (n, s);
     if kthread_should_stop S s then Some (True, order, classzone_idx, n, L, s)
     else if frozen then Some (False, order, classzone_idx, n, L, s)
     else do {
       (order, classzone_idx, L, s) \<leftarrow> balance_pgdat V (kn_zones n) order classzone_idx L s;
       Some (False, order, classzone_idx, n, L, s)
     }
   }"

partial_function (option) kswapd_loop ::
  "reclaim_env \<Rightarrow> sleep_env \<Rightarrow> nat \<Rightarrow> nat \<Rightarrow> kswapd_node \<Rightarrow> slab_state \<Rightarrow> kstate \<Rightarrow>
     (kswapd_node \<times> slab_state \<times> kstate) option" where
  "kswapd_loop V S order classzone_idx n L s = do {
     (stopped, order, classzone_idx, n, L, s) \<leftarrow> kswapd_round V S order classzone_idx n L s;
     if stopped then Some (n, L, s) else kswapd_loop V S order classzone_idx n L s
   }"

definition kswapd ::
  "reclaim_env \<Rightarrow> sleep_env \<Rightarrow> kswapd_node \<Rightarrow> slab_state \<Rightarrow> kstate \<Rightarrow> (kswapd_node \<times> slab_state \<times> kstate) option" where
  "kswapd V S n L s = kswapd_loop V S 0 (MAX_NR_ZONES - 1) n L s"


section \<open>Evictable pages of a mapping\<close>

text \<open>
  The page cache of one mapping: \<open>pagevec_lookup\<close> returns references to its pages from an index on,
  at most \<open>PAGEVEC_SIZE\<close> of them.
\<close>

record address_space =
  nrpages :: nat
  i_size_read :: nat
  pagevec_lookup :: "nat \<Rightarrow> kstate \<Rightarrow> page_ptr list \<times> kstate"
  page_index :: "page_ptr \<Rightarrow> kstate \<Rightarrow> nat"

text \<open>The lock of the zone of the page before is kept where the zone stays the same.\<close>

definition change_zone_lock :: "zone_ptr option \<Rightarrow> zone_ptr \<Rightarrow> kstate \<Rightarrow> kstate option" where
  "change_zone_lock zone pagezone s =
     (if zone = Some pagezone then Some s
      else do {
        s \<leftarrow> (case zone of None \<Rightarrow> Some s | Some z \<Rightarrow> spin_unlock (LruLock z) s);
        spin_lock (LruLock pagezone) s
      })"

fun scan_mapping_batch ::
  "kenv \<Rightarrow> address_space \<Rightarrow> page_ptr list \<Rightarrow> nat \<Rightarrow> zone_ptr option \<Rightarrow> kstate \<Rightarrow> (nat \<times> kstate) option" where
  "scan_mapping_batch E mapping [] index zone s = do {
     s \<leftarrow> (case zone of None \<Rightarrow> Some s | Some z \<Rightarrow> spin_unlock (LruLock z) s);
     Some (index, s)
   }"
| "scan_mapping_batch E mapping (page # pages) index zone s = do {
     let index = ul (max index (page_index mapping page s) + 1);
     let pagezone = page_zone E page;
     s \<leftarrow> change_zone_lock zone pagezone s;
     s \<leftarrow> (if PageLRU page s \<and> PageUnevictable page s
           then check_move_unevictable_page E page pagezone s else Some s);
     scan_mapping_batch E mapping pages index (Some pagezone) s
   }"

partial_function (option) scan_mapping_loop ::
  "kenv \<Rightarrow> address_space \<Rightarrow> nat \<Rightarrow> nat \<Rightarrow> kstate \<Rightarrow> kstate option" where
  "scan_mapping_loop E mapping last_index index s =
     (if \<not> index < last_index then Some s
      else let (pvec, s) = pagevec_lookup mapping index s
           in if pvec = [] then Some s
              else do {
                (index, s) \<leftarrow> scan_mapping_batch E mapping pvec index None s;
                s \<leftarrow> k__pagevec_release E pvec s;
                scan_mapping_loop E mapping last_index index (count_vm_events E UNEVICTABLE_PGSCANNED (int (length pvec)) s)
              })"

text \<open>\<open>PAGE_CACHE_SIZE\<close> is 4096; the size of the file is a \<open>loff_t\<close>, its last index an \<open>unsigned long\<close>.\<close>

definition scan_mapping_unevictable_pages :: "kenv \<Rightarrow> address_space \<Rightarrow> kstate \<Rightarrow> kstate option" where
  "scan_mapping_unevictable_pages E mapping s =
     (if nrpages mapping = 0 then Some s
      else scan_mapping_loop E mapping (ul ((i_size_read mapping + 4095) div 4096)) 0 s)"

section \<open>When kswapd may sleep\<close>

definition zone_balanced :: "alloc_env \<Rightarrow> nat \<Rightarrow> nat \<Rightarrow> kstate \<Rightarrow> zone_ptr \<Rightarrow> bool" where
  "zone_balanced W order classzone_idx s z \<longleftrightarrow> z_all_unreclaimable (zone_at s z)
     \<or> zone_watermark_ok_safe W z order (z_watermark (zone_at s z) WMARK_HIGH) classzone_idx {} s"

definition present :: "kstate \<Rightarrow> zone_ptr list \<Rightarrow> nat" where
  "present s zs = (\<Sum>z \<leftarrow> zs. z_present_pages (zone_at s z))"

lemma check_zones_spec:
  assumes "bal + present s zs < 2 ^ 32"
  shows "check_zones W order cz zs ok bal s =
    (ok \<and> (\<forall>z \<in> set zs. populated_zone (zone_at s z) \<longrightarrow> zone_balanced W order cz s z),
     bal + present s (filter (\<lambda>z. populated_zone (zone_at s z) \<and> zone_balanced W order cz s z) zs))"
  using assms
proof (induction zs arbitrary: ok bal)
  case (Cons z zs)
  have b: "bal + present s zs < 2 ^ 32" "bal + z_present_pages (zone_at s z) + present s zs < 2 ^ 32"
    using Cons.prems by (simp_all add: present_def)
  from b(2) have "bal + z_present_pages (zone_at s z) < 2 ^ 32" by simp
  then have "ul (bal + z_present_pages (zone_at s z)) = bal + z_present_pages (zone_at s z)" by (rule ul_small)
  then show ?case
    using Cons.IH [OF b(1)] Cons.IH [OF b(2)]
    by (auto simp: Let_def zone_balanced_def present_def)
qed (simp add: present_def)

text \<open>
  Asked at order 0, \<open>sleeping_prematurely\<close> is right: it keeps \<open>kswapd\<close> awake exactly when a
  direct reclaimer woke it or some populated zone that is not given up is below its high
  watermark.
\<close>

theorem kswapd_sleep_order0:
  assumes "present s node < 2 ^ 32"
  shows "sleeping_prematurely W node 0 remaining cz s \<longleftrightarrow> remaining \<noteq> 0
    \<or> (\<exists>z \<in> set node. populated_zone (zone_at s z) \<and> \<not> zone_balanced W 0 cz s z)"
  using check_zones_spec [of 0 s node W 0 cz True] assms
  by (auto simp: sleeping_prematurely_def)

lemma present_mono: "present s (take n node) \<le> present s node"
proof -
  have "present s node = present s (take n node) + present s (drop n node)"
    unfolding present_def by (metis append_take_drop_id map_append sum_list_append)
  then show ?thesis by simp
qed

text \<open>
  C36. Asked for a higher order it is the wrong way round: with every populated zone balanced it
  reports that \<open>kswapd\<close> would sleep too early, and with no zone balanced it lets it sleep, since
  the answer of \<open>pgdat_balanced\<close> is returned without being negated.
\<close>

theorem kswapd_sleep_inverted:
  assumes "0 < order" and "present s node < 2 ^ 32" and "0 < present s node"
  shows "((\<forall>z \<in> set node. populated_zone (zone_at s z) \<longrightarrow> zone_balanced W order cz s z)
        \<longrightarrow> sleeping_prematurely W node order 0 cz s)
    \<and> ((\<forall>z \<in> set node. populated_zone (zone_at s z) \<longrightarrow> \<not> zone_balanced W order cz s z)
        \<longrightarrow> \<not> sleeping_prematurely W node order 0 cz s)"
proof -
  let ?bal = "present s (filter (\<lambda>z. populated_zone (zone_at s z) \<and> zone_balanced W order cz s z) node)"
  let ?P = "present s (take (cz + 1) node)"
  have P: "?P \<le> present s node" by (rule present_mono)
  then have "ul ?P = ?P" using assms(2) by simp
  then have eq: "sleeping_prematurely W node order 0 cz s \<longleftrightarrow> ?P div 4 < ?bal"
    using check_zones_spec [of 0 s node W order cz True] assms(1,2)
    by (auto simp: sleeping_prematurely_def pgdat_balanced_def present_def)
  have all: "present s (filter (\<lambda>z. populated_zone (zone_at s z)) node) = present s node" for node
    by (induction node) (auto simp: present_def populated_zone_def)
  have "?bal = present s node" if "\<forall>z \<in> set node. populated_zone (zone_at s z) \<longrightarrow> zone_balanced W order cz s z"
  proof -
    have "filter (\<lambda>z. populated_zone (zone_at s z) \<and> zone_balanced W order cz s z) node
        = filter (\<lambda>z. populated_zone (zone_at s z)) node"
      using that by (intro filter_cong_on_set) auto
    with all [of node] show ?thesis by simp
  qed
  moreover have "?P div 4 < present s node" using P assms(3) by (simp add: less_mult_imp_div_less)
  moreover have "?bal = 0" if "\<forall>z \<in> set node. populated_zone (zone_at s z) \<longrightarrow> \<not> zone_balanced W order cz s z"
  proof -
    have "filter (\<lambda>z. populated_zone (zone_at s z) \<and> zone_balanced W order cz s z) node = []"
      using that by (auto simp: filter_empty_conv)
    then show ?thesis by (simp add: present_def)
  qed
  ultimately show ?thesis unfolding eq by auto
qed

section \<open>What balance_pgdat has confirmed\<close>

lemma watermark_loop_flags [simp]: "watermark_loop (zn\<lparr>z_flags := f\<rparr>) is m free = watermark_loop zn is m free"
  by (induction "is" arbitrary: m free) (simp_all add: Let_def)

lemma watermark_ok_flags [simp]:
  "k__zone_watermark_ok (zn\<lparr>z_flags := f\<rparr>) order mark cz fl free = k__zone_watermark_ok zn order mark cz fl free"
  by (simp add: k__zone_watermark_ok_def Let_def)

text \<open>A zone that \<open>confirm_zones\<close> accepts.\<close>

definition confirmed :: "reclaim_env \<Rightarrow> kstate \<Rightarrow> zone_ptr \<Rightarrow> bool" where
  "confirmed V s z \<longleftrightarrow> \<not> populated_zone (zone_at s z) \<or> z_all_unreclaimable (zone_at s z)
     \<or> zone_watermark_ok (wm V) z 0 (z_watermark (zone_at s z) WMARK_HIGH) 0 {} s"

text \<open>The counter readers do not look at the flags of zones.\<close>

definition counts_ignore_flags :: "alloc_env \<Rightarrow> bool" where
  "counts_ignore_flags W \<longleftrightarrow> (\<forall>z i y f s. zone_page_state W z i (zone_clear_flag y f s) = zone_page_state W z i s)"

lemma confirmed_clear_flag:
  assumes "counts_ignore_flags (wm V)"
  shows "confirmed V (zone_clear_flag y f s) z = confirmed V s z"
proof -
  have "zone_at (zone_clear_flag y f s) z =
      (zone_at s z)\<lparr>z_flags := z_flags (zone_at (zone_clear_flag y f s) z)\<rparr>"
    by (simp add: zone_clear_flag_def zone_at_upd_zone)
  then obtain g where "zone_at (zone_clear_flag y f s) z = (zone_at s z)\<lparr>z_flags := g\<rparr>" by blast
  with assms show ?thesis
    by (simp add: confirmed_def zone_watermark_ok_def populated_zone_def counts_ignore_flags_def)
qed

lemma confirm_zones_spec:
  assumes "counts_ignore_flags (wm V)" and "confirm_zones V priority zs s = (True, t)"
  shows "(\<forall>z \<in> set zs. confirmed V t z) \<and> (\<forall>z. confirmed V t z = confirmed V s z)"
  using assms(2)
proof (induction zs arbitrary: s)
  case (Cons z zs)
  let ?u = "zone_clear_flag z ZONE_CONGESTED s"
  have "confirmed V s z \<and> (\<exists>u. confirm_zones V priority zs u = (True, t) \<and> (u = s \<or> u = ?u))"
    using Cons.prems by (auto simp: confirmed_def split: if_splits)
  then obtain u where "confirmed V s z" "confirm_zones V priority zs u = (True, t)" "u = s \<or> u = ?u" by blast
  with Cons.IH [of u] confirmed_clear_flag [OF assms(1)] show ?case by auto
qed simp

text \<open>What \<open>balance_again\<close> has confirmed when it returns.\<close>

definition gives_up_in_order :: "reclaim_env \<Rightarrow> zone_ptr list \<Rightarrow> nat \<Rightarrow> nat \<times> balance \<times> kstate \<Rightarrow> bool" where
  "gives_up_in_order V node order r \<longleftrightarrow> fst r \<in> {0, order} \<and> (fst r \<noteq> 0 \<longrightarrow>
     (\<forall>z \<in> set (take (b_classzone (fst (snd r)) + 1) node). confirmed V (snd (snd r)) z))"

lemma gives_up_in_order_0: "gives_up_in_order V node 0 r \<Longrightarrow> gives_up_in_order V node order r"
  by (simp add: gives_up_in_order_def)

lemma balance_pass_spec:
  assumes "balance_pass V node order b s = Some (next_order, b', t)" and "counts_ignore_flags (wm V)"
  shows "next_order \<in> {Some 0, Some order} \<or> next_order = None \<and> gives_up_in_order V node order (order, b', t)"
proof -
  from assms(1) obtain b1 s1 where R:
    "(if \<not> balanced_enough node order b1 s1 then
       (if sc_nr_reclaimed (b_sc b1) < SWAP_CLUSTER_MAX
        then Some (Some 0, b1\<lparr>b_sc := (b_sc b1)\<lparr>sc_order := 0\<rparr>\<rparr>, s1) else Some (Some order, b1, s1))
     else if order \<noteq> 0 then
       (let (confirmed, s) = confirm_zones V (b_priority b1) (take (b_end_zone b1 + 1) node) s1
        in if confirmed then Some (None, b1\<lparr>b_classzone := b_end_zone b1\<rparr>, s)
           else Some (Some 0, b1\<lparr>b_sc := (b_sc b1)\<lparr>sc_order := 0\<rparr>\<rparr>, s))
     else Some (None, b1\<lparr>b_classzone := b_end_zone b1\<rparr>, s1)) = Some (next_order, b', t)"
    by (auto simp: balance_pass_def Let_def split: Option.bind_splits)
  obtain c u where c: "confirm_zones V (b_priority b1) (take (b_end_zone b1 + 1) node) s1 = (c, u)"
    by (cases "confirm_zones V (b_priority b1) (take (b_end_zone b1 + 1) node) s1")
  have "next_order \<in> {Some 0, Some order} \<or> next_order = None \<and> (order = 0 \<or>
      c \<and> b' = b1\<lparr>b_classzone := b_end_zone b1\<rparr> \<and> t = u)"
    using R [unfolded c Let_def prod.case] by (simp split: if_splits)
  with c confirm_zones_spec [OF assms(2)] show ?thesis by (fastforce simp: gives_up_in_order_def)
qed

lemma balance_again_confirms:
  assumes "balance_again V node order b s = Some r" and "counts_ignore_flags (wm V)"
  shows "gives_up_in_order V node order r"
proof -
  have "counts_ignore_flags (wm V) \<longrightarrow> gives_up_in_order V node order r"
    using assms(1)
  proof (rule balance_again.raw_induct [rotated])
    fix again :: "reclaim_env \<Rightarrow> zone_ptr list \<Rightarrow> nat \<Rightarrow> balance \<Rightarrow> kstate \<Rightarrow> (nat \<times> balance \<times> kstate) option"
      and V :: reclaim_env and node :: "zone_ptr list" and order :: nat and b :: balance and s :: kstate and r
    assume IH: "\<And>V node order b s r. again V node order b s = Some r \<Longrightarrow>
      counts_ignore_flags (wm V) \<longrightarrow> gives_up_in_order V node order r"
    assume "balance_pass V node order b s \<bind> (\<lambda>(next_order, b, s). case next_order of
      None \<Rightarrow> Some (order, b, s) | Some order \<Rightarrow> again V node order b s) = Some r"
    then obtain next_order b1 s1 where pass: "balance_pass V node order b s = Some (next_order, b1, s1)"
      and rest: "(case next_order of None \<Rightarrow> Some (order, b1, s1) | Some order \<Rightarrow> again V node order b1 s1) = Some r"
      by (auto split: Option.bind_splits)
    show "counts_ignore_flags (wm V) \<longrightarrow> gives_up_in_order V node order r"
    proof
      assume W: "counts_ignore_flags (wm V)"
      have again: "gives_up_in_order V node ord r" if "again V node ord b1 s1 = Some r" for ord
        using IH [OF that] W by blast
      from balance_pass_spec [OF pass W] show "gives_up_in_order V node order r"
        using rest again [of 0] again [of order] by (auto simp del: split_paired_All intro: gives_up_in_order_0)
    qed
  qed
  with assms(2) show ?thesis by blast
qed

text \<open>
  C37. \<open>kswapd\<close> keeps a high order only for a node it has checked at order 0. When \<open>balance_pgdat\<close>
  returns, it returns the order it was asked for or 0; and when what it returns is not 0, every zone
  up to the class zone it returns is empty, given up (\<open>all_unreclaimable\<close>), or passes the check of its
  high watermark for a single page. (That check also lets a zone with fewer than two free pages pass,
  see \<open>watermark_blind_when_empty\<close>.)
\<close>

theorem balance_pgdat_confirms:
  assumes "counts_ignore_flags (wm V)"
    and "balance_pgdat V node order cz L s = Some (order', cz', L', t)"
  shows "order' \<in> {0, order} \<and> (order' \<noteq> 0 \<longrightarrow> (\<forall>z \<in> set (take (cz' + 1) node). confirmed V t z))"
proof -
  from assms(2) obtain b b' where "balance_again V node order b s = Some (order', b', t)" "cz' = b_classzone b'"
    by (auto simp: balance_pgdat_def Let_def split: Option.bind_splits)
  with balance_again_confirms [OF this(1) assms(1)] show ?thesis by (simp add: gives_up_in_order_def)
qed

section \<open>A balanced node\<close>

definition roomy_env :: reclaim_env where
  "roomy_env = sample_reclaim_env\<lparr>wm := sample_alloc_env\<lparr>zone_page_state := \<lambda>_ _ _. 1000\<rparr>\<rparr>"

lemmas roomy_defs = roomy_env_def sample_reclaim_env_def sample_alloc_env_def

lemma roomy_watermark:
  assumes "zone_at s 0 = sample_zone" and "order \<le> 1"
  shows "zone_watermark_ok (wm roomy_env) 0 order 0 0 {} s" and "zone_watermark_ok_safe (wm roomy_env) 0 order 0 0 {} s"
proof -
  have "order = 0 \<or> order = 1" using assms(2) by auto
  then show "zone_watermark_ok (wm roomy_env) 0 order 0 0 {} s"
    and "zone_watermark_ok_safe (wm roomy_env) 0 order 0 0 {} s"
    using assms(1) by (auto simp: zone_watermark_ok_safe_def roomy_defs zone_watermark_ok_def k__zone_watermark_ok_def
        reduced_mark_def Let_def sample_zone_def)
qed

theorem kswapd_sleep_order0_witness:
  "sleeping_prematurely (wm roomy_env) [0] 0 0 0 sample_state \<longleftrightarrow>
     (0 :: int) \<noteq> 0 \<or> (\<exists>z \<in> set [0 :: nat]. populated_zone (zone_at sample_state z)
        \<and> \<not> zone_balanced (wm roomy_env) 0 0 sample_state z)"
  by (rule kswapd_sleep_order0) (simp add: present_def zone_at_def sample_defs)

theorem kswapd_sleep_inverted_witness: "sleeping_prematurely (wm roomy_env) [0] 1 0 0 sample_state"
proof -
  have p: "present sample_state [0] < 2 ^ 32" "0 < present sample_state [0]"
    by (simp_all add: present_def zone_at_def sample_defs)
  have z: "zone_at sample_state 0 = sample_zone" by (simp add: zone_at_def sample_state_def)
  then have "zone_balanced (wm roomy_env) 1 0 sample_state 0"
    using roomy_watermark(2) [OF z, of 1] by (simp add: zone_balanced_def sample_zone_def)
  then show ?thesis
    using kswapd_sleep_inverted [of 1 sample_state "[0]" "wm roomy_env" 0, OF zero_less_one p] by simp
qed

lemma roomy_pass:
  assumes "zone_at s 0 = sample_zone"
  shows "\<exists>b' t. balance_pass roomy_env [0] 1 b s = Some (None, b', t)"
proof -
  have ps: "rev [0 ..< Suc DEF_PRIORITY] = DEF_PRIORITY # rev [0 ..< DEF_PRIORITY]" by simp
  have low: "\<not> inactive_anon_is_low roomy_env 0 s" for s
    by (simp add: inactive_anon_is_low_def roomy_defs)
  have z: "zone_at (count_vm_events E PAGEOUTRUN 1 s) 0 = sample_zone" for E
    using assms by (simp add: count_vm_events_def zone_at_def)
  have zone: "populated_zone sample_zone" "\<not> z_all_unreclaimable sample_zone" "z_watermark sample_zone = (\<lambda>_. 0)"
    by (simp_all add: populated_zone_def sample_zone_def)
  have "DEF_PRIORITY \<noteq> 0" by (simp add: DEF_PRIORITY_def)
  with roomy_watermark [OF z, of 0] roomy_watermark [OF z, of 1] show ?thesis
    by (auto simp: balance_pass_def ps balance_priority_def low assms zone Let_def balanced_enough_def)
qed

theorem balance_pgdat_confirms_witness:
  "\<exists>cz L t. balance_pgdat roomy_env [0] 1 0 \<lparr>shrinker_writer = False, shrinker_list = []\<rparr> sample_state
     = Some (1, cz, L, t) \<and> confirmed roomy_env t 0"
proof -
  have z: "zone_at sample_state 0 = sample_zone" by (simp add: zone_at_def sample_state_def)
  have "\<exists>b' t. balance_again roomy_env [0] 1 b sample_state = Some (1, b', t)" for b
    using roomy_pass [OF z, of b] by (subst balance_again.simps) auto
  then obtain b' t where "balance_again roomy_env [0] 1 \<lparr>b_end_zone = 0, b_classzone = 0, b_priority = 0,
      b_all_ok = False, b_balanced = 0, b_under_min = False, b_total = 0,
      b_sc = new_request GFP_KERNEL False (2 ^ 32 - 1) False (vm_swappiness roomy_env) 1,
      b_slab = \<lparr>shrinker_writer = False, shrinker_list = []\<rparr>\<rparr> sample_state = Some (1, b', t)" by blast
  then obtain cz L t where r: "balance_pgdat roomy_env [0] 1 0 \<lparr>shrinker_writer = False, shrinker_list = []\<rparr> sample_state
      = Some (1, cz, L, t)" by (simp add: balance_pgdat_def Let_def)
  have "counts_ignore_flags (wm roomy_env)"
    by (simp add: counts_ignore_flags_def roomy_defs)
  from balance_pgdat_confirms [OF this r] r show ?thesis by auto
qed
end
