(* ===== verification/Mchain.thy ===== *)
theory Mchain
  imports Swap
begin

text \<open>
  The system calls of \<open>Linux/mchain.c\<close>: creating a memory chain, linking the pages of an
  address range to it, anchoring a page, breaking a chain and releasing it, with the user
  side constants of \<open>Linux/mchain.h\<close>. \<open>tsk\<close> is the calling task. A system call returns its result
  and the new state; the loops over addresses run on 32-bit words and are partial.
\<close>

section \<open>Addresses\<close>

definition PAGE_SIZE :: "kenv \<Rightarrow> ulong" where
  "PAGE_SIZE E = 2 ^ PAGE_SHIFT E"

definition PAGE_MASK :: "kenv \<Rightarrow> ulong" where
  "PAGE_MASK E = NOT (PAGE_SIZE E - 1)"

definition PAGE_ALIGN :: "kenv \<Rightarrow> ulong \<Rightarrow> ulong" where
  "PAGE_ALIGN E a = (a + PAGE_SIZE E - 1) AND PAGE_MASK E"

definition is_stack_guard_page :: "kenv \<Rightarrow> vm_area \<Rightarrow> ulong \<Rightarrow> bool" where
  "is_stack_guard_page E vma addr \<longleftrightarrow>
     vm_flags vma AND VM_GROWSDOWN E \<noteq> 0 \<and> vm_start vma = addr
     \<and> \<not> vma_stack_continue E (vm_prev vma) addr"

section \<open>Collections\<close>

definition mcc_at :: "kstate \<Rightarrow> mcc_ptr \<Rightarrow> memory_chain_collection option" where
  "mcc_at s m = k_mccs s m"

definition sys_new_mem_chain :: "kenv \<Rightarrow> task_ptr \<Rightarrow> kstate \<Rightarrow> (int \<times> kstate) option" where
  "sys_new_mem_chain E tsk s = do {
     s \<leftarrow> (if k_task_mcc s tsk = None then k__init_mcc E tsk s else Some s);
     mcc \<leftarrow> k_task_mcc s tsk;
     mcc_at s mcc;
     s \<leftarrow> spin_lock (MccLock mcc) s;
     r \<leftarrow> mcc_at s mcc;
     (slot, s) \<leftarrow> (if mcc_count r < mcc_capacity r then do {
         slot \<leftarrow> k__find_free_slot (mcc_chains r) (mcc_capacity r);
         (chain, s) \<leftarrow> k__new_mem_chain E (nat slot) s;
         s \<leftarrow> (if 0 \<le> slot \<and> nat slot < length (mcc_chains r)
           then upd_mcc mcc (\<lambda>r. r\<lparr>mcc_chains := (mcc_chains r)[nat slot := Some chain]\<rparr>) s
           else None);
         s \<leftarrow> upd_mcc mcc (\<lambda>r. r\<lparr>mcc_count := mcc_count r + 1\<rparr>) s;
         Some (slot, s)
       } else Some (- 2, s));
     s \<leftarrow> spin_unlock (MccLock mcc) s;
     Some (slot, s)
   }"

definition sys_set_mem_chain_attr :: "nat \<Rightarrow> memory_chain_attr \<Rightarrow> kstate \<Rightarrow> (int \<times> kstate) option" where
  "sys_set_mem_chain_attr c attr s = Some (0, s)"

text \<open>
  The lookup every call on a chain begins with, under the collection's lock: \<open>c\<close> is in range
  and its slot is not empty.
\<close>

definition lookup_chain :: "nat \<Rightarrow> memory_chain_collection \<Rightarrow> chain_ptr option option" where
  "lookup_chain c r = (if c \<ge> mcc_capacity r then Some None else array_read (mcc_chains r) c)"

section \<open>Linking an address range\<close>

definition MAX_PAGE_RETRIEVAL_ATTEMPTS :: nat where
  "MAX_PAGE_RETRIEVAL_ATTEMPTS = 2"

function get_user_page_from ::
  "kenv \<Rightarrow> vm_area \<Rightarrow> ulong \<Rightarrow> nat \<Rightarrow> kstate \<Rightarrow> page_ptr option \<times> kstate" where
  "get_user_page_from E vma addr counter s = (case follow_page E vma addr s of
      (FollowPage p, s) \<Rightarrow> (Some p, s)
    | (FollowErr, s) \<Rightarrow> (None, s)
    | (FollowNull, s) \<Rightarrow>
        (let (ret, s) = handle_mm_fault E vma addr s
         in if ret AND VM_FAULT_ERROR E \<noteq> 0 \<or> ret AND VM_FAULT_RETRY E \<noteq> 0 then (None, s)
         else if counter + 1 \<ge> MAX_PAGE_RETRIEVAL_ATTEMPTS then (None, s)
         else get_user_page_from E vma addr (counter + 1) s))"
  by pat_completeness auto
termination
  by (relation "measure (\<lambda>(E, vma, addr, counter, s). MAX_PAGE_RETRIEVAL_ATTEMPTS - counter)") auto

declare get_user_page_from.simps [simp del]

definition k__get_user_page :: "kenv \<Rightarrow> vm_area \<Rightarrow> ulong \<Rightarrow> kstate \<Rightarrow> page_ptr option \<times> kstate" where
  "k__get_user_page E vma addr s = get_user_page_from E vma addr 0 s"

text \<open>
  The body of the loop of \<open>__mlink_vma_pages_range\<close> for a page that is present. The two values
  it reads under the locks (\<open>lru\<close>, \<open>is_active\<close>) are used in disabled code only.
\<close>

definition mlink_page ::
  "kenv \<Rightarrow> chain_ptr \<Rightarrow> ulong \<Rightarrow> ulong \<Rightarrow> page_ptr \<Rightarrow> kstate \<Rightarrow> kstate option" where
  "mlink_page E chain addr anchor page s = do {
     let z = page_zone E page;
     s \<leftarrow> spin_lock (LinkLock page) s;
     s \<leftarrow> spin_lock (LruLock z) s;
     (victim, s) \<leftarrow> k__link_page E chain page s;
     s \<leftarrow> (if addr = anchor then do {
         s \<leftarrow> mlock_vma_page E page s;
         upd_chain chain (\<lambda>ch. ch\<lparr>mc_anchor := Some page\<rparr>) s
       } else Some s);
     s \<leftarrow> spin_unlock (LruLock z) s;
     s \<leftarrow> spin_unlock (LinkLock page) s;
     mark_page_accessed E page s
   }"

partial_function (option) mlink_loop ::
  "kenv \<Rightarrow> chain_ptr \<Rightarrow> vm_area \<Rightarrow> ulong \<Rightarrow> ulong \<Rightarrow> ulong \<Rightarrow> int \<Rightarrow> kstate \<Rightarrow> (int \<times> kstate) option" where
  "mlink_loop E chain vma end' anchor addr nr_linked s =
     (if addr < end' then
        (case k__get_user_page E vma addr s of
           (Some page, s) \<Rightarrow> Option.bind (mlink_page E chain addr anchor page s)
             (\<lambda>s. mlink_loop E chain vma end' anchor (addr + PAGE_SIZE E) (nr_linked + 1) s)
         | (None, s) \<Rightarrow> mlink_loop E chain vma end' anchor (addr + PAGE_SIZE E) nr_linked s)
      else Some (nr_linked, s))"

definition k__mlink_vma_pages_range ::
  "kenv \<Rightarrow> chain_ptr \<Rightarrow> vm_area \<Rightarrow> ulong \<Rightarrow> ulong \<Rightarrow> ulong \<Rightarrow> kstate \<Rightarrow> (int \<times> kstate) option" where
  "k__mlink_vma_pages_range E chain vma start end' anchor s = do {
     s \<leftarrow> guardK (\<not> (start < vm_start vma \<or> end' > vm_end vma)) s;
     let start = (if is_stack_guard_page E vma start then start + PAGE_SIZE E else start);
     mlink_loop E chain vma end' anchor start 0 s
   }"

text \<open>The loop over the areas; \<open>vmas\<close> is the current area with its successors.\<close>

partial_function (option) do_mlink_loop ::
  "kenv \<Rightarrow> chain_ptr \<Rightarrow> ulong \<Rightarrow> ulong \<Rightarrow> ulong \<Rightarrow> vm_area list \<Rightarrow> int \<Rightarrow> kstate \<Rightarrow> (int \<times> kstate) option" where
  "do_mlink_loop E chain end' anchor a vmas r s =
     (if a < end' then
        (case vmas of [] \<Rightarrow> None
         | v # vs \<Rightarrow> (case (if a \<ge> vm_end v then vs else v # vs) of
             [] \<Rightarrow> Some (- 1, s)
           | v # vs \<Rightarrow>
               (if vm_start v \<ge> end' then Some (- 1, s)
                else (let e = (if end' < vm_end v then end' else vm_end v);
                          a = (if a < vm_start v then vm_start v else a)
                      in Option.bind (k__mlink_vma_pages_range E chain v a e anchor s)
                           (\<lambda>(r, s). do_mlink_loop E chain end' anchor e (v # vs) r s)))))
      else Some (r, s))"

definition do_mlink_pages ::
  "kenv \<Rightarrow> chain_ptr \<Rightarrow> ulong \<Rightarrow> ulong \<Rightarrow> ulong \<Rightarrow> kstate \<Rightarrow> (int \<times> kstate) option" where
  "do_mlink_pages E chain start len anchor s =
     (let end' = start + len in case find_vma E start of
        [] \<Rightarrow> Some (- 1, s)
      | v # vs \<Rightarrow> if vm_start v \<ge> end' then Some (- 1, s)
          else do_mlink_loop E chain end' anchor start (v # vs) (- 1) s)"

definition sys_link_addr_rng ::
  "kenv \<Rightarrow> task_ptr \<Rightarrow> nat \<Rightarrow> ulong \<Rightarrow> ulong \<Rightarrow> kstate \<Rightarrow> (int \<times> kstate) option" where
  "sys_link_addr_rng E tsk c start len s = (case k_task_mcc s tsk of
      None \<Rightarrow> Some (- 1, s)
    | Some mcc \<Rightarrow> do {
        mcc_at s mcc;
        s \<leftarrow> spin_lock (MccLock mcc) s;
        r \<leftarrow> mcc_at s mcc;
        chain \<leftarrow> lookup_chain c r;
        (case chain of
           None \<Rightarrow> do { s \<leftarrow> spin_unlock (MccLock mcc) s; Some (- 1, s) }
         | Some chain \<Rightarrow> do {
             let len = PAGE_ALIGN E (len + (start AND NOT (PAGE_MASK E)));
             let start = start AND PAGE_MASK E;
             s \<leftarrow> spin_unlock (MccLock mcc) s;
             do_mlink_pages E chain start len 0 s
           })
      })"

definition sys_anchor :: "kenv \<Rightarrow> task_ptr \<Rightarrow> nat \<Rightarrow> ulong \<Rightarrow> kstate \<Rightarrow> (int \<times> kstate) option" where
  "sys_anchor E tsk c addr s = (case k_task_mcc s tsk of
      None \<Rightarrow> Some (- 1, s)
    | Some mcc \<Rightarrow> do {
        mcc_at s mcc;
        s \<leftarrow> spin_lock (MccLock mcc) s;
        r \<leftarrow> mcc_at s mcc;
        chain \<leftarrow> lookup_chain c r;
        (case chain of
           None \<Rightarrow> do { s \<leftarrow> spin_unlock (MccLock mcc) s; Some (- 1, s) }
         | Some chain \<Rightarrow> do {
             let len = PAGE_ALIGN E (PAGE_SIZE E + (addr AND NOT (PAGE_MASK E)));
             let addr = addr AND PAGE_MASK E;
             s \<leftarrow> spin_unlock (MccLock mcc) s;
             (error, s) \<leftarrow> do_mlink_pages E chain addr len addr s;
             Some (0, s)
           })
      })"

definition sys_unlink_addr_rng :: "nat \<Rightarrow> ulong \<Rightarrow> ulong \<Rightarrow> kstate \<Rightarrow> (int \<times> kstate) option" where
  "sys_unlink_addr_rng c start len s = Some (0, s)"

section \<open>Breaking and releasing a chain\<close>

definition sys_brk_mem_chain :: "kenv \<Rightarrow> task_ptr \<Rightarrow> nat \<Rightarrow> kstate \<Rightarrow> (int \<times> kstate) option" where
  "sys_brk_mem_chain E tsk c s = (case k_task_mcc s tsk of
      None \<Rightarrow> Some (- 1, s)
    | Some mcc \<Rightarrow> do {
        mcc_at s mcc;
        s \<leftarrow> spin_lock (MccLock mcc) s;
        r \<leftarrow> mcc_at s mcc;
        chain \<leftarrow> lookup_chain c r;
        (case chain of
           None \<Rightarrow> do { s \<leftarrow> spin_unlock (MccLock mcc) s; Some (- 1, s) }
         | Some chain \<Rightarrow> do {
             s \<leftarrow> spin_lock_chain (Some chain) s;
             s \<leftarrow> k__unlink_chain E chain s;
             s \<leftarrow> spin_unlock_chain (Some chain) s;
             s \<leftarrow> spin_unlock (MccLock mcc) s;
             Some (0, s)
           })
      })"

text \<open>Attributes live in the chain record here: freeing them has no further effect.\<close>

definition sys_rls_mem_chain :: "kenv \<Rightarrow> task_ptr \<Rightarrow> nat \<Rightarrow> kstate \<Rightarrow> (int \<times> kstate) option" where
  "sys_rls_mem_chain E tsk c s = (case k_task_mcc s tsk of
      None \<Rightarrow> Some (- 1, s)
    | Some mcc \<Rightarrow> do {
        mcc_at s mcc;
        s \<leftarrow> spin_lock (MccLock mcc) s;
        r \<leftarrow> mcc_at s mcc;
        chain \<leftarrow> lookup_chain c r;
        (case chain of
           None \<Rightarrow> do { s \<leftarrow> spin_unlock (MccLock mcc) s; Some (- 1, s) }
         | Some chain \<Rightarrow> do {
             s \<leftarrow> spin_lock_chain (Some chain) s;
             s \<leftarrow> k__unlink_chain E chain s;
             s \<leftarrow> spin_unlock_chain (Some chain) s;
             s \<leftarrow> kfree_chain chain s;
             s \<leftarrow> upd_mcc mcc (\<lambda>r. r\<lparr>mcc_chains := (mcc_chains r)[c := None]\<rparr>) s;
             s \<leftarrow> upd_mcc mcc (\<lambda>r. r\<lparr>mcc_count := mcc_count r - 1\<rparr>) s;
             s \<leftarrow> spin_unlock (MccLock mcc) s;
             Some (0, s)
           })
      })"

section \<open>The user side\<close>

definition chain_errors :: "string list" where
  "chain_errors = [''Success'', ''Invalid chain descriptor'', ''Too many open chains'',
     ''Invalid address range'']"

definition mchain_strerror :: "nat \<Rightarrow> string option" where
  "mchain_strerror errno = array_read chain_errors errno"

section \<open>What the memory manager does between the calls\<close>

text \<open>
  While a page is looked up or faulted in, the rest of the memory manager runs: it does things
  that have nothing to do with chains, it sets and clears referenced bits and marks pages as
  accessed, and it frees pages. \<open>page_step\<close> is one such step; none of them is taken with a
  lock held.
\<close>

inductive page_step :: "kenv \<Rightarrow> kstate \<Rightarrow> kstate \<Rightarrow> bool" for E where
  other: "chain_quiet s t \<Longrightarrow> page_step E s t"
| accessed: "k_held s = {} \<Longrightarrow> mark_page_accessed E p s = Some t \<Longrightarrow> page_step E s t"
| set_ref: "k_held s = {} \<Longrightarrow> SetPageReferenced p s = Some t \<Longrightarrow> page_step E s t"
| clear_ref: "k_held s = {} \<Longrightarrow> ClearPageReferenced p s = Some t \<Longrightarrow> page_step E s t"
| test_ref: "k_held s = {} \<Longrightarrow> TestClearPageReferenced p s = Some (v, t) \<Longrightarrow> page_step E s t"
| free: "k_held s = {} \<Longrightarrow> free_hot_cold_page E p cold s = Some t \<Longrightarrow> page_step E s t"
| free_block: "k_held s = {} \<Longrightarrow> k__free_pages_ok E p order s = Some t \<Longrightarrow> page_step E s t"

inductive_cases page_stepE: "page_step E s t"

text \<open>Page lookup and page faults (\<open>mm/memory.c\<close>) consist of such steps.\<close>

definition fault_ok :: "kenv \<Rightarrow> bool" where
  "fault_ok E \<longleftrightarrow>
     (\<forall>v a s r t. follow_page E v a s = (r, t) \<longrightarrow> k_held s = {} \<longrightarrow> (page_step E)\<^sup>*\<^sup>* s t)
   \<and> (\<forall>v a s r t. handle_mm_fault E v a s = (r, t) \<longrightarrow> k_held s = {} \<longrightarrow> (page_step E)\<^sup>*\<^sup>* s t)"

definition page_inv :: "kenv \<Rightarrow> kstate \<Rightarrow> kstate \<Rightarrow> bool" where
  "page_inv E s0 s \<longleftrightarrow> mlock_quiet E \<and> chains_ok (view s) \<and> k_held s = {} \<and> same_rest s0 s
     \<and> v_ids (view s) = v_ids (view s0)"

lemma v_marked_ids: "v_marked p v w \<Longrightarrow> chains_ok v \<Longrightarrow> v_ids w = v_ids v"
proof
  fix c assume m: "v_marked p v w" and ok: "chains_ok v"
  show "v_ids w c = v_ids v c"
  proof (cases "v_chain_of v p = Some c")
    case True
    with chains_ok_ex [OF ok True] m obtain ch r where "v_chains v c = Some ch"
      "v_chains w c = Some (ch\<lparr>mc_ref_counter := r, mc_delegate := Some p\<rparr>)"
      unfolding v_marked_def by blast
    then show ?thesis by (simp add: v_ids_def)
  qed (use m in \<open>auto simp: v_marked_def v_ids_def\<close>)
qed

text \<open>\<open>page_step\<close> keeps \<open>page_inv\<close>.\<close>

lemma page_invI:
  assumes "page_inv E s0 s" and "chains_ok (view t)" and "same_rest s t" and "v_ids (view t) = v_ids (view s)"
  shows "page_inv E s0 t"
  using assms by (auto simp: page_inv_def same_rest_def)

lemma page_inv_quiet: "page_inv E s0 s \<Longrightarrow> chain_quiet s t \<Longrightarrow> page_inv E s0 t"
  by (auto simp: chain_quiet_def same_rest_def page_inv_def)

lemma page_inv_refs:
  assumes "page_inv E s0 s"
    and "SetPageReferenced p s = Some t \<or> ClearPageReferenced p s = Some t
      \<or> TestClearPageReferenced p s = Some (b, t)"
  shows "page_inv E s0 t"
proof -
  from assms(1) have ok: "chains_ok (view s)" and "k_held s = {}"
    by (auto simp: page_inv_def)
  then have free: "link_free p s"
    by (intro link_free_view) auto
  have "chains_ok (view t) \<and> same_rest s t \<and> v_ids (view t) = v_ids (view s)"
    using assms(2)
  proof (elim disjE)
    assume "SetPageReferenced p s = Some t"
    with SetPageReferenced_view [OF _ free] chains_ok_set [OF ok, of p] show ?thesis
      by simp
  next
    assume "ClearPageReferenced p s = Some t"
    with ClearPageReferenced_view [OF _ free] chains_ok_clr [OF ok, of p] ok show ?thesis
      by (auto split: if_splits)
  next
    assume "TestClearPageReferenced p s = Some (b, t)"
    with chains_ok_clr [OF ok, of p] ok show ?thesis
      unfolding TestClearPageReferenced_eq [OF free]
      by (auto simp: same_rest_def Let_def split: if_splits)
  qed
  with assms(1) show ?thesis
    by (auto intro: page_invI)
qed

lemma page_inv_freed:
  "page_inv E s0 s \<Longrightarrow> chain_freed P s t \<Longrightarrow> page_inv E s0 t"
  by (erule page_invI) (auto simp: chain_freed_def)

lemma page_inv_accessed:
  assumes "page_inv E s0 s" and "mark_page_accessed E p s = Some t"
  shows "page_inv E s0 t"
  using mark_page_accessed_view [OF assms(2)] assms(1)
  by (intro page_invI [OF assms(1)]) (auto simp: page_inv_def dest: v_marked_ids)

lemma page_step_inv: "page_step E s t \<Longrightarrow> page_inv E s0 s \<Longrightarrow> page_inv E s0 t"
proof (induction rule: page_step.induct)
  case (free s p cold t)
  with free_hot_cold_page_freed [of E p cold s t] obtain P where "chain_freed P s t"
    by (auto simp: page_inv_def)
  with free.prems show ?case by (rule page_inv_freed)
next
  case (free_block s p order t)
  with free_pages_ok_freed [of E p order s t] obtain P where "chain_freed P s t"
    by (auto simp: page_inv_def)
  with free_block.prems show ?case by (rule page_inv_freed)
qed (auto intro: page_inv_quiet page_inv_refs page_inv_accessed)

interpretation pages: stable_system "page_step E" "page_inv E s0"
  by unfold_locales (rule page_step_inv)

text \<open>So do the page lookup of the system calls and the step that links one page.\<close>

lemma page_inv_refl: "mlock_quiet E \<Longrightarrow> chains_ok (view s) \<Longrightarrow> k_held s = {} \<Longrightarrow> page_inv E s s"
  by (simp add: page_inv_def)

lemma fault_okD:
  assumes "fault_ok E" and "page_inv E s0 s"
  shows "follow_page E v a s = (r, t) \<Longrightarrow> page_inv E s0 t"
    "handle_mm_fault E v a s = (x, t) \<Longrightarrow> page_inv E s0 t"
  using assms pages.steps_inv [of E s t s0] by (auto simp: fault_ok_def page_inv_def)

lemma get_user_page_from_inv:
  assumes "get_user_page_from E v a n s = (r, t)" and "fault_ok E" and "page_inv E s0 s"
  shows "page_inv E s0 t"
  using assms
proof (induction E v a n s rule: get_user_page_from.induct)
  case (1 E v a n s)
  obtain f u where u: "follow_page E v a s = (f, u)"
    by (metis surj_pair)
  obtain x w where w: "handle_mm_fault E v a u = (x, w)"
    by (metis surj_pair)
  have "page_inv E s0 u" by (rule fault_okD(1) [OF "1.prems"(2,3) u])
  moreover from this have "page_inv E s0 w" by (rule fault_okD(2) [OF "1.prems"(2) _ w])
  moreover have "get_user_page_from E v a n s = (case f of FollowPage p \<Rightarrow> (Some p, u)
      | FollowErr \<Rightarrow> (None, u)
      | FollowNull \<Rightarrow> (if x AND VM_FAULT_ERROR E \<noteq> 0 \<or> x AND VM_FAULT_RETRY E \<noteq> 0 \<or>
            n + 1 \<ge> MAX_PAGE_RETRIEVAL_ATTEMPTS then (None, w)
          else get_user_page_from E v a (n + 1) w))"
    by (subst get_user_page_from.simps) (simp add: u w split: follow_result.split)
  moreover note "1.IH" [OF u [symmetric] _ w [symmetric]] "1.prems"
  ultimately show ?case
    by (auto split: follow_result.splits if_splits)
qed

lemma get_user_page_inv:
  "k__get_user_page E v a s = (r, t) \<Longrightarrow> fault_ok E \<Longrightarrow> page_inv E s0 s \<Longrightarrow> page_inv E s0 t"
  unfolding k__get_user_page_def by (rule get_user_page_from_inv)

lemma upd_chain_lru: "upd_chain c f s = Some t \<Longrightarrow> lru_same s t"
  by (rule lru_same_pages) (use upd_chain_cases(4,5) in auto)

lemma link_page_lru:
  assumes "k__link_page E c p s = Some (r, t)" and "chains_ok (view s)"
  shows "lru_same s t"
proof (cases "pg_chain (page_at s p)")
  case (Some d)
  with assms(1) link_page_foreign [OF Some, of c E] show ?thesis
    by (cases "d = c") (auto simp: k__link_page_def)
next
  case None
  from assms(1) None obtain ch where ch: "chain_at s c = Some ch"
    by (auto simp: k__link_page_def split: Option.bind_splits)
  with assms(2) have att: "mc_attributes ch = None"
    by (auto simp: chain_at_def intro: chains_okD(7) [of "view s" c])
  let ?s0 = "set_page_chain p (Some c) s"
  from assms(1) None ch att obtain s1 s2 where
    1: "upd_chain c (\<lambda>ch. ch\<lparr>mc_links := p # mc_links ch\<rparr>) ?s0 = Some s1"
    and 2: "upd_chain c (\<lambda>ch. ch\<lparr>mc_nr_links := mc_nr_links ch + 1\<rparr>) s1 = Some s2"
    and 3: "(if k__PageReferenced p s2 then add_ref c 1 s2 else Some s2) = Some t"
    by (auto simp: k__link_page_def MEMORY_CHAIN_IS_FULL_def link_list_add_def Let_def
        split: Option.bind_splits)
  have "lru_same s2 t"
    using 3 by (auto simp: add_ref_def intro: upd_chain_lru split: if_splits)
  moreover have "lru_same s s1"
    using upd_chain_lru [OF 1] lru_same_trans [of s ?s0 s1] by simp
  ultimately show ?thesis
    using upd_chain_lru [OF 2] by (blast intro: lru_same_trans)
qed

text \<open>
  Linking one page, as the loop does it: the page is on the chain afterwards, an anchor address
  makes it the anchor, and no other page changes its chain.
\<close>

definition page_linked :: "chain_ptr \<Rightarrow> page_ptr \<Rightarrow> kstate \<Rightarrow> kstate \<Rightarrow> bool" where
  "page_linked c p s t \<longleftrightarrow> pg_chain (page_at s p) \<in> {None, Some c}
     \<and> (\<forall>q. pg_chain (page_at t q) = (if q = p then Some c else pg_chain (page_at s q)))"

lemma link_locked_cases:
  assumes "mlink_page E c a anchor p s = Some t"
  obtains r u v w where
    "LinkLock p \<notin> k_held s" "LruLock (page_zone E p) \<notin> k_held s"
    "k__link_page E c p (s\<lparr>k_held := insert (LruLock (page_zone E p)) (insert (LinkLock p) (k_held s))\<rparr>) = Some (r, u)"
    "(if a = anchor then Option.bind (mlock_vma_page E p u) (upd_chain c (\<lambda>ch. ch\<lparr>mc_anchor := Some p\<rparr>))
      else Some u) = Some v"
    "Option.bind (spin_unlock (LruLock (page_zone E p)) v) (spin_unlock (LinkLock p)) = Some w"
    "mark_page_accessed E p w = Some t"
  using assms
  by (auto simp: mlink_page_def Let_def split: Option.bind_splits simp del: spin_unlock_eq_Some)

lemma links_of_member:
  "chains_ok v \<Longrightarrow> v_chain_of v p = Some c \<Longrightarrow> p \<in> set (links_of v c)"
  by (simp add: links_of_iff)

lemma mlink_page_spec:
  assumes m: "mlink_page E c a anchor p s = Some t" and inv: "page_inv E s0 s"
  shows "page_inv E s0 t \<and> page_linked c p s t
    \<and> (a = anchor \<longrightarrow> (\<exists>ch. k_chains t c = Some ch \<and> mc_anchor ch = Some p))"
  using m
proof (rule link_locked_cases)
  fix r u v w
  let ?s1 = "s\<lparr>k_held := insert (LruLock (page_zone E p)) (insert (LinkLock p) (k_held s))\<rparr>"
  assume link: "k__link_page E c p ?s1 = Some (r, u)"
    and anchor: "(if a = anchor then Option.bind (mlock_vma_page E p u)
      (upd_chain c (\<lambda>ch. ch\<lparr>mc_anchor := Some p\<rparr>)) else Some u) = Some v"
    and unlock: "Option.bind (spin_unlock (LruLock (page_zone E p)) v) (spin_unlock (LinkLock p)) = Some w"
    and mark: "mark_page_accessed E p w = Some t"
  from inv have ok: "chains_ok (view s)" and held: "k_held s = {}" and mq: "mlock_quiet E"
    by (auto simp: page_inv_def)
  have "chains_ok (view ?s1)" using ok by simp
  note j = link_page_join [OF link this]
  have oku: "chains_ok (view u)" and cu: "v_chain_of (view u) q = (if q = p then Some c else pg_chain (page_at s q))"
    and idu: "v_ids (view u) = v_ids (view s)" and ru: "same_rest ?s1 u" for q
    using j chains.join_spec [of "view ?s1" c p q] ok by (auto simp: chains.join_def)
  have pu: "v_chain_of (view u) p = Some c"
    by (simp only: cu if_True refl)
  have v: "chains_ok (view v) \<and> v_chain_of (view v) = v_chain_of (view u) \<and> v_ids (view v) = v_ids (view u)
      \<and> same_rest u v \<and> (a = anchor \<longrightarrow> (\<exists>ch. v_chains (view v) c = Some ch \<and> mc_anchor ch = Some p))"
  proof (cases "a = anchor")
    case True
    with anchor obtain x where x: "mlock_vma_page E p u = Some x"
      "upd_chain c (\<lambda>ch. ch\<lparr>mc_anchor := Some p\<rparr>) x = Some v"
      by (auto split: Option.bind_splits)
    from x(1) mq have "chain_quiet u x" by (simp add: mlock_quiet_def)
    with upd_chain_cases(1-3) [OF x(2)] have "view v = v_anchor c p (view u)" "same_rest u v"
      and live: "k_chains u c \<noteq> None"
      by (auto simp: chain_quiet_def same_rest_def v_anchor_def simp flip: view_sel(1))
    moreover from this(1) have "chains_ok (view v)"
      using chains_ok_anchor [OF oku] links_of_member [OF oku pu] by simp
    ultimately show ?thesis
      by (auto simp: v_anchor_def v_ids_upd)
  qed (use anchor oku in simp)
  have w: "view w = view v" "same_rest s w"
    using unlock v ru held by (auto simp: same_rest_def split: Option.bind_splits)
  have okw: "chains_ok (view w)" and hw: "LinkLock p \<notin> k_held w"
    using w v held by (auto simp: same_rest_def)
  note mk = mark_page_accessed_view [OF mark okw hw]
  have "page_inv E s0 t"
    by (rule page_invI [OF inv]) (use mk w v idu v_marked_ids okw same_rest_trans in \<open>auto simp del: view_sel\<close>)
  moreover have "page_linked c p s t"
    using mk w v cu j by (simp add: page_linked_def v_marked_def flip: view_sel(2))
  moreover have "\<exists>ch. k_chains t c = Some ch \<and> mc_anchor ch = Some p" if "a = anchor"
  proof -
    from v that obtain ch where ch: "v_chains (view w) c = Some ch" "mc_anchor ch = Some p"
      using w by auto
    have "v_chain_of (view w) p = Some c"
      using w v pu by simp
    with mk ch obtain r where "v_chains (view t) c = Some (ch\<lparr>mc_ref_counter := r, mc_delegate := Some p\<rparr>)"
      unfolding v_marked_def by blast
    with ch(2) show ?thesis by simp
  qed
  ultimately show ?thesis by blast
qed

section \<open>What the loops keep\<close>

lemma mlink_loop_inv:
  assumes "mlink_loop E c v e anchor a n s = Some (n', t)" and "fault_ok E" and "page_inv E s0 s"
  shows "page_inv E s0 t"
proof -
  have "fault_ok E \<longrightarrow> page_inv E s0 s \<longrightarrow> page_inv E s0 (snd (n', t))"
  proof (rule mlink_loop.raw_induct [where P = "\<lambda>E c v e anchor a n s x.
      fault_ok E \<longrightarrow> page_inv E s0 s \<longrightarrow> page_inv E s0 (snd x)", OF _ assms(1)], intro impI)
    fix loop E c v e anchor a n s x
    assume IH: "\<And>E c v e anchor a n s x. loop E c v e anchor a n s = Some x \<Longrightarrow>
        fault_ok E \<longrightarrow> page_inv E s0 s \<longrightarrow> page_inv E s0 (snd x)"
      and run: "(if a < e then case k__get_user_page E v a s of
          (None, s) \<Rightarrow> loop E c v e anchor (a + PAGE_SIZE E) n s
        | (Some p, s) \<Rightarrow> mlink_page E c a anchor p s \<bind> loop E c v e anchor (a + PAGE_SIZE E) (n + 1)
      else Some (n, s)) = Some (x :: int \<times> kstate)"
      and f: "fault_ok E" and s: "page_inv E s0 s"
    obtain p u where u: "k__get_user_page E v a s = (p, u)"
      by (metis surj_pair)
    have inv: "page_inv E s0 u"
      by (rule get_user_page_inv [OF u f s])
    show "page_inv E s0 (snd x)"
    proof (cases "a < e")
      case False
      with run s show ?thesis by auto
    next
      case True
      show ?thesis
      proof (cases p)
        case None
        with run u True have "loop E c v e anchor (a + PAGE_SIZE E) n u = Some x" by simp
        from IH [OF this] f inv show ?thesis by blast
      next
        case (Some q)
        with run u True obtain w where w: "mlink_page E c a anchor q u = Some w"
          "loop E c v e anchor (a + PAGE_SIZE E) (n + 1) w = Some x"
          by (auto elim: bind_eq_SomeE)
        with mlink_page_spec [OF w(1) inv] IH [OF w(2)] f show ?thesis by blast
      qed
    qed
  qed
  with assms show ?thesis by simp
qed

lemma mlink_range_inv:
  "k__mlink_vma_pages_range E c v a e anchor s = Some (n, t) \<Longrightarrow> fault_ok E \<Longrightarrow> page_inv E s0 s \<Longrightarrow>
     page_inv E s0 t"
  by (auto simp: k__mlink_vma_pages_range_def Let_def split: if_splits intro: mlink_loop_inv)

lemma do_mlink_loop_inv:
  assumes "do_mlink_loop E c e anchor a vmas n s = Some (n', t)" and "fault_ok E" and "page_inv E s0 s"
  shows "page_inv E s0 t"
proof -
  have "fault_ok E \<longrightarrow> page_inv E s0 s \<longrightarrow> page_inv E s0 (snd (n', t))"
  proof (rule do_mlink_loop.raw_induct [where P = "\<lambda>E c e anchor a vmas n s x.
      fault_ok E \<longrightarrow> page_inv E s0 s \<longrightarrow> page_inv E s0 (snd x)", OF _ assms(1)], intro impI)
    fix loop E c e anchor a vmas n s x
    assume IH: "\<And>E c e anchor a vmas n s x. loop E c e anchor a vmas n s = Some x \<Longrightarrow>
        fault_ok E \<longrightarrow> page_inv E s0 s \<longrightarrow> page_inv E s0 (snd x)"
      and run: "(if a < e then (case vmas of [] \<Rightarrow> None
         | v # vs \<Rightarrow> (case (if a \<ge> vm_end v then vs else v # vs) of
             [] \<Rightarrow> Some (- 1, s)
           | v # vs \<Rightarrow>
               (if vm_start v \<ge> e then Some (- 1, s)
                else (let e' = (if e < vm_end v then e else vm_end v);
                          a = (if a < vm_start v then vm_start v else a)
                      in Option.bind (k__mlink_vma_pages_range E c v a e' anchor s)
                           (\<lambda>(r, s). loop E c e anchor e' (v # vs) r s)))))
        else Some (n, s)) = Some (x :: int \<times> kstate)"
      and f: "fault_ok E" and s: "page_inv E s0 s"
    from run consider "snd x = s"
      | v vs a' e' r u where "k__mlink_vma_pages_range E c v a' e' anchor s = Some (r, u)"
        "loop E c e anchor e' (v # vs) r u = Some x"
      by (auto simp: Let_def split: if_splits list.splits Option.bind_splits)
    then show "page_inv E s0 (snd x)"
    proof cases
      case (2 v vs a' e' r u)
      with mlink_range_inv [OF 2(1) f s] IH [OF 2(2)] f show ?thesis by simp
    qed (use s in simp)
  qed
  with assms show ?thesis by simp
qed

lemma do_mlink_pages_inv:
  "do_mlink_pages E c a len anchor s = Some (n, t) \<Longrightarrow> fault_ok E \<Longrightarrow> page_inv E s0 s \<Longrightarrow> page_inv E s0 t"
  by (auto simp: do_mlink_pages_def Let_def split: list.splits if_splits intro: do_mlink_loop_inv)

end
