(* ===== verification/Mhint.thy ===== *)
theory Mhint
  imports Mchain
begin

text \<open>
  \<open>Linux/mhint.c\<close>: the \<open>hate\<close> system call, which moves the pages of an address range that are on
  no memory chain to the inactive list of their kind, so that reclaim takes them first.
\<close>

datatype hate_lvl = DISLIKE | HATE

definition k__hate_page :: "kenv \<Rightarrow> page_ptr \<Rightarrow> hate_lvl \<Rightarrow> kstate \<Rightarrow> kstate option" where
  "k__hate_page E page hate s =
     (if hate = DISLIKE then
        (if PageLRU page s then do {
           let z = page_zone E page;
           s \<leftarrow> spin_lock (LruLock z) s;
           let lru = page_lru_base_type page s;
           s \<leftarrow> del_page_from_lru E z page s;
           let s = ClearPageActive page s;
           let s = k__ClearPageReferenced page s;
           let s = add_page_to_lru_list E z page lru s;
           spin_unlock (LruLock z) s
         } else Some s)
      else put_page E page s)"

partial_function (option) hate_loop ::
  "kenv \<Rightarrow> vm_area \<Rightarrow> ulong \<Rightarrow> hate_lvl \<Rightarrow> ulong \<Rightarrow> kstate \<Rightarrow> kstate option" where
  "hate_loop E vma end' intensity addr s =
     (if addr < end' then
        (case k__get_user_page E vma addr s of
           (Some page, s) \<Rightarrow> Option.bind
             (if PageLinked page s then Some s else k__hate_page E page intensity s)
             (\<lambda>s. hate_loop E vma end' intensity (addr + PAGE_SIZE E) s)
         | (None, s) \<Rightarrow> hate_loop E vma end' intensity (addr + PAGE_SIZE E) s)
      else Some s)"

definition k__hate_vma_pages_range ::
  "kenv \<Rightarrow> vm_area \<Rightarrow> ulong \<Rightarrow> ulong \<Rightarrow> hate_lvl \<Rightarrow> kstate \<Rightarrow> (int \<times> kstate) option" where
  "k__hate_vma_pages_range E vma start end' intensity s = do {
     s \<leftarrow> guardK (\<not> (start < vm_start vma \<or> end' > vm_end vma)) s;
     let start = (if is_stack_guard_page E vma start then start + PAGE_SIZE E else start);
     s \<leftarrow> hate_loop E vma end' intensity start s;
     Some (0, s)
   }"

partial_function (option) sys_hate_loop ::
  "kenv \<Rightarrow> ulong \<Rightarrow> ulong \<Rightarrow> vm_area list \<Rightarrow> int \<Rightarrow> kstate \<Rightarrow> (int \<times> kstate) option" where
  "sys_hate_loop E end' a vmas r s =
     (if a < end' then
        (case vmas of [] \<Rightarrow> None
         | v # vs \<Rightarrow> (case (if a \<ge> vm_end v then vs else v # vs) of
             [] \<Rightarrow> Some (- 1, s)
           | v # vs \<Rightarrow>
               (if vm_start v \<ge> end' then Some (- 1, s)
                else (let e = (if end' < vm_end v then end' else vm_end v);
                          a = (if a < vm_start v then vm_start v else a)
                      in Option.bind (k__hate_vma_pages_range E v a e DISLIKE s)
                           (\<lambda>(r, s). sys_hate_loop E end' e (v # vs) r s)))))
      else Some (r, s))"

text \<open>\<open>end\<close> is computed from the arguments as given, before \<open>start\<close> is rounded down.\<close>

definition sys_hate :: "kenv \<Rightarrow> ulong \<Rightarrow> ulong \<Rightarrow> kstate \<Rightarrow> (int \<times> kstate) option" where
  "sys_hate E start len s =
     (let end' = start + len in case find_vma E start of
        [] \<Rightarrow> Some (- 1, s)
      | v # vs \<Rightarrow>
          (let start = start AND PAGE_MASK E
           in if vm_start v \<ge> end' then Some (- 1, s)
              else sys_hate_loop E end' start (v # vs) (- 1) s))"

section \<open>What hating a page does\<close>

text \<open>\<open>hate_locked\<close> is the part under the lock.\<close>

lemma hate_page_cases:
  assumes "k__hate_page E p DISLIKE s = Some t"
  shows "t = s \<or> LruLock (page_zone E p) \<notin> k_held s \<and> (\<exists>u. del_page_from_lru E (page_zone E p) p
      (s\<lparr>k_held := insert (LruLock (page_zone E p)) (k_held s)\<rparr>) = Some u
    \<and> spin_unlock (LruLock (page_zone E p)) (add_page_to_lru_list E (page_zone E p) p
      (page_lru_base_type p s) (k__ClearPageReferenced p (ClearPageActive p u))) = Some t)"
proof -
  have base: "page_lru_base_type p (s\<lparr>k_held := H\<rparr>) = page_lru_base_type p s" for H
    by (simp add: page_lru_base_type_def page_is_file_cache_def)
  show ?thesis
    using assms
    by (auto simp: k__hate_page_def Let_def base split: if_splits Option.bind_splits
        simp del: spin_unlock_eq_Some)
qed

lemma hate_page_view:
  assumes "k__hate_page E p DISLIKE s = Some t"
  shows "(view t = view s \<or> view t = v_set_ref p False (view s)) \<and> same_rest s t"
proof (cases "t = s")
  case False
  let ?l = "LruLock (page_zone E p)"
  from hate_page_cases [OF assms] False obtain u where free: "?l \<notin> k_held s"
    and u: "del_page_from_lru E (page_zone E p) p (s\<lparr>k_held := insert ?l (k_held s)\<rparr>) = Some u"
    and t: "spin_unlock ?l (add_page_to_lru_list E (page_zone E p) p
      (page_lru_base_type p s) (k__ClearPageReferenced p (ClearPageActive p u))) = Some t"
    by auto
  note qu = chain_quiet_rest [OF del_page_from_lru_quiet [OF u]]
  have qa: "chain_quiet x (add_page_to_lru_list E (page_zone E p) p l x)" for x l
    by (rule kframe)
  have "view t = v_set_ref p False (view s)"
    using t qu qa [of "k__ClearPageReferenced p (ClearPageActive p u)" "page_lru_base_type p s"]
    by (auto simp: chain_quiet_def)
  moreover have "same_rest s t"
    using t qu free qa [of "k__ClearPageReferenced p (ClearPageActive p u)" "page_lru_base_type p s"]
    by (auto simp: chain_quiet_def same_rest_def)
  ultimately show ?thesis by blast
qed simp

lemma hate_page_inv:
  assumes "k__hate_page E p DISLIKE s = Some t" and inv: "page_inv E s0 s"
  shows "page_inv E s0 t"
proof -
  have "chains_ok (view s)" using inv by (simp add: page_inv_def)
  with hate_page_view [OF assms(1)] chains_ok_drop_ref [of "view s" p] show ?thesis
    by (intro page_invI [OF inv]) auto
qed

lemma hate_loop_inv:
  assumes "hate_loop E v e DISLIKE a s = Some t" and "fault_ok E" and "page_inv E s0 s"
  shows "page_inv E s0 t"
proof -
  have "h = DISLIKE \<longrightarrow> fault_ok E \<longrightarrow> page_inv E s0 s \<longrightarrow> page_inv E s0 t"
    if run: "hate_loop E v e h a s = Some t" for h
  proof (rule hate_loop.raw_induct [where P = "\<lambda>E v e h a s t.
      h = DISLIKE \<longrightarrow> fault_ok E \<longrightarrow> page_inv E s0 s \<longrightarrow> page_inv E s0 t", OF _ run], intro impI)
    fix loop E v e h a s x
    assume IH: "\<And>E v e h a s x. loop E v e h a s = Some x \<Longrightarrow>
        h = DISLIKE \<longrightarrow> fault_ok E \<longrightarrow> page_inv E s0 s \<longrightarrow> page_inv E s0 x"
      and run: "(if a < e then case k__get_user_page E v a s of
          (None, s) \<Rightarrow> loop E v e h (a + PAGE_SIZE E) s
        | (Some p, s) \<Rightarrow> (if PageLinked p s then Some s else k__hate_page E p h s)
            \<bind> loop E v e h (a + PAGE_SIZE E)
      else Some s) = Some x"
      and h: "h = DISLIKE" and f: "fault_ok E" and s: "page_inv E s0 s"
    obtain p u where u: "k__get_user_page E v a s = (p, u)"
      by (metis surj_pair)
    have inv: "page_inv E s0 u"
      by (rule get_user_page_inv [OF u f s])
    show "page_inv E s0 x"
    proof (cases "a < e")
      case False
      with run s show ?thesis by auto
    next
      case True
      show ?thesis
      proof (cases p)
        case None
        with run u True have "loop E v e h (a + PAGE_SIZE E) u = Some x" by simp
        from IH [OF this] h f inv show ?thesis by blast
      next
        case (Some q)
        with run u True obtain w where w: "(if PageLinked q u then Some u else k__hate_page E q h u) = Some w"
          "loop E v e h (a + PAGE_SIZE E) w = Some x"
          by (auto elim: bind_eq_SomeE simp del: if_split)
        with inv h have "page_inv E s0 w"
          by (auto split: if_splits dest: hate_page_inv)
        with IH [OF w(2)] h f show ?thesis by blast
      qed
    qed
  qed
  from this [OF assms(1)] assms(2,3) show ?thesis by simp
qed

lemma hate_range_inv:
  "k__hate_vma_pages_range E v a e DISLIKE s = Some (n, t) \<Longrightarrow> fault_ok E \<Longrightarrow> page_inv E s0 s \<Longrightarrow>
     page_inv E s0 t"
  by (auto simp: k__hate_vma_pages_range_def Let_def split: if_splits Option.bind_splits
      intro: hate_loop_inv)

lemma sys_hate_loop_inv:
  assumes "sys_hate_loop E e a vmas n s = Some (n', t)" and "fault_ok E" and "page_inv E s0 s"
  shows "page_inv E s0 t"
proof -
  have "fault_ok E \<longrightarrow> page_inv E s0 s \<longrightarrow> page_inv E s0 (snd (n', t))"
  proof (rule sys_hate_loop.raw_induct [where P = "\<lambda>E e a vmas n s x.
      fault_ok E \<longrightarrow> page_inv E s0 s \<longrightarrow> page_inv E s0 (snd x)", OF _ assms(1)], intro impI)
    fix loop E e a vmas n s x
    assume IH: "\<And>E e a vmas n s x. loop E e a vmas n s = Some x \<Longrightarrow>
        fault_ok E \<longrightarrow> page_inv E s0 s \<longrightarrow> page_inv E s0 (snd x)"
      and run: "(if a < e then (case vmas of [] \<Rightarrow> None
         | v # vs \<Rightarrow> (case (if a \<ge> vm_end v then vs else v # vs) of
             [] \<Rightarrow> Some (- 1, s)
           | v # vs \<Rightarrow>
               (if vm_start v \<ge> e then Some (- 1, s)
                else (let e' = (if e < vm_end v then e else vm_end v);
                          a = (if a < vm_start v then vm_start v else a)
                      in Option.bind (k__hate_vma_pages_range E v a e' DISLIKE s)
                           (\<lambda>(r, s). loop E e e' (v # vs) r s)))))
        else Some (n, s)) = Some (x :: int \<times> kstate)"
      and f: "fault_ok E" and s: "page_inv E s0 s"
    from run consider "snd x = s"
      | v vs a' e' r u where "k__hate_vma_pages_range E v a' e' DISLIKE s = Some (r, u)"
        "loop E e e' (v # vs) r u = Some x"
      by (auto simp: Let_def split: if_splits list.splits Option.bind_splits)
    then show "page_inv E s0 (snd x)"
    proof cases
      case (2 v vs a' e' r u)
      with hate_range_inv [OF 2(1) f s] IH [OF 2(2)] f show ?thesis by simp
    qed (use s in simp)
  qed
  with assms show ?thesis by simp
qed

lemma sys_hate_inv:
  "sys_hate E a len s = Some (n, t) \<Longrightarrow> fault_ok E \<Longrightarrow> page_inv E s0 s \<Longrightarrow> page_inv E s0 t"
  by (auto simp: sys_hate_def Let_def split: list.splits if_splits intro: sys_hate_loop_inv)

text \<open>
  C25. Hating a page that is on a list, on lists that are in order: the page ends up at the head
  of the inactive list of its kind, no longer active, unevictable or referenced, every counter
  still equals its list, no other page changes, and chains are as before.
\<close>

theorem hate_page_correct:
  assumes "cur_cpu E < n" and "lru_ok E n s (page_zone E p)" and "on_lru p (zone_at s (page_zone E p))"
    and "pg_chain (page_at s p) = None" and "LruLock (page_zone E p) \<notin> k_held s"
  shows "\<exists>t. k__hate_page E p DISLIKE s = Some t \<and> lru_ok E n t (page_zone E p)
    \<and> (\<exists>ps. z_lru (zone_at t (page_zone E p)) (page_lru_base_type p s) = p # ps)
    \<and> PageLRU p t \<and> \<not> PageActive p t \<and> \<not> PageUnevictable p t \<and> \<not> k__PageReferenced p t
    \<and> (\<forall>q. q \<noteq> p \<longrightarrow> page_at t q = page_at s q)
    \<and> k_chains t = k_chains s \<and> (\<forall>q. pg_chain (page_at t q) = pg_chain (page_at s q)) \<and> k_held t = k_held s"
proof -
  let ?z = "page_zone E p" and ?b = "page_lru_base_type p s"
  let ?s0 = "s\<lparr>k_held := insert (LruLock ?z) (k_held s)\<rparr>"
  have base: "page_lru_base_type p ?s0 = ?b" "page_lru p ?s0 = page_lru p s"
    by (simp_all add: page_lru_base_type_def page_is_file_cache_def page_lru_def PageLinked_def)
  have ok0: "lru_ok E n ?s0 ?z"
    using assms(2) by (subst lru_ok_frame [where s = s]) simp_all
  from assms(2,3) have lru: "PageLRU p s"
    by (auto simp: lru_ok_def lru_placed_def on_lru_iff)
  from lru_ok_keep [OF assms(1) ok0, of p] assms(3) obtain u where
    u: "del_page_from_lru E ?z p ?s0 = Some u" "lru_ok E n u ?z" "\<not> on_lru p (zone_at u ?z)"
    by auto
  have u_eq: "u = k__mod_zone_page_state E ?z (NR_LRU_BASE + page_lru p s) (- hpage_nr_pages E p)
       (clear_lru_state p (upd_zone ?z (lru_remove p) ?s0))"
    using u(1) assms(3) base by (simp add: del_page_from_lru_eq)
  have bits: "page_at u q = page_at (clear_lru_state p s) q" for q
    by (simp add: u_eq clear_lru_state_def set_bit_k_def clear_bit_k_def page_at_upd_page)
  define v where "v = k__ClearPageReferenced p (ClearPageActive p u)"
  have pv: "PageLRU p v" "\<not> PageActive p v" "\<not> PageUnevictable p v" "\<not> k__PageReferenced p v"
    "PageSwapBacked p v = PageSwapBacked p s" "pg_chain (page_at v p) = None"
  proof -
    have "test_bit f p u = test_bit f p (clear_lru_state p s)" for f
      using bits [of p] by (simp add: test_bit_def)
    then show "PageLRU p v" "\<not> PageActive p v" "\<not> PageUnevictable p v" "\<not> k__PageReferenced p v"
      "PageSwapBacked p v = PageSwapBacked p s"
      using lru by (auto simp: v_def clear_lru_state_def)
    show "pg_chain (page_at v p) = None"
      using assms(4) bits [of p] by (simp add: v_def clear_lru_state_def)
  qed
  have other: "page_at v q = page_at s q" if "q \<noteq> p" for q
    using that bits [of q] by (simp add: v_def page_at_bits_other page_at_clear_lru)
  have okv: "lru_ok E n v ?z"
  proof -
    have "lru_ok E n v ?z = lru_ok E n u ?z"
    proof (rule lru_ok_frame)
      fix l q assume "q \<in> set (z_lru (zone_at u ?z) l)"
      with u(2,3) have "q \<noteq> p" by (auto simp: lru_ok_def on_lru_wf)
      then show "page_at v q = page_at u q" by (simp add: v_def page_at_bits_other)
    qed (simp_all add: v_def)
    with u(2) show ?thesis by simp
  qed
  have lv: "page_lru p v = ?b"
    using pv assms(4) by (auto simp: page_lru_def page_lru_base_type_def page_is_file_cache_def
        PageLinked_def Let_def)
  define w where "w = add_page_to_lru_list E ?z p ?b v"
  have offv: "\<not> on_lru p (zone_at v ?z)" using u(3) by (simp add: v_def)
  with lru_ok_keep [OF assms(1) okv, of p] pv(1) lv have okw: "lru_ok E n w ?z"
    by (simp add: w_def)
  have heldw: "k_held w = insert (LruLock ?z) (k_held s)"
    by (simp add: w_def add_page_to_lru_list_def k__add_page_to_lru_list_def v_def u_eq)
  have run: "k__hate_page E p DISLIKE s = Some (w\<lparr>k_held := k_held s\<rparr>)"
    using lru assms(5) u(1) heldw base
    by (simp add: k__hate_page_def Let_def w_def v_def insert_Diff_if)
  have okt: "lru_ok E n (w\<lparr>k_held := k_held s\<rparr>) ?z"
    using okw by (subst lru_ok_frame [where s = w]) simp_all
  have pages: "page_at w q = page_at v q" "test_bit f q w = test_bit f q v" for f q
    by (simp_all add: w_def add_page_to_lru_list_def k__add_page_to_lru_list_def)
  have "z_lru (zone_at w ?z) ?b = p # z_lru (zone_at v ?z) ?b"
    by (simp add: w_def add_page_to_lru_list_def k__add_page_to_lru_list_def zone_at_upd_zone)
  moreover have "k_chains w = k_chains s"
    by (simp add: w_def add_page_to_lru_list_def k__add_page_to_lru_list_def v_def u_eq)
  moreover have "pg_chain (page_at v q) = pg_chain (page_at s q)" for q
    using other [of q] pv(6) assms(4) by (cases "q = p") auto
  ultimately show ?thesis
    using run okt pv pages other
    by (intro exI [of _ "w\<lparr>k_held := k_held s\<rparr>"]) auto
qed

theorem hate_page_correct_witness:
  "\<exists>t. k__hate_page sample_env 7 DISLIKE lru_sample = Some t \<and> lru_ok sample_env 1 t 0
     \<and> \<not> PageActive 7 t"
proof -
  have z: "page_zone sample_env 7 = 0" by (simp add: sample_env_def)
  have "on_lru 7 (zone_at lru_sample 0)"
    unfolding on_lru_iff
    using lru_sample_list by (intro exI [of _ LRU_INACTIVE_FILE] conjI) (simp add: lru_list_defs, simp)
  moreover have "pg_chain (page_at lru_sample 7) = None"
    by (simp add: lru_sample_sel(1)) (simp add: sample_defs page_at_def)
  ultimately show ?thesis
    using hate_page_correct [of sample_env 1 lru_sample 7] lru_sample_ok sample_cpu lru_sample_sel(2) z
    by auto
qed

end
