(* ===== verification/Task_Chains.thy ===== *)
theory Task_Chains
  imports Mhint
begin

text \<open>
  The life of a task's chain collection outside \<open>mchain.c\<close>: the teardown in \<open>do_exit\<close>
  (\<open>Linux/exit.c\<close>) and the pointer in \<open>do_fork\<close> (\<open>Linux/fork.c\<close>). A fork copies the task
  structure, and with it the \<open>mcc\<close> pointer, starts the child, and resets the child's pointer
  only then: the two halves are separate operations here, and other steps may come between.
\<close>

section \<open>Exit\<close>

definition kfree_mcc :: "mcc_ptr \<Rightarrow> kstate \<Rightarrow> kstate option" where
  "kfree_mcc m s = (case k_mccs s m of
      None \<Rightarrow> None
    | Some _ \<Rightarrow> Some (s\<lparr>k_mccs := (k_mccs s)(m := None)\<rparr>))"

text \<open>One of the five unrolled parts of the loop.\<close>

definition exit_slot :: "mcc_ptr \<Rightarrow> chain_ptr option list \<Rightarrow> nat \<Rightarrow> kstate \<Rightarrow> kstate option" where
  "exit_slot mcc slots i s = do {
     x \<leftarrow> array_read slots i;
     (case x of None \<Rightarrow> Some s
      | Some c \<Rightarrow> do {
          chain_at s c;
          s \<leftarrow> unlink_chain_fast c s;
          s \<leftarrow> kfree_chain c s;
          upd_mcc mcc (\<lambda>r. r\<lparr>mcc_count := mcc_count r - 1\<rparr>) s
        })
   }"

function exit_loop :: "mcc_ptr \<Rightarrow> chain_ptr option list \<Rightarrow> nat \<Rightarrow> nat \<Rightarrow> kstate \<Rightarrow> kstate option" where
  "exit_loop mcc slots capacity i s = (case mcc_at s mcc of
      None \<Rightarrow> None
    | Some r \<Rightarrow>
        (if i < capacity \<and> mcc_count r > 0
         then (case forK (exit_slot mcc slots) [i, i + 1, i + 2, i + 3, i + 4] s of
             None \<Rightarrow> None
           | Some s \<Rightarrow> exit_loop mcc slots capacity (i + 5) s)
         else Some s))"
  by pat_completeness auto
termination
  by (relation "measure (\<lambda>(mcc, slots, capacity, i, s). capacity - i)") auto

declare exit_loop.simps [simp del]

definition exit_mcc :: "task_ptr \<Rightarrow> kstate \<Rightarrow> kstate option" where
  "exit_mcc tsk s = (case k_task_mcc s tsk of
      None \<Rightarrow> Some s
    | Some mcc \<Rightarrow> do {
        r \<leftarrow> mcc_at s mcc;
        s \<leftarrow> (if mcc_count r > 0 then exit_loop mcc (mcc_chains r) (mcc_capacity r) 0 s else Some s);
        s \<leftarrow> kfree_mcc mcc s;
        Some (s\<lparr>k_task_mcc := (k_task_mcc s)(tsk := None)\<rparr>)
      })"

section \<open>Fork\<close>

definition fork_copy_mcc :: "task_ptr \<Rightarrow> task_ptr \<Rightarrow> kstate \<Rightarrow> kstate" where
  "fork_copy_mcc parent child s = s\<lparr>k_task_mcc := (k_task_mcc s)(child := k_task_mcc s parent)\<rparr>"

definition fork_reset_mcc :: "task_ptr \<Rightarrow> kstate \<Rightarrow> kstate" where
  "fork_reset_mcc child s = s\<lparr>k_task_mcc := (k_task_mcc s)(child := None)\<rparr>"

end
