(* ===== verification/Chain_Tables.thy ===== *)
theory Chain_Tables
  imports Task_Chains
begin

text \<open>
  What the system calls promise to a program: a table of chain descriptors per task, each open
  descriptor holding a set of pages. The invariant \<open>system_ok\<close> ties the collections, the chains
  and the pages together; under it every call acts on the tables as its specification says, and
  every sequence of calls, page faults, exits and forks keeps it.
\<close>

section \<open>Collections in order\<close>

text \<open>
  A collection has the fixed size, counts its used slots, and each used slot holds a live chain
  whose identifier is the slot. \<open>ids\<close> are the identifiers of the live chains.
\<close>

definition mcc_ok :: "(chain_ptr \<Rightarrow> nat option) \<Rightarrow> memory_chain_collection \<Rightarrow> bool" where
  "mcc_ok ids r \<longleftrightarrow> mcc_capacity r = MAX_NUM_CHAINS \<and> length (mcc_chains r) = MAX_NUM_CHAINS
     \<and> mcc_count r = length (filter (\<lambda>x. x \<noteq> None) (mcc_chains r))
     \<and> (\<forall>i < MAX_NUM_CHAINS. \<forall>c. mcc_chains r ! i = Some c \<longrightarrow> ids c = Some i)"

text \<open>
  Every task's collection is live and its own, every collection has a task, no chain is in two
  collections, and every live chain is in one.
\<close>

definition colls_ok ::
  "(chain_ptr \<Rightarrow> nat option) \<Rightarrow> (mcc_ptr \<Rightarrow> memory_chain_collection option) \<Rightarrow>
     (task_ptr \<Rightarrow> mcc_ptr option) \<Rightarrow> bool" where
  "colls_ok ids mccs tasks \<longleftrightarrow>
     (\<forall>m r. mccs m = Some r \<longrightarrow> mcc_ok ids r)
   \<and> (\<forall>t m. tasks t = Some m \<longrightarrow> mccs m \<noteq> None)
   \<and> (\<forall>t t' m. tasks t = Some m \<longrightarrow> tasks t' = Some m \<longrightarrow> t = t')
   \<and> (\<forall>m. mccs m \<noteq> None \<longrightarrow> (\<exists>t. tasks t = Some m))
   \<and> (\<forall>m m' r r' c. mccs m = Some r \<longrightarrow> mccs m' = Some r' \<longrightarrow>
        Some c \<in> set (mcc_chains r) \<longrightarrow> Some c \<in> set (mcc_chains r') \<longrightarrow> m = m')
   \<and> (\<forall>c. ids c \<noteq> None \<longrightarrow> (\<exists>m r. mccs m = Some r \<and> Some c \<in> set (mcc_chains r)))"

definition system_ok :: "kstate \<Rightarrow> bool" where
  "system_ok s \<longleftrightarrow> chains_ok (view s) \<and> k_held s = {}
     \<and> colls_ok (v_ids (view s)) (k_mccs s) (k_task_mcc s)"

text \<open>
  Between the two halves of a fork the child has a copy of its parent's pointer. \<open>window_ok W\<close> is
  the invariant while the tasks in \<open>W\<close> are such children: it holds of the collections of all other
  tasks.
\<close>

definition window_ok :: "task_ptr set \<Rightarrow> kstate \<Rightarrow> bool" where
  "window_ok W s \<longleftrightarrow> chains_ok (view s) \<and> k_held s = {}
     \<and> colls_ok (v_ids (view s)) (k_mccs s) (k_task_mcc s |` (- W))"

text \<open>What the allocator of the kernel promises: it hands out nothing that is in use.\<close>

definition kmalloc_ok :: "kenv \<Rightarrow> bool" where
  "kmalloc_ok E \<longleftrightarrow> (\<forall>s c. kmalloc_chain E s = Some c \<longrightarrow> k_chains s c = None)
     \<and> (\<forall>s m. kmalloc_mcc E s = Some m \<longrightarrow> k_mccs s m = None)"

definition env_ok :: "kenv \<Rightarrow> bool" where
  "env_ok E \<longleftrightarrow> mlock_quiet E \<and> fault_ok E \<and> kmalloc_ok E"

section \<open>The tables\<close>

definition slots :: "kstate \<Rightarrow> task_ptr \<Rightarrow> nat \<Rightarrow> chain_ptr option" where
  "slots s tsk i = (case k_task_mcc s tsk of None \<Rightarrow> None
     | Some m \<Rightarrow> (case k_mccs s m of None \<Rightarrow> None
         | Some r \<Rightarrow> if i < length (mcc_chains r) then mcc_chains r ! i else None))"

definition chain_pages :: "kstate \<Rightarrow> chain_ptr \<Rightarrow> page_ptr set" where
  "chain_pages s c = {p. pg_chain (page_at s p) = Some c}"

definition table :: "kstate \<Rightarrow> task_ptr \<Rightarrow> nat \<Rightarrow> page_ptr set option" where
  "table s tsk i = map_option (chain_pages s) (slots s tsk i)"

subsection \<open>Reading the invariant\<close>

lemma colls_okD:
  assumes "colls_ok ids mccs tasks"
  shows "mccs m = Some r \<Longrightarrow> mcc_ok ids r"
    "tasks t = Some m \<Longrightarrow> \<exists>r. mccs m = Some r"
    "tasks t = Some m \<Longrightarrow> tasks t' = Some m \<Longrightarrow> t = t'"
    "mccs m = Some r \<Longrightarrow> \<exists>t. tasks t = Some m"
    "mccs m = Some r \<Longrightarrow> mccs m' = Some r' \<Longrightarrow> Some c \<in> set (mcc_chains r) \<Longrightarrow>
      Some c \<in> set (mcc_chains r') \<Longrightarrow> m = m'"
    "ids c = Some i \<Longrightarrow> \<exists>m r. mccs m = Some r \<and> Some c \<in> set (mcc_chains r)"
  using assms by (auto simp: colls_ok_def)

lemma mcc_okD:
  assumes "mcc_ok ids r"
  shows "mcc_capacity r = MAX_NUM_CHAINS" "length (mcc_chains r) = MAX_NUM_CHAINS"
    "mcc_count r = length (filter (\<lambda>x. x \<noteq> None) (mcc_chains r))"
    "i < MAX_NUM_CHAINS \<Longrightarrow> mcc_chains r ! i = Some c \<Longrightarrow> ids c = Some i"
  using assms by (auto simp: mcc_ok_def)

lemma system_okD:
  assumes "system_ok s"
  shows "chains_ok (view s)" "k_held s = {}" "colls_ok (v_ids (view s)) (k_mccs s) (k_task_mcc s)"
  using assms by (auto simp: system_ok_def)

lemma window_okD:
  assumes "window_ok W s"
  shows "chains_ok (view s)" "k_held s = {}" "colls_ok (v_ids (view s)) (k_mccs s) (k_task_mcc s |` (- W))"
  using assms by (auto simp: window_ok_def)

lemma system_ok_window: "window_ok {} s = system_ok s"
  by (simp add: window_ok_def system_ok_def restrict_map_def)

lemma no_window: "x \<notin> {}" by simp

lemma restrict_out_upd: "tsk \<notin> W \<Longrightarrow> m(tsk := y) |` (- W) = (m |` (- W))(tsk := y)"
  by (auto simp: restrict_map_def fun_eq_iff)

text \<open>
  The collection of a task: live, in order, and the source of the task's slots. The facts about one
  task are proved for a task outside \<open>W\<close> and specialised to \<open>system_ok\<close>.
\<close>

lemma task_mcc_w:
  assumes "window_ok W s" and "tsk \<notin> W" and "k_task_mcc s tsk = Some m"
  obtains r where "k_mccs s m = Some r" "mcc_ok (v_ids (view s)) r"
    "slots s tsk = (\<lambda>i. if i < MAX_NUM_CHAINS then mcc_chains r ! i else None)"
    "\<And>c. lookup_chain c r = Some (slots s tsk c)"
proof -
  note d = colls_okD [OF window_okD(3) [OF assms(1)]]
  from d(2) [of tsk m] assms(2,3) obtain r where r: "k_mccs s m = Some r" by auto
  note ok = d(1) [OF r]
  have "slots s tsk = (\<lambda>i. if i < MAX_NUM_CHAINS then mcc_chains r ! i else None)"
    using mcc_okD(2) [OF ok] assms(3) r by (simp add: slots_def fun_eq_iff)
  moreover from this have "lookup_chain c r = Some (slots s tsk c)" for c
    using mcc_okD(1,2) [OF ok] by (simp add: lookup_chain_def array_read_def)
  ultimately show ?thesis
    using r ok that by blast
qed

lemmas task_mcc = task_mcc_w [where W = "{}", unfolded system_ok_window, OF _ no_window]

lemma slots_None: "k_task_mcc s tsk = None \<Longrightarrow> slots s tsk i = None"
  by (simp add: slots_def)

lemma slot_live_w:
  assumes "window_ok W s" and "tsk \<notin> W" and "slots s tsk i = Some c"
  shows "\<exists>ch. k_chains s c = Some ch \<and> mc_id ch = i" "i < MAX_NUM_CHAINS"
    "\<exists>m. k_task_mcc s tsk = Some m"
proof -
  from assms(3) obtain m where m: "k_task_mcc s tsk = Some m"
    by (cases "k_task_mcc s tsk") (auto simp: slots_None)
  from task_mcc_w [OF assms(1,2) m] obtain r where r: "mcc_ok (v_ids (view s)) r"
    "slots s tsk = (\<lambda>i. if i < MAX_NUM_CHAINS then mcc_chains r ! i else None)"
    by blast
  with assms(3) show i: "i < MAX_NUM_CHAINS"
    by (auto split: if_splits)
  with mcc_okD(4) [OF r(1), of i c] r(2) assms(3) show "\<exists>ch. k_chains s c = Some ch \<and> mc_id ch = i"
    by (auto simp: v_ids_def)
  from m show "\<exists>m. k_task_mcc s tsk = Some m" by blast
qed

lemmas slot_live = slot_live_w [where W = "{}", unfolded system_ok_window, OF _ no_window]

text \<open>A chain is in one slot of one task.\<close>

lemma slots_inj_w:
  assumes "window_ok W s" and "tsk \<notin> W" and "tsk' \<notin> W"
    and "slots s tsk i = Some c" and "slots s tsk' j = Some c"
  shows "tsk = tsk' \<and> i = j"
proof -
  note d = colls_okD [OF window_okD(3) [OF assms(1)]]
  from slot_live_w [OF assms(1,2,4)] slot_live_w [OF assms(1,3,5)] obtain m m' where
    ij: "i = j" "i < MAX_NUM_CHAINS" and m: "k_task_mcc s tsk = Some m" "k_task_mcc s tsk' = Some m'"
    by auto
  from task_mcc_w [OF assms(1,2) m(1)] obtain r where r: "k_mccs s m = Some r"
    "slots s tsk = (\<lambda>i. if i < MAX_NUM_CHAINS then mcc_chains r ! i else None)"
    "length (mcc_chains r) = MAX_NUM_CHAINS"
    using mcc_okD(2) by metis
  from task_mcc_w [OF assms(1,3) m(2)] obtain r' where r': "k_mccs s m' = Some r'"
    "slots s tsk' = (\<lambda>i. if i < MAX_NUM_CHAINS then mcc_chains r' ! i else None)"
    "length (mcc_chains r') = MAX_NUM_CHAINS"
    using mcc_okD(2) by metis
  have "Some c \<in> set (mcc_chains r)" "Some c \<in> set (mcc_chains r')"
    using assms(4,5) ij r(2,3) r'(2,3) by (auto simp: in_set_conv_nth split: if_splits)
  with d(5) [OF r(1) r'(1)] have "m = m'" by blast
  with d(3) [of tsk m tsk'] m assms(2,3) ij(1) show ?thesis by simp
qed

lemmas slots_inj = slots_inj_w [where W = "{}", unfolded system_ok_window, OF _ no_window no_window]

section \<open>Breaking a chain\<close>

lemma v_clear_chain_of:
  "chains_ok v \<Longrightarrow> v_chain_of (v_clear b c v) p = (if v_chain_of v p = Some c then None else v_chain_of v p)"
  using links_of_iff by (simp add: v_clear_def)

lemma slots_cong:
  "k_mccs t = k_mccs s \<Longrightarrow> k_task_mcc t = k_task_mcc s \<Longrightarrow> slots t = slots s"
  by (intro ext) (simp add: slots_def split: option.split)

text \<open>A state that differs in chains and pages only, with all chains and their identifiers kept.\<close>

lemma system_ok_same:
  assumes "system_ok s" and "same_rest s t" and "chains_ok (view t)" and "v_ids (view t) = v_ids (view s)"
  shows "system_ok t" "slots t = slots s"
  using assms by (auto simp: system_ok_def same_rest_def intro!: slots_cong)

lemma window_ok_same:
  assumes "window_ok W s" and "same_rest s t" and "chains_ok (view t)" and "v_ids (view t) = v_ids (view s)"
  shows "window_ok W t"
  using assms by (auto simp: window_ok_def same_rest_def)

lemma no_chain_returns_w:
  assumes "window_ok W s" and "tsk \<notin> W" and "slots s tsk c = None"
  shows "sys_brk_mem_chain E tsk c s = Some (- 1, s)"
    "sys_rls_mem_chain E tsk c s = Some (- 1, s)"
    "sys_link_addr_rng E tsk c start len s = Some (- 1, s)"
    "sys_anchor E tsk c start s = Some (- 1, s)"
proof -
  consider "k_task_mcc s tsk = None" | m r where "k_task_mcc s tsk = Some m" "k_mccs s m = Some r"
    "lookup_chain c r = Some None"
    using task_mcc_w [OF assms(1,2)] assms(3) by (metis option.exhaust)
  then show "sys_brk_mem_chain E tsk c s = Some (- 1, s)"
    "sys_rls_mem_chain E tsk c s = Some (- 1, s)"
    "sys_link_addr_rng E tsk c start len s = Some (- 1, s)"
    "sys_anchor E tsk c start s = Some (- 1, s)"
    by (cases; use window_okD(2) [OF assms(1)] in \<open>simp add: sys_brk_mem_chain_def
        sys_rls_mem_chain_def sys_link_addr_rng_def sys_anchor_def mcc_at_def\<close>)+
qed

lemmas no_chain_returns = no_chain_returns_w [where W = "{}", unfolded system_ok_window, OF _ no_window]

text \<open>Unlinking all pages of an open chain, under the two locks the callers hold.\<close>

lemma unlink_open_chain:
  assumes sys: "chains_ok (view s)" and mq: "mlock_quiet E"
    and u: "k__unlink_chain E ch (s\<lparr>k_held := H\<rparr>) = Some u"
  shows "view u = v_clear True ch (view s)" "k_held u = H" "k_mccs u = k_mccs s"
    "k_task_mcc u = k_task_mcc s" "chains_ok (view u)" "v_ids (view u) = v_ids (view s)"
proof -
  have ok: "chains_ok (view (s\<lparr>k_held := H\<rparr>))"
    using sys by simp
  note r = unlink_chain_refines [OF u ok mq]
  show "view u = v_clear True ch (view s)" "k_held u = H" "k_mccs u = k_mccs s" "k_task_mcc u = k_task_mcc s"
    "v_ids (view u) = v_ids (view s)"
    using r by (simp_all add: same_rest_def)
  show "chains_ok (view u)"
    using r chains_ok_clear [OF ok] by simp
qed

lemma unlink_open_chain_total:
  assumes sys: "system_ok s" and mq: "mlock_quiet E" and "slots s tsk c = Some ch"
    and "\<And>x. k_chains s ch = Some x \<Longrightarrow> mc_anchor x = None"
    and H: "\<And>p. LinkLock p \<notin> H"
  shows "\<exists>u. k__unlink_chain E ch (s\<lparr>k_held := H\<rparr>) = Some u"
proof -
  from slot_live [OF sys assms(3)] obtain x where x: "k_chains s ch = Some x" by auto
  show ?thesis
    by (rule unlink_chain_total) (use x assms system_okD(1) [OF sys] in \<open>auto simp: chain_unlocked_def\<close>)
qed

lemma brk_eq_w:
  assumes sys: "window_ok W s" and out: "tsk \<notin> W" and m: "k_task_mcc s tsk = Some m" and c: "slots s tsk c = Some ch"
  shows "sys_brk_mem_chain E tsk c s =
    Option.bind (k__unlink_chain E ch (s\<lparr>k_held := {ChainLock ch, MccLock m}\<rparr>))
      (\<lambda>s. Option.bind (spin_unlock_chain (Some ch) s) (\<lambda>s. Option.bind (spin_unlock (MccLock m) s)
        (\<lambda>s. Some (0, s))))"
proof -
  from task_mcc_w [OF sys out m] obtain r where r: "k_mccs s m = Some r" "lookup_chain c r = Some (Some ch)"
    using c by metis
  from slot_live_w [OF sys out c] obtain x where "k_chains s ch = Some x" by auto
  with m r window_okD(2) [OF sys] show ?thesis
    by (simp add: sys_brk_mem_chain_def mcc_at_def spin_lock_chain_def chain_at_def)
qed

lemmas brk_eq = brk_eq_w [where W = "{}", unfolded system_ok_window, OF _ no_window]

lemma brk_cases:
  assumes "Option.bind (k__unlink_chain E ch (s\<lparr>k_held := {ChainLock ch, MccLock m}\<rparr>))
      (\<lambda>s. Option.bind (spin_unlock_chain (Some ch) s) (\<lambda>s. Option.bind (spin_unlock (MccLock m) s)
        (\<lambda>s. Some (0, s)))) = Some (r, t)"
    and "chains_ok (view s)" and "mlock_quiet E"
  obtains u where "k__unlink_chain E ch (s\<lparr>k_held := {ChainLock ch, MccLock m}\<rparr>) = Some u"
    "t = u\<lparr>k_held := {}\<rparr>" "r = (0 :: int)"
proof -
  from assms(1) obtain u where u: "k__unlink_chain E ch (s\<lparr>k_held := {ChainLock ch, MccLock m}\<rparr>) = Some u"
    and 1: "Option.bind (spin_unlock_chain (Some ch) u) (\<lambda>s. Option.bind (spin_unlock (MccLock m) s)
        (\<lambda>s. Some (0, s))) = Some (r, t)"
    by (rule bind_eq_SomeE)
  from 1 obtain v where v: "spin_unlock_chain (Some ch) u = Some v"
    and 2: "Option.bind (spin_unlock (MccLock m) v) (\<lambda>s. Some (0, s)) = Some (r, t)"
    by (rule bind_eq_SomeE)
  from 2 obtain w where w: "spin_unlock (MccLock m) v = Some w" and t: "Some (0, w) = Some (r, t)"
    by (rule bind_eq_SomeE)
  have h: "k_held u = {ChainLock ch, MccLock m}"
    by (rule unlink_open_chain(2) [OF assms(2,3) u])
  from v have "v = u\<lparr>k_held := k_held u - {ChainLock ch}\<rparr>"
    by (simp add: spin_unlock_chain_def split: if_splits)
  then have "v = u\<lparr>k_held := {MccLock m}\<rparr>"
    by (simp only: h) simp
  with w t have "t = u\<lparr>k_held := {}\<rparr>" "r = 0"
    by simp_all
  with u show ?thesis by (rule that)
qed

text \<open>
  C6. \<open>brk_mem_chain\<close> on a descriptor of the calling task: with an open descriptor it returns 0,
  the chain is empty and stays open, every page that was on it is on no chain and not
  referenced, no other page changes its chain, and the system is in order again; it returns
  whenever the chain has no anchor. With any other descriptor it returns -1 and changes nothing.
\<close>

theorem brk_mem_chain_correct:
  assumes "system_ok s" and "mlock_quiet E"
  shows "(slots s tsk c = None \<longrightarrow> sys_brk_mem_chain E tsk c s = Some (- 1, s))
    \<and> (\<forall>ch. slots s tsk c = Some ch \<longrightarrow>
        (\<forall>r t. sys_brk_mem_chain E tsk c s = Some (r, t) \<longrightarrow> r = 0 \<and> system_ok t
          \<and> (\<forall>tsk' i. table t tsk' i = (if tsk' = tsk \<and> i = c then Some {} else table s tsk' i))
          \<and> (\<forall>p. pg_chain (page_at t p) = (if pg_chain (page_at s p) = Some ch then None else pg_chain (page_at s p)))
          \<and> (\<forall>p. k__PageReferenced p t \<longleftrightarrow> k__PageReferenced p s \<and> pg_chain (page_at s p) \<noteq> Some ch))
      \<and> ((\<forall>x. k_chains s ch = Some x \<longrightarrow> mc_anchor x = None) \<longrightarrow> sys_brk_mem_chain E tsk c s \<noteq> None))"
proof (intro conjI impI allI)
  assume "slots s tsk c = None"
  with no_chain_returns [OF assms(1)] show "sys_brk_mem_chain E tsk c s = Some (- 1, s)" by simp
next
  fix ch r t assume c: "slots s tsk c = Some ch" and run: "sys_brk_mem_chain E tsk c s = Some (r, t)"
  from slot_live [OF assms(1) c] obtain m where m: "k_task_mcc s tsk = Some m" by auto
  from run [unfolded brk_eq [OF assms(1) m c]] obtain u where
    u: "k__unlink_chain E ch (s\<lparr>k_held := {ChainLock ch, MccLock m}\<rparr>) = Some u"
    and t: "t = u\<lparr>k_held := {}\<rparr>" "r = 0"
    by (rule brk_cases) (use system_okD(1) assms in auto)
  note o = unlink_open_chain [OF system_okD(1) [OF assms(1)] assms(2) u]
  show "r = 0" by fact
  have s: "system_ok t \<and> slots t = slots s"
    using system_ok_same [OF assms(1), of t] o t system_okD(2) [OF assms(1)]
    by (simp add: same_rest_def)
  then show "system_ok t" by simp
  show pg: "pg_chain (page_at t p) = (if pg_chain (page_at s p) = Some ch then None else pg_chain (page_at s p))" for p
    using v_clear_chain_of [OF system_okD(1) [OF assms(1)], of True ch p] o(1) t
    by (simp flip: view_sel(2))
  show "k__PageReferenced p t \<longleftrightarrow> k__PageReferenced p s \<and> pg_chain (page_at s p) \<noteq> Some ch" for p
    using o(1) t links_of_iff [OF system_okD(1) [OF assms(1)], of p ch]
    by (simp add: v_clear_def flip: view_sel(3))
  show "table t tsk' i = (if tsk' = tsk \<and> i = c then Some {} else table s tsk' i)" for tsk' i
  proof (cases "tsk' = tsk \<and> i = c")
    case True
    with s c show ?thesis by (auto simp: table_def chain_pages_def pg)
  next
    case False
    with slots_inj [OF assms(1) c, of tsk' i] have "slots s tsk' i \<noteq> Some ch" by auto
    with s False show ?thesis
      by (cases "slots s tsk' i") (auto simp: table_def chain_pages_def pg)
  qed
next
  fix ch assume c: "slots s tsk c = Some ch" and a: "\<forall>x. k_chains s ch = Some x \<longrightarrow> mc_anchor x = None"
  from slot_live [OF assms(1) c] obtain m where m: "k_task_mcc s tsk = Some m" by auto
  from unlink_open_chain_total [OF assms c, of "{ChainLock ch, MccLock m}"] a obtain u where
    u: "k__unlink_chain E ch (s\<lparr>k_held := {ChainLock ch, MccLock m}\<rparr>) = Some u" by auto
  note o = unlink_open_chain [OF system_okD(1) [OF assms(1)] assms(2) u]
  have "v_ids (view u) ch \<noteq> None"
    using o(6) slot_live(1) [OF assms(1) c] by (auto simp: v_ids_def)
  then have "k_chains u ch \<noteq> None"
    by (simp add: v_ids_def)
  with u o(2) show "sys_brk_mem_chain E tsk c s \<noteq> None"
    by (simp add: brk_eq [OF assms(1) m c] spin_unlock_chain_def chain_at_def)
qed

section \<open>Changing a collection\<close>

lemma length_filter_update:
  "i < length xs \<Longrightarrow> length (filter P (xs[i := y])) + of_bool (P (xs ! i)) =
     length (filter P xs) + of_bool (P y)"
proof (induction xs arbitrary: i)
  case (Cons x xs)
  show ?case
  proof (cases i)
    case (Suc j)
    with Cons.IH [of j] Cons.prems show ?thesis by simp
  qed simp
qed simp

lemma set_update_None: "Some c \<in> set (xs[i := None]) \<Longrightarrow> Some c \<in> set xs"
  using set_update_subset_insert [of xs i None] by auto

lemma mcc_ok_slot:
  assumes "mcc_ok ids r" and "Some c \<in> set (mcc_chains r)"
  obtains i where "i < MAX_NUM_CHAINS" "mcc_chains r ! i = Some c" "ids c = Some i"
  using assms by (auto simp: mcc_ok_def in_set_conv_nth)

definition clear_slot :: "nat \<Rightarrow> memory_chain_collection \<Rightarrow> memory_chain_collection" where
  "clear_slot i r = r\<lparr>mcc_chains := (mcc_chains r)[i := None], mcc_count := mcc_count r - 1\<rparr>"

definition fill_slot :: "nat \<Rightarrow> chain_ptr \<Rightarrow> memory_chain_collection \<Rightarrow> memory_chain_collection" where
  "fill_slot i c r = r\<lparr>mcc_chains := (mcc_chains r)[i := Some c], mcc_count := mcc_count r + 1\<rparr>"

definition empty_mcc :: memory_chain_collection where
  "empty_mcc = \<lparr>mcc_count = 0, mcc_capacity = MAX_NUM_CHAINS, mcc_chains = replicate MAX_NUM_CHAINS None\<rparr>"

lemma mcc_ok_clear:
  assumes "mcc_ok ids r" and "i < MAX_NUM_CHAINS" and "mcc_chains r ! i = Some c"
  shows "mcc_ok (ids(c := None)) (clear_slot i r)"
proof -
  note d = mcc_okD [OF assms(1)]
  have "ids c' = Some j \<and> c' \<noteq> c"
    if "j < MAX_NUM_CHAINS" "(mcc_chains r)[i := None] ! j = Some c'" for j c'
    using that d(2) d(4) [OF assms(2,3)] d(4) [of j c'] by (cases "i = j") auto
  moreover have "mcc_count r - 1 = length (filter (\<lambda>x. x \<noteq> None) ((mcc_chains r)[i := None]))"
    using length_filter_update [of i "mcc_chains r" "\<lambda>x. x \<noteq> None" None] d(2,3) assms(2,3) by simp
  ultimately show ?thesis
    using d(1,2) by (simp add: mcc_ok_def clear_slot_def)
qed

lemma mcc_ok_fill:
  assumes "mcc_ok ids r" and "i < MAX_NUM_CHAINS" and "mcc_chains r ! i = None" and "ids c = None"
  shows "mcc_ok (ids(c \<mapsto> i)) (fill_slot i c r)"
proof -
  note d = mcc_okD [OF assms(1)]
  have "(ids(c \<mapsto> i)) c' = Some j"
    if "j < MAX_NUM_CHAINS" "(mcc_chains r)[i := Some c] ! j = Some c'" for j c'
    using that d(2) d(4) [of j c'] assms(4) by (cases "i = j") auto
  moreover have "mcc_count r + 1 = length (filter (\<lambda>x. x \<noteq> None) ((mcc_chains r)[i := Some c]))"
    using length_filter_update [of i "mcc_chains r" "\<lambda>x. x \<noteq> None" "Some c"] d(2,3) assms(2,3) by simp
  ultimately show ?thesis
    using d(1,2) by (simp add: mcc_ok_def fill_slot_def)
qed

lemma mcc_ok_other:
  assumes "mcc_ok ids r" and "\<And>c. Some c \<in> set (mcc_chains r) \<Longrightarrow> ids' c = ids c"
  shows "mcc_ok ids' r"
proof -
  note d = mcc_okD [OF assms(1)]
  have "ids' c = Some i" if "i < MAX_NUM_CHAINS" "mcc_chains r ! i = Some c" for i c
    using assms(2) [of c] d(2) d(4) [OF that] that by (metis nth_mem)
  with d show ?thesis by (simp add: mcc_ok_def)
qed

lemma colls_ok_clear:
  assumes ok: "colls_ok ids mccs tasks" and m: "mccs m = Some r"
    and i: "i < MAX_NUM_CHAINS" "mcc_chains r ! i = Some c"
  shows "colls_ok (ids(c := None)) (mccs(m \<mapsto> clear_slot i r)) tasks"
proof -
  note d = colls_okD [OF ok] and r = mcc_okD [OF colls_okD(1) [OF ok m]]
  have mem: "Some c \<in> set (mcc_chains r)"
    using i r(2) by (metis nth_mem)
  have sub: "Some x \<in> set (mcc_chains (clear_slot i r)) \<Longrightarrow> Some x \<in> set (mcc_chains r)" for x
    by (auto simp: clear_slot_def dest: set_update_None)
  have keep: "Some x \<in> set (mcc_chains (clear_slot i r))" if "Some x \<in> set (mcc_chains r)" "x \<noteq> c" for x
  proof -
    from that(1) obtain j where "j < MAX_NUM_CHAINS" "mcc_chains r ! j = Some x"
      by (rule mcc_ok_slot [OF d(1) [OF m]])
    moreover from this that(2) i have "i \<noteq> j" by auto
    ultimately have "(mcc_chains r)[i := None] ! j = Some x" "j < length ((mcc_chains r)[i := None])"
      using r(2) by simp_all
    then show ?thesis
      using nth_mem [of j "(mcc_chains r)[i := None]"] by (simp add: clear_slot_def)
  qed
  have "mcc_ok (ids(c := None)) r'" if "(mccs(m \<mapsto> clear_slot i r)) m' = Some r'" for m' r'
  proof (cases "m' = m")
    case True
    with that mcc_ok_clear [OF d(1) [OF m] i] show ?thesis by simp
  next
    case False
    then have m': "mccs m' = Some r'" using that by simp
    from d(5) [OF m' m _ mem] False show ?thesis
      by (intro mcc_ok_other [OF d(1) [OF m']]) auto
  qed
  moreover have "\<exists>m' r'. (mccs(m \<mapsto> clear_slot i r)) m' = Some r' \<and> Some x \<in> set (mcc_chains r')"
    if x: "(ids(c := None)) x \<noteq> None" for x
  proof -
    from x obtain j where "ids x = Some j" "x \<noteq> c" by (auto split: if_splits)
    with d(6) [of x j] keep [of x] m show ?thesis
      by (metis fun_upd_apply option.inject)
  qed
  ultimately show ?thesis
    using ok m sub by (fastforce simp: colls_ok_def split: if_splits)
qed

lemma colls_ok_fill:
  assumes ok: "colls_ok ids mccs tasks" and m: "mccs m = Some r"
    and i: "i < MAX_NUM_CHAINS" "mcc_chains r ! i = None" and c: "ids c = None"
  shows "colls_ok (ids(c \<mapsto> i)) (mccs(m \<mapsto> fill_slot i c r)) tasks"
proof -
  note d = colls_okD [OF ok] and r = mcc_okD [OF colls_okD(1) [OF ok m]]
  have out: "Some c \<notin> set (mcc_chains r')" if "mccs m' = Some r'" for m' r'
    using mcc_ok_slot [OF d(1) [OF that], of c] c by (metis option.distinct(1))
  have sets: "Some x \<in> set (mcc_chains (fill_slot i c r)) \<longleftrightarrow> x = c \<or> Some x \<in> set (mcc_chains r)" for x
  proof
    show "x = c \<or> Some x \<in> set (mcc_chains r)" if "Some x \<in> set (mcc_chains (fill_slot i c r))"
      using that set_update_subset_insert [of "mcc_chains r" i "Some c"] by (auto simp: fill_slot_def)
    show "Some x \<in> set (mcc_chains (fill_slot i c r))" if "x = c \<or> Some x \<in> set (mcc_chains r)"
      using that
    proof
      assume "x = c"
      with i r(2) show ?thesis
        by (metis fill_slot_def length_list_update memory_chain_collection.select_convs(3)
            memory_chain_collection.surjective memory_chain_collection.update_convs(1,3) nth_list_update_eq nth_mem)
    next
      assume "Some x \<in> set (mcc_chains r)"
      then obtain j where "j < MAX_NUM_CHAINS" "mcc_chains r ! j = Some x"
        by (rule mcc_ok_slot [OF d(1) [OF m]])
      moreover from this i have "i \<noteq> j" by auto
      ultimately have "(mcc_chains r)[i := Some c] ! j = Some x" "j < length ((mcc_chains r)[i := Some c])"
        using r(2) by simp_all
      then show ?thesis
        using nth_mem [of j "(mcc_chains r)[i := Some c]"] by (simp add: fill_slot_def)
    qed
  qed
  have "mcc_ok (ids(c \<mapsto> i)) r'" if "(mccs(m \<mapsto> fill_slot i c r)) m' = Some r'" for m' r'
  proof (cases "m' = m")
    case True
    with that mcc_ok_fill [OF d(1) [OF m] i c] show ?thesis by simp
  next
    case False
    then have m': "mccs m' = Some r'" using that by simp
    from out [OF m'] show ?thesis
      by (intro mcc_ok_other [OF d(1) [OF m']]) auto
  qed
  moreover have "\<exists>m' r'. (mccs(m \<mapsto> fill_slot i c r)) m' = Some r' \<and> Some x \<in> set (mcc_chains r')"
    if x: "(ids(c \<mapsto> i)) x \<noteq> None" for x
  proof (cases "x = c")
    case False
    with x obtain j where "ids x = Some j" by auto
    with d(6) [of x j] sets [of x] m show ?thesis
      by (metis fun_upd_apply option.inject)
  qed (use sets in auto)
  ultimately show ?thesis
    using ok m sets out by (fastforce simp: colls_ok_def split: if_splits)
qed

lemma colls_okI:
  assumes "\<And>m r. mccs m = Some r \<Longrightarrow> mcc_ok ids r"
    and "\<And>t m. tasks t = Some m \<Longrightarrow> mccs m \<noteq> None"
    and "\<And>t t' m. tasks t = Some m \<Longrightarrow> tasks t' = Some m \<Longrightarrow> t = t'"
    and "\<And>m r. mccs m = Some r \<Longrightarrow> \<exists>t. tasks t = Some m"
    and "\<And>m m' r r' c. mccs m = Some r \<Longrightarrow> mccs m' = Some r' \<Longrightarrow> Some c \<in> set (mcc_chains r) \<Longrightarrow>
      Some c \<in> set (mcc_chains r') \<Longrightarrow> m = m'"
    and "\<And>c i. ids c = Some i \<Longrightarrow> \<exists>m r. mccs m = Some r \<and> Some c \<in> set (mcc_chains r)"
  shows "colls_ok ids mccs tasks"
  unfolding colls_ok_def using assms by blast

lemma colls_ok_init:
  assumes "colls_ok ids mccs tasks" and m: "mccs m = None" and t: "tasks t = None"
  shows "colls_ok ids (mccs(m \<mapsto> empty_mcc)) (tasks(t \<mapsto> m))"
proof -
  note d = colls_okD [OF assms(1)]
  have new: "mcc_ok ids empty_mcc" "Some c \<notin> set (mcc_chains empty_mcc)" for c
    by (simp_all add: mcc_ok_def empty_mcc_def)
  have free: "tasks t' \<noteq> Some m" for t'
    using d(2) [of t' m] m by auto
  show ?thesis
  proof (rule colls_okI)
    fix t' t'' m'
    assume "(tasks(t \<mapsto> m)) t' = Some m'" "(tasks(t \<mapsto> m)) t'' = Some m'"
    then show "t' = t''"
      using d(3) [of t' m' t''] free [of t'] free [of t''] by (auto split: if_splits)
  next
    fix m' r assume "(mccs(m \<mapsto> empty_mcc)) m' = Some r"
    then show "\<exists>t'. (tasks(t \<mapsto> m)) t' = Some m'"
      using d(4) [of m' r] t by (auto split: if_splits) (metis option.distinct(1))
  next
    fix c i assume "ids c = Some i"
    from d(6) [OF this] m show "\<exists>m' r. (mccs(m \<mapsto> empty_mcc)) m' = Some r \<and> Some c \<in> set (mcc_chains r)"
      by (metis fun_upd_other option.distinct(1))
  qed (use d(1,2,5) new in \<open>force split: if_splits\<close>)+
qed

lemma colls_ok_exit:
  assumes ok: "colls_ok ids mccs tasks" and t: "tasks t = Some m" and m: "mccs m = Some r"
  shows "colls_ok (\<lambda>c. if Some c \<in> set (mcc_chains r) then None else ids c) (mccs(m := None))
    (tasks(t := None))"
proof -
  note d = colls_okD [OF ok]
  have own: "m' \<noteq> m" if "tasks t' = Some m'" "t' \<noteq> t" for t' m'
    using d(3) [OF _ t, of t'] that by auto
  show ?thesis
  proof (rule colls_okI)
    fix m' r' assume "(mccs(m := None)) m' = Some r'"
    then have m': "m' \<noteq> m" "mccs m' = Some r'" by (auto split: if_splits)
    show "mcc_ok (\<lambda>c. if Some c \<in> set (mcc_chains r) then None else ids c) r'"
      using d(5) [OF m'(2) m] m'(1) by (intro mcc_ok_other [OF d(1) [OF m'(2)]]) auto
    from d(4) [OF m'(2)] obtain t' where "tasks t' = Some m'" by blast
    with m'(1) t show "\<exists>t'. (tasks(t := None)) t' = Some m'"
      by (intro exI [of _ t']) auto
  next
    fix t' m' assume "(tasks(t := None)) t' = Some m'"
    then show "(mccs(m := None)) m' \<noteq> None"
      using d(2) own by (auto split: if_splits)
  next
    fix t' t'' m' assume "(tasks(t := None)) t' = Some m'" "(tasks(t := None)) t'' = Some m'"
    then show "t' = t''"
      using d(3) by (auto split: if_splits)
  next
    fix m1 m2 r1 r2 c
    assume "(mccs(m := None)) m1 = Some r1" "(mccs(m := None)) m2 = Some r2"
      "Some c \<in> set (mcc_chains r1)" "Some c \<in> set (mcc_chains r2)"
    then show "m1 = m2"
      using d(5) by (auto split: if_splits)
  next
    fix c i assume "(if Some c \<in> set (mcc_chains r) then None else ids c) = Some i"
    then have "Some c \<notin> set (mcc_chains r)" "ids c = Some i" by (auto split: if_splits)
    from d(6) [OF this(2)] obtain m' r' where m': "mccs m' = Some r'" "Some c \<in> set (mcc_chains r')"
      by auto
    with \<open>Some c \<notin> set (mcc_chains r)\<close> m have "m' \<noteq> m" by auto
    with m' show "\<exists>m' r'. (mccs(m := None)) m' = Some r' \<and> Some c \<in> set (mcc_chains r')"
      by (intro exI [of _ m'] exI [of _ r']) auto
  qed
qed

section \<open>Releasing a chain\<close>

lemma upd_mcc_Some [simp]:
  "k_mccs s m = Some r \<Longrightarrow> upd_mcc m f s = Some (s\<lparr>k_mccs := (k_mccs s)(m \<mapsto> f r)\<rparr>)"
  by (simp add: upd_mcc_def)

lemma view_mccs [simp]:
  "view (s\<lparr>k_mccs := M\<rparr>) = view s" "view (s\<lparr>k_task_mcc := T\<rparr>) = view s"
  by (simp_all add: view_def)

lemma view_free_chain [simp]: "view (s\<lparr>k_chains := (k_chains s)(c := None)\<rparr>) = v_free c (view s)"
  by (simp add: view_def v_free_def page_at_def test_bit_def)

lemma v_ids_free [simp]: "v_ids (v_free c v) = (v_ids v)(c := None)"
  by (auto simp: v_ids_def v_free_def fun_eq_iff)

lemma v_free_chain_of [simp]: "v_chain_of (v_free c v) = v_chain_of v" "v_ref (v_free c v) = v_ref v"
  by (simp_all add: v_free_def)

lemma links_of_clear: "links_of (v_clear b c v) c = []"
  by (simp add: links_of_def v_clear_def chain_cleared_def split: option.split)

text \<open>The state after the release of chain \<open>ch\<close> of slot \<open>c\<close>; \<open>u\<close> is the state once it is unlinked.\<close>

definition released :: "mcc_ptr \<Rightarrow> memory_chain_collection \<Rightarrow> nat \<Rightarrow> chain_ptr \<Rightarrow> kstate \<Rightarrow> kstate" where
  "released m r c ch u = u\<lparr>k_held := {}, k_chains := (k_chains u)(ch := None),
     k_mccs := (k_mccs u)(m \<mapsto> clear_slot c r)\<rparr>"

lemma rls_eq_w:
  assumes sys: "window_ok W s" and out: "tsk \<notin> W" and mq: "mlock_quiet E" and m: "k_task_mcc s tsk = Some m"
    and r: "k_mccs s m = Some r" and c: "slots s tsk c = Some ch"
  shows "sys_rls_mem_chain E tsk c s =
    map_option (\<lambda>u. (0, released m r c ch u)) (k__unlink_chain E ch (s\<lparr>k_held := {ChainLock ch, MccLock m}\<rparr>))"
proof -
  from task_mcc_w [OF sys out m] r have l: "lookup_chain c r = Some (Some ch)"
    using c by (metis option.inject)
  from slot_live_w [OF sys out c] obtain x where x: "k_chains s ch = Some x" by auto
  show ?thesis
  proof (cases "k__unlink_chain E ch (s\<lparr>k_held := {ChainLock ch, MccLock m}\<rparr>)")
    case None
    with m r l x window_okD(2) [OF sys] show ?thesis
      by (simp add: sys_rls_mem_chain_def mcc_at_def spin_lock_chain_def chain_at_def)
  next
    case (Some u)
    note o = unlink_open_chain [OF window_okD(1) [OF sys] mq Some]
    have "v_ids (view u) ch \<noteq> None"
      using o(6) x by (auto simp: v_ids_def)
    then have "k_chains u ch \<noteq> None"
      by (simp add: v_ids_def)
    with Some m r l x o(2,3) window_okD(2) [OF sys] show ?thesis
      by (auto simp: sys_rls_mem_chain_def mcc_at_def spin_lock_chain_def spin_unlock_chain_def
          chain_at_def kfree_chain_def released_def clear_slot_def split: option.split)
  qed
qed

lemmas rls_eq = rls_eq_w [where W = "{}", unfolded system_ok_window, OF _ no_window]

lemma released_ok_w:
  assumes sys: "window_ok W s" and out: "tsk \<notin> W" and mq: "mlock_quiet E" and m: "k_task_mcc s tsk = Some m"
    and r: "k_mccs s m = Some r" and c: "slots s tsk c = Some ch"
    and u: "k__unlink_chain E ch (s\<lparr>k_held := H\<rparr>) = Some u"
  defines "t \<equiv> released m r c ch u"
  shows "window_ok W t"
    and "pg_chain (page_at t p) = (if pg_chain (page_at s p) = Some ch then None else pg_chain (page_at s p))"
proof -
  note ok = window_okD(1) [OF sys]
  note o = unlink_open_chain [OF ok mq u]
  have v: "view t = v_free ch (v_clear True ch (view s))"
    using o(1) view_free_chain [of "u\<lparr>k_held := {}\<rparr>" ch] by (simp add: t_def released_def)
  from task_mcc_w [OF sys out m] r c have cr: "c < MAX_NUM_CHAINS" "mcc_chains r ! c = Some ch"
    by (metis option.distinct(1) option.inject)+
  have mt: "k_mccs t = (k_mccs s)(m \<mapsto> clear_slot c r)" "k_task_mcc t = k_task_mcc s" "k_held t = {}"
    by (simp_all add: t_def released_def o)
  have "chains_ok (view t)"
    unfolding v by (intro chains_ok_free chains_ok_clear ok links_of_clear)
  with colls_ok_clear [OF window_okD(3) [OF sys] r cr] mt show "window_ok W t"
    by (simp add: window_ok_def v)
  show "pg_chain (page_at t p) = (if pg_chain (page_at s p) = Some ch then None else pg_chain (page_at s p))"
    using v_clear_chain_of [OF ok, of True ch p] by (simp add: v flip: view_sel(2))
qed

lemma released_ok:
  assumes sys: "system_ok s" and mq: "mlock_quiet E" and m: "k_task_mcc s tsk = Some m"
    and r: "k_mccs s m = Some r" and c: "slots s tsk c = Some ch"
    and u: "k__unlink_chain E ch (s\<lparr>k_held := H\<rparr>) = Some u"
  defines "t \<equiv> released m r c ch u"
  shows "system_ok t"
    and "slots t = (slots s)(tsk := (slots s tsk)(c := None))"
    and "pg_chain (page_at t p) = (if pg_chain (page_at s p) = Some ch then None else pg_chain (page_at s p))"
proof -
  note o = unlink_open_chain [OF system_okD(1) [OF sys] mq u]
  note w = released_ok_w [OF sys [folded system_ok_window] no_window mq m r c u, folded t_def]
  show "system_ok t" using w(1) by (simp add: system_ok_window)
  show "pg_chain (page_at t p) = (if pg_chain (page_at s p) = Some ch then None else pg_chain (page_at s p))"
    by (rule w(2))
  from task_mcc [OF sys m] r have rok: "mcc_ok (v_ids (view s)) r" by (metis option.inject)
  have mt: "k_mccs t = (k_mccs s)(m \<mapsto> clear_slot c r)" "k_task_mcc t = k_task_mcc s"
    by (simp_all add: t_def released_def o)
  have other: "k_task_mcc s tsk' \<noteq> Some m" if "tsk' \<noteq> tsk" for tsk'
    using colls_okD(3) [OF system_okD(3) [OF sys], of tsk' m tsk] m that by blast
  show "slots t = (slots s)(tsk := (slots s tsk)(c := None))"
  proof (intro ext)
    fix tsk' i
    show "slots t tsk' i = ((slots s)(tsk := (slots s tsk)(c := None))) tsk' i"
    proof (cases "tsk' = tsk")
      case True
      with m mt mcc_okD(2) [OF rok] show ?thesis
        by (auto simp: slots_def r clear_slot_def)
    next
      case False
      with other [OF False] mt show ?thesis
        by (simp add: slots_def split: option.split)
    qed
  qed
qed

lemma table_upd:
  assumes sys: "system_ok s" and c: "slots s tsk c = Some ch"
    and "slots t = (slots s)(tsk := (slots s tsk)(c := None))"
    and "\<And>p. pg_chain (page_at t p) = (if pg_chain (page_at s p) = Some ch then None else pg_chain (page_at s p))"
  shows "table t = (table s)(tsk := (table s tsk)(c := None))"
proof (intro ext)
  fix tsk' i
  show "table t tsk' i = ((table s)(tsk := (table s tsk)(c := None))) tsk' i"
  proof (cases "tsk' = tsk \<and> i = c")
    case False
    with slots_inj [OF sys c, of tsk' i] have "slots s tsk' i \<noteq> Some ch" by auto
    with assms(3,4) False show ?thesis
      by (cases "slots s tsk' i") (auto simp: table_def chain_pages_def)
  qed (use assms(3) in \<open>simp add: table_def\<close>)
qed

text \<open>
  C4. \<open>rls_mem_chain\<close> on an open descriptor of the calling task returns 0, frees the chain and
  closes that descriptor alone, takes exactly the pages of the chain off it, and leaves the
  system in order; in particular no page keeps a pointer to the freed chain. It returns
  whenever the chain has no anchor, and with any other descriptor returns -1 without effect.
\<close>

theorem rls_mem_chain_correct:
  assumes "system_ok s" and "mlock_quiet E"
  shows "(slots s tsk c = None \<longrightarrow> sys_rls_mem_chain E tsk c s = Some (- 1, s))
    \<and> (\<forall>ch. slots s tsk c = Some ch \<longrightarrow>
        (\<forall>r t. sys_rls_mem_chain E tsk c s = Some (r, t) \<longrightarrow> r = 0 \<and> system_ok t
          \<and> table t = (table s)(tsk := (table s tsk)(c := None))
          \<and> k_chains t ch = None
          \<and> (\<forall>p. pg_chain (page_at t p) = (if pg_chain (page_at s p) = Some ch then None else pg_chain (page_at s p))))
      \<and> ((\<forall>x. k_chains s ch = Some x \<longrightarrow> mc_anchor x = None) \<longrightarrow> sys_rls_mem_chain E tsk c s \<noteq> None))"
proof (intro conjI impI allI)
  assume "slots s tsk c = None"
  with no_chain_returns [OF assms(1)] show "sys_rls_mem_chain E tsk c s = Some (- 1, s)" by simp
next
  fix ch x t assume c: "slots s tsk c = Some ch" and run: "sys_rls_mem_chain E tsk c s = Some (x, t)"
  from slot_live [OF assms(1) c] obtain m where m: "k_task_mcc s tsk = Some m" by auto
  from task_mcc [OF assms(1) m] obtain r where r: "k_mccs s m = Some r" by blast
  from run [unfolded rls_eq [OF assms m r c]] obtain u where
    u: "k__unlink_chain E ch (s\<lparr>k_held := {ChainLock ch, MccLock m}\<rparr>) = Some u"
    and t: "x = 0" "t = released m r c ch u"
    by auto
  note o = released_ok [OF assms m r c u, folded t(2)]
  show "x = 0" by fact
  show "system_ok t" by (rule o(1))
  show "k_chains t ch = None" by (simp add: t released_def)
  show "pg_chain (page_at t p) = (if pg_chain (page_at s p) = Some ch then None else pg_chain (page_at s p))" for p
    by (rule o(3))
  show "table t = (table s)(tsk := (table s tsk)(c := None))"
    by (rule table_upd [OF assms(1) c o(2,3)])
next
  fix ch assume c: "slots s tsk c = Some ch" and a: "\<forall>x. k_chains s ch = Some x \<longrightarrow> mc_anchor x = None"
  from slot_live [OF assms(1) c] obtain m where m: "k_task_mcc s tsk = Some m" by auto
  from task_mcc [OF assms(1) m] obtain r where r: "k_mccs s m = Some r" by blast
  from unlink_open_chain_total [OF assms c, of "{ChainLock ch, MccLock m}"] a obtain u where
    "k__unlink_chain E ch (s\<lparr>k_held := {ChainLock ch, MccLock m}\<rparr>) = Some u" by auto
  then show "sys_rls_mem_chain E tsk c s \<noteq> None"
    by (simp add: rls_eq [OF assms m r c])
qed

section \<open>Creating a chain\<close>

lemma init_mcc_ok:
  assumes sys: "system_ok s" and km: "kmalloc_ok E" and none: "k_task_mcc s tsk = None"
    and run: "k__init_mcc E tsk s = Some t"
  shows "system_ok t" "slots t = slots s" "k_pages t = k_pages s" "k_task_mcc t tsk \<noteq> None"
    "k_chains t = k_chains s"
proof -
  from run obtain m where m: "kmalloc_mcc E s = Some m"
    and t: "t = s\<lparr>k_mccs := (k_mccs s)(m \<mapsto> empty_mcc), k_task_mcc := (k_task_mcc s)(tsk \<mapsto> m)\<rparr>"
    by (auto simp: k__init_mcc_def empty_mcc_def Let_def split: Option.bind_splits if_splits)
  from m km have free: "k_mccs s m = None" by (simp add: kmalloc_ok_def)
  have "view t = view s"
    by (simp add: t view_def page_at_def test_bit_def)
  with colls_ok_init [OF system_okD(3) [OF sys] free none] sys show "system_ok t"
    by (simp add: system_ok_def t)
  have other: "k_task_mcc s tsk' \<noteq> Some m" for tsk'
    using colls_okD(2) [OF system_okD(3) [OF sys], of tsk' m] free by auto
  show "slots t = slots s"
    using none other by (intro ext) (auto simp: slots_def t empty_mcc_def split: option.split)
  show "k_pages t = k_pages s" "k_task_mcc t tsk \<noteq> None" "k_chains t = k_chains s"
    by (simp_all add: t)
qed

lemma init_mcc_window:
  assumes sys: "window_ok W s" and out: "tsk \<notin> W" and km: "kmalloc_ok E" and none: "k_task_mcc s tsk = None"
    and run: "k__init_mcc E tsk s = Some t"
  shows "window_ok W t" "k_task_mcc t tsk \<noteq> None"
proof -
  from run obtain m where m: "kmalloc_mcc E s = Some m"
    and t: "t = s\<lparr>k_mccs := (k_mccs s)(m \<mapsto> empty_mcc), k_task_mcc := (k_task_mcc s)(tsk \<mapsto> m)\<rparr>"
    by (auto simp: k__init_mcc_def empty_mcc_def Let_def split: Option.bind_splits if_splits)
  from m km have free: "k_mccs s m = None" by (simp add: kmalloc_ok_def)
  have "view t = view s"
    by (simp add: t view_def page_at_def test_bit_def)
  moreover have "(k_task_mcc s |` (- W)) tsk = None" using none by (simp add: restrict_map_def)
  from colls_ok_init [OF window_okD(3) [OF sys] free this]
  have "colls_ok (v_ids (view s)) (k_mccs t) (k_task_mcc t |` (- W))"
    by (simp add: t restrict_out_upd [OF out] del: restrict_fun_upd)
  ultimately show "window_ok W t" using sys by (simp add: window_ok_def t)
  show "k_task_mcc t tsk \<noteq> None" by (simp add: t)
qed

text \<open>A free slot is found exactly when the count is below the capacity.\<close>

lemma count_less_iff:
  "mcc_ok ids r \<Longrightarrow> mcc_count r < mcc_capacity r \<longleftrightarrow> None \<in> set (mcc_chains r)"
  using length_filter_less [of None "mcc_chains r" "\<lambda>x. x \<noteq> None"]
    filter_id_conv [of "\<lambda>x. x \<noteq> None" "mcc_chains r"]
  by (auto simp: mcc_ok_def)

lemma find_slot_ok:
  assumes "mcc_ok ids r" and "None \<in> set (mcc_chains r)"
  obtains i where "k__find_free_slot (mcc_chains r) (mcc_capacity r) = Some (int i)"
    "i < MAX_NUM_CHAINS" "mcc_chains r ! i = None" "\<And>j. j < i \<Longrightarrow> mcc_chains r ! j \<noteq> None"
proof -
  note d = mcc_okD [OF assms(1)]
  have "5 dvd length (mcc_chains r)"
    by (simp add: d(2) MAX_NUM_CHAINS_def)
  from find_free_slot_from_eq [of "mcc_chains r" "[]", OF this] first_free_cases [of "mcc_chains r" 0]
    assms(2) d(1,2) that show ?thesis
    by (auto simp: k__find_free_slot_def)
qed

lemma view_new_chain:
  "k__new_mem_chain E i s = Some (c, t) \<Longrightarrow> view t = v_new c i (view s) \<and> same_rest s t
     \<and> k_pages t = k_pages s \<and> kmalloc_chain E s = Some c"
  by (auto simp: k__new_mem_chain_def v_new_def view_def same_rest_def page_at_def test_bit_def
      split: Option.bind_splits)

lemma new_chain_total: "kmalloc_chain E s \<noteq> None \<Longrightarrow> k__new_mem_chain E i s \<noteq> None"
  by (auto simp: k__new_mem_chain_def)

lemma v_ids_new: "v_ids (v_new c i v) = (v_ids v)(c \<mapsto> i)"
  by (auto simp: v_ids_def v_new_def fun_eq_iff)

text \<open>The call for a task that has a collection.\<close>

definition created :: "mcc_ptr \<Rightarrow> memory_chain_collection \<Rightarrow> nat \<Rightarrow> chain_ptr \<Rightarrow> kstate \<Rightarrow> kstate" where
  "created m r i c u = u\<lparr>k_held := {}, k_mccs := (k_mccs u)(m \<mapsto> fill_slot i c r)\<rparr>"

lemma new_full_w:
  assumes "window_ok W s" and "k_task_mcc s tsk = Some m" and "k_mccs s m = Some r"
    and "None \<notin> set (mcc_chains r)" and "mcc_ok (v_ids (view s)) r"
  shows "sys_new_mem_chain E tsk s = Some (- 2, s)"
  using assms count_less_iff [OF assms(5)] window_okD(2) [OF assms(1)]
  by (simp add: sys_new_mem_chain_def mcc_at_def)

lemma new_eq_w:
  assumes sys: "window_ok W s" and m: "k_task_mcc s tsk = Some m" and r: "k_mccs s m = Some r"
    and ok: "mcc_ok (v_ids (view s)) r" and "None \<in> set (mcc_chains r)"
    and i: "k__find_free_slot (mcc_chains r) (mcc_capacity r) = Some (int i)" "i < MAX_NUM_CHAINS"
  shows "sys_new_mem_chain E tsk s =
    map_option (\<lambda>(c, u). (int i, created m r i c u)) (k__new_mem_chain E i (s\<lparr>k_held := {MccLock m}\<rparr>))"
proof (cases "k__new_mem_chain E i (s\<lparr>k_held := {MccLock m}\<rparr>)")
  case None
  with assms count_less_iff [OF ok] window_okD(2) [OF sys] show ?thesis
    by (simp add: sys_new_mem_chain_def mcc_at_def)
next
  case (Some cu)
  obtain c u where cu: "cu = (c, u)" by (metis surj_pair)
  from view_new_chain [OF Some [unfolded cu]] r have "k_mccs u m = Some r" "k_held u = {MccLock m}"
    by (simp_all add: same_rest_def)
  with Some cu assms count_less_iff [OF ok] window_okD(2) [OF sys] mcc_okD(2) [OF ok] show ?thesis
    by (simp add: sys_new_mem_chain_def mcc_at_def created_def fill_slot_def)
qed

lemmas new_full = new_full_w [where W = "{}", unfolded system_ok_window]
lemmas new_eq = new_eq_w [where W = "{}", unfolded system_ok_window]

lemma created_ok_w:
  assumes sys: "window_ok W s" and km: "kmalloc_ok E"
    and r: "k_mccs s m = Some r" and i: "i < MAX_NUM_CHAINS" "mcc_chains r ! i = None"
    and u: "k__new_mem_chain E i (s\<lparr>k_held := {MccLock m}\<rparr>) = Some (c, u)"
  defines "t \<equiv> created m r i c u"
  shows "window_ok W t" "k_chains s c = None" "view t = v_new c i (view s)"
proof -
  note v = view_new_chain [OF u]
  from v km have "k_chains (s\<lparr>k_held := {MccLock m}\<rparr>) c = None"
    unfolding kmalloc_ok_def by blast
  then show free: "k_chains s c = None" by simp
  show vt: "view t = v_new c i (view s)"
    using v by (simp add: t_def created_def)
  have rest: "k_mccs t = (k_mccs s)(m \<mapsto> fill_slot i c r)" "k_task_mcc t = k_task_mcc s" "k_held t = {}"
    using v by (simp_all add: t_def created_def same_rest_def)
  have "v_ids (view s) c = None"
    using free by (simp add: v_ids_def)
  from colls_ok_fill [OF window_okD(3) [OF sys] r i this] chains_ok_new [OF window_okD(1) [OF sys], of c i] free rest
  show "window_ok W t"
    by (simp add: window_ok_def vt v_ids_new)
qed

lemma created_ok:
  assumes sys: "system_ok s" and km: "kmalloc_ok E" and m: "k_task_mcc s tsk = Some m"
    and r: "k_mccs s m = Some r" and i: "i < MAX_NUM_CHAINS" "mcc_chains r ! i = None"
    and u: "k__new_mem_chain E i (s\<lparr>k_held := {MccLock m}\<rparr>) = Some (c, u)"
  defines "t \<equiv> created m r i c u"
  shows "system_ok t" "table t = (table s)(tsk := (table s tsk)(i \<mapsto> {}))"
    "pg_chain (page_at t p) = pg_chain (page_at s p)"
proof -
  note w = created_ok_w [OF sys [folded system_ok_window] km r i u, folded t_def]
  note ok = system_okD(1) [OF sys] and free = w(2) and vt = w(3)
  show "system_ok t" using w(1) by (simp add: system_ok_window)
  have rest: "k_mccs t = (k_mccs s)(m \<mapsto> fill_slot i c r)" "k_task_mcc t = k_task_mcc s"
    using view_new_chain [OF u] by (simp_all add: t_def created_def same_rest_def)
  show pg: "pg_chain (page_at t p) = pg_chain (page_at s p)" for p
    using vt by (simp add: v_new_def flip: view_sel(2))
  have none: "pg_chain (page_at s p) \<noteq> Some c" for p
    using chains_ok_ex [OF ok, of p c] free by auto
  have rlen: "length (mcc_chains r) = MAX_NUM_CHAINS"
    by (rule mcc_okD(2) [OF colls_okD(1) [OF system_okD(3) [OF sys] r]])
  have other: "k_task_mcc s tsk' \<noteq> Some m" if "tsk' \<noteq> tsk" for tsk'
    using colls_okD(3) [OF system_okD(3) [OF sys], of tsk' m tsk] m that by blast
  have "slots t tsk' j = (if tsk' = tsk \<and> j = i then Some c else slots s tsk' j)" for tsk' j
    using m r rest rlen i(1) other [of tsk']
    by (cases "tsk' = tsk") (auto simp: slots_def fill_slot_def split: option.split)
  then show "table t = (table s)(tsk := (table s tsk)(i \<mapsto> {}))"
    by (intro ext) (auto simp: table_def chain_pages_def [abs_def] pg none)
qed

lemma slots_pages_table: "slots t = slots s \<Longrightarrow> k_pages t = k_pages s \<Longrightarrow> table t = table s"
  by (intro ext) (simp add: table_def chain_pages_def [abs_def] page_at_def)

lemma new_mem_chain_spec:
  assumes "system_ok s" and "kmalloc_ok E"
  shows "(\<forall>x t. sys_new_mem_chain E tsk s = Some (x, t) \<longrightarrow> system_ok t
      \<and> (\<forall>p. pg_chain (page_at t p) = pg_chain (page_at s p))
      \<and> ((\<exists>i < MAX_NUM_CHAINS. x = int i \<and> slots s tsk i = None \<and> (\<forall>j < i. slots s tsk j \<noteq> None)
            \<and> table t = (table s)(tsk := (table s tsk)(i \<mapsto> {})))
        \<or> x = - 2 \<and> t = s \<and> (\<forall>i < MAX_NUM_CHAINS. slots s tsk i \<noteq> None)))
    \<and> ((\<forall>x. (k_chains x = k_chains s \<longrightarrow> kmalloc_chain E x \<noteq> None)
          \<and> (k_mccs x = k_mccs s \<longrightarrow> kmalloc_mcc E x \<noteq> None \<and> kmalloc_array E x)) \<longrightarrow>
        sys_new_mem_chain E tsk s \<noteq> None)"
proof -
  have main: "(\<forall>x t. sys_new_mem_chain E tsk s = Some (x, t) \<longrightarrow> system_ok t
      \<and> (\<forall>p. pg_chain (page_at t p) = pg_chain (page_at s p))
      \<and> ((\<exists>i < MAX_NUM_CHAINS. x = int i \<and> slots s tsk i = None \<and> (\<forall>j < i. slots s tsk j \<noteq> None)
            \<and> table t = (table s)(tsk := (table s tsk)(i \<mapsto> {})))
        \<or> x = - 2 \<and> t = s \<and> (\<forall>i < MAX_NUM_CHAINS. slots s tsk i \<noteq> None)))
    \<and> ((\<forall>x. k_chains x = k_chains s \<longrightarrow> kmalloc_chain E x \<noteq> None) \<longrightarrow>
        sys_new_mem_chain E tsk s \<noteq> None)"
    if sys: "system_ok s" and m: "k_task_mcc s tsk = Some m" for s m
  proof -
    from task_mcc [OF sys m] obtain r where r: "k_mccs s m = Some r" and ok: "mcc_ok (v_ids (view s)) r"
      and sl: "slots s tsk = (\<lambda>i. if i < MAX_NUM_CHAINS then mcc_chains r ! i else None)"
      by blast
    show ?thesis
    proof (cases "None \<in> set (mcc_chains r)")
      case False
      with mcc_okD(2) [OF ok] have "\<forall>i < MAX_NUM_CHAINS. slots s tsk i \<noteq> None"
        unfolding sl by (metis nth_mem)
      with new_full [OF sys m r False ok] sys show ?thesis by simp
    next
      case True
      from find_slot_ok [OF ok True] obtain i where
        i: "k__find_free_slot (mcc_chains r) (mcc_capacity r) = Some (int i)" "i < MAX_NUM_CHAINS"
          "mcc_chains r ! i = None" and first: "\<And>j. j < i \<Longrightarrow> mcc_chains r ! j \<noteq> None"
        by blast
      have "slots s tsk i = None" "\<forall>j < i. slots s tsk j \<noteq> None"
        using sl i(2,3) first by auto
      note i' = this
      show ?thesis
      proof (cases "k__new_mem_chain E i (s\<lparr>k_held := {MccLock m}\<rparr>)")
        case None
        with new_chain_total [of E "s\<lparr>k_held := {MccLock m}\<rparr>" i]
        have "kmalloc_chain E (s\<lparr>k_held := {MccLock m}\<rparr>) = None" by blast
        moreover have "k_chains (s\<lparr>k_held := {MccLock m}\<rparr>) = k_chains s" by simp
        ultimately have "\<not> (\<forall>x. k_chains x = k_chains s \<longrightarrow> kmalloc_chain E x \<noteq> None)" by blast
        with None show ?thesis
          unfolding new_eq [OF sys m r ok True i(1,2)] by simp
      next
        case (Some cu)
        obtain c u where cu: "cu = (c, u)" by (metis surj_pair)
        from created_ok [OF sys assms(2) m r i(2,3) Some [unfolded cu]] i' i(2) show ?thesis
          unfolding new_eq [OF sys m r ok True i(1,2)] Some cu by auto
      qed
    qed
  qed
  show ?thesis
  proof (cases "k_task_mcc s tsk")
    case (Some m)
    with main [OF assms(1) Some] show ?thesis by auto
  next
    case None
    then have run: "sys_new_mem_chain E tsk s = Option.bind (k__init_mcc E tsk s) (sys_new_mem_chain E tsk)"
      using init_mcc_ok(4) [OF assms None]
      by (cases "k__init_mcc E tsk s") (auto simp: sys_new_mem_chain_def)
    show ?thesis
    proof (cases "k__init_mcc E tsk s")
      case None
      then show ?thesis
        by (auto simp: run) (auto simp: k__init_mcc_def Let_def split: Option.bind_splits if_splits)
    next
      case (Some s1)
      note o = init_mcc_ok [OF assms \<open>k_task_mcc s tsk = None\<close> Some]
      from o(4) obtain m where m: "k_task_mcc s1 tsk = Some m" by auto
      have pg: "pg_chain (page_at s1 p) = pg_chain (page_at s p)" for p
        using o(3) by (simp add: page_at_def)
      have empty: "slots s tsk i = None" for i
        by (rule slots_None) fact
      then have "\<not> (\<forall>i < MAX_NUM_CHAINS. slots s tsk i \<noteq> None)"
        by (auto simp: MAX_NUM_CHAINS_def intro!: exI [of _ 0])
      with main [OF o(1) m] show ?thesis
        unfolding run Some slots_pages_table [OF o(2,3)] o(2,5) pg bind.bind_lunit by blast
    qed
  qed
qed

text \<open>The part of this that is left in the window of a fork.\<close>

lemma new_mem_chain_window:
  assumes "window_ok W s" and out: "tsk \<notin> W" and km: "kmalloc_ok E"
    and "sys_new_mem_chain E tsk s = Some (x, t)"
  shows "window_ok W t"
proof -
  have main: "window_ok W t" if sys: "window_ok W s" and m: "k_task_mcc s tsk = Some m"
    and run: "sys_new_mem_chain E tsk s = Some (x, t)" for s m
  proof -
    from task_mcc_w [OF sys out m] obtain r where r: "k_mccs s m = Some r" and ok: "mcc_ok (v_ids (view s)) r"
      by blast
    show ?thesis
    proof (cases "None \<in> set (mcc_chains r)")
      case False
      with new_full_w [OF sys m r False ok, of E] sys run show ?thesis by simp
    next
      case True
      from find_slot_ok [OF ok True] obtain i where
        i: "k__find_free_slot (mcc_chains r) (mcc_capacity r) = Some (int i)" "i < MAX_NUM_CHAINS"
          "mcc_chains r ! i = None" by blast
      from run [unfolded new_eq_w [OF sys m r ok True i(1,2)]] obtain c u where
        u: "k__new_mem_chain E i (s\<lparr>k_held := {MccLock m}\<rparr>) = Some (c, u)" "t = created m r i c u" by auto
      with created_ok_w(1) [OF sys km r i(2,3) u(1)] show ?thesis by simp
    qed
  qed
  show ?thesis
  proof (cases "k_task_mcc s tsk")
    case (Some m)
    show ?thesis by (rule main [OF assms(1) Some assms(4)])
  next
    case None
    with assms(4) obtain s1 where s1: "k__init_mcc E tsk s = Some s1"
      by (cases "k__init_mcc E tsk s") (auto simp: sys_new_mem_chain_def)
    note o = init_mcc_window [OF assms(1) out km None s1]
    from o(2) obtain m where m: "k_task_mcc s1 tsk = Some m" by auto
    with None assms(4) s1 have "sys_new_mem_chain E tsk s1 = Some (x, t)"
      by (simp add: sys_new_mem_chain_def)
    with main [OF o(1) m] show ?thesis by simp
  qed
qed

text \<open>
  C5. \<open>new_mem_chain\<close> opens the first unused descriptor of the calling task, among 0 to 254, with
  an empty chain and returns it; all other descriptors of all tasks keep their pages, and the
  system is in order again. A task with no unused descriptor gets -2 and nothing changes. The
  call returns when the kernel's allocator does not fail for it.
\<close>

theorem new_mem_chain_correct:
  assumes "system_ok s" and "kmalloc_ok E"
  shows "(\<forall>x t. sys_new_mem_chain E tsk s = Some (x, t) \<longrightarrow> system_ok t
      \<and> (\<forall>p. pg_chain (page_at t p) = pg_chain (page_at s p))
      \<and> ((\<exists>i < MAX_NUM_CHAINS. x = int i \<and> slots s tsk i = None \<and> (\<forall>j < i. slots s tsk j \<noteq> None)
            \<and> table t = (table s)(tsk := (table s tsk)(i \<mapsto> {})))
        \<or> x = - 2 \<and> t = s \<and> (\<forall>i < MAX_NUM_CHAINS. slots s tsk i \<noteq> None)))
    \<and> ((\<forall>x. (k_chains x = k_chains s \<longrightarrow> kmalloc_chain E x \<noteq> None)
          \<and> (k_mccs x = k_mccs s \<longrightarrow> kmalloc_mcc E x \<noteq> None \<and> kmalloc_array E x)) \<longrightarrow>
        sys_new_mem_chain E tsk s \<noteq> None)"
  using assms by (rule new_mem_chain_spec)

section \<open>Linking and anchoring keep the system in order\<close>

lemma page_inv_system:
  assumes "page_inv E s t" and "system_ok s"
  shows "system_ok t" "slots t = slots s"
  using assms by (auto simp: page_inv_def intro!: system_ok_same [of s t])

lemma page_inv_window: "page_inv E s t \<Longrightarrow> window_ok W s \<Longrightarrow> window_ok W t"
  by (auto simp: page_inv_def intro: window_ok_same [of W s t])

lemma window_page_inv: "window_ok W s \<Longrightarrow> env_ok E \<Longrightarrow> page_inv E s s"
  by (auto simp: env_ok_def window_ok_def intro: page_inv_refl)

lemma do_mlink_pages_window:
  assumes "window_ok W s" and "env_ok E" and "do_mlink_pages E ch a len anchor s = Some (n, t)"
  shows "window_ok W t"
proof -
  have "page_inv E s t"
    using do_mlink_pages_inv [OF assms(3)] window_page_inv [OF assms(1,2)] assms(2)
    by (simp add: env_ok_def)
  then show ?thesis by (rule page_inv_window) fact
qed

text \<open>An open descriptor leads both calls to \<open>do_mlink_pages\<close> with the locks released.\<close>

lemma link_eq_w:
  assumes "window_ok W s" and "tsk \<notin> W" and "slots s tsk c = Some ch"
  shows "sys_link_addr_rng E tsk c start len s =
    do_mlink_pages E ch (start AND PAGE_MASK E) (PAGE_ALIGN E (len + (start AND NOT (PAGE_MASK E)))) 0 s"
    and "sys_anchor E tsk c addr s =
      map_option (\<lambda>(n, t). (0, t)) (do_mlink_pages E ch (addr AND PAGE_MASK E)
        (PAGE_ALIGN E (PAGE_SIZE E + (addr AND NOT (PAGE_MASK E)))) (addr AND PAGE_MASK E) s)"
proof -
  from slot_live_w [OF assms] obtain m where m: "k_task_mcc s tsk = Some m" by auto
  from task_mcc_w [OF assms(1,2) m] assms(3) obtain r where
    r: "k_mccs s m = Some r" "lookup_chain c r = Some (Some ch)" by metis
  from m r window_okD(2) [OF assms(1)]
  show "sys_link_addr_rng E tsk c start len s =
    do_mlink_pages E ch (start AND PAGE_MASK E) (PAGE_ALIGN E (len + (start AND NOT (PAGE_MASK E)))) 0 s"
    by (simp add: sys_link_addr_rng_def mcc_at_def Let_def)
  from m r window_okD(2) [OF assms(1)]
  show "sys_anchor E tsk c addr s =
      map_option (\<lambda>(n, t). (0, t)) (do_mlink_pages E ch (addr AND PAGE_MASK E)
        (PAGE_ALIGN E (PAGE_SIZE E + (addr AND NOT (PAGE_MASK E)))) (addr AND PAGE_MASK E) s)"
    by (cases "do_mlink_pages E ch (addr AND PAGE_MASK E)
        (PAGE_ALIGN E (PAGE_SIZE E + (addr AND NOT (PAGE_MASK E)))) (addr AND PAGE_MASK E) s")
      (auto simp: sys_anchor_def mcc_at_def Let_def)
qed

lemmas link_eq = link_eq_w [where W = "{}", unfolded system_ok_window, OF _ no_window]

lemma link_window:
  assumes "window_ok W s" and "env_ok E" and "tsk \<notin> W"
  shows "sys_link_addr_rng E tsk c start len s = Some (x, t) \<Longrightarrow> window_ok W t"
    "sys_anchor E tsk c addr s = Some (x, t) \<Longrightarrow> window_ok W t"
  using no_chain_returns_w(3,4) [OF assms(1,3), of c] link_eq_w [OF assms(1,3), of c]
    do_mlink_pages_window [OF assms(1,2)] assms(1)
  by (cases "slots s tsk c"; auto)+

section \<open>Exit\<close>

text \<open>The state after the first \<open>i\<close> slots of the collection \<open>r\<close> of \<open>m\<close> have been torn down.\<close>

definition torn_down :: "kstate \<Rightarrow> mcc_ptr \<Rightarrow> memory_chain_collection \<Rightarrow> nat \<Rightarrow> kstate \<Rightarrow> bool" where
  "torn_down s m r i u \<longleftrightarrow> chains_ok (view u) \<and> k_held u = {} \<and> k_task_mcc u = k_task_mcc s
     \<and> k_mccs u = (k_mccs s)(m \<mapsto> r\<lparr>mcc_count := length (filter (\<lambda>x. x \<noteq> None) (drop i (mcc_chains r)))\<rparr>)
     \<and> v_ids (view u) = (\<lambda>c. if Some c \<in> set (take i (mcc_chains r)) then None else v_ids (view s) c)
     \<and> (\<forall>p. pg_chain (page_at u p) = (if pg_chain (page_at s p) \<noteq> None
          \<and> pg_chain (page_at s p) \<in> set (take i (mcc_chains r)) then None else pg_chain (page_at s p)))"

lemma exit_slot_step:
  assumes rok: "mcc_ok (v_ids (view s)) r" and i: "i < MAX_NUM_CHAINS" and u: "torn_down s m r i u"
  shows "\<exists>t. exit_slot m (mcc_chains r) i u = Some t \<and> torn_down s m r (Suc i) t"
proof -
  note d = mcc_okD [OF rok]
  have idrop: "drop i (mcc_chains r) = mcc_chains r ! i # drop (Suc i) (mcc_chains r)"
    and itake: "take (Suc i) (mcc_chains r) = take i (mcc_chains r) @ [mcc_chains r ! i]"
    using i d(2) by (simp_all add: Cons_nth_drop_Suc take_Suc_conv_app_nth)
  show ?thesis
  proof (cases "mcc_chains r ! i")
    case None
    with u i d(2) show ?thesis
      by (auto simp: exit_slot_def array_read_def torn_down_def idrop itake)
  next
    case (Some c)
    with d(4) [OF i] have idc: "v_ids (view s) c = Some i" by simp
    have new: "Some c \<notin> set (take i (mcc_chains r))"
    proof
      assume "Some c \<in> set (take i (mcc_chains r))"
      then obtain j where j: "j < i" "mcc_chains r ! j = Some c" by (auto simp: in_set_conv_nth)
      with i d(4) [of j c] idc show False by simp
    qed
    with u idc have "v_ids (view u) c = Some i" by (simp add: torn_down_def)
    then obtain ch where ch: "k_chains u c = Some ch" by (auto simp: v_ids_def)
    have ok: "chains_ok (view u)" and held: "k_held u = {}" using u by (simp_all add: torn_down_def)
    obtain w where w: "unlink_chain_fast c u = Some w"
      using unlink_chain_fast_total [OF ok ch] held by (auto simp: chain_unlocked_def)
    note f = unlink_chain_fast_refines [OF w ok]
    have chw: "k_chains w c \<noteq> None"
      using w by (auto simp: unlink_chain_fast_def spin_unlock_chain_def chain_at_def
          split: Option.bind_splits if_splits)
    define x where "x = w\<lparr>k_chains := (k_chains w)(c := None)\<rparr>"
    have mx: "k_mccs x = k_mccs u" "k_task_mcc x = k_task_mcc u" "k_held x = {}"
      using f held by (simp_all add: x_def same_rest_def)
    have vx: "view x = v_free c (v_clear False c (view u))"
      using f by (simp add: x_def)
    define t where "t = x\<lparr>k_mccs := (k_mccs x)(m \<mapsto> r\<lparr>mcc_count :=
      length (filter (\<lambda>x. x \<noteq> None) (drop (Suc i) (mcc_chains r)))\<rparr>)\<rparr>"
    have "exit_slot m (mcc_chains r) i u = Some t"
      using i d(2) Some ch w chw mx(1) u
      by (auto simp: exit_slot_def array_read_def chain_at_def kfree_chain_def x_def t_def
          torn_down_def idrop split: option.split)
    moreover have "torn_down s m r (Suc i) t"
    proof -
      have "chains_ok (view t)"
        unfolding t_def view_mccs vx by (intro chains_ok_free chains_ok_clear ok links_of_clear)
      moreover have "v_ids (view t) = (\<lambda>c'. if Some c' \<in> set (take (Suc i) (mcc_chains r)) then None
          else v_ids (view s) c')"
        using u Some by (auto simp: t_def vx torn_down_def itake)
      moreover have "pg_chain (page_at t p) = (if pg_chain (page_at s p) \<noteq> None
          \<and> pg_chain (page_at s p) \<in> set (take (Suc i) (mcc_chains r)) then None else pg_chain (page_at s p))" for p
      proof -
        have "pg_chain (page_at t p) = v_chain_of (view x) p"
          by (simp add: t_def)
        also have "\<dots> = (if pg_chain (page_at u p) = Some c then None else pg_chain (page_at u p))"
          using v_clear_chain_of [OF ok, of False c p] by (simp add: vx)
        finally show ?thesis
          using u Some by (auto simp: torn_down_def itake)
      qed
      ultimately show ?thesis
        using mx u by (simp add: torn_down_def t_def)
    qed
    ultimately show ?thesis by blast
  qed
qed

lemma five_steps:
  assumes "\<And>j s. i \<le> j \<Longrightarrow> j < i + 5 \<Longrightarrow> P j s \<Longrightarrow> \<exists>t. f j s = Some t \<and> P (Suc j) t" and "P i s"
  shows "\<exists>t. forK f [i, i + 1, i + 2, i + 3, i + 4] s = Some t \<and> P (i + 5) t"
proof -
  from assms(1) [of i, OF _ _ assms(2)] obtain s1 where 1: "f i s = Some s1" "P (i + 1) s1" by auto
  from assms(1) [of "i + 1", OF _ _ 1(2)] obtain s2 where 2: "f (i + 1) s1 = Some s2" "P (i + 2) s2" by auto
  from assms(1) [of "i + 2", OF _ _ 2(2)] obtain s3 where 3: "f (i + 2) s2 = Some s3" "P (i + 3) s3"
    by (auto simp: eval_nat_numeral)
  from assms(1) [of "i + 3", OF _ _ 3(2)] obtain s4 where 4: "f (i + 3) s3 = Some s4" "P (i + 4) s4"
    by (auto simp: eval_nat_numeral)
  from assms(1) [of "i + 4", OF _ _ 4(2)] obtain s5 where 5: "f (i + 4) s4 = Some s5" "P (i + 5) s5"
    by (auto simp: eval_nat_numeral)
  from 1(1) 2(1) 3(1) 4(1) 5 show ?thesis by simp
qed

text \<open>When the count is 0 the remaining slots are empty, so stopping early loses nothing.\<close>

lemma torn_down_rest:
  assumes "torn_down s m r i u" and "mcc_ok ids r"
    and "MAX_NUM_CHAINS \<le> i \<or> filter (\<lambda>x. x \<noteq> None) (drop i (mcc_chains r)) = []"
  shows "torn_down s m r MAX_NUM_CHAINS u"
proof (cases "MAX_NUM_CHAINS \<le> i")
  case False
  with assms(3) have none: "\<forall>x \<in> set (drop i (mcc_chains r)). x = None"
    by (auto simp: filter_empty_conv)
  have "set (mcc_chains r) = set (take i (mcc_chains r)) \<union> set (drop i (mcc_chains r))"
    by (metis append_take_drop_id set_append)
  with none have "Some c \<in> set (mcc_chains r) \<longleftrightarrow> Some c \<in> set (take i (mcc_chains r))" for c
    by auto
  moreover have "filter (\<lambda>x. x \<noteq> None) (drop i (mcc_chains r)) = []"
    using none by (simp add: filter_empty_conv)
  ultimately show ?thesis
    using assms(1) mcc_okD(2) [OF assms(2)] by (auto simp: torn_down_def)
qed (use assms mcc_okD(2) [OF assms(2)] in \<open>simp add: torn_down_def\<close>)

lemma exit_loop_done:
  assumes rok: "mcc_ok (v_ids (view s)) r"
  shows "torn_down s m r i u \<Longrightarrow> 5 dvd i \<Longrightarrow> i \<le> MAX_NUM_CHAINS \<Longrightarrow>
    \<exists>t. exit_loop m (mcc_chains r) (mcc_capacity r) i u = Some t \<and> torn_down s m r MAX_NUM_CHAINS t"
proof (induction "MAX_NUM_CHAINS - i" arbitrary: i u rule: less_induct)
  case less
  note d = mcc_okD [OF rok]
  let ?n = "length (filter (\<lambda>x. x \<noteq> None) (drop i (mcc_chains r)))"
  from less.prems(1) have mu: "mcc_at u m = Some (r\<lparr>mcc_count := ?n\<rparr>)"
    by (simp add: torn_down_def mcc_at_def)
  show ?case
  proof (cases "i < MAX_NUM_CHAINS \<and> 0 < ?n")
    case False
    then have "torn_down s m r MAX_NUM_CHAINS u"
      by (intro torn_down_rest [OF less.prems(1) rok]) auto
    with False mu d(1) show ?thesis
      by (subst exit_loop.simps) auto
  next
    case True
    have "i + 5 \<le> MAX_NUM_CHAINS"
      using True less.prems(2) by (auto simp: MAX_NUM_CHAINS_def elim!: dvdE)
    obtain t where t: "forK (exit_slot m (mcc_chains r)) [i, i + 1, i + 2, i + 3, i + 4] u = Some t"
      "torn_down s m r (i + 5) t"
      using five_steps [where P = "torn_down s m r" and f = "exit_slot m (mcc_chains r)" and i = i and s = u]
        exit_slot_step [OF rok] less.prems(1) \<open>i + 5 \<le> MAX_NUM_CHAINS\<close> by auto
    have "\<exists>t'. exit_loop m (mcc_chains r) (mcc_capacity r) (i + 5) t = Some t'
        \<and> torn_down s m r MAX_NUM_CHAINS t'"
      by (rule less.hyps) (use t(2) less.prems(2) \<open>i + 5 \<le> MAX_NUM_CHAINS\<close> in auto)
    with True t(1) mu d(1) show ?thesis
      by (subst exit_loop.simps) simp
  qed
qed

lemma exit_mcc_run:
  assumes "chains_ok (view s)" and "k_held s = {}" and rok: "mcc_ok (v_ids (view s)) r"
    and m: "k_task_mcc s tsk = Some m" and r: "k_mccs s m = Some r"
  shows "\<exists>u. torn_down s m r MAX_NUM_CHAINS u
    \<and> exit_mcc tsk s = Some (u\<lparr>k_mccs := (k_mccs s)(m := None), k_task_mcc := (k_task_mcc s)(tsk := None)\<rparr>)"
proof -
  note d = mcc_okD [OF rok]
  have "torn_down s m r 0 s"
    using assms d(3) by (auto simp: torn_down_def)
  then obtain u where u: "(if mcc_count r > 0 then exit_loop m (mcc_chains r) (mcc_capacity r) 0 s else Some s) = Some u"
    "torn_down s m r MAX_NUM_CHAINS u"
    using exit_loop_done [OF rok, of m 0 s] torn_down_rest [OF _ rok, of s m 0 s] d(3)
    by (cases "mcc_count r > 0") auto
  then have "k_mccs u m \<noteq> None" "(k_mccs u)(m := None) = (k_mccs s)(m := None)" "k_task_mcc u = k_task_mcc s"
    by (simp_all add: torn_down_def)
  with u(1) m r have "exit_mcc tsk s =
      Some (u\<lparr>k_mccs := (k_mccs s)(m := None), k_task_mcc := (k_task_mcc s)(tsk := None)\<rparr>)"
    by (auto simp: exit_mcc_def mcc_at_def kfree_mcc_def split: option.split)
  with u(2) show ?thesis by blast
qed

lemma exit_mcc_spec:
  assumes "system_ok s"
  shows "\<exists>t. exit_mcc tsk s = Some t \<and> system_ok t
    \<and> table t = (table s)(tsk := (\<lambda>_. None)) \<and> k_task_mcc t tsk = None
    \<and> (\<forall>i c. slots s tsk i = Some c \<longrightarrow> k_chains t c = None)
    \<and> (\<forall>p. pg_chain (page_at t p) =
        (if \<exists>i c. slots s tsk i = Some c \<and> pg_chain (page_at s p) = Some c then None else pg_chain (page_at s p)))"
proof (cases "k_task_mcc s tsk")
  case None
  then have "table s = (table s)(tsk := (\<lambda>_. None))"
    by (intro ext) (simp add: table_def slots_None)
  with None assms show ?thesis
    by (auto simp: exit_mcc_def slots_None)
next
  case (Some m)
  from task_mcc [OF assms Some] obtain r where r: "k_mccs s m = Some r" and rok: "mcc_ok (v_ids (view s)) r"
    and sl: "slots s tsk = (\<lambda>i. if i < MAX_NUM_CHAINS then mcc_chains r ! i else None)"
    by blast
  from exit_mcc_run [OF system_okD(1,2) [OF assms] rok Some r] obtain u where u: "torn_down s m r MAX_NUM_CHAINS u"
    and run: "exit_mcc tsk s =
      Some (u\<lparr>k_mccs := (k_mccs s)(m := None), k_task_mcc := (k_task_mcc s)(tsk := None)\<rparr>)"
    by blast
  define t where "t = u\<lparr>k_mccs := (k_mccs s)(m := None), k_task_mcc := (k_task_mcc s)(tsk := None)\<rparr>"
  have all: "take MAX_NUM_CHAINS (mcc_chains r) = mcc_chains r"
    using mcc_okD(2) [OF rok] by simp
  have mem: "Some c \<in> set (mcc_chains r) \<longleftrightarrow> (\<exists>i. slots s tsk i = Some c)" for c
    using mcc_okD(2) [OF rok] by (auto simp: sl in_set_conv_nth)
  have vt: "view t = view u" by (simp add: t_def)
  have ids: "v_ids (view t) = (\<lambda>c. if Some c \<in> set (mcc_chains r) then None else v_ids (view s) c)"
    using u all by (simp add: vt torn_down_def)
  have pg: "pg_chain (page_at t p) = (if \<exists>i c. slots s tsk i = Some c \<and> pg_chain (page_at s p) = Some c
      then None else pg_chain (page_at s p))" for p
  proof (cases "pg_chain (page_at s p)")
    case (Some c)
    with u all mem [of c] show ?thesis by (simp add: t_def torn_down_def)
  qed (use u all in \<open>simp add: t_def torn_down_def\<close>)
  have sys: "system_ok t"
    using colls_ok_exit [OF system_okD(3) [OF assms] Some r] ids u
    by (simp add: system_ok_def vt torn_down_def) (simp add: t_def)
  have "k_chains t c = None" if "slots s tsk i = Some c" for i c
  proof -
    from that mem have "v_ids (view t) c = None" by (auto simp: ids)
    then show ?thesis by (simp add: v_ids_def)
  qed
  moreover have "table t = (table s)(tsk := (\<lambda>_. None))"
  proof (intro ext)
    fix tsk' i
    show "table t tsk' i = ((table s)(tsk := (\<lambda>_. None))) tsk' i"
    proof (cases "tsk' = tsk")
      case True
      then show ?thesis by (simp add: table_def slots_def t_def)
    next
      case False
      have "k_task_mcc s tsk' \<noteq> Some m"
        using colls_okD(3) [OF system_okD(3) [OF assms], of tsk' m tsk] Some False by blast
      with False have eq: "slots t tsk' i = slots s tsk' i"
        by (simp add: slots_def t_def split: option.split)
      have "chain_pages t c = chain_pages s c" if "slots s tsk' i = Some c" for c
        using slots_inj [OF assms that] False by (auto simp: chain_pages_def pg)
      with False eq show ?thesis by (cases "slots s tsk' i") (simp_all add: table_def)
    qed
  qed
  moreover have "k_task_mcc t tsk = None" by (simp add: t_def)
  ultimately show ?thesis
    using run [folded t_def] sys pg by blast
qed

lemma exit_mcc_window:
  assumes "window_ok W s" and out: "tsk \<notin> W" and "exit_mcc tsk s = Some t"
  shows "window_ok W t"
proof (cases "k_task_mcc s tsk")
  case None
  with assms(1,3) show ?thesis by (simp add: exit_mcc_def)
next
  case (Some m)
  from task_mcc_w [OF assms(1) out Some] obtain r where r: "k_mccs s m = Some r" and rok: "mcc_ok (v_ids (view s)) r"
    by blast
  from exit_mcc_run [OF window_okD(1,2) [OF assms(1)] rok Some r] assms(3) obtain u where
    u: "torn_down s m r MAX_NUM_CHAINS u"
    and t: "t = u\<lparr>k_mccs := (k_mccs s)(m := None), k_task_mcc := (k_task_mcc s)(tsk := None)\<rparr>"
    by auto
  have all: "take MAX_NUM_CHAINS (mcc_chains r) = mcc_chains r"
    using mcc_okD(2) [OF rok] by simp
  have vt: "view t = view u" by (simp add: t)
  have "(k_task_mcc s |` (- W)) tsk = Some m" using Some out by simp
  from colls_ok_exit [OF window_okD(3) [OF assms(1)] this r] u all
  have "colls_ok (v_ids (view t)) (k_mccs t) (k_task_mcc t |` (- W))"
    by (simp add: vt torn_down_def) (simp add: t restrict_out_upd [OF out] del: restrict_fun_upd)
  with u show ?thesis by (simp add: window_ok_def vt torn_down_def) (simp add: t)
qed

text \<open>
  C3. The exit of a task always returns: it frees every chain of the task's collection and the
  collection, takes exactly the pages of those chains off them, leaves the descriptors of all
  other tasks with their pages, and the system in order. Stopping as soon as the count is 0, and
  the steps of five slots, lose no chain.
\<close>

theorem exit_releases_all:
  assumes "system_ok s"
  shows "\<exists>t. exit_mcc tsk s = Some t \<and> system_ok t
    \<and> table t = (table s)(tsk := (\<lambda>_. None)) \<and> k_task_mcc t tsk = None
    \<and> (\<forall>i c. slots s tsk i = Some c \<longrightarrow> k_chains t c = None)
    \<and> (\<forall>p. pg_chain (page_at t p) =
        (if \<exists>i c. slots s tsk i = Some c \<and> pg_chain (page_at s p) = Some c then None else pg_chain (page_at s p)))"
  using assms by (rule exit_mcc_spec)

section \<open>Fork\<close>

text \<open>
  C2. The child runs before \<open>do_fork\<close> resets its copy of the collection pointer. When it exits
  in that window (for \<open>vfork\<close> the reset comes only after it has exited or called exec), its exit
  returns and frees the collection of the parent, which is left with a pointer to freed memory:
  every later system call of the parent on its chains faults, and all its pages are off their
  chains.
\<close>

theorem fork_window_use_after_free:
  assumes "system_ok s" and "k_task_mcc s parent = Some m" and "child \<noteq> parent"
  shows "\<exists>t. exit_mcc child (fork_copy_mcc parent child s) = Some t
    \<and> k_task_mcc t parent = Some m \<and> k_mccs t m = None
    \<and> (\<forall>p i c. slots s parent i = Some c \<longrightarrow> k_chains t c = None \<and> pg_chain (page_at t p) \<noteq> Some c)
    \<and> sys_new_mem_chain E parent t = None \<and> exit_mcc parent t = None
    \<and> (\<forall>c. sys_rls_mem_chain E parent c t = None \<and> sys_brk_mem_chain E parent c t = None)
    \<and> (\<forall>c start len. sys_link_addr_rng E parent c start len t = None \<and> sys_anchor E parent c start t = None)"
proof -
  let ?s = "fork_copy_mcc parent child s"
  from task_mcc [OF assms(1,2)] obtain r where r: "k_mccs s m = Some r" and rok: "mcc_ok (v_ids (view s)) r"
    and sl: "slots s parent = (\<lambda>i. if i < MAX_NUM_CHAINS then mcc_chains r ! i else None)"
    by blast
  have v: "view ?s = view s" "k_held ?s = {}" "k_task_mcc ?s child = Some m" "k_mccs ?s m = Some r"
    "k_task_mcc ?s parent = Some m"
    using assms r system_okD(2) [OF assms(1)] by (simp_all add: fork_copy_mcc_def)
  from exit_mcc_run [of ?s r child m] v rok system_okD(1) [OF assms(1)] obtain u where
    u: "torn_down ?s m r MAX_NUM_CHAINS u"
    and run: "exit_mcc child ?s =
      Some (u\<lparr>k_mccs := (k_mccs ?s)(m := None), k_task_mcc := (k_task_mcc ?s)(child := None)\<rparr>)"
    by auto
  define t where "t = u\<lparr>k_mccs := (k_mccs ?s)(m := None), k_task_mcc := (k_task_mcc ?s)(child := None)\<rparr>"
  have all: "take MAX_NUM_CHAINS (mcc_chains r) = mcc_chains r"
    using mcc_okD(2) [OF rok] by simp
  have own: "k_task_mcc t parent = Some m" and gone: "k_mccs t m = None"
    using v(5) assms(3) by (auto simp: t_def)
  have "k_chains t c = None \<and> pg_chain (page_at t p) \<noteq> Some c" if "slots s parent i = Some c" for p i c
  proof -
    from that mcc_okD(2) [OF rok] have mem: "Some c \<in> set (mcc_chains r)"
      unfolding sl by (metis nth_mem option.distinct(1))
    with u all have "v_ids (view u) c = None" "pg_chain (page_at u p) \<noteq> Some c"
      by (auto simp: torn_down_def)
    then show ?thesis by (simp add: v_ids_def t_def)
  qed
  moreover have "sys_new_mem_chain E parent t = None \<and> exit_mcc parent t = None
    \<and> (\<forall>c. sys_rls_mem_chain E parent c t = None \<and> sys_brk_mem_chain E parent c t = None)
    \<and> (\<forall>c start len. sys_link_addr_rng E parent c start len t = None \<and> sys_anchor E parent c start t = None)"
    using own gone by (simp add: sys_new_mem_chain_def sys_rls_mem_chain_def sys_brk_mem_chain_def
        sys_link_addr_rng_def sys_anchor_def exit_mcc_def mcc_at_def)
  ultimately show ?thesis
    using run [folded t_def] own gone by blast
qed

section \<open>The whole system\<close>

text \<open>
  The system calls of a task outside its fork window keep the invariant, whichever children are in
  theirs.
\<close>

lemma brk_window:
  assumes "window_ok W s" and "mlock_quiet E" and out: "tsk \<notin> W" and "sys_brk_mem_chain E tsk c s = Some (x, t)"
  shows "window_ok W t"
proof (cases "slots s tsk c")
  case None
  with no_chain_returns_w(1) [OF assms(1) out None] assms show ?thesis by simp
next
  case (Some ch)
  from slot_live_w [OF assms(1) out Some] obtain m where m: "k_task_mcc s tsk = Some m" by auto
  from assms(4) [unfolded brk_eq_w [OF assms(1) out m Some]] obtain u where
    u: "k__unlink_chain E ch (s\<lparr>k_held := {ChainLock ch, MccLock m}\<rparr>) = Some u" "t = u\<lparr>k_held := {}\<rparr>"
    by (rule brk_cases) (use window_okD(1) [OF assms(1)] assms(2) in auto)
  note o = unlink_open_chain [OF window_okD(1) [OF assms(1)] assms(2) u(1)]
  show ?thesis
    by (rule window_ok_same [OF assms(1)])
      (use o u(2) window_okD(2) [OF assms(1)] in \<open>simp_all add: same_rest_def\<close>)
qed

lemma rls_window:
  assumes "window_ok W s" and "mlock_quiet E" and out: "tsk \<notin> W" and "sys_rls_mem_chain E tsk c s = Some (x, t)"
  shows "window_ok W t"
proof (cases "slots s tsk c")
  case None
  with no_chain_returns_w(2) [OF assms(1) out None] assms show ?thesis by simp
next
  case (Some ch)
  from slot_live_w [OF assms(1) out Some] obtain m where m: "k_task_mcc s tsk = Some m" by auto
  from task_mcc_w [OF assms(1) out m] obtain r where r: "k_mccs s m = Some r" by blast
  from assms(4) [unfolded rls_eq_w [OF assms(1) out assms(2) m r Some]] show ?thesis
    by (auto intro: released_ok_w(1) [OF assms(1) out assms(2) m r Some])
qed

lemma hate_window:
  assumes "window_ok W s" and "env_ok E" and "sys_hate E a len s = Some (x, t)"
  shows "window_ok W t"
proof (rule page_inv_window [OF sys_hate_inv [OF assms(3)] assms(1)])
  show "fault_ok E" "page_inv E s s"
    using assms(1,2) by (simp_all add: env_ok_def window_page_inv [unfolded env_ok_def])
qed

lemma memory_window:
  "window_ok W s \<Longrightarrow> env_ok E \<Longrightarrow> page_step E s t \<Longrightarrow> window_ok W t"
  by (rule page_inv_window [OF page_step_inv]) (auto intro: window_page_inv)

lemma fork_copy_window:
  assumes "window_ok W s" and "child \<notin> W" and "k_task_mcc s child = None"
  shows "window_ok (insert child W) (fork_copy_mcc parent child s)"
proof -
  have "(k_task_mcc s)(child := k_task_mcc s parent) |` (- insert child W) = k_task_mcc s |` (- W)"
    using assms(3) by (auto simp: restrict_map_def fun_eq_iff)
  with assms(1) show ?thesis by (simp add: window_ok_def fork_copy_mcc_def)
qed

lemma fork_reset_window:
  assumes "window_ok W s" and "child \<in> W"
  shows "window_ok (W - {child}) (fork_reset_mcc child s)"
proof -
  have "(k_task_mcc s)(child := None) |` (- (W - {child})) = k_task_mcc s |` (- W)"
    using assms(2) by (auto simp: restrict_map_def fun_eq_iff)
  with assms(1) show ?thesis by (simp add: window_ok_def fork_reset_mcc_def)
qed

text \<open>
  One step of the system, with the set \<open>W\<close> of the children that are between the two halves of their
  fork: a system call of a task that returns, the exit of a task, the first or the second half of a
  fork, or a step of the memory manager between calls. Any other steps may come between the halves
  of a fork, the exit of the parent included. The child itself, and that alone, does nothing with
  chains before its pointer is reset: it makes no call on them, does not exit and does not fork.
\<close>

inductive mcpq_step :: "kenv \<Rightarrow> task_ptr set \<times> kstate \<Rightarrow> task_ptr set \<times> kstate \<Rightarrow> bool" for E where
  new: "tsk \<notin> W \<Longrightarrow> sys_new_mem_chain E tsk s = Some (x, t) \<Longrightarrow> mcpq_step E (W, s) (W, t)"
| attr: "sys_set_mem_chain_attr c a s = Some (x, t) \<Longrightarrow> mcpq_step E (W, s) (W, t)"
| link: "tsk \<notin> W \<Longrightarrow> sys_link_addr_rng E tsk c start len s = Some (x, t) \<Longrightarrow> mcpq_step E (W, s) (W, t)"
| unlink: "sys_unlink_addr_rng c start len s = Some (x, t) \<Longrightarrow> mcpq_step E (W, s) (W, t)"
| anchor: "tsk \<notin> W \<Longrightarrow> sys_anchor E tsk c addr s = Some (x, t) \<Longrightarrow> mcpq_step E (W, s) (W, t)"
| brk: "tsk \<notin> W \<Longrightarrow> sys_brk_mem_chain E tsk c s = Some (x, t) \<Longrightarrow> mcpq_step E (W, s) (W, t)"
| rls: "tsk \<notin> W \<Longrightarrow> sys_rls_mem_chain E tsk c s = Some (x, t) \<Longrightarrow> mcpq_step E (W, s) (W, t)"
| hate: "sys_hate E start len s = Some (x, t) \<Longrightarrow> mcpq_step E (W, s) (W, t)"
| exit: "tsk \<notin> W \<Longrightarrow> exit_mcc tsk s = Some t \<Longrightarrow> mcpq_step E (W, s) (W, t)"
| fork_copy: "parent \<notin> W \<Longrightarrow> child \<notin> W \<Longrightarrow> k_task_mcc s child = None \<Longrightarrow>
    mcpq_step E (W, s) (insert child W, fork_copy_mcc parent child s)"
| fork_reset: "child \<in> W \<Longrightarrow> mcpq_step E (W, s) (W - {child}, fork_reset_mcc child s)"
| memory: "page_step E s t \<Longrightarrow> mcpq_step E (W, s) (W, t)"

inductive_cases mcpq_stepE: "mcpq_step E Ws Wt"

lemma mcpq_step_window:
  assumes "mcpq_step E Ws Wt" and "env_ok E" and "window_ok (fst Ws) (snd Ws)"
  shows "window_ok (fst Wt) (snd Wt)"
proof -
  have mq: "mlock_quiet E" and km: "kmalloc_ok E" using assms(2) by (simp_all add: env_ok_def)
  from assms(1,3) show ?thesis
    by cases (auto intro: new_mem_chain_window [OF _ _ km] link_window [OF _ assms(2)] brk_window [OF _ mq]
        rls_window [OF _ mq] hate_window [OF _ assms(2)] exit_mcc_window memory_window [OF _ assms(2)]
        fork_copy_window fork_reset_window simp: sys_set_mem_chain_attr_def sys_unlink_addr_rng_def)
qed

interpretation mcpq: stable_system "mcpq_step E" "\<lambda>Ws. env_ok E \<and> window_ok (fst Ws) (snd Ws)"
  by unfold_locales (auto intro: mcpq_step_window)

text \<open>What the invariant means for pages and descriptors.\<close>

lemma live_chain_slot:
  assumes "window_ok W s" and "k_chains s c = Some ch"
  shows "\<exists>tsk. tsk \<notin> W \<and> slots s tsk (mc_id ch) = Some c"
proof -
  note d = colls_okD [OF window_okD(3) [OF assms(1)]]
  have id: "v_ids (view s) c = Some (mc_id ch)" using assms(2) by (simp add: v_ids_def)
  from d(6) [OF this] obtain m r where r: "k_mccs s m = Some r" "Some c \<in> set (mcc_chains r)" by blast
  from d(4) [OF r(1)] obtain tsk where m: "tsk \<notin> W" "k_task_mcc s tsk = Some m"
    by (auto simp: restrict_map_def split: if_splits)
  from r(2) obtain i where "i < MAX_NUM_CHAINS" "mcc_chains r ! i = Some c" "v_ids (view s) c = Some i"
    by (rule mcc_ok_slot [OF d(1) [OF r(1)]])
  with id m r(1) mcc_okD(2) [OF d(1) [OF r(1)]] have "slots s tsk (mc_id ch) = Some c"
    by (simp add: slots_def)
  with m(1) show ?thesis by blast
qed

lemma links_chain_pages:
  assumes "chains_ok (view s)" and "k_chains s c = Some ch"
  shows "set (mc_links ch) = chain_pages s c"
  using links_of_iff [OF assms(1), of _ c] assms(2)
  by (auto simp: chain_pages_def links_of_def)

text \<open>A system just booted: no chains, no collections, no locks.\<close>

definition booted :: "kstate \<Rightarrow> bool" where
  "booted s \<longleftrightarrow> k_chains s = Map.empty \<and> k_mccs s = Map.empty \<and> k_task_mcc s = Map.empty
     \<and> k_held s = {} \<and> (\<forall>p. pg_chain (page_at s p) = None)"

lemma booted_ok: "booted s \<Longrightarrow> system_ok s"
  by (simp add: booted_def system_ok_def chains_ok_def colls_ok_def v_ids_def)

text \<open>
  C1. After any sequence of system calls of any tasks, exits, both halves of forks in any order with
  the other steps, page faults, accesses and page frees, starting from a booted system, in which no
  child uses its copy of its parent's pointer before it is reset (\<open>W\<close> are the children still to be
  reset; what such a use does is C2): a page's chain pointer leads to a live chain that has the page
  on its list and is open in a descriptor of some task outside \<open>W\<close>; the lists, lengths and
  identifiers of all chains are right and their counters, while below \<open>2 ^ 31\<close>, bound the referenced
  pages; no page is in two descriptors of such tasks; and no lock is held between calls.
\<close>

theorem mcpq_safe:
  assumes "booted s" and "(mcpq_step E)\<^sup>*\<^sup>* ({}, s) (W, t)" and "env_ok E"
  shows "(\<forall>p c. pg_chain (page_at t p) = Some c \<longrightarrow>
        (\<exists>ch tsk. k_chains t c = Some ch \<and> p \<in> set (mc_links ch) \<and> tsk \<notin> W \<and> slots t tsk (mc_id ch) = Some c))
    \<and> (\<forall>c ch. k_chains t c = Some ch \<longrightarrow> distinct (mc_links ch)
        \<and> set (mc_links ch) = chain_pages t c \<and> mc_nr_links ch = int (card (chain_pages t c))
        \<and> (mc_ref_counter ch < 2 ^ 31 \<longrightarrow>
            int (card {p \<in> chain_pages t c. k__PageReferenced p t}) \<le> atomic_read (mc_ref_counter ch)))
    \<and> (\<forall>tsk i tsk' j P Q. tsk \<notin> W \<longrightarrow> tsk' \<notin> W \<longrightarrow> table t tsk i = Some P \<longrightarrow> table t tsk' j = Some Q \<longrightarrow>
        (tsk, i) \<noteq> (tsk', j) \<longrightarrow> P \<inter> Q = {})
    \<and> k_held t = {}"
proof -
  have sys: "window_ok W t"
    using mcpq.steps_inv [OF assms(2)] booted_ok [OF assms(1)] assms(3) by (simp add: system_ok_window)
  note ok = window_okD(1) [OF sys]
  have "\<exists>ch tsk. k_chains t c = Some ch \<and> p \<in> set (mc_links ch) \<and> tsk \<notin> W \<and> slots t tsk (mc_id ch) = Some c"
    if "pg_chain (page_at t p) = Some c" for p c
    using chains_ok_ex [OF ok, of p c] live_chain_slot [OF sys, of c] that by auto
  moreover have "distinct (mc_links ch) \<and> set (mc_links ch) = chain_pages t c
      \<and> mc_nr_links ch = int (card (chain_pages t c))
      \<and> (mc_ref_counter ch < 2 ^ 31 \<longrightarrow>
          int (card {p \<in> chain_pages t c. k__PageReferenced p t}) \<le> atomic_read (mc_ref_counter ch))"
    if c: "k_chains t c = Some ch" for c ch
  proof -
    note d = chains_okD [OF ok, of c ch]
    have set: "chain_pages t c = set (mc_links ch)"
      using links_chain_pages [OF ok c] by simp
    have "{p \<in> chain_pages t c. k__PageReferenced p t} = set (filter (v_ref (view t)) (mc_links ch))"
      by (auto simp: set)
    then have "card {p \<in> chain_pages t c. k__PageReferenced p t} = length (filter (v_ref (view t)) (mc_links ch))"
      using d(1) c by (simp only: distinct_card distinct_filter view_sel)
    with d c have low: "int (card {p \<in> chain_pages t c. k__PageReferenced p t}) \<le> mc_ref_counter ch" by simp
    then have "0 \<le> mc_ref_counter ch" by simp
    then have "atomic_read (mc_ref_counter ch) = mc_ref_counter ch" if "mc_ref_counter ch < 2 ^ 31"
      using that by (intro atomic_read_small) simp_all
    with low d c show ?thesis
      by (simp add: set distinct_card del: view_sel(3))
  qed
  moreover have "P \<inter> Q = {}"
    if "tsk \<notin> W" "tsk' \<notin> W" "table t tsk i = Some P" "table t tsk' j = Some Q" "(tsk, i) \<noteq> (tsk', j)"
    for tsk i tsk' j P Q
    using that slots_inj_w [OF sys, of tsk tsk' i _ j] by (fastforce simp: table_def chain_pages_def)
  ultimately show ?thesis
    using window_okD(2) [OF sys] by blast
qed

section \<open>The theorems on the small machine\<close>

lemma find_Some: "find P xs = Some x \<Longrightarrow> P x"
  by (induction xs) (auto split: if_splits)

lemma sample_env_ok: "env_ok sample_env"
  unfolding env_ok_def
proof (intro conjI)
  show "mlock_quiet sample_env" by (rule sample_mlock_quiet)
  show "fault_ok sample_env" by (simp add: fault_ok_def sample_env_def)
  show "kmalloc_ok sample_env" by (auto simp: kmalloc_ok_def sample_env_def dest: find_Some)
qed

lemma sample_booted: "booted sample_state"
  by (simp add: booted_def sample_state_def sample_page_def page_at_def)

lemma linked_system_ok: "system_ok linked_state"
proof -
  have "colls_ok Map.empty Map.empty Map.empty"
    by (simp add: colls_ok_def)
  from colls_ok_init [OF this, of 1 1] have 1: "colls_ok Map.empty [1 \<mapsto> empty_mcc] [1 \<mapsto> 1]"
    by simp
  have "colls_ok [1 \<mapsto> 0] ([1 \<mapsto> empty_mcc](1 \<mapsto> fill_slot 0 1 empty_mcc)) [1 \<mapsto> 1]"
    by (rule colls_ok_fill [OF 1]) (simp_all add: MAX_NUM_CHAINS_def empty_mcc_def)
  moreover have "v_ids (view linked_state) = [1 \<mapsto> 0]"
    by (auto simp: v_ids_def linked_state_def)
  moreover have "k_mccs linked_state = [1 \<mapsto> fill_slot 0 1 empty_mcc]"
    by (simp add: linked_state_def fill_slot_def empty_mcc_def MAX_NUM_CHAINS_def)
  moreover have "k_task_mcc linked_state = [1 \<mapsto> 1]"
    by (simp add: linked_state_def)
  ultimately show ?thesis
    using linked_chains_ok linked_state_sel(3) by (simp add: system_ok_def)
qed

lemma linked_slots: "slots linked_state 1 0 = Some 1" "slots linked_state 2 i = None"
  by (simp_all add: slots_def linked_state_def)

lemma linked_anchor: "k_chains linked_state 1 = Some x \<Longrightarrow> mc_anchor x = None"
  by (auto simp: linked_state_def)

theorem brk_mem_chain_correct_witness:
  "\<exists>t. sys_brk_mem_chain sample_env 1 0 linked_state = Some (0, t) \<and> system_ok t
     \<and> table t 1 0 = Some {} \<and> pg_chain (page_at t 7) = None"
proof -
  note c = brk_mem_chain_correct [OF linked_system_ok sample_mlock_quiet, of 1 0,
      THEN conjunct2, rule_format, OF linked_slots(1)]
  from c linked_anchor obtain x t where "sys_brk_mem_chain sample_env 1 0 linked_state = Some (x, t)"
    by auto
  with c show ?thesis
    by (auto simp: linked_state_sel)
qed

theorem rls_mem_chain_correct_witness:
  "\<exists>t. sys_rls_mem_chain sample_env 1 0 linked_state = Some (0, t) \<and> system_ok t
     \<and> table t 1 0 = None \<and> k_chains t 1 = None"
proof -
  note c = rls_mem_chain_correct [OF linked_system_ok sample_mlock_quiet, of 1 0,
      THEN conjunct2, rule_format, OF linked_slots(1)]
  from c linked_anchor obtain x t where "sys_rls_mem_chain sample_env 1 0 linked_state = Some (x, t)"
    by auto
  with c show ?thesis
    by auto
qed

lemma sample_kmalloc:
  "k_chains x 1 = None \<or> k_chains x 2 = None \<Longrightarrow> kmalloc_chain sample_env x \<noteq> None"
  "k_mccs x 1 = None \<or> k_mccs x 2 = None \<Longrightarrow> kmalloc_mcc sample_env x \<noteq> None"
  "kmalloc_array sample_env x"
  by (auto simp: sample_env_def find_None_iff intro: exI [of _ 1] exI [of _ 2])

theorem new_mem_chain_correct_witness:
  "\<exists>t. sys_new_mem_chain sample_env 2 linked_state = Some (0, t) \<and> system_ok t
     \<and> table t 2 0 = Some {}"
proof -
  have km: "kmalloc_ok sample_env" using sample_env_ok by (simp add: env_ok_def)
  have free: "k_chains linked_state 2 = None" "k_mccs linked_state 2 = None"
    by (simp_all add: linked_state_def)
  note c = new_mem_chain_correct [OF linked_system_ok km, of 2]
  from c [THEN conjunct2] free have "sys_new_mem_chain sample_env 2 linked_state \<noteq> None"
    using sample_kmalloc by metis
  then obtain x t where run: "sys_new_mem_chain sample_env 2 linked_state = Some (x, t)" by auto
  have "(0 :: nat) < MAX_NUM_CHAINS" by (simp add: MAX_NUM_CHAINS_def)
  with c [THEN conjunct1, rule_format, OF run] linked_slots(2) run show ?thesis
    by (auto simp: not_less dest: spec [of _ 0])
qed

theorem exit_releases_all_witness:
  "\<exists>t. exit_mcc 1 linked_state = Some t \<and> system_ok t \<and> k_chains t 1 = None
     \<and> pg_chain (page_at t 7) = None"
  using exit_releases_all [OF linked_system_ok, of 1] linked_slots(1)
  by (fastforce simp: linked_state_sel)

theorem fork_window_use_after_free_witness:
  "\<exists>t. exit_mcc 5 (fork_copy_mcc 1 5 linked_state) = Some t
     \<and> k_task_mcc t 1 = Some 1 \<and> k_mccs t 1 = None \<and> sys_new_mem_chain sample_env 1 t = None"
proof -
  have "k_task_mcc linked_state 1 = Some 1" by (simp add: linked_state_def)
  moreover have "(5 :: nat) \<noteq> 1" by simp
  ultimately show ?thesis
    using fork_window_use_after_free [OF linked_system_ok, of 1 1 5 sample_env]
    by blast
qed

text \<open>A parent creates a chain, forks, and works on while its child is still in the window.\<close>

theorem mcpq_safe_witness:
  "\<exists>x y t. (mcpq_step sample_env)\<^sup>*\<^sup>* ({}, sample_state) ({5}, t)
     \<and> sys_new_mem_chain sample_env 1 sample_state = Some (x, y) \<and> k_task_mcc t 5 = k_task_mcc y 1
     \<and> k_held t = {}"
proof -
  have km: "kmalloc_ok sample_env" using sample_env_ok by (simp add: env_ok_def)
  have "sys_new_mem_chain sample_env 1 sample_state \<noteq> None"
    using new_mem_chain_spec [OF booted_ok [OF sample_booted] km, of 1, THEN conjunct2] sample_kmalloc
    by (metis booted_def sample_booted)
  then obtain x y where run: "sys_new_mem_chain sample_env 1 sample_state = Some (x, y)" by auto
  have "mcpq_step sample_env ({}, sample_state) ({}, y)" by (rule mcpq_step.new) (use run in auto)
  moreover have "k_task_mcc y 5 = None"
    using run by (auto simp: sys_new_mem_chain_def k__init_mcc_def k__new_mem_chain_def sample_state_def
        mcc_at_def Let_def split: Option.bind_splits if_splits)
  then have "mcpq_step sample_env ({}, y) ({5}, fork_copy_mcc 1 5 y)"
    by (intro mcpq_step.fork_copy) auto
  ultimately have steps: "(mcpq_step sample_env)\<^sup>*\<^sup>* ({}, sample_state) ({5}, fork_copy_mcc 1 5 y)"
    by (meson converse_rtranclp_into_rtranclp r_into_rtranclp)
  have "k_held (fork_copy_mcc 1 5 y) = {}"
    using mcpq_safe [OF sample_booted steps sample_env_ok] by (elim conjE)
  moreover have "k_task_mcc (fork_copy_mcc 1 5 y) 5 = k_task_mcc y 1" by (simp add: fork_copy_mcc_def)
  ultimately show ?thesis using run steps by blast
qed

end
