(* ===== verification/Link_Range.thy ===== *)
theory Link_Range
  imports Chain_Tables
begin

text \<open>
  The loops of \<open>do_mlink_pages\<close> and \<open>hate\<close> over addresses and areas, which run on 32-bit words
  and need not end: they are equal to walks over finite lists when the range ends below the
  last page of the address space and the areas are in order. With this, the effect of linking a
  range is stated page by page.
\<close>

section \<open>The addresses of a range\<close>

definition page_steps :: "ulong \<Rightarrow> ulong \<Rightarrow> nat" where
  "page_steps a e = (unat e - unat a + 4095) div 4096"

definition page_addrs :: "ulong \<Rightarrow> ulong \<Rightarrow> ulong list" where
  "page_addrs a e = map (\<lambda>i. a + word_of_nat i * 4096) [0..<page_steps a e]"

text \<open>i386 pages, and a range that ends below the last page of the address space.\<close>

definition below_top :: "kenv \<Rightarrow> ulong \<Rightarrow> bool" where
  "below_top E e \<longleftrightarrow> PAGE_SHIFT E = 12 \<and> unat e + 4096 \<le> 2 ^ 32"

lemma PAGE_SIZE_12: "below_top E e \<Longrightarrow> PAGE_SIZE E = 4096"
  by (simp add: below_top_def PAGE_SIZE_def)

lemma unat_next:
  assumes "below_top E e" and "a < e"
  shows "unat (a + 4096) = unat a + 4096"
proof -
  have "unat a < unat e" using assms(2) by (simp add: word_less_nat_alt)
  with assms(1) have "unat a + unat (4096 :: ulong) < 2 ^ 32"
    by (simp add: below_top_def)
  then show ?thesis
    by (simp add: unat_word_ariths)
qed

lemma page_addrs_Nil: "\<not> a < e \<Longrightarrow> page_addrs a e = []"
  by (simp add: page_addrs_def page_steps_def word_less_nat_alt)

lemma div_4096_step:
  fixes d :: nat
  assumes "0 < d"
  shows "(d + 4095) div 4096 = Suc ((d - 4096 + 4095) div 4096)"
proof (cases "4096 \<le> d")
  case True
  then have "d + 4095 = (d - 4096 + 4095) + 4096" by simp
  then show ?thesis by (metis div_add_self2 Suc_eq_plus1 zero_neq_numeral)
next
  case False
  then have "d + 4095 = (d - 1) + 4096" "(d - 1) div 4096 = 0" using assms by auto
  with False show ?thesis by simp
qed

lemma page_addrs_Cons:
  assumes "below_top E e" and "a < e"
  shows "page_addrs a e = a # page_addrs (a + 4096) e"
proof -
  have "unat a < unat e" using assms(2) by (simp add: word_less_nat_alt)
  with div_4096_step [of "unat e - unat a"] have steps: "page_steps a e = Suc (page_steps (a + 4096) e)"
    unfolding page_steps_def unat_next [OF assms] by simp
  show ?thesis
    by (simp add: page_addrs_def steps upt_conv_Cons map_Suc_upt [symmetric] comp_def algebra_simps
        del: upt_Suc)
qed

text \<open>Walking the list of addresses: the loop of \<open>__mlink_vma_pages_range\<close> over a finite list.\<close>

fun mlink_addrs ::
  "kenv \<Rightarrow> chain_ptr \<Rightarrow> vm_area \<Rightarrow> ulong \<Rightarrow> ulong list \<Rightarrow> int \<Rightarrow> kstate \<Rightarrow> (int \<times> kstate) option" where
  "mlink_addrs E c v anchor [] n s = Some (n, s)"
| "mlink_addrs E c v anchor (a # as) n s = (case k__get_user_page E v a s of
      (Some p, s) \<Rightarrow> Option.bind (mlink_page E c a anchor p s) (mlink_addrs E c v anchor as (n + 1))
    | (None, s) \<Rightarrow> mlink_addrs E c v anchor as n s)"

fun hate_addrs :: "kenv \<Rightarrow> vm_area \<Rightarrow> hate_lvl \<Rightarrow> ulong list \<Rightarrow> kstate \<Rightarrow> kstate option" where
  "hate_addrs E v h [] s = Some s"
| "hate_addrs E v h (a # as) s = (case k__get_user_page E v a s of
      (Some p, s) \<Rightarrow> Option.bind (if PageLinked p s then Some s else k__hate_page E p h s) (hate_addrs E v h as)
    | (None, s) \<Rightarrow> hate_addrs E v h as s)"

lemma mlink_loop_walk:
  assumes top: "below_top E e"
  shows "mlink_loop E c v e anchor a n s = mlink_addrs E c v anchor (page_addrs a e) n s"
proof (induction "length (page_addrs a e)" arbitrary: a n s)
  case 0
  with page_addrs_Cons [OF top, of a] have "\<not> a < e" by fastforce
  with 0 show ?case by (subst mlink_loop.simps) simp
next
  case (Suc k)
  then have "a < e" using page_addrs_Nil [of a e] by fastforce
  note pa = page_addrs_Cons [OF top this]
  from Suc.hyps(2) have k: "k = length (page_addrs (a + 4096) e)" by (simp add: pa)
  have IH: "mlink_loop E c v e anchor (a + 4096) m = mlink_addrs E c v anchor (page_addrs (a + 4096) e) m" for m
    by (rule ext) (rule Suc.hyps(1) [OF k])
  show ?case
    by (subst mlink_loop.simps)
      (simp add: \<open>a < e\<close> pa PAGE_SIZE_12 [OF top] IH split: prod.split option.split)
qed

lemma hate_loop_walk:
  assumes top: "below_top E e"
  shows "hate_loop E v e h a s = hate_addrs E v h (page_addrs a e) s"
proof (induction "length (page_addrs a e)" arbitrary: a s)
  case 0
  with page_addrs_Cons [OF top, of a] have "\<not> a < e" by fastforce
  with 0 show ?case by (subst hate_loop.simps) simp
next
  case (Suc k)
  then have "a < e" using page_addrs_Nil [of a e] by fastforce
  note pa = page_addrs_Cons [OF top this]
  from Suc.hyps(2) have k: "k = length (page_addrs (a + 4096) e)" by (simp add: pa)
  have IH: "hate_loop E v e h (a + 4096) = hate_addrs E v h (page_addrs (a + 4096) e)"
    by (rule ext) (rule Suc.hyps(1) [OF k])
  show ?case
    by (subst hate_loop.simps)
      (simp add: \<open>a < e\<close> pa PAGE_SIZE_12 [OF top] IH split: prod.split option.split)
qed

section \<open>The areas of a range\<close>

text \<open>The areas of an address space, from one on: not empty, ascending, disjoint.\<close>

fun areas_ok :: "vm_area list \<Rightarrow> bool" where
  "areas_ok [] = True"
| "areas_ok [v] = (vm_start v < vm_end v)"
| "areas_ok (v # w # vs) = (vm_start v < vm_end v \<and> vm_end v \<le> vm_start w \<and> areas_ok (w # vs))"

text \<open>The part of area \<open>v\<close> that the loops visit for a range from \<open>a\<close> to \<open>e\<close>.\<close>

definition part_end :: "vm_area \<Rightarrow> ulong \<Rightarrow> ulong" where
  "part_end v e = (if e < vm_end v then e else vm_end v)"

definition part_start :: "vm_area \<Rightarrow> ulong \<Rightarrow> ulong" where
  "part_start v a = (if a < vm_start v then vm_start v else a)"

text \<open>A walk over the areas by a range routine \<open>f\<close>, each area once.\<close>

fun walk_areas ::
  "(vm_area \<Rightarrow> ulong \<Rightarrow> ulong \<Rightarrow> kstate \<Rightarrow> (int \<times> kstate) option) \<Rightarrow> ulong \<Rightarrow> ulong \<Rightarrow> vm_area list \<Rightarrow>
     kstate \<Rightarrow> (int \<times> kstate) option" where
  "walk_areas f e a [] s = Some (- 1, s)"
| "walk_areas f e a (v # vs) s =
     (if vm_start v \<ge> e then Some (- 1, s)
      else Option.bind (f v (part_start v a) (part_end v e) s)
        (\<lambda>(r, s). if part_end v e < e then walk_areas f e (part_end v e) vs s else Some (r, s)))"

lemma do_mlink_loop_here:
  assumes "a < e" and "a < vm_end v"
  shows "do_mlink_loop E c e anchor a (v # vs) n s = (if vm_start v \<ge> e then Some (- 1, s)
    else Option.bind (k__mlink_vma_pages_range E c v (part_start v a) (part_end v e) anchor s)
      (\<lambda>(r, s). do_mlink_loop E c e anchor (part_end v e) (v # vs) r s))"
  using assms(1) assms(2) [folded not_le]
  by (subst do_mlink_loop.simps) (simp add: Let_def part_end_def [symmetric] part_start_def [symmetric])

lemma do_mlink_loop_next:
  assumes "a \<ge> vm_end v" and "a < e" and "vs \<noteq> [] \<Longrightarrow> a < vm_end (hd vs)"
  shows "do_mlink_loop E c e anchor a (v # vs) n s = (if vs = [] then Some (- 1, s) else do_mlink_loop E c e anchor a vs n s)"
proof (cases vs)
  case Nil
  with assms show ?thesis by (subst do_mlink_loop.simps) simp
next
  case (Cons w ws)
  with assms show ?thesis
    by (subst do_mlink_loop.simps)
      (simp add: do_mlink_loop_here Let_def part_end_def [symmetric] part_start_def [symmetric])
qed

lemma do_mlink_loop_walk:
  assumes "areas_ok vs" and "vs \<noteq> []" and "a < e" and "a < vm_end (hd vs)"
  shows "do_mlink_loop E c e anchor a vs n s =
    walk_areas (\<lambda>v a e. k__mlink_vma_pages_range E c v a e anchor) e a vs s"
  using assms
proof (induction vs arbitrary: a n s)
  case (Cons v vs)
  let ?b = "part_end v e"
  have rest: "do_mlink_loop E c e anchor ?b (v # vs) r t = (if ?b < e
      then walk_areas (\<lambda>v a e. k__mlink_vma_pages_range E c v a e anchor) e ?b vs t else Some (r, t))" for r t
  proof (cases "?b < e")
    case False
    then show ?thesis by (subst do_mlink_loop.simps) simp
  next
    case True
    then have b: "?b = vm_end v" by (simp add: part_end_def split: if_splits)
    have nxt: "vs \<noteq> [] \<Longrightarrow> vm_end v < vm_end (hd vs)" "areas_ok vs"
      using Cons.prems(1) by (cases vs; cases "tl vs"; auto)+
    show ?thesis
    proof (cases "vs = []")
      case True
      with b \<open>?b < e\<close> do_mlink_loop_next [of v "vm_end v" e vs] Cons.prems(1) show ?thesis by simp
    next
      case False
      with b \<open>?b < e\<close> do_mlink_loop_next [of v "vm_end v" e vs] Cons.prems(1) nxt Cons.IH [OF nxt(2) False]
      show ?thesis by simp
    qed
  qed
  then have "do_mlink_loop E c e anchor ?b (v # vs) = (\<lambda>r t. if ?b < e then walk_areas
      (\<lambda>v a e. k__mlink_vma_pages_range E c v a e anchor) e ?b vs t else Some (r, t))"
    by (intro ext)
  with Cons.prems show ?case
    by (simp add: do_mlink_loop_here)
qed simp

lemma sys_hate_loop_here:
  assumes "a < e" and "a < vm_end v"
  shows "sys_hate_loop E e a (v # vs) n s = (if vm_start v \<ge> e then Some (- 1, s)
    else Option.bind (k__hate_vma_pages_range E v (part_start v a) (part_end v e) DISLIKE s)
      (\<lambda>(r, s). sys_hate_loop E e (part_end v e) (v # vs) r s))"
  using assms(1) assms(2) [folded not_le]
  by (subst sys_hate_loop.simps) (simp add: Let_def part_end_def [symmetric] part_start_def [symmetric])

lemma sys_hate_loop_next:
  assumes "a \<ge> vm_end v" and "a < e" and "vs \<noteq> [] \<Longrightarrow> a < vm_end (hd vs)"
  shows "sys_hate_loop E e a (v # vs) n s = (if vs = [] then Some (- 1, s) else sys_hate_loop E e a vs n s)"
proof (cases vs)
  case Nil
  with assms show ?thesis by (subst sys_hate_loop.simps) simp
next
  case (Cons w ws)
  with assms show ?thesis
    by (subst sys_hate_loop.simps)
      (simp add: sys_hate_loop_here Let_def part_end_def [symmetric] part_start_def [symmetric])
qed

lemma sys_hate_loop_walk:
  assumes "areas_ok vs" and "vs \<noteq> []" and "a < e" and "a < vm_end (hd vs)"
  shows "sys_hate_loop E e a vs n s =
    walk_areas (\<lambda>v a e. k__hate_vma_pages_range E v a e DISLIKE) e a vs s"
  using assms
proof (induction vs arbitrary: a n s)
  case (Cons v vs)
  let ?b = "part_end v e"
  have rest: "sys_hate_loop E e ?b (v # vs) r t = (if ?b < e
      then walk_areas (\<lambda>v a e. k__hate_vma_pages_range E v a e DISLIKE) e ?b vs t else Some (r, t))" for r t
  proof (cases "?b < e")
    case False
    then show ?thesis by (subst sys_hate_loop.simps) simp
  next
    case True
    then have b: "?b = vm_end v" by (simp add: part_end_def split: if_splits)
    have nxt: "vs \<noteq> [] \<Longrightarrow> vm_end v < vm_end (hd vs)" "areas_ok vs"
      using Cons.prems(1) by (cases vs; cases "tl vs"; auto)+
    show ?thesis
    proof (cases "vs = []")
      case True
      with b \<open>?b < e\<close> sys_hate_loop_next [of v "vm_end v" e vs] Cons.prems(1) show ?thesis by simp
    next
      case False
      with b \<open>?b < e\<close> sys_hate_loop_next [of v "vm_end v" e vs] Cons.prems(1) nxt Cons.IH [OF nxt(2) False]
      show ?thesis by simp
    qed
  qed
  then have "sys_hate_loop E e ?b (v # vs) = (\<lambda>r t. if ?b < e then walk_areas
      (\<lambda>v a e. k__hate_vma_pages_range E v a e DISLIKE) e ?b vs t else Some (r, t))"
    by (intro ext)
  with Cons.prems show ?case
    by (simp add: sys_hate_loop_here)
qed simp

section \<open>The range routines end\<close>

definition area_addrs :: "kenv \<Rightarrow> vm_area \<Rightarrow> ulong \<Rightarrow> ulong \<Rightarrow> ulong list" where
  "area_addrs E v a e = page_addrs (if is_stack_guard_page E v a then a + PAGE_SIZE E else a) e"

lemma below_top_le: "below_top E e \<Longrightarrow> e' \<le> e \<Longrightarrow> below_top E e'"
  by (simp add: below_top_def word_le_nat_alt)

lemma part_bounds: "part_end v e \<le> e" "part_end v e \<le> vm_end v" "vm_start v \<le> part_start v a"
  by (auto simp: part_end_def part_start_def not_less)

lemma mlink_range_walk:
  assumes "below_top E e"
  shows "k__mlink_vma_pages_range E c v (part_start v a) (part_end v e) anchor s =
    mlink_addrs E c v anchor (area_addrs E v (part_start v a) (part_end v e)) 0 s"
  using part_bounds(2) [of v e] part_bounds(3) [of v a]
    mlink_loop_walk [OF below_top_le [OF assms part_bounds(1)]]
  by (simp add: k__mlink_vma_pages_range_def area_addrs_def Let_def not_less [symmetric])

lemma hate_range_walk:
  assumes "below_top E e"
  shows "k__hate_vma_pages_range E v (part_start v a) (part_end v e) h s =
    map_option (Pair 0) (hate_addrs E v h (area_addrs E v (part_start v a) (part_end v e)) s)"
  using part_bounds(2) [of v e] part_bounds(3) [of v a]
    hate_loop_walk [OF below_top_le [OF assms part_bounds(1)]]
  by (cases "hate_addrs E v h (area_addrs E v (part_start v a) (part_end v e)) s")
    (simp_all add: k__hate_vma_pages_range_def area_addrs_def Let_def not_less [symmetric])

lemma walk_areas_cong:
  assumes "\<And>v a s. v \<in> set vs \<Longrightarrow> f v (part_start v a) (part_end v e) s = g v (part_start v a) (part_end v e) s"
  shows "walk_areas f e a vs s = walk_areas g e a vs s"
  using assms
proof (induction vs arbitrary: a s)
  case (Cons v vs)
  have "walk_areas f e b vs = walk_areas g e b vs" for b
    by (rule ext) (rule Cons.IH, rule Cons.prems, simp)
  with Cons.prems [of v] show ?case
    by (simp cong: if_cong)
qed simp

text \<open>What \<open>find_vma\<close> promises: the areas that end above the address, in order.\<close>

definition find_vma_ok :: "kenv \<Rightarrow> bool" where
  "find_vma_ok E \<longleftrightarrow> (\<forall>a. areas_ok (find_vma E a) \<and> (find_vma E a \<noteq> [] \<longrightarrow> a < vm_end (hd (find_vma E a))))"

lemma range_loops_walk:
  assumes "find_vma_ok E" and "below_top E (start + len)"
  shows "do_mlink_pages E c start len anchor s =
      (if start + len \<le> start then Some (- 1, s)
       else walk_areas (\<lambda>v a e. mlink_addrs E c v anchor (area_addrs E v a e) 0)
         (start + len) start (find_vma E start) s)
    \<and> sys_hate E start len s =
      (if start + len \<le> start AND PAGE_MASK E then Some (- 1, s)
       else walk_areas (\<lambda>v a e s. map_option (Pair 0) (hate_addrs E v DISLIKE (area_addrs E v a e) s))
         (start + len) (start AND PAGE_MASK E) (find_vma E start) s)"
proof
  let ?e = "start + len" and ?b = "start AND PAGE_MASK E"
  from assms(1) have ok: "areas_ok (find_vma E start)"
    and hd: "find_vma E start = v # vs \<Longrightarrow> start < vm_end v" for v vs
    by (metis find_vma_ok_def list.distinct(1) list.sel(1))+
  have empty: "do_mlink_loop E c ?e anchor start vs n s = Some (n, s)" if "\<not> start < ?e" for vs n
    using that by (subst do_mlink_loop.simps) simp
  show "do_mlink_pages E c start len anchor s =
      (if ?e \<le> start then Some (- 1, s)
       else walk_areas (\<lambda>v a e. mlink_addrs E c v anchor (area_addrs E v a e) 0) ?e start (find_vma E start) s)"
  proof (cases "find_vma E start")
    case (Cons v vs)
    show ?thesis
    proof (cases "?e \<le> start")
      case True
      with Cons empty show ?thesis by (simp add: do_mlink_pages_def Let_def not_less)
    next
      case False
      have "do_mlink_loop E c ?e anchor start (v # vs) (- 1) s =
          walk_areas (\<lambda>v a e. k__mlink_vma_pages_range E c v a e anchor) ?e start (v # vs) s"
        by (rule do_mlink_loop_walk) (use ok Cons hd False in auto)
      also have "\<dots> = walk_areas (\<lambda>v a e. mlink_addrs E c v anchor (area_addrs E v a e) 0) ?e start (v # vs) s"
        by (rule walk_areas_cong) (rule mlink_range_walk [OF assms(2)])
      finally show ?thesis
        using False Cons by (simp add: do_mlink_pages_def Let_def)
    qed
  qed (simp add: do_mlink_pages_def)
  have le: "?b \<le> start" by (rule word_and_le2)
  have empty: "sys_hate_loop E ?e ?b vs n s = Some (n, s)" if "\<not> ?b < ?e" for vs n
    using that by (subst sys_hate_loop.simps) simp
  show "sys_hate E start len s =
      (if ?e \<le> ?b then Some (- 1, s)
       else walk_areas (\<lambda>v a e s. map_option (Pair 0) (hate_addrs E v DISLIKE (area_addrs E v a e) s))
         ?e ?b (find_vma E start) s)"
  proof (cases "find_vma E start")
    case (Cons v vs)
    show ?thesis
    proof (cases "?e \<le> ?b")
      case True
      with Cons empty show ?thesis by (simp add: sys_hate_def Let_def not_less)
    next
      case False
      have "sys_hate_loop E ?e ?b (v # vs) (- 1) s =
          walk_areas (\<lambda>v a e. k__hate_vma_pages_range E v a e DISLIKE) ?e ?b (v # vs) s"
        by (rule sys_hate_loop_walk) (use ok Cons hd [OF Cons] le False in auto)
      also have "\<dots> = walk_areas (\<lambda>v a e s. map_option (Pair 0) (hate_addrs E v DISLIKE (area_addrs E v a e) s))
          ?e ?b (v # vs) s"
        by (rule walk_areas_cong) (rule hate_range_walk [OF assms(2)])
      finally show ?thesis
        using False Cons by (simp add: sys_hate_def Let_def)
    qed
  qed (simp add: sys_hate_def Let_def)
qed

text \<open>
  C8. The loops of \<open>do_mlink_pages\<close> and \<open>hate\<close> end for every range that ends below the last page
  of the address space: each area is visited once, in order, and in it each page once, no
  \<open>BUG_ON\<close> on the bounds fires, and a call that does not return is stuck in one of the pages.
  A range that is empty or wraps around links nothing and returns -1.
\<close>

theorem range_loops_end:
  assumes "find_vma_ok E" and "below_top E (start + len)"
  shows "do_mlink_pages E c start len anchor s =
      (if start + len \<le> start then Some (- 1, s)
       else walk_areas (\<lambda>v a e. mlink_addrs E c v anchor (area_addrs E v a e) 0)
         (start + len) start (find_vma E start) s)
    \<and> sys_hate E start len s =
      (if start + len \<le> start AND PAGE_MASK E then Some (- 1, s)
       else walk_areas (\<lambda>v a e s. map_option (Pair 0) (hate_addrs E v DISLIKE (area_addrs E v a e) s))
         (start + len) (start AND PAGE_MASK E) (find_vma E start) s)"
  by (rule range_loops_walk) (fact assms)+

section \<open>Linking a range page by page\<close>

text \<open>
  The pages at a set of addresses are present: \<open>follow_page\<close> finds each at the first look. With
  \<open>FOLL_TOUCH\<close> it marks the page as accessed, and it may mark it dirty; \<open>touch_step\<close> is a step of
  such a lookup, which frees nothing and takes no page off its list.
\<close>

inductive touch_step :: "kenv \<Rightarrow> kstate \<Rightarrow> kstate \<Rightarrow> bool" for E where
  other: "chain_quiet s t \<Longrightarrow> lru_same s t \<Longrightarrow> touch_step E s t"
| accessed: "k_held s = {} \<Longrightarrow> mark_page_accessed E p s = Some t \<Longrightarrow> touch_step E s t"
| set_ref: "k_held s = {} \<Longrightarrow> SetPageReferenced p s = Some t \<Longrightarrow> touch_step E s t"

definition resident :: "kenv \<Rightarrow> (ulong \<Rightarrow> page_ptr) \<Rightarrow> ulong set \<Rightarrow> bool" where
  "resident E pm A \<longleftrightarrow> (\<forall>v s. \<forall>a \<in> A. chains_ok (view s) \<longrightarrow> k_held s = {} \<longrightarrow> lru_member E s \<longrightarrow>
     (\<exists>t. follow_page E v a s = (FollowPage (pm a), t) \<and> (touch_step E)\<^sup>*\<^sup>* s t))"

definition touched :: "kenv \<Rightarrow> kstate \<Rightarrow> kstate \<Rightarrow> kstate \<Rightarrow> bool" where
  "touched E s0 s t \<longleftrightarrow> page_inv E s0 t \<and> lru_member E t
     \<and> (\<forall>q. pg_chain (page_at t q) = pg_chain (page_at s q))"

lemma touch_step_spec:
  assumes "touch_step E s t" and "page_inv E s0 s" and "lru_member E s"
  shows "touched E s0 s t"
  using assms
proof (induction rule: touch_step.induct)
  case (other s t)
  have "view t = view s" using other.hyps(1) by (simp add: chain_quiet_def)
  then have "pg_chain (page_at t q) = pg_chain (page_at s q)" for q
    by (metis view_sel(2))
  with other page_inv_quiet [OF other.prems(1) other.hyps(1)] show ?case
    by (simp add: touched_def lru_member_same)
next
  case (accessed s p t)
  then have ok: "chains_ok (view s)" by (simp add: page_inv_def)
  from mark_page_accessed_total [OF ok accessed.hyps(1) accessed.prems(2), of p] accessed.hyps(2)
  have "lru_member E t" by simp
  moreover have "v_marked p (view s) (view t)"
    using mark_page_accessed_view [OF accessed.hyps(2) ok] accessed.hyps(1) by simp
  then have "pg_chain (page_at t q) = pg_chain (page_at s q)" for q
    by (simp add: v_marked_def flip: view_sel(2))
  ultimately show ?case
    using page_inv_accessed [OF accessed.prems(1) accessed.hyps(2)] by (simp add: touched_def)
next
  case (set_ref s p t)
  then have "link_free p s" by (intro link_free_view) (auto simp: page_inv_def)
  with set_ref have "t = bump_ref p 1 (k__SetPageReferenced p s)" by (simp add: SetPageReferenced_eq)
  with set_ref page_inv_refs [OF set_ref.prems(1), of p t] show ?case
    by (simp add: touched_def)
qed

lemma touch_steps_spec:
  assumes "(touch_step E)\<^sup>*\<^sup>* s t" and "page_inv E s0 s" and "lru_member E s"
  shows "touched E s0 s t"
  using assms
proof (induction rule: rtranclp_induct)
  case (step t u)
  then have "touched E s0 s t" by simp
  with touch_step_spec [OF step.hyps(2), of s0] show ?case by (simp add: touched_def)
qed (simp add: touched_def)

lemma resident_get:
  assumes "resident E pm A" and "a \<in> A" and "page_inv E s0 s" and "lru_member E s"
  obtains t where "k__get_user_page E v a s = (Some (pm a), t)" and "touched E s0 s t"
proof -
  from assms obtain t where "follow_page E v a s = (FollowPage (pm a), t)" "(touch_step E)\<^sup>*\<^sup>* s t"
    unfolding resident_def page_inv_def by blast
  with touch_steps_spec [OF this(2) assms(3,4)] show thesis
    by (intro that [of t]) (simp_all add: k__get_user_page_def get_user_page_from.simps)
qed

lemma mlink_page_returns:
  assumes inv: "page_inv E s0 s" and mem: "lru_member E s" and c: "k_chains s c \<noteq> None"
    and p: "pg_chain (page_at s p) \<in> {None, Some c}" and "a \<noteq> anchor"
  shows "\<exists>t. mlink_page E c a anchor p s = Some t \<and> lru_member E t"
proof -
  let ?z = "LruLock (page_zone E p)"
  let ?s1 = "s\<lparr>k_held := {?z, LinkLock p}\<rparr>"
  from inv have ok: "chains_ok (view s)" and held: "k_held s = {}"
    by (auto simp: page_inv_def)
  obtain u where u: "k__link_page E c p ?s1 = Some (None, u)"
    using link_page_total [of ?s1 p c E] p c ok by auto
  have ok1: "chains_ok (view ?s1)"
    using ok by simp
  from link_page_join [OF u this] have j: "same_rest ?s1 u" "chains_ok (view u)"
    by blast+
  have "lru_same ?s1 u"
    by (rule link_page_lru [OF u]) (simp add: ok)
  then have memu: "lru_member E (u\<lparr>k_held := {}\<rparr>)"
    using lru_member_same [of ?s1 u E] mem by simp
  obtain t where t: "mark_page_accessed E p (u\<lparr>k_held := {}\<rparr>) = Some t" "lru_member E t"
    using mark_page_accessed_total [of "u\<lparr>k_held := {}\<rparr>" E p] memu j(2) by auto
  have "k_held u = {?z, LinkLock p}"
    using j(1) by (simp add: same_rest_def)
  with u t held assms(5) show ?thesis
    by (simp add: mlink_page_def Let_def)
qed

lemma page_inv_live: "page_inv E s0 s \<Longrightarrow> (k_chains s c = None) = (k_chains s0 c = None)"
  by (auto simp: page_inv_def v_ids_def fun_eq_iff dest!: spec [of _ c])

lemma mlink_addrs_resident:
  assumes "resident E pm A" and "page_inv E s0 s" and "lru_member E s" and "k_chains s0 c \<noteq> None"
    and "\<And>a. a \<in> set as \<Longrightarrow> pg_chain (page_at s (pm a)) \<in> {None, Some c}" and "anchor \<notin> set as"
    and "set as \<subseteq> A"
  shows "\<exists>t. mlink_addrs E c v anchor as n s = Some (n + int (length as), t)
    \<and> page_inv E s0 t \<and> lru_member E t
    \<and> (\<forall>q. pg_chain (page_at t q) = (if q \<in> pm ` set as then Some c else pg_chain (page_at s q)))"
  using assms(2,3,5-7)
proof (induction as arbitrary: n s)
  case (Cons a as)
  obtain s' where g: "k__get_user_page E v a s = (Some (pm a), s')" and "touched E s0 s s'"
    by (rule resident_get [OF assms(1) _ Cons.prems(1,2)]) (use Cons.prems(5) in auto)
  then have inv': "page_inv E s0 s'" and mem': "lru_member E s'"
    and same: "\<And>q. pg_chain (page_at s' q) = pg_chain (page_at s q)"
    by (auto simp: touched_def)
  have c: "k_chains s' c \<noteq> None"
    using page_inv_live [OF inv'] assms(4) by simp
  obtain u where u: "mlink_page E c a anchor (pm a) s' = Some u" "lru_member E u"
    using mlink_page_returns [OF inv' mem' c, of "pm a" a anchor] Cons.prems(3) [of a] Cons.prems(4) same by auto
  from mlink_page_spec [OF u(1) inv'] have inv: "page_inv E s0 u"
    and pu: "\<And>q. pg_chain (page_at u q) = (if q = pm a then Some c else pg_chain (page_at s q))"
    by (auto simp: page_linked_def same)
  have "\<exists>t. mlink_addrs E c v anchor as (n + 1) u = Some (n + 1 + int (length as), t)
    \<and> page_inv E s0 t \<and> lru_member E t
    \<and> (\<forall>q. pg_chain (page_at t q) = (if q \<in> pm ` set as then Some c else pg_chain (page_at u q)))"
    by (rule Cons.IH [OF inv u(2)]) (use Cons.prems(3-5) pu in auto)
  then obtain t where t: "mlink_addrs E c v anchor as (n + 1) u = Some (n + 1 + int (length as), t)"
    "page_inv E s0 t" "lru_member E t"
    "\<forall>q. pg_chain (page_at t q) = (if q \<in> pm ` set as then Some c else pg_chain (page_at u q))"
    by blast
  then show ?case
    using u(1) pu g by (auto simp: algebra_simps)
qed auto

text \<open>The addresses a range call visits, and what it returns.\<close>

fun visited :: "kenv \<Rightarrow> ulong \<Rightarrow> ulong \<Rightarrow> vm_area list \<Rightarrow> ulong list" where
  "visited E e a [] = []"
| "visited E e a (v # vs) = (if vm_start v \<ge> e then []
     else area_addrs E v (part_start v a) (part_end v e)
       @ (if part_end v e < e then visited E e (part_end v e) vs else []))"

fun link_result :: "kenv \<Rightarrow> ulong \<Rightarrow> ulong \<Rightarrow> vm_area list \<Rightarrow> int" where
  "link_result E e a [] = - 1"
| "link_result E e a (v # vs) = (if vm_start v \<ge> e then - 1
     else if part_end v e < e then link_result E e (part_end v e) vs
     else int (length (area_addrs E v (part_start v a) (part_end v e))))"

lemma mlink_areas_resident:
  assumes "resident E pm A" and "page_inv E s0 s" and "lru_member E s" and "k_chains s0 c \<noteq> None"
    and "\<And>b. b \<in> set (visited E e a vs) \<Longrightarrow> pg_chain (page_at s (pm b)) \<in> {None, Some c}"
    and "anchor \<notin> set (visited E e a vs)" and "set (visited E e a vs) \<subseteq> A"
  shows "\<exists>t. walk_areas (\<lambda>v a e. mlink_addrs E c v anchor (area_addrs E v a e) 0) e a vs s =
      Some (link_result E e a vs, t)
    \<and> page_inv E s0 t \<and> lru_member E t
    \<and> (\<forall>q. pg_chain (page_at t q) =
        (if q \<in> pm ` set (visited E e a vs) then Some c else pg_chain (page_at s q)))"
  using assms(2,3,5-7)
proof (induction vs arbitrary: a s)
  case (Cons v vs)
  let ?as = "area_addrs E v (part_start v a) (part_end v e)"
  show ?case
  proof (cases "vm_start v \<ge> e")
    case False
    have "\<exists>t. mlink_addrs E c v anchor ?as 0 s = Some (0 + int (length ?as), t)
      \<and> page_inv E s0 t \<and> lru_member E t
      \<and> (\<forall>q. pg_chain (page_at t q) = (if q \<in> pm ` set ?as then Some c else pg_chain (page_at s q)))"
      by (rule mlink_addrs_resident [OF assms(1) Cons.prems(1,2) assms(4)])
        (use Cons.prems(3-5) False in auto)
    then obtain u where u: "mlink_addrs E c v anchor ?as 0 s = Some (int (length ?as), u)"
      "page_inv E s0 u" "lru_member E u"
      "\<And>q. pg_chain (page_at u q) = (if q \<in> pm ` set ?as then Some c else pg_chain (page_at s q))"
      by auto
    show ?thesis
    proof (cases "part_end v e < e")
      case True
      have "\<exists>t. walk_areas (\<lambda>v a e. mlink_addrs E c v anchor (area_addrs E v a e) 0) e (part_end v e) vs u =
          Some (link_result E e (part_end v e) vs, t)
        \<and> page_inv E s0 t \<and> lru_member E t
        \<and> (\<forall>q. pg_chain (page_at t q) = (if q \<in> pm ` set (visited E e (part_end v e) vs) then Some c
            else pg_chain (page_at u q)))"
        by (rule Cons.IH [OF u(2,3)]) (use Cons.prems(3-5) False True u(4) in auto)
      then show ?thesis
        using False True u(1,4) by auto
    qed (use False u in auto)
  qed (use Cons.prems in auto)
qed (use assms in auto)

lemma env_resident_inv: "system_ok s \<Longrightarrow> mlock_quiet E \<Longrightarrow> page_inv E s s"
  by (auto simp: system_ok_def intro: page_inv_refl)

lemma table_link:
  assumes sys: "system_ok s" and c: "slots s tsk c = Some ch" and "slots t = slots s"
    and pg: "\<And>q. pg_chain (page_at t q) = (if q \<in> P then Some ch else pg_chain (page_at s q))"
    and P: "\<And>q. q \<in> P \<Longrightarrow> pg_chain (page_at s q) \<in> {None, Some ch}"
  shows "table t = (table s)(tsk := (table s tsk)(c \<mapsto> chain_pages s ch \<union> P))"
proof (intro ext)
  fix tsk' i
  show "table t tsk' i = ((table s)(tsk := (table s tsk)(c \<mapsto> chain_pages s ch \<union> P))) tsk' i"
  proof (cases "tsk' = tsk \<and> i = c")
    case False
    have "chain_pages t d = chain_pages s d" if "slots s tsk' i = Some d" for d
    proof -
      from slots_inj [OF sys c, of tsk' i] that False have "d \<noteq> ch" by auto
      then show ?thesis by (auto simp: chain_pages_def pg dest: P)
    qed
    with False assms(3) show ?thesis
      by (cases "slots s tsk' i") (auto simp: table_def)
  qed (use assms(3) c in \<open>auto simp: table_def chain_pages_def pg\<close>)
qed

text \<open>
  C7. \<open>link_addr_rng\<close> on an open descriptor, for a range below the last page of the address space
  whose visited pages are present (looking them up may mark them as accessed) and on no chain or on
  this one, when the page at address 0 is not among them (0 stands for no anchor) and \<open>PG_lru\<close> tells
  which pages are on an LRU list: it returns, the descriptor gains exactly the pages of the visited
  addresses, no other descriptor changes, and the system is in order. The result is the number of
  pages of the last area visited, or -1 when the range runs into a hole (the pages before the hole
  stay linked).
\<close>

theorem link_addr_rng_correct:
  fixes start len :: ulong
  assumes "system_ok s" and "mlock_quiet E" and "lru_member E s" and "find_vma_ok E" and "slots s tsk c = Some ch"
  defines "a \<equiv> start AND PAGE_MASK E"
  defines "e \<equiv> a + PAGE_ALIGN E (len + (start AND NOT (PAGE_MASK E)))"
  defines "as \<equiv> visited E e a (find_vma E a)"
  assumes "below_top E e" and "a < e" and "0 \<notin> set as" and "resident E pm (set as)"
    and "\<And>b. b \<in> set as \<Longrightarrow> pg_chain (page_at s (pm b)) \<in> {None, Some ch}"
  shows "\<exists>t. sys_link_addr_rng E tsk c start len s = Some (link_result E e a (find_vma E a), t)
    \<and> system_ok t \<and> lru_member E t
    \<and> table t = (table s)(tsk := (table s tsk)(c \<mapsto> chain_pages s ch \<union> pm ` set as))"
proof -
  from slot_live(1) [OF assms(1,5)] have live: "k_chains s ch \<noteq> None" by auto
  have inv: "page_inv E s s" by (rule env_resident_inv [OF assms(1,2)])
  have run: "sys_link_addr_rng E tsk c start len s =
      walk_areas (\<lambda>v a e. mlink_addrs E ch v 0 (area_addrs E v a e) 0) e a (find_vma E a) s"
    using link_eq(1) [OF assms(1,5)] range_loops_walk [OF assms(4), of a "e - a" ch 0 s] assms(9) assms(10) [folded not_le]
    by (simp add: a_def [symmetric] e_def)
  obtain t where t: "walk_areas (\<lambda>v a e. mlink_addrs E ch v 0 (area_addrs E v a e) 0) e a (find_vma E a) s =
      Some (link_result E e a (find_vma E a), t)" "page_inv E s t" "lru_member E t"
    "\<And>q. pg_chain (page_at t q) = (if q \<in> pm ` set as then Some ch else pg_chain (page_at s q))"
    using mlink_areas_resident [OF assms(12) inv assms(3) live, of e a "find_vma E a" 0] assms(11,13)
    unfolding as_def by auto
  note sys = page_inv_system [OF t(2) assms(1)]
  have "table t = (table s)(tsk := (table s tsk)(c \<mapsto> chain_pages s ch \<union> pm ` set as))"
    by (rule table_link [OF assms(1,5) sys(2) t(4)]) (use assms(13) in auto)
  with run t(1,3) sys(1) show ?thesis by auto
qed

section \<open>The theorems on the small machine\<close>

lemma sample_areas_suffix: "find_vma sample_env a = (if a < 0x3000 then sample_areas
    else if a < 0x6000 then tl sample_areas else [])"
  by (auto simp: sample_env_def sample_areas_def not_le)

lemma sample_find_vma: "find_vma_ok sample_env"
  by (auto simp: find_vma_ok_def sample_areas_suffix sample_areas_def)

lemma sample_below_top: "below_top sample_env 0x3000"
  by (simp add: below_top_def sample_env_def)

text \<open>The small machine, with a lookup that marks the page it finds as accessed.\<close>

definition touching_env :: kenv where
  "touching_env = sample_env\<lparr>follow_page := (\<lambda>v a s. (FollowPage (unat a div 4096),
     case mark_page_accessed sample_env (unat a div 4096) s of Some t \<Rightarrow> t | None \<Rightarrow> s))\<rparr>"

lemma activate_page_lookup:
  "activate_page (E\<lparr>follow_page := f\<rparr>) p s = activate_page E p s"
  by (simp add: activate_page_def activate_locked_def del_page_from_lru_list_def
      add_page_to_lru_list_def k__add_page_to_lru_list_def k__mod_zone_page_state_def
      this_cpu_diff_def this_cpu_threshold_def count_vm_events_def cong: if_cong)

lemma mark_page_lookup: "mark_page_accessed (E\<lparr>follow_page := f\<rparr>) p s = mark_page_accessed E p s"
  by (simp add: mark_page_accessed_def activate_page_lookup cong: if_cong)

lemma touching_accessed: "mark_page_accessed touching_env p s = mark_page_accessed sample_env p s"
  by (simp add: touching_env_def mark_page_lookup)

lemma touching_sel:
  "find_vma touching_env = find_vma sample_env" "lru_member touching_env s = lru_member sample_env s"
  "mlock_quiet touching_env" "PAGE_MASK touching_env = PAGE_MASK sample_env"
  "PAGE_ALIGN touching_env n = PAGE_ALIGN sample_env n" "below_top touching_env e = below_top sample_env e"
  "visited touching_env e a vs = visited sample_env e a vs"
  "link_result touching_env e a vs = link_result sample_env e a vs"
proof -
  show shift: "PAGE_MASK touching_env = PAGE_MASK sample_env" "below_top touching_env e = below_top sample_env e"
    "PAGE_ALIGN touching_env n = PAGE_ALIGN sample_env n" "find_vma touching_env = find_vma sample_env"
    by (simp_all add: touching_env_def PAGE_MASK_def PAGE_ALIGN_def PAGE_SIZE_def below_top_def)
  show "lru_member touching_env s = lru_member sample_env s" by (simp add: lru_member_def touching_env_def)
  show "mlock_quiet touching_env" using sample_mlock_quiet by (simp add: mlock_quiet_def touching_env_def)
  have "area_addrs touching_env = area_addrs sample_env"
    by (simp add: fun_eq_iff area_addrs_def is_stack_guard_page_def PAGE_SIZE_def touching_env_def)
  then show "visited touching_env e a vs = visited sample_env e a vs"
    "link_result touching_env e a vs = link_result sample_env e a vs"
    by (induction vs arbitrary: a) simp_all
qed

lemma touching_resident: "resident touching_env (\<lambda>a. unat a div 4096) A"
proof -
  have "\<exists>t. follow_page touching_env v a s = (FollowPage (unat a div 4096), t) \<and> (touch_step touching_env)\<^sup>*\<^sup>* s t"
    if ok: "chains_ok (view s)" "k_held s = {}" and mem: "lru_member touching_env s" for v a s
  proof -
    obtain t where t: "mark_page_accessed sample_env (unat a div 4096) s = Some t"
      using mark_page_accessed_total [OF ok, of sample_env "unat a div 4096"] mem by (auto simp: touching_sel)
    then have "touch_step touching_env s t"
      by (intro touch_step.accessed [OF ok(2), of touching_env "unat a div 4096"]) (simp add: touching_accessed)
    moreover have "follow_page touching_env v a s = (FollowPage (unat a div 4096), t)"
      by (simp add: touching_env_def t)
    ultimately show ?thesis by blast
  qed
  then show ?thesis by (simp add: resident_def)
qed

lemma sample_area_addrs: "v \<in> set sample_areas \<Longrightarrow> area_addrs sample_env v a e = page_addrs a e"
  by (auto simp: area_addrs_def is_stack_guard_page_def sample_areas_def sample_env_def)

lemma sample_range: "page_addrs 0x1000 0x3000 = [0x1000, 0x2000]"
  by (simp add: page_addrs_def page_steps_def upt_rec)

lemma sample_visited:
  "visited sample_env 0x3000 0x1000 sample_areas = [0x1000, 0x2000]"
  "link_result sample_env 0x3000 0x1000 sample_areas = 2"
  using sample_area_addrs [of "hd sample_areas"] sample_range
  by (simp_all add: sample_areas_def part_start_def part_end_def)

theorem range_loops_end_witness:
  "sys_hate sample_env 0x1000 0x2000 linked_state =
      walk_areas (\<lambda>v a e s. map_option (Pair 0) (hate_addrs sample_env v DISLIKE (area_addrs sample_env v a e) s))
         0x3000 0x1000 sample_areas linked_state"
proof -
  have "0x1000 AND PAGE_MASK sample_env = 0x1000"
    by (simp add: PAGE_MASK_def PAGE_SIZE_def sample_env_def)
  then show ?thesis
    using range_loops_end [OF sample_find_vma, of "0x1000" "0x2000"] sample_below_top
    by (simp add: sample_areas_suffix)
qed

theorem link_addr_rng_correct_witness:
  "\<exists>t. sys_link_addr_rng touching_env 1 0 0x1000 0x2000 linked_state = Some (2, t)
     \<and> system_ok t \<and> table t 1 0 = Some {1, 2, 7, 8}"
proof -
  have a: "0x1000 AND PAGE_MASK sample_env = 0x1000"
    "0x1000 + PAGE_ALIGN sample_env (0x2000 + (0x1000 AND NOT (PAGE_MASK sample_env))) = 0x3000"
    by (simp_all add: PAGE_MASK_def PAGE_SIZE_def PAGE_ALIGN_def sample_env_def)
  have cp: "chain_pages linked_state 1 = {7, 8}"
    by (auto simp: chain_pages_def linked_state_sel)
  have pc: "pg_chain (page_at linked_state (unat b div 4096)) = None" if "b \<in> set [0x1000, 0x2000 :: ulong]" for b
    using that by (auto simp: linked_state_sel)
  have fv: "find_vma_ok touching_env"
    using sample_find_vma by (simp add: find_vma_ok_def touching_sel)
  obtain t where "sys_link_addr_rng touching_env 1 0 0x1000 0x2000 linked_state = Some (2, t)" "system_ok t"
    "table t = (table linked_state)(1 := (table linked_state 1)(0 \<mapsto> {7, 8} \<union> (\<lambda>a. unat a div 4096) ` set [0x1000, 0x2000 :: ulong]))"
    using link_addr_rng_correct [of linked_state touching_env 1 0 1 "0x1000" "0x2000", unfolded touching_sel a,
        OF linked_system_ok touching_sel(3) linked_lru_member fv linked_slots(1) _ _ _ touching_resident]
      sample_below_top pc
    by (auto simp: sample_areas_suffix sample_visited cp [simplified])
  then show ?thesis
    by (auto simp: insert_commute)
qed

end
