(* ===== verification/Alloc_Slow.thy ===== *)
theory Alloc_Slow
  imports Kswapd Node_Map Link_Range
begin

text \<open>
  The entry of the page allocator in \<open>Linux/page_alloc.c\<close>, \<open>__alloc_pages_nodemask\<close>, and its slow
  path: waking \<open>kswapd\<close>, ignoring the watermarks, compaction, direct reclaim, the out-of-memory
  killer, and the decision to try again. The pieces are those of \<open>Watermark\<close>, \<open>Reclaim\<close> and
  \<open>Kswapd\<close>. Last, the allocation of an exact number of pages.
\<close>

section \<open>State and surroundings\<close>

text \<open>Fault injection, when it is configured; \<open>should_fail\<close> is the library's decision.\<close>

record fail_page_alloc_attr =
  should_fail :: "nat \<Rightarrow> kstate \<Rightarrow> bool \<times> kstate"
  ignore_gfp_highmem :: bool
  ignore_gfp_wait :: bool
  min_order :: nat

text \<open>
  What the slow path calls outside this repository: compaction, the out-of-memory killer and its
  lock on the zones, the mobility and the mask of a request, and the flag of a task that was killed
  (which the killer may set on the running one).
\<close>

record slow_env =
  rv :: reclaim_env
  compaction_deferred :: "zone_ptr \<Rightarrow> kstate \<Rightarrow> bool"
  defer_compaction :: "zone_ptr \<Rightarrow> kstate \<Rightarrow> kstate"
  try_to_compact_pages ::
    "zone_ptr list \<Rightarrow> nat \<Rightarrow> gfp_flag set \<Rightarrow> bool \<Rightarrow> kstate \<Rightarrow> compact_result \<times> kstate"
  try_set_zonelist_oom :: "zone_ptr list \<Rightarrow> gfp_flag set \<Rightarrow> kstate \<Rightarrow> bool \<times> kstate"
  clear_zonelist_oom :: "zone_ptr list \<Rightarrow> gfp_flag set \<Rightarrow> kstate \<Rightarrow> kstate"
  out_of_memory :: "zone_ptr list \<Rightarrow> gfp_flag set \<Rightarrow> nat \<Rightarrow> kstate \<Rightarrow> kstate"
  oom_killer_disabled :: bool
  schedule_timeout_uninterruptible :: "kstate \<Rightarrow> kstate"
  thread_memdie :: "kstate \<Rightarrow> bool"
  cpuset_memory_pressure_bump :: "kstate \<Rightarrow> kstate"
  allocflags_to_migratetype :: "gfp_flag set \<Rightarrow> nat"
  gfp_allowed_mask :: "gfp_flag set"
  fail_page_alloc :: "fail_page_alloc_attr option"

text \<open>
  What an allocation may change: the memory, the debts of the shrinkers, and the node of \<open>kswapd\<close>
  with the number of times it was woken.
\<close>

record vm_state =
  vm_k :: kstate
  vm_slab :: slab_state
  vm_node :: kswapd_node
  vm_wakeups :: nat

text \<open>The arguments that the routines hand to each other. There is no node mask without NUMA.\<close>

record alloc_request =
  rq_gfp :: "gfp_flag set"
  rq_order :: nat
  rq_zonelist :: "zone_ptr list"
  rq_high_zoneidx :: nat
  rq_preferred_zone :: zone_ptr
  rq_migratetype :: nat

text \<open>An allocation ends with a page or without one, or is still at it when the fuel is used up.\<close>

datatype alloc_outcome = Done "page_ptr option" | Spinning

definition first_zones_zonelist :: "alloc_env \<Rightarrow> nat \<Rightarrow> zone_ptr list \<Rightarrow> zone_ptr option" where
  "first_zones_zonelist W highidx zonelist =
     (case zones_upto W highidx zonelist of [] \<Rightarrow> None | z # _ \<Rightarrow> Some z)"

text \<open>\<open>get_page_from_freelist\<close> for a request; \<open>fuel\<close> bounds the bad pages it meets.\<close>

definition request_page ::
  "nat \<Rightarrow> slow_env \<Rightarrow> alloc_request \<Rightarrow> gfp_flag set \<Rightarrow> zone_watermarks \<Rightarrow> alloc_flag set \<Rightarrow> kstate \<Rightarrow>
     (page_ptr option \<times> kstate) option" where
  "request_page fuel F r gfp_mask wmark alloc_flags s =
     get_page_from_freelist fuel (mm (rv F)) (wm (rv F)) gfp_mask (rq_order r) (rq_zonelist r)
       (rq_high_zoneidx r) wmark alloc_flags (rq_preferred_zone r) (rq_migratetype r) s"

definition should_fail_alloc_page :: "slow_env \<Rightarrow> gfp_flag set \<Rightarrow> nat \<Rightarrow> kstate \<Rightarrow> bool \<times> kstate" where
  "should_fail_alloc_page F gfp_mask order s =
     (case fail_page_alloc F of
        None \<Rightarrow> (False, s)
      | Some a \<Rightarrow>
          if order < min_order a then (False, s)
          else if GFP_NOFAIL \<in> gfp_mask then (False, s)
          else if ignore_gfp_highmem a \<and> GFP_HIGHMEM \<in> gfp_mask then (False, s)
          else if ignore_gfp_wait a \<and> GFP_WAIT \<in> gfp_mask then (False, s)
          else should_fail a (2 ^ order) s)"

section \<open>The steps of the slow path\<close>

definition k__alloc_pages_may_oom ::
  "nat \<Rightarrow> slow_env \<Rightarrow> alloc_request \<Rightarrow> kstate \<Rightarrow> (page_ptr option \<times> kstate) option" where
  "k__alloc_pages_may_oom fuel F r s =
     (let (locked, s) = try_set_zonelist_oom F (rq_zonelist r) (rq_gfp r) s
      in if \<not> locked then Some (None, schedule_timeout_uninterruptible F s)
         else do {
           (page, s) \<leftarrow> request_page fuel F r (insert GFP_HARDWALL (rq_gfp r)) WMARK_HIGH {ALLOC_CPUSET} s;
           let spared = GFP_NOFAIL \<notin> rq_gfp r \<and> (rq_order r > PAGE_ALLOC_COSTLY_ORDER
             \<or> rq_high_zoneidx r < ZONE_NORMAL \<or> GFP_THISNODE \<in> rq_gfp r);
           let s = (if page \<noteq> None \<or> spared then s
             else out_of_memory F (rq_zonelist r) (rq_gfp r) (rq_order r) s);
           Some (page, clear_zonelist_oom F (rq_zonelist r) (rq_gfp r) s)
         })"

definition reset_compact_defer :: "zone_ptr \<Rightarrow> kstate \<Rightarrow> kstate" where
  "reset_compact_defer z = upd_zone z (\<lambda>zn. zn\<lparr>z_compact_considered := 0, z_compact_defer_shift := 0\<rparr>)"

definition k__alloc_pages_direct_compact ::
  "nat \<Rightarrow> slow_env \<Rightarrow> alloc_request \<Rightarrow> zone_watermarks \<times> alloc_flag set \<Rightarrow> bool \<Rightarrow> kstate \<Rightarrow>
     (page_ptr option \<times> kstate) option" where
  "k__alloc_pages_direct_compact fuel F r alloc_flags sync_migration s =
     (let E = mm (rv F); z = rq_preferred_zone r
      in if \<not> compaction_build (rv F) \<or> rq_order r = 0 \<or> compaction_deferred F z s then Some (None, s)
         else let (progress, s) = try_to_compact_pages F (rq_zonelist r) (rq_order r) (rq_gfp r) sync_migration s
         in if progress = COMPACT_SKIPPED then Some (None, s)
            else do {
              s \<leftarrow> drain_pages E (cur_cpu E) s;
              (page, s) \<leftarrow> request_page fuel F r (rq_gfp r) (fst alloc_flags) (snd alloc_flags) s;
              Some (page, if page \<noteq> None then count_vm_events E COMPACTSUCCESS 1 (reset_compact_defer z s)
                else defer_compaction F z (count_vm_events E COMPACTFAIL 1 s))
            })"

text \<open>The task is marked \<open>PF_MEMALLOC\<close> while it reclaims. The second result is the progress.\<close>

definition k__alloc_pages_direct_reclaim ::
  "nat \<Rightarrow> slow_env \<Rightarrow> alloc_request \<Rightarrow> zone_watermarks \<times> alloc_flag set \<Rightarrow> slab_state \<Rightarrow> kstate \<Rightarrow>
     (page_ptr option \<times> nat \<times> slab_state \<times> kstate) option" where
  "k__alloc_pages_direct_reclaim fuel F r alloc_flags L s = do {
     let V = rv F;
     let s = reset_reclaimed_slab V (cpuset_memory_pressure_bump F s);
     (did_some_progress, L, s) \<leftarrow>
       try_to_free_pages (V\<lparr>wm := (wm V)\<lparr>pf_memalloc := True\<rparr>\<rparr>) (rq_zonelist r) (rq_order r) (rq_gfp r) L s;
     if did_some_progress = 0 then Some (None, 0, L, s)
     else do {
       (page, s) \<leftarrow> request_page fuel F r (rq_gfp r) (fst alloc_flags) (snd alloc_flags) s;
       (page, s) \<leftarrow> (if page \<noteq> None then Some (page, s)
         else do {
           s \<leftarrow> drain_all_pages (mm V) s;
           request_page fuel F r (rq_gfp r) (fst alloc_flags) (snd alloc_flags) s
         });
       Some (page, did_some_progress, L, s)
     }
   }"

text \<open>With \<open>__GFP_NOFAIL\<close> it waits until a page turns up; \<open>rounds\<close> bounds the waiting.\<close>

fun k__alloc_pages_high_priority ::
  "nat \<Rightarrow> nat \<Rightarrow> slow_env \<Rightarrow> alloc_request \<Rightarrow> kstate \<Rightarrow> (alloc_outcome \<times> kstate) option" where
  "k__alloc_pages_high_priority 0 fuel F r s = Some (Spinning, s)"
| "k__alloc_pages_high_priority (Suc rounds) fuel F r s = do {
     (page, s) \<leftarrow> request_page fuel F r (rq_gfp r) WMARK_MIN {ALLOC_NO_WATERMARKS} s;
     if page = None \<and> GFP_NOFAIL \<in> rq_gfp r
     then k__alloc_pages_high_priority rounds fuel F r (wait_iff_congested (rv F) s)
     else Some (Done page, s)
   }"

definition wake_all_kswapd :: "slow_env \<Rightarrow> alloc_request \<Rightarrow> vm_state \<Rightarrow> vm_state" where
  "wake_all_kswapd F r = fold (\<lambda>z v.
       let (woken, n) = wakeup_kswapd (rv F) z (rq_order r) (zone_idx (wm (rv F)) (rq_preferred_zone r))
             (vm_node v) (vm_k v)
       in v\<lparr>vm_node := n, vm_wakeups := vm_wakeups v + (if woken then 1 else 0)\<rparr>)
     (zones_upto (wm (rv F)) (rq_high_zoneidx r) (rq_zonelist r))"

text \<open>The flags as they are for the running task at this moment.\<close>

definition slow_alloc_flags :: "slow_env \<Rightarrow> alloc_request \<Rightarrow> kstate \<Rightarrow> zone_watermarks \<times> alloc_flag set" where
  "slow_alloc_flags F r s = gfp_to_alloc_flags ((wm (rv F))\<lparr>tif_memdie := thread_memdie F s\<rparr>) (rq_gfp r)"

text \<open>From \<open>restart\<close> to \<open>rebalance\<close>.\<close>

definition slow_restart ::
  "nat \<Rightarrow> slow_env \<Rightarrow> alloc_request \<Rightarrow> vm_state \<Rightarrow>
     (page_ptr option \<times> alloc_request \<times> (zone_watermarks \<times> alloc_flag set) \<times> vm_state) option" where
  "slow_restart fuel F r v = do {
     let v = (if GFP_NO_KSWAPD \<notin> rq_gfp r then wake_all_kswapd F r v else v);
     let alloc_flags = slow_alloc_flags F r (vm_k v);
     preferred_zone \<leftarrow> (if ALLOC_CPUSET \<notin> snd alloc_flags
       then first_zones_zonelist (wm (rv F)) (rq_high_zoneidx r) (rq_zonelist r)
       else Some (rq_preferred_zone r));
     let r = r\<lparr>rq_preferred_zone := preferred_zone\<rparr>;
     (page, s) \<leftarrow> request_page fuel F r (rq_gfp r) (fst alloc_flags)
       (snd alloc_flags - {ALLOC_NO_WATERMARKS}) (vm_k v);
     Some (page, r, alloc_flags, v\<lparr>vm_k := s\<rparr>)
   }"

datatype slow_next = Restart | Rebalance | Leave alloc_outcome

text \<open>Nothing was reclaimed by a caller that may use file systems and may be retried.\<close>

definition slow_oom ::
  "nat \<Rightarrow> slow_env \<Rightarrow> alloc_request \<Rightarrow> kstate \<Rightarrow> (slow_next \<times> kstate) option" where
  "slow_oom fuel F r s =
     (if oom_killer_disabled F then Some (Leave (Done None), s)
      else do {
        (page, s) \<leftarrow> k__alloc_pages_may_oom fuel F r s;
        Some (if page \<noteq> None then Leave (Done page)
          else if GFP_NOFAIL \<notin> rq_gfp r
            \<and> (rq_order r > PAGE_ALLOC_COSTLY_ORDER \<or> rq_high_zoneidx r < ZONE_NORMAL)
          then Leave (Done None) else Restart, s)
      })"

text \<open>From the test of \<open>__GFP_WAIT\<close> to the next jump; \<open>pages_reclaimed\<close> is an \<open>unsigned long\<close>.\<close>

definition slow_balance ::
  "nat \<Rightarrow> slow_env \<Rightarrow> alloc_request \<Rightarrow> zone_watermarks \<times> alloc_flag set \<Rightarrow> nat \<Rightarrow> bool \<Rightarrow> vm_state \<Rightarrow>
     (slow_next \<times> nat \<times> vm_state) option" where
  "slow_balance fuel F r alloc_flags pages_reclaimed sync_migration v =
     (if GFP_WAIT \<notin> rq_gfp r \<or> pf_memalloc (wm (rv F))
         \<or> thread_memdie F (vm_k v) \<and> GFP_NOFAIL \<notin> rq_gfp r
      then Some (Leave (Done None), pages_reclaimed, v)
      else do {
        (page, s) \<leftarrow> k__alloc_pages_direct_compact fuel F r alloc_flags sync_migration (vm_k v);
        if page \<noteq> None then Some (Leave (Done page), pages_reclaimed, v\<lparr>vm_k := s\<rparr>)
        else do {
          (page, did_some_progress, L, s) \<leftarrow> k__alloc_pages_direct_reclaim fuel F r alloc_flags (vm_slab v) s;
          let v = v\<lparr>vm_k := s, vm_slab := L\<rparr>;
          if page \<noteq> None then Some (Leave (Done page), pages_reclaimed, v)
          else if did_some_progress = 0 \<and> GFP_FS \<in> rq_gfp r \<and> GFP_NORETRY \<notin> rq_gfp r
          then do {
            (next, s) \<leftarrow> slow_oom fuel F r s;
            Some (next, pages_reclaimed, v\<lparr>vm_k := s\<rparr>)
          }
          else let pages_reclaimed = ul (pages_reclaimed + did_some_progress)
          in if should_alloc_retry (rq_gfp r) (rq_order r) pages_reclaimed
             then Some (Rebalance, pages_reclaimed, v\<lparr>vm_k := wait_iff_congested (rv F) s\<rparr>)
             else do {
               (page, s) \<leftarrow> k__alloc_pages_direct_compact fuel F r alloc_flags True s;
               Some (Leave (Done page), pages_reclaimed, v\<lparr>vm_k := s\<rparr>)
             }
        }
      })"

definition slow_rebalance ::
  "nat \<Rightarrow> nat \<Rightarrow> slow_env \<Rightarrow> alloc_request \<Rightarrow> zone_watermarks \<times> alloc_flag set \<Rightarrow> nat \<Rightarrow> bool \<Rightarrow> vm_state \<Rightarrow>
     (slow_next \<times> nat \<times> vm_state) option" where
  "slow_rebalance rounds fuel F r alloc_flags pages_reclaimed sync_migration v = do {
     (early, s) \<leftarrow> (if ALLOC_NO_WATERMARKS \<in> snd alloc_flags
       then k__alloc_pages_high_priority rounds fuel F r (vm_k v) else Some (Done None, vm_k v));
     if early \<noteq> Done None then Some (Leave early, pages_reclaimed, v\<lparr>vm_k := s\<rparr>)
     else slow_balance fuel F r alloc_flags pages_reclaimed sync_migration (v\<lparr>vm_k := s\<rparr>)
   }"

text \<open>
  The loop, at \<open>restart\<close> without flags and at \<open>rebalance\<close> with those in force. Only the first pass
  compacts asynchronously. \<open>rounds\<close> bounds the passes.
\<close>

fun slow_loop ::
  "nat \<Rightarrow> nat \<Rightarrow> slow_env \<Rightarrow> alloc_request \<Rightarrow> (zone_watermarks \<times> alloc_flag set) option \<Rightarrow> nat \<Rightarrow> bool \<Rightarrow>
     vm_state \<Rightarrow> (alloc_outcome \<times> vm_state) option" where
  "slow_loop 0 fuel F r alloc_flags pages_reclaimed sync_migration v = Some (Spinning, v)"
| "slow_loop (Suc rounds) fuel F r alloc_flags pages_reclaimed sync_migration v = do {
     (page, r, flags, v) \<leftarrow> (case alloc_flags of
         None \<Rightarrow> slow_restart fuel F r v | Some flags \<Rightarrow> Some (None, r, flags, v));
     if page \<noteq> None then Some (Done page, v)
     else do {
       (next, pages_reclaimed, v) \<leftarrow> slow_rebalance (Suc rounds) fuel F r flags pages_reclaimed sync_migration v;
       (case next of
          Leave out \<Rightarrow> Some (out, v)
        | Restart \<Rightarrow> slow_loop rounds fuel F r None pages_reclaimed True v
        | Rebalance \<Rightarrow> slow_loop rounds fuel F r (Some flags) pages_reclaimed True v)
     }
   }"

definition k__alloc_pages_slowpath ::
  "nat \<Rightarrow> nat \<Rightarrow> slow_env \<Rightarrow> alloc_request \<Rightarrow> vm_state \<Rightarrow> (alloc_outcome \<times> vm_state) option" where
  "k__alloc_pages_slowpath rounds fuel F r v =
     (if rq_order r \<ge> MAX_ORDER then Some (Done None, v) else slow_loop rounds fuel F r None 0 False v)"

section \<open>The entry\<close>

definition k__alloc_pages_nodemask ::
  "nat \<Rightarrow> nat \<Rightarrow> slow_env \<Rightarrow> gfp_flag set \<Rightarrow> nat \<Rightarrow> zone_ptr list \<Rightarrow> vm_state \<Rightarrow> (alloc_outcome \<times> vm_state) option" where
  "k__alloc_pages_nodemask rounds fuel F gfp_mask order zonelist v =
     (let high_zoneidx = gfp_zone (rv F) gfp_mask;
          migratetype = allocflags_to_migratetype F gfp_mask;
          gfp_mask = gfp_mask \<inter> gfp_allowed_mask F;
          (fail, s) = should_fail_alloc_page F gfp_mask order (vm_k v);
          v = v\<lparr>vm_k := s\<rparr>
      in if fail \<or> zonelist = [] then Some (Done None, v)
         else case first_zones_zonelist (wm (rv F)) high_zoneidx zonelist of
           None \<Rightarrow> Some (Done None, v)
         | Some preferred_zone \<Rightarrow> do {
             let r = \<lparr>rq_gfp = gfp_mask, rq_order = order, rq_zonelist = zonelist,
               rq_high_zoneidx = high_zoneidx, rq_preferred_zone = preferred_zone, rq_migratetype = migratetype\<rparr>;
             (page, s) \<leftarrow> request_page fuel F r (insert GFP_HARDWALL gfp_mask) WMARK_LOW {ALLOC_CPUSET} (vm_k v);
             let v = v\<lparr>vm_k := s\<rparr>;
             if page \<noteq> None then Some (Done page, v) else k__alloc_pages_slowpath rounds fuel F r v
           })"

section \<open>Addresses, and exact numbers of pages\<close>

text \<open>The mapping of low memory and \<open>get_order\<close>, outside this repository.\<close>

record lowmem_env =
  page_address :: "page_ptr \<Rightarrow> 32 word"
  virt_to_page :: "32 word \<Rightarrow> page_ptr"
  virt_addr_valid :: "32 word \<Rightarrow> bool"
  get_order :: "32 word \<Rightarrow> nat"

text \<open>The result is an address, 0 without a page; \<open>None\<close> in its place stands for \<open>Spinning\<close>.\<close>

definition k__get_free_pages ::
  "nat \<Rightarrow> nat \<Rightarrow> slow_env \<Rightarrow> lowmem_env \<Rightarrow> zone_ptr list \<Rightarrow> gfp_flag set \<Rightarrow> nat \<Rightarrow> vm_state \<Rightarrow>
     (32 word option \<times> vm_state) option" where
  "k__get_free_pages rounds fuel F A zonelist gfp_mask order v =
     (if GFP_HIGHMEM \<in> gfp_mask then None
      else do {
        (out, v) \<leftarrow> k__alloc_pages_nodemask rounds fuel F gfp_mask order zonelist v;
        Some (case out of Spinning \<Rightarrow> None | Done None \<Rightarrow> Some 0 | Done (Some page) \<Rightarrow> Some (page_address A page), v)
      })"

definition get_zeroed_page ::
  "nat \<Rightarrow> nat \<Rightarrow> slow_env \<Rightarrow> lowmem_env \<Rightarrow> zone_ptr list \<Rightarrow> gfp_flag set \<Rightarrow> vm_state \<Rightarrow>
     (32 word option \<times> vm_state) option" where
  "get_zeroed_page rounds fuel F A zonelist gfp_mask =
     k__get_free_pages rounds fuel F A zonelist (insert GFP_ZERO gfp_mask) 0"

definition free_pages :: "kenv \<Rightarrow> lowmem_env \<Rightarrow> 32 word \<Rightarrow> nat \<Rightarrow> kstate \<Rightarrow> kstate option" where
  "free_pages E A addr order s =
     (if addr \<noteq> 0 then
        if \<not> virt_addr_valid A addr then None else k__free_pages E (virt_to_page A addr) order s
      else Some s)"

text \<open>The loop of both routines below, with \<open>free_page(addr)\<close>.\<close>

partial_function (option) free_page_range ::
  "kenv \<Rightarrow> lowmem_env \<Rightarrow> 32 word \<Rightarrow> 32 word \<Rightarrow> kstate \<Rightarrow> kstate option" where
  "free_page_range E A addr end' s =
     (if addr < end' then do {
        s \<leftarrow> free_pages E A addr 0 s;
        free_page_range E A (addr + PAGE_SIZE E) end' s
      } else Some s)"

definition alloc_pages_exact ::
  "nat \<Rightarrow> nat \<Rightarrow> slow_env \<Rightarrow> lowmem_env \<Rightarrow> zone_ptr list \<Rightarrow> 32 word \<Rightarrow> gfp_flag set \<Rightarrow> vm_state \<Rightarrow>
     (32 word option \<times> vm_state) option" where
  "alloc_pages_exact rounds fuel F A zonelist bytes gfp_mask v = do {
     let E = mm (rv F);
     let order = get_order A bytes;
     (addr, v) \<leftarrow> k__get_free_pages rounds fuel F A zonelist gfp_mask order v;
     (case addr of
        None \<Rightarrow> Some (None, v)
      | Some addr \<Rightarrow>
          if addr = 0 then Some (Some 0, v)
          else do {
            let alloc_end = addr + push_bit order (PAGE_SIZE E);
            let used = addr + PAGE_ALIGN E bytes;
            s \<leftarrow> split_page (virt_to_page A addr) order (vm_k v);
            s \<leftarrow> free_page_range E A used alloc_end s;
            Some (Some addr, v\<lparr>vm_k := s\<rparr>)
          })
   }"

definition free_pages_exact :: "kenv \<Rightarrow> lowmem_env \<Rightarrow> 32 word \<Rightarrow> 32 word \<Rightarrow> kstate \<Rightarrow> kstate option" where
  "free_pages_exact E A virt bytes = free_page_range E A virt (virt + PAGE_ALIGN E bytes)"

text \<open>Below the last page the loop frees each page of the range once, in order.\<close>

lemma free_page_range_eq:
  assumes top: "below_top E e"
  shows "free_page_range E A a e s = forK (\<lambda>a. free_pages E A a 0) (page_addrs a e) s"
proof (induction "length (page_addrs a e)" arbitrary: a s)
  case 0
  with page_addrs_Cons [OF top, of a] have "\<not> a < e" by fastforce
  with 0 show ?case by (subst free_page_range.simps) simp
next
  case (Suc k)
  then have "a < e" using page_addrs_Nil [of a e] by fastforce
  note pa = page_addrs_Cons [OF top this]
  from Suc.hyps(2) have k: "k = length (page_addrs (a + 4096) e)" by (simp add: pa)
  have IH: "free_page_range E A (a + 4096) e = forK (\<lambda>a. free_pages E A a 0) (page_addrs (a + 4096) e)"
    by (rule ext) (rule Suc.hyps(1) [OF k])
  show ?case
    by (subst free_page_range.simps) (simp add: \<open>a < e\<close> pa PAGE_SIZE_12 [OF top] IH)
qed

section \<open>Allocations that must not fail\<close>

lemma high_priority_nofail:
  assumes "k__alloc_pages_high_priority rounds fuel F r s = Some (out, t)" and "GFP_NOFAIL \<in> rq_gfp r"
  shows "out \<noteq> Done None"
  using assms(1)
proof (induction rounds arbitrary: s)
  case (Suc rounds)
  then show ?case using assms(2) by (auto split: Option.bind_splits if_splits)
qed simp

lemma high_priority_once:
  assumes "k__alloc_pages_high_priority (Suc rounds) fuel F r s = Some (out, t)" and "GFP_NOFAIL \<notin> rq_gfp r"
  shows "out \<noteq> Spinning"
  using assms by (auto split: Option.bind_splits if_splits)

text \<open>A caller that may wait, reclaims nothing itself and asks for the page until it gets it.\<close>

definition insists :: "slow_env \<Rightarrow> gfp_flag set \<Rightarrow> bool" where
  "insists F gfp_mask \<longleftrightarrow> GFP_NOFAIL \<in> gfp_mask \<and> GFP_WAIT \<in> gfp_mask \<and> GFP_NORETRY \<notin> gfp_mask
     \<and> \<not> pf_memalloc (wm (rv F)) \<and> \<not> oom_killer_disabled F"

lemma slow_oom_insists:
  "insists F (rq_gfp r) \<Longrightarrow> slow_oom fuel F r s \<noteq> Some (Leave (Done None), t)"
  by (auto simp: slow_oom_def insists_def split: Option.bind_splits if_splits)

lemma slow_balance_insists:
  assumes "insists F (rq_gfp r)"
  shows "slow_balance fuel F r fl pages sync v \<noteq> Some (Leave (Done None), pages', v')"
proof -
  have "should_alloc_retry (rq_gfp r) (rq_order r) n" for n
    using assms by (simp add: should_alloc_retry_def insists_def)
  with assms slow_oom_insists [OF assms] show ?thesis
    by (auto simp: slow_balance_def insists_def Let_def split: Option.bind_splits if_splits)
qed

lemma slow_rebalance_insists:
  assumes "insists F (rq_gfp r)"
  shows "slow_rebalance n fuel F r fl pages sync v \<noteq> Some (Leave (Done None), pages', v')"
  using slow_balance_insists [OF assms] high_priority_nofail [of n fuel F r] assms
  by (auto simp: slow_rebalance_def insists_def split: Option.bind_splits if_splits)

lemma slow_restart_gfp:
  "slow_restart fuel F r v = Some (page, r', fl, v') \<Longrightarrow> rq_gfp r' = rq_gfp r \<and> rq_order r' = rq_order r
     \<and> rq_high_zoneidx r' = rq_high_zoneidx r"
  by (auto simp: slow_restart_def Let_def split: Option.bind_splits if_splits)

text \<open>A pass of the loop: it starts with the same request, up to the preferred zone.\<close>

lemma slow_loop_pass:
  assumes "slow_loop (Suc rounds) fuel F r fl pages sync v = Some (out, v')"
  obtains page where "page \<noteq> None" "out = Done page"
  | r1 flags v1 nxt pages1 v2 where "rq_gfp r1 = rq_gfp r" "rq_order r1 = rq_order r"
      "slow_rebalance (Suc rounds) fuel F r1 flags pages sync v1 = Some (nxt, pages1, v2)"
      "(case nxt of Leave out \<Rightarrow> Some (out, v2)
        | Restart \<Rightarrow> slow_loop rounds fuel F r1 None pages1 True v2
        | Rebalance \<Rightarrow> slow_loop rounds fuel F r1 (Some flags) pages1 True v2) = Some (out, v')"
proof -
  from assms obtain x where x:
    "(case fl of None \<Rightarrow> slow_restart fuel F r v | Some flags \<Rightarrow> Some (None, r, flags, v)) = Some x"
    "(case x of (page, r1, flags, v1) \<Rightarrow> if page \<noteq> None then Some (Done page, v1)
      else slow_rebalance (Suc rounds) fuel F r1 flags pages sync v1 \<bind> (\<lambda>(nxt, pages1, v2).
        case nxt of Leave out \<Rightarrow> Some (out, v2)
        | Restart \<Rightarrow> slow_loop rounds fuel F r1 None pages1 True v2
        | Rebalance \<Rightarrow> slow_loop rounds fuel F r1 (Some flags) pages1 True v2)) = Some (out, v')"
    unfolding slow_loop.simps bind_eq_Some_conv by blast
  obtain page r1 flags v1 where [simp]: "x = (page, r1, flags, v1)" by (cases x)
  from x have start: "(case fl of None \<Rightarrow> slow_restart fuel F r v | Some flags \<Rightarrow> Some (None, r, flags, v))
      = Some (page, r1, flags, v1)"
    and rest: "(if page \<noteq> None then Some (Done page, v1)
      else slow_rebalance (Suc rounds) fuel F r1 flags pages sync v1 \<bind> (\<lambda>(nxt, pages1, v2).
        case nxt of Leave out \<Rightarrow> Some (out, v2)
        | Restart \<Rightarrow> slow_loop rounds fuel F r1 None pages1 True v2
        | Rebalance \<Rightarrow> slow_loop rounds fuel F r1 (Some flags) pages1 True v2)) = Some (out, v')"
    by simp_all
  from start have r1: "rq_gfp r1 = rq_gfp r" "rq_order r1 = rq_order r"
    using slow_restart_gfp [of fuel F r v] by (auto split: option.splits)
  show thesis
  proof (cases page)
    case None
    with rest obtain nxt pages1 v2 where
      "slow_rebalance (Suc rounds) fuel F r1 flags pages sync v1 = Some (nxt, pages1, v2)"
      "(case nxt of Leave out \<Rightarrow> Some (out, v2)
        | Restart \<Rightarrow> slow_loop rounds fuel F r1 None pages1 True v2
        | Rebalance \<Rightarrow> slow_loop rounds fuel F r1 (Some flags) pages1 True v2) = Some (out, v')"
      by (auto simp: bind_eq_Some_conv)
    with r1 show thesis by (rule that(2))
  qed (use rest r1 that(1) in auto)
qed

lemma slow_loop_insists:
  assumes "slow_loop rounds fuel F r fl pages sync v = Some (out, v')" and "insists F (rq_gfp r)"
  shows "out \<noteq> Done None"
  using assms
proof (induction rounds arbitrary: r fl pages sync v)
  case (Suc rounds)
  from Suc.prems(1) show ?case
  proof (cases rule: slow_loop_pass)
    case (2 r1 flags v1 nxt pages1 v2)
    then have "insists F (rq_gfp r1)" using Suc.prems(2) by simp
    then have "nxt \<noteq> Leave (Done None)" using slow_rebalance_insists 2(3) by blast
    with 2 \<open>insists F (rq_gfp r1)\<close> Suc.IH [of r1] show ?thesis by (cases nxt) (auto simp: split_paired_All)
  qed simp
qed simp

text \<open>
  \<open>__GFP_NOFAIL\<close> is kept. An allocation with the flag, of an order below \<open>MAX_ORDER\<close>, whose
  caller may wait, does not ask for \<open>__GFP_NORETRY\<close> and does not already reclaim, and with the
  out-of-memory killer enabled, never returns \<open>NULL\<close> when a zone of the list is allowed: it returns
  a page or keeps trying. Fault injection does not touch it.
\<close>

theorem nofail_never_null:
  assumes "insists F (gfp_mask \<inter> gfp_allowed_mask F)" and "order < MAX_ORDER"
    and "zones_upto (wm (rv F)) (gfp_zone (rv F) gfp_mask) zonelist \<noteq> []"
    and "k__alloc_pages_nodemask rounds fuel F gfp_mask order zonelist v = Some (out, v')"
  shows "out \<noteq> Done None"
proof -
  have "should_fail_alloc_page F (gfp_mask \<inter> gfp_allowed_mask F) order s = (False, s)" for s
    using assms(1) by (auto simp: should_fail_alloc_page_def insists_def split: option.split)
  moreover have "zonelist \<noteq> []" using assms(3) by (auto simp: zones_upto_def)
  ultimately show ?thesis
    using assms slow_loop_insists [of rounds fuel F]
    by (auto simp: k__alloc_pages_nodemask_def first_zones_zonelist_def k__alloc_pages_slowpath_def
        Let_def not_le split: Option.bind_splits list.splits if_splits prod.splits)
qed

section \<open>Large allocations give up\<close>

text \<open>A large order whose caller can be refused; \<open>__GFP_REPEAT\<close> needs one of the other flags.\<close>

definition may_give_up :: "alloc_request \<Rightarrow> bool" where
  "may_give_up r \<longleftrightarrow> PAGE_ALLOC_COSTLY_ORDER < rq_order r \<and> rq_order r < 32 \<and> GFP_NOFAIL \<notin> rq_gfp r
     \<and> (GFP_REPEAT \<in> rq_gfp r \<longrightarrow> GFP_FS \<in> rq_gfp r \<or> GFP_NORETRY \<in> rq_gfp r)"

text \<open>The pages that one direct reclaim reports fit an \<open>int\<close>.\<close>

definition progress_bounded :: "slow_env \<Rightarrow> bool" where
  "progress_bounded F \<longleftrightarrow> (\<forall>zonelist order gfp_mask L s n L' t.
     try_to_free_pages ((rv F)\<lparr>wm := (wm (rv F))\<lparr>pf_memalloc := True\<rparr>\<rparr>) zonelist order gfp_mask L s
       = Some (n, L', t) \<longrightarrow> n < 2 ^ 31)"

lemma direct_reclaim_bounded:
  assumes "k__alloc_pages_direct_reclaim fuel F r fl L s = Some (page, n, L', t)" and "progress_bounded F"
  shows "n < 2 ^ 31"
  using assms unfolding k__alloc_pages_direct_reclaim_def progress_bounded_def
  by (auto simp: Let_def split: Option.bind_splits if_splits) blast+

lemma slow_oom_gives_up:
  "slow_oom fuel F r s = Some (nxt, t) \<Longrightarrow> may_give_up r \<Longrightarrow> \<exists>page. nxt = Leave (Done page)"
  by (auto simp: slow_oom_def may_give_up_def split: Option.bind_splits if_splits)

text \<open>A pass leaves the loop with an answer, or has reclaimed something and is short of the order.\<close>

lemma slow_balance_gives_up:
  assumes "slow_balance fuel F r fl pages sync v = Some (nxt, pages', v')" and "may_give_up r"
    and "progress_bounded F" and "pages < 2 ^ 31"
  shows "(\<exists>page. nxt = Leave (Done page)) \<or> nxt = Rebalance \<and> pages < pages' \<and> pages' < 2 ^ rq_order r"
proof (cases nxt)
  case Rebalance
  from assms(1) Rebalance obtain page s n L t where
    n: "k__alloc_pages_direct_reclaim fuel F r fl (vm_slab v) s = Some (page, n, L, t)"
    and p: "pages' = ul (pages + n)" and retry: "should_alloc_retry (rq_gfp r) (rq_order r) pages'"
    and some: "\<not> (n = 0 \<and> GFP_FS \<in> rq_gfp r \<and> GFP_NORETRY \<notin> rq_gfp r)"
    by (auto simp: slow_balance_def slow_oom_def Let_def split: Option.bind_splits if_splits)
  from retry assms(2) have "GFP_NORETRY \<notin> rq_gfp r" "GFP_REPEAT \<in> rq_gfp r" "pages' < 2 ^ rq_order r"
    by (auto simp: should_alloc_retry_def may_give_up_def split: if_splits)
  moreover from this some assms(2) have "0 < n" by (auto simp: may_give_up_def)
  moreover have "pages + n < 2 ^ 32" using direct_reclaim_bounded [OF n assms(3)] assms(4) by simp
  ultimately show ?thesis using Rebalance p by (simp add: ul_def)
next
  case Restart
  with assms(1,2) slow_oom_gives_up [of fuel F r] show ?thesis
    by (fastforce simp: slow_balance_def Let_def split: Option.bind_splits if_splits)
next
  case (Leave out)
  with assms(1,2) slow_oom_gives_up [of fuel F r] show ?thesis
    by (fastforce simp: slow_balance_def Let_def split: Option.bind_splits if_splits)
qed

lemma slow_rebalance_gives_up:
  assumes "slow_rebalance (Suc n) fuel F r fl pages sync v = Some (nxt, pages', v')" and "may_give_up r"
    and "progress_bounded F" and "pages < 2 ^ 31"
  shows "(\<exists>page. nxt = Leave (Done page)) \<or> nxt = Rebalance \<and> pages < pages' \<and> pages' < 2 ^ rq_order r"
proof -
  from assms(1) obtain early s where
    early: "(if ALLOC_NO_WATERMARKS \<in> snd fl then k__alloc_pages_high_priority (Suc n) fuel F r (vm_k v)
       else Some (Done None, vm_k v)) = Some (early, s)"
    and rest: "(if early \<noteq> Done None then Some (Leave early, pages, v\<lparr>vm_k := s\<rparr>)
       else slow_balance fuel F r fl pages sync (v\<lparr>vm_k := s\<rparr>)) = Some (nxt, pages', v')"
    by (auto simp: slow_rebalance_def split: Option.bind_splits)
  have "early \<noteq> Spinning"
    using early high_priority_once [of n fuel F r] assms(2)
    by (auto simp: may_give_up_def simp del: k__alloc_pages_high_priority.simps split: if_splits)
  with rest slow_balance_gives_up [OF _ assms(2-4)] show ?thesis
    by (cases early) (auto split: if_splits)
qed

lemma slow_loop_gives_up:
  assumes "slow_loop rounds fuel F r fl pages sync v = Some (out, v')" and "may_give_up r"
    and "progress_bounded F" and "pages < 2 ^ rq_order r" and "2 ^ rq_order r \<le> rounds + pages"
  shows "out \<noteq> Spinning"
  using assms
proof (induction rounds arbitrary: r fl pages sync v)
  case (Suc rounds)
  have "(2 :: nat) ^ rq_order r \<le> 2 ^ 31" using Suc.prems(2)
    by (intro power_increasing) (simp_all add: may_give_up_def)
  then have pages: "pages < 2 ^ 31" using Suc.prems(4) by linarith
  from Suc.prems(1) show ?case
  proof (cases rule: slow_loop_pass)
    case (2 r1 flags v1 nxt pages1 v2)
    then have give: "may_give_up r1" using Suc.prems(2) by (simp add: may_give_up_def)
    from slow_rebalance_gives_up [OF 2(3) give Suc.prems(3) pages] show ?thesis
    proof
      assume "\<exists>page. nxt = Leave (Done page)"
      with 2(4) show ?thesis by auto
    next
      assume N: "nxt = Rebalance \<and> pages < pages1 \<and> pages1 < 2 ^ rq_order r1"
      with 2(4) have "slow_loop rounds fuel F r1 (Some flags) pages1 True v2 = Some (out, v')" by simp
      from Suc.IH [OF this give Suc.prems(3)] N 2(2) Suc.prems(5) show ?thesis by simp
    qed
  qed simp
qed simp

text \<open>
  Large allocations give up. For an order above \<open>PAGE_ALLOC_COSTLY_ORDER\<close> without
  \<open>__GFP_NOFAIL\<close>, and with \<open>__GFP_FS\<close> or \<open>__GFP_NORETRY\<close> where it has \<open>__GFP_REPEAT\<close>, the slow path
  needs no more than \<open>2 ^ order\<close> passes: it leaves with a page or \<open>NULL\<close>, and does not restart.
\<close>

theorem large_allocations_give_up:
  assumes "may_give_up r" and "progress_bounded F" and "2 ^ rq_order r \<le> rounds"
    and "k__alloc_pages_slowpath rounds fuel F r v = Some (out, v')"
  shows "\<exists>page. out = Done page"
proof (cases "rq_order r \<ge> MAX_ORDER")
  case True
  with assms(4) show ?thesis by (auto simp: k__alloc_pages_slowpath_def)
next
  case False
  with assms slow_loop_gives_up [of rounds fuel F r None 0 False v out v'] show ?thesis
    by (cases out) (auto simp: k__alloc_pages_slowpath_def)
qed

section \<open>Allocations that never give up\<close>

lemma wake_all_kswapd_frame [simp]:
  "vm_k (wake_all_kswapd F r v) = vm_k v" "vm_slab (wake_all_kswapd F r v) = vm_slab v"
proof -
  have "vm_k (fold f zs v) = vm_k v \<and> vm_slab (fold f zs v) = vm_slab v"
    if "\<And>z v. vm_k (f z v) = vm_k v \<and> vm_slab (f z v) = vm_slab v" for f and zs :: "zone_ptr list"
    using that by (induction zs arbitrary: v) simp_all
  then show "vm_k (wake_all_kswapd F r v) = vm_k v" "vm_slab (wake_all_kswapd F r v) = vm_slab v"
    by (simp_all add: wake_all_kswapd_def split_def Let_def)
qed

text \<open>
  A predicate on the shrinkers and the memory that describes a hopeless machine: no zone gives a
  page, reclaim returns and reports no progress, and things stay that way.
\<close>

definition hopeless :: "nat \<Rightarrow> slow_env \<Rightarrow> alloc_request \<Rightarrow> (slab_state \<Rightarrow> kstate \<Rightarrow> bool) \<Rightarrow> bool" where
  "hopeless fuel F r P \<longleftrightarrow> \<not> compaction_build (rv F) \<and> (\<forall>L s. P L s \<longrightarrow> \<not> thread_memdie F s
     \<and> P L (wait_iff_congested (rv F) s)
     \<and> (\<forall>wmark flags. ALLOC_CPUSET \<in> flags \<longrightarrow>
          (\<exists>t. request_page fuel F r (rq_gfp r) wmark flags s = Some (None, t) \<and> P L t))
     \<and> (\<exists>L' t. try_to_free_pages ((rv F)\<lparr>wm := (wm (rv F))\<lparr>pf_memalloc := True\<rparr>\<rparr>) (rq_zonelist r) (rq_order r)
          (rq_gfp r) L (reset_reclaimed_slab (rv F) (cpuset_memory_pressure_bump F s)) = Some (0, L', t) \<and> P L' t))"

text \<open>A caller that may wait but not use file systems, and that the code always retries.\<close>

definition retried_forever :: "slow_env \<Rightarrow> alloc_request \<Rightarrow> bool" where
  "retried_forever F r \<longleftrightarrow> GFP_WAIT \<in> rq_gfp r \<and> GFP_FS \<notin> rq_gfp r \<and> GFP_NORETRY \<notin> rq_gfp r
     \<and> (rq_order r \<le> PAGE_ALLOC_COSTLY_ORDER \<or> GFP_REPEAT \<in> rq_gfp r \<or> GFP_NOFAIL \<in> rq_gfp r)
     \<and> \<not> pf_memalloc (wm (rv F))"

lemma slow_alloc_flags_waiting:
  assumes "GFP_WAIT \<in> rq_gfp r" and "\<not> pf_memalloc (wm (rv F))" and "\<not> thread_memdie F s"
  shows "ALLOC_CPUSET \<in> snd (slow_alloc_flags F r s)" and "ALLOC_NO_WATERMARKS \<notin> snd (slow_alloc_flags F r s)"
  using assms by (auto simp: slow_alloc_flags_def gfp_to_alloc_flags_def Let_def)

lemma hopelessD:
  assumes "hopeless fuel F r P" and "P L s"
  shows "\<not> compaction_build (rv F)" and "\<not> thread_memdie F s" and "P L (wait_iff_congested (rv F) s)"
    and "ALLOC_CPUSET \<in> flags \<Longrightarrow>
      \<exists>t. request_page fuel F r (rq_gfp r) wmark flags s = Some (None, t) \<and> P L t"
    and "\<exists>L' t. try_to_free_pages ((rv F)\<lparr>wm := (wm (rv F))\<lparr>pf_memalloc := True\<rparr>\<rparr>) (rq_zonelist r) (rq_order r)
      (rq_gfp r) L (reset_reclaimed_slab (rv F) (cpuset_memory_pressure_bump F s)) = Some (0, L', t) \<and> P L' t"
  using assms unfolding hopeless_def by blast+

lemma slow_rebalance_spins:
  assumes H: "hopeless fuel F r P" and R: "retried_forever F r" and "P (vm_slab v) (vm_k v)"
    and "ALLOC_NO_WATERMARKS \<notin> snd fl"
  shows "\<exists>v'. slow_rebalance n fuel F r fl 0 sync v = Some (Rebalance, 0, v') \<and> P (vm_slab v') (vm_k v')"
proof -
  from hopelessD(5) [OF H assms(3)] obtain L t where free: "try_to_free_pages ((rv F)\<lparr>wm := (wm (rv F))\<lparr>pf_memalloc := True\<rparr>\<rparr>)
      (rq_zonelist r) (rq_order r) (rq_gfp r) (vm_slab v)
      (reset_reclaimed_slab (rv F) (cpuset_memory_pressure_bump F (vm_k v))) = Some (0, L, t)"
    and "P L t" by blast
  then have t: "P L (wait_iff_congested (rv F) t)" using hopelessD(3) [OF H] by blast
  have alive: "\<not> thread_memdie F (vm_k v)" and nc: "\<not> compaction_build (rv F)"
    using hopelessD(1,2) [OF H assms(3)] by blast+
  have "k__alloc_pages_direct_reclaim fuel F r fl (vm_slab v) (vm_k v) = Some (None, 0, L, t)"
    using free by (simp add: k__alloc_pages_direct_reclaim_def Let_def)
  moreover have "should_alloc_retry (rq_gfp r) (rq_order r) 0"
    using R by (auto simp: should_alloc_retry_def retried_forever_def)
  moreover have "k__alloc_pages_direct_compact fuel F r fl sync (vm_k v) = Some (None, vm_k v)"
    using nc by (simp add: k__alloc_pages_direct_compact_def Let_def)
  ultimately have "slow_balance fuel F r fl 0 sync v
      = Some (Rebalance, 0, v\<lparr>vm_k := wait_iff_congested (rv F) t, vm_slab := L\<rparr>)"
    using R alive by (simp add: slow_balance_def retried_forever_def ul_def Let_def)
  moreover have "v\<lparr>vm_k := vm_k v\<rparr> = v" by simp
  ultimately have "slow_rebalance n fuel F r fl 0 sync v
      = Some (Rebalance, 0, v\<lparr>vm_k := wait_iff_congested (rv F) t, vm_slab := L\<rparr>)"
    using assms(4) by (simp add: slow_rebalance_def)
  with t show ?thesis by simp
qed

lemma slow_loop_spins:
  assumes H: "hopeless fuel F r P" and R: "retried_forever F r" and "P (vm_slab v) (vm_k v)"
    and "case fl of None \<Rightarrow> True | Some flags \<Rightarrow> ALLOC_NO_WATERMARKS \<notin> snd flags"
  shows "\<exists>v'. slow_loop rounds fuel F r fl 0 sync v = Some (Spinning, v')"
  using assms(3,4)
proof (induction rounds arbitrary: fl sync v)
  case (Suc rounds)
  have "\<exists>flags v1. (case fl of None \<Rightarrow> slow_restart fuel F r v | Some flags \<Rightarrow> Some (None, r, flags, v))
      = Some (None, r, flags, v1) \<and> P (vm_slab v1) (vm_k v1) \<and> ALLOC_NO_WATERMARKS \<notin> snd flags"
  proof (cases fl)
    case None
    let ?flags = "slow_alloc_flags F r (vm_k v)"
    have fl: "ALLOC_CPUSET \<in> snd ?flags" "ALLOC_NO_WATERMARKS \<notin> snd ?flags"
      using slow_alloc_flags_waiting [of r F "vm_k v"] hopelessD(2) [OF H Suc.prems(1)] R
      by (simp_all add: retried_forever_def)
    then have "ALLOC_CPUSET \<in> snd ?flags - {ALLOC_NO_WATERMARKS}" by simp
    from hopelessD(4) [OF H Suc.prems(1) this, of "fst ?flags"] obtain t where
      "request_page fuel F r (rq_gfp r) (fst ?flags) (snd ?flags - {ALLOC_NO_WATERMARKS}) (vm_k v) = Some (None, t)"
      "P (vm_slab v) t" by blast
    with fl None show ?thesis by (cases ?flags) (simp add: slow_restart_def)
  qed (use Suc.prems in auto)
  then obtain flags v1 where start: "(case fl of None \<Rightarrow> slow_restart fuel F r v | Some flags \<Rightarrow> Some (None, r, flags, v))
      = Some (None, r, flags, v1)" and v1: "P (vm_slab v1) (vm_k v1)" "ALLOC_NO_WATERMARKS \<notin> snd flags" by blast
  from slow_rebalance_spins [OF H R v1, of "Suc rounds" sync] obtain v2 where
    "slow_rebalance (Suc rounds) fuel F r flags 0 sync v1 = Some (Rebalance, 0, v2)" "P (vm_slab v2) (vm_k v2)" by blast
  with start v1(2) Suc.IH [of v2 "Some flags" True] show ?case by simp
qed simp

text \<open>
  A caller that may wait but not enter file systems is retried for ever. If its order is at most
  \<open>PAGE_ALLOC_COSTLY_ORDER\<close>, or it has \<open>__GFP_REPEAT\<close> or \<open>__GFP_NOFAIL\<close>, and not \<open>__GFP_NORETRY\<close>,
  then on a hopeless machine no number of passes is enough: the out-of-memory killer is not asked,
  and a large \<open>__GFP_REPEAT\<close> order is retried although nothing is reclaimed any more.
\<close>

theorem slow_path_spins:
  assumes "hopeless fuel F r P" and "retried_forever F r" and "rq_order r < MAX_ORDER"
    and "P (vm_slab v) (vm_k v)"
  shows "\<exists>v'. k__alloc_pages_slowpath rounds fuel F r v = Some (Spinning, v')"
  using slow_loop_spins [OF assms(1,2,4), of None] assms(3) by (simp add: k__alloc_pages_slowpath_def)

section \<open>The theorems on the small machine\<close>

text \<open>A task whose cpuset allows no zone: nothing is given, and nothing reclaimed.\<close>

definition sample_slow_env :: slow_env where
  "sample_slow_env = \<lparr>rv = sample_reclaim_env\<lparr>cpuset_zone_allowed_hardwall := \<lambda>_. False,
       wm := sample_alloc_env\<lparr>cpuset_zone_allowed_softwall := \<lambda>_ _. False\<rparr>\<rparr>,
     compaction_deferred = (\<lambda>_ _. False), defer_compaction = (\<lambda>_ s. s),
     try_to_compact_pages = (\<lambda>_ _ _ _ s. (COMPACT_SKIPPED, s)),
     try_set_zonelist_oom = (\<lambda>_ _ s. (True, s)), clear_zonelist_oom = (\<lambda>_ _ s. s),
     out_of_memory = (\<lambda>_ _ _ s. s), oom_killer_disabled = False,
     schedule_timeout_uninterruptible = (\<lambda>s. s), thread_memdie = (\<lambda>_. False),
     cpuset_memory_pressure_bump = (\<lambda>s. s), allocflags_to_migratetype = (\<lambda>_. MIGRATE_UNMOVABLE),
     gfp_allowed_mask = UNIV, fail_page_alloc = None\<rparr>"

lemmas slow_env_defs = sample_slow_env_def sample_reclaim_env_def sample_alloc_env_def

definition sample_vm :: "kstate \<Rightarrow> vm_state" where
  "sample_vm s = \<lparr>vm_k = s, vm_slab = \<lparr>shrinker_writer = False, shrinker_list = []\<rparr>,
     vm_node = \<lparr>kn_zones = [0], kswapd_max_order = 0, kn_classzone_idx = 3, kswapd_waiting = True\<rparr>, vm_wakeups = 0\<rparr>"

lemma shrink_zones_walled:
  assumes "\<And>z. \<not> cpuset_zone_allowed_hardwall V z"
  shows "shrink_zones V priority zonelist sc s = Some (sc, s)"
proof -
  have "shrink_zones_loop V priority zs sc s = Some (sc, s)" for zs
    using assms by (induction zs) simp_all
  then show ?thesis by (simp add: shrink_zones_def)
qed

lemma direct_reclaim_walled:
  assumes "\<And>z. \<not> cpuset_zone_allowed_hardwall V z" and "\<And>s. reclaimed_slab V s = 0"
    and "direct_reclaim_loop V zonelist ps m sc L s = Some (sc', L', t)"
  shows "sc_nr_reclaimed sc' = sc_nr_reclaimed sc"
  using assms(3)
proof (induction ps arbitrary: m sc L s)
  case (Cons p ps)
  then show ?case
    using assms(2) by (auto simp: shrink_zones_walled [OF assms(1)] Let_def split: Option.bind_splits if_splits)
qed simp

lemma try_to_free_walled:
  assumes "\<And>z. \<not> cpuset_zone_allowed_hardwall V z" and "\<And>s. reclaimed_slab V s = 0"
    and "try_to_free_pages V zonelist order gfp_mask L s = Some (n, L', t)"
  shows "n = 0"
proof -
  have "all_unreclaimable V zonelist sc s" for sc s
    using assms(1) by (simp add: all_unreclaimable_def list_all_iff)
  with assms(3) direct_reclaim_walled [OF assms(1,2)] show ?thesis
    by (auto simp: try_to_free_pages_def do_try_to_free_pages_def new_request_def Let_def
        simp del: direct_reclaim_loop.simps split: Option.bind_splits)
qed

text \<open>Without shrinkers a reclaim of this task changes nothing but a counter.\<close>

lemma direct_reclaim_idle:
  assumes "shrinker_list L = []" "\<not> shrinker_writer L"
    and "sc_nr_scanned sc = 0" "sc_nr_reclaimed sc = 0" "sc_nr_to_reclaim sc = 32"
  shows "direct_reclaim_loop ((rv sample_slow_env)\<lparr>wm := W\<rparr>) zonelist ps 0 sc L s = Some (sc, L, s)"
  using assms(3-5)
proof (induction ps)
  case (Cons p ps)
  let ?V = "(rv sample_slow_env)\<lparr>wm := W\<rparr>"
  have walled: "\<not> cpuset_zone_allowed_hardwall ?V z" for z by (simp add: slow_env_defs)
  have sc: "sc\<lparr>sc_nr_scanned := 0\<rparr> = sc" "sc\<lparr>sc_nr_reclaimed := 0\<rparr> = sc"
    using Cons.prems by (cases sc, simp)+
  have slab: "shrink_slab ?V a b c L s = Some (0, L, s)" for a b c s
    using assms(1,2) by (cases L) (simp add: shrink_slab_def Let_def)
  have ids: "reclaimed_slab (rv sample_slow_env) s = 0" "reset_reclaimed_slab (rv sample_slow_env) s = s"
    "disable_swap_token (rv sample_slow_env) s = s" "wait_iff_congested (rv sample_slow_env) s = s" for s
    by (simp_all add: slow_env_defs)
  show ?case
    using Cons by (simp add: shrink_zones_walled [OF walled] sc slab ids Let_def)
qed simp

lemma try_to_free_idle:
  assumes "shrinker_list L = []" "\<not> shrinker_writer L"
  shows "try_to_free_pages ((rv sample_slow_env)\<lparr>wm := W\<rparr>) zonelist order gfp_mask L s
    = Some (0, L, count_vm_events sample_env ALLOCSTALL 1 s)"
proof -
  have "all_unreclaimable ((rv sample_slow_env)\<lparr>wm := W\<rparr>) zonelist sc s" for sc s
    by (simp add: all_unreclaimable_def list_all_iff slow_env_defs)
  moreover have "mm ((rv sample_slow_env)\<lparr>wm := W\<rparr>) = sample_env" by (simp add: slow_env_defs)
  ultimately show ?thesis
    by (simp add: try_to_free_pages_def do_try_to_free_pages_def direct_reclaim_idle [OF assms] new_request_def
        SWAP_CLUSTER_MAX_def Let_def del: direct_reclaim_loop.simps)
qed

lemma sample_request_refused:
  assumes "ALLOC_CPUSET \<in> flags"
  shows "request_page fuel sample_slow_env r gfp_mask wmark flags s = Some (None, s)"
proof -
  have "freelist_scan fuel E (wm (rv sample_slow_env)) gfp_mask order cz wmark flags mt zs s = Some (None, s)"
    for E order cz mt zs
    using assms by (induction zs) (simp_all add: slow_env_defs)
  then show ?thesis by (simp add: request_page_def get_page_from_freelist_def)
qed

text \<open>A block of 16 pages for a caller that repeats, and a page for one that must not enter file systems.\<close>

definition sample_alloc :: "gfp_flag set \<Rightarrow> nat \<Rightarrow> alloc_request" where
  "sample_alloc gfp_mask order = \<lparr>rq_gfp = gfp_mask, rq_order = order, rq_zonelist = [0], rq_high_zoneidx = 1,
     rq_preferred_zone = 0, rq_migratetype = MIGRATE_UNMOVABLE\<rparr>"

lemma sample_flags:
  "GFP_WAIT \<in> rq_gfp r \<Longrightarrow> GFP_HIGH \<notin> rq_gfp r \<Longrightarrow>
    slow_alloc_flags sample_slow_env r s = (WMARK_MIN, {ALLOC_CPUSET})"
  by (simp add: slow_alloc_flags_def gfp_to_alloc_flags_def slow_env_defs)

lemma sample_slow_pass:
  assumes "r = sample_alloc {GFP_WAIT, GFP_IO, GFP_FS, GFP_REPEAT} 4"
    and "shrinker_list (vm_slab v) = []" "\<not> shrinker_writer (vm_slab v)"
  shows "\<exists>v'. slow_rebalance n fuel sample_slow_env r (WMARK_MIN, {ALLOC_CPUSET}) pages sync v
    = Some (Leave (Done None), pages, v')"
proof -
  let ?F = sample_slow_env
  have env: "\<not> compaction_build (rv ?F)" "\<not> pf_memalloc (wm (rv ?F))" "\<not> thread_memdie ?F s" "\<not> oom_killer_disabled ?F"
    "reset_reclaimed_slab (rv ?F) s = s" "cpuset_memory_pressure_bump ?F s = s" "try_set_zonelist_oom ?F zl g s = (True, s)"
    for s zl g by (simp_all add: slow_env_defs)
  have rq: "rq_gfp r = {GFP_WAIT, GFP_IO, GFP_FS, GFP_REPEAT}" "rq_order r = 4"
    by (simp_all add: assms(1) sample_alloc_def)
  have "slow_oom fuel ?F r s = Some (Leave (Done None), clear_zonelist_oom ?F (rq_zonelist r) (rq_gfp r) s)" for s
    by (simp add: slow_oom_def k__alloc_pages_may_oom_def env rq sample_request_refused PAGE_ALLOC_COSTLY_ORDER_def Let_def)
  moreover have "k__alloc_pages_direct_reclaim fuel ?F r (WMARK_MIN, {ALLOC_CPUSET}) (vm_slab v) s
      = Some (None, 0, vm_slab v, count_vm_events sample_env ALLOCSTALL 1 s)" for s
    by (simp add: k__alloc_pages_direct_reclaim_def env try_to_free_idle [OF assms(2,3)] Let_def)
  ultimately show ?thesis
    by (simp add: slow_rebalance_def slow_balance_def k__alloc_pages_direct_compact_def env rq Let_def)
qed

theorem large_allocations_give_up_witness:
  "\<exists>page v'. k__alloc_pages_slowpath 16 1 sample_slow_env (sample_alloc {GFP_WAIT, GFP_IO, GFP_FS, GFP_REPEAT} 4)
      (sample_vm sample_state) = Some (Done page, v')"
proof -
  let ?F = sample_slow_env and ?r = "sample_alloc {GFP_WAIT, GFP_IO, GFP_FS, GFP_REPEAT} 4"
  let ?v = "wake_all_kswapd ?F ?r (sample_vm sample_state)"
  have "slow_alloc_flags ?F ?r s = (WMARK_MIN, {ALLOC_CPUSET})" for s
    by (rule sample_flags) (simp_all add: sample_alloc_def)
  then have restart: "slow_restart 1 ?F ?r (sample_vm sample_state) = Some (None, ?r, (WMARK_MIN, {ALLOC_CPUSET}), ?v)"
    by (simp add: slow_restart_def sample_request_refused) (simp add: sample_alloc_def)
  from sample_slow_pass [of ?r ?v "Suc 15" 1 0 False] obtain v' where
    "slow_rebalance (Suc 15) 1 ?F ?r (WMARK_MIN, {ALLOC_CPUSET}) 0 False ?v = Some (Leave (Done None), 0, v')"
    by (auto simp: sample_vm_def)
  with restart have "slow_loop (Suc 15) 1 ?F ?r None 0 False (sample_vm sample_state) = Some (Done None, v')"
    unfolding slow_loop.simps(2) by simp
  then obtain out where out: "k__alloc_pages_slowpath 16 1 ?F ?r (sample_vm sample_state) = Some (out, v')"
    by (simp add: k__alloc_pages_slowpath_def sample_alloc_def MAX_ORDER_def numeral_eq_Suc)
  have "progress_bounded ?F"
    unfolding progress_bounded_def
    by (auto dest!: try_to_free_walled [rotated 2] simp: slow_env_defs)
  from large_allocations_give_up [OF _ this _ out] out show ?thesis
    by (auto simp: may_give_up_def sample_alloc_def PAGE_ALLOC_COSTLY_ORDER_def)
qed

theorem slow_path_spins_witness:
  "\<exists>v'. k__alloc_pages_slowpath 1000 1 sample_slow_env (sample_alloc {GFP_WAIT, GFP_IO, GFP_REPEAT} 4)
      (sample_vm sample_state) = Some (Spinning, v')"
proof -
  let ?r = "sample_alloc {GFP_WAIT, GFP_IO, GFP_REPEAT} 4"
  let ?P = "\<lambda>L s. shrinker_list L = [] \<and> \<not> shrinker_writer L"
  have ids: "wait_iff_congested (rv sample_slow_env) s = s" "reset_reclaimed_slab (rv sample_slow_env) s = s"
    "cpuset_memory_pressure_bump sample_slow_env s = s" for s by (simp_all add: slow_env_defs)
  have "\<not> compaction_build (rv sample_slow_env)" "\<not> thread_memdie sample_slow_env s" for s
    by (simp_all add: slow_env_defs)
  then have "hopeless 1 sample_slow_env ?r ?P"
    by (simp add: hopeless_def ids sample_request_refused try_to_free_idle)
  then show ?thesis
    by (rule slow_path_spins)
      (simp_all add: retried_forever_def sample_alloc_def slow_env_defs sample_vm_def MAX_ORDER_def)
qed

text \<open>A page on the list of the CPU, and room above the watermarks.\<close>

definition one_page_state :: kstate where
  "one_page_state = upd_pcp 0 0 (\<lambda>pcp. pcp\<lparr>pcp_count := 1\<rparr>) (set_pcp_list 0 0 MIGRATE_UNMOVABLE [5]
     (sample_state\<lparr>k_pages := (\<lambda>_. sample_page\<lparr>pg_count := 0\<rparr>)\<rparr>))"

definition roomy_slow_env :: slow_env where
  "roomy_slow_env = sample_slow_env\<lparr>rv := roomy_env\<rparr>"

lemma one_page_zone: "\<exists>X. zone_at one_page_state 0 = sample_zone\<lparr>z_pageset := X\<rparr>"
proof -
  have "zone_at one_page_state 0 = sample_zone\<lparr>z_pageset := z_pageset (zone_at one_page_state 0)\<rparr>"
    by (simp add: one_page_state_def upd_pcp_def set_pcp_list_def zone_at_upd_zone)
      (simp add: zone_at_def sample_state_def)
  then show ?thesis by blast
qed

lemma prep_clean_page:
  assumes "page_at u p = sample_page\<lparr>pg_count := 0\<rparr>"
  shows "\<exists>w. prep_new_page p 0 gfp_mask u = Some (False, w)"
  using assms by (simp add: prep_new_page_def check_new_page_def page_mapcount_def sample_page_def Let_def
      set_page_refcounted_def guardK_def test_bit_def set_page_private_def page_at_upd_page)

lemma one_page_taken:
  "\<exists>t. buffered_rmqueue 1 sample_env 0 0 {GFP_HARDWALL, GFP_WAIT, GFP_IO, GFP_FS, GFP_NOFAIL} MIGRATE_UNMOVABLE
     one_page_state = Some (Some 5, t)"
proof -
  let ?s = "upd_pcp 0 0 (\<lambda>pcp. pcp\<lparr>pcp_count := pcp_count pcp - 1\<rparr>) (set_pcp_list 0 0 MIGRATE_UNMOVABLE [] one_page_state)"
  let ?t = "count_vm_events sample_env (PGALLOC 0) 1 ?s"
  have cpu: "cur_cpu sample_env = 0" by (simp add: sample_env_def)
  have "pcp_list one_page_state 0 0 MIGRATE_UNMOVABLE = [5]"
    by (simp add: one_page_state_def pcp_list_def set_pcp_list_def upd_pcp_def zone_at_upd_zone)
  then have taken: "rmqueue_one sample_env 0 0 {GFP_HARDWALL, GFP_WAIT, GFP_IO, GFP_FS, GFP_NOFAIL} MIGRATE_UNMOVABLE one_page_state
      = Some (Some 5, ?s)"
    by (simp add: rmqueue_one_def cpu Let_def)
  have pg: "page_at ?t p = sample_page\<lparr>pg_count := 0\<rparr>" for p
    by (simp add: one_page_state_def page_at_def sample_state_def upd_pcp_def set_pcp_list_def upd_zone_def
        count_vm_events_def)
  have "\<not> bad_range sample_env 0 5 ?t"
  proof -
    from one_page_zone obtain X where "zone_at one_page_state 0 = sample_zone\<lparr>z_pageset := X\<rparr>" ..
    then have "z_start_pfn (zone_at ?s 0) = 0" "z_spanned_pages (zone_at ?s 0) = 4096"
      by (simp_all add: upd_pcp_def set_pcp_list_def zone_at_upd_zone sample_zone_def)
    moreover have "zone_at ?t 0 = zone_at ?s 0" by (simp add: zone_at_def count_vm_events_def)
    ultimately show ?thesis
      by (simp add: bad_range_def page_outside_zone_boundaries_def page_is_consistent_def sample_env_def)
  qed
  moreover from prep_clean_page [OF pg] obtain u where
    "prep_new_page 5 0 {GFP_HARDWALL, GFP_WAIT, GFP_IO, GFP_FS, GFP_NOFAIL} ?t = Some (False, u)" by blast
  ultimately show ?thesis using taken by (simp add: Let_def guardK_def)
qed

theorem nofail_never_null_witness:
  "\<exists>v'. k__alloc_pages_nodemask 1 1 roomy_slow_env {GFP_WAIT, GFP_IO, GFP_FS, GFP_NOFAIL} 0 [0]
      (sample_vm one_page_state) = Some (Done (Some 5), v') \<and> Done (Some (5 :: page_ptr)) \<noteq> Done None"
proof -
  let ?gfp = "{GFP_WAIT, GFP_IO, GFP_FS, GFP_NOFAIL}"
  have z: "zones_upto (wm (rv roomy_slow_env)) (gfp_zone (rv roomy_slow_env) ?gfp) [0] = [0]"
    and mask: "?gfp \<inter> gfp_allowed_mask roomy_slow_env = ?gfp"
    and env: "gfp_zone (rv roomy_slow_env) ?gfp = 1" "fail_page_alloc roomy_slow_env = None"
      "allocflags_to_migratetype roomy_slow_env ?gfp = MIGRATE_UNMOVABLE" "mm (rv roomy_slow_env) = sample_env"
    by (simp_all add: roomy_slow_env_def roomy_defs slow_env_defs zones_upto_def zone_idx_def)
  have room: "zone_watermark_ok (wm (rv roomy_slow_env)) 0 0 (z_watermark (zone_at one_page_state 0) WMARK_LOW) cz flags one_page_state"
    for cz flags
    using one_page_zone by (auto simp: zone_watermark_ok_def k__zone_watermark_ok_def reduced_mark_def roomy_slow_env_def
        roomy_defs Let_def sample_zone_def)
  have cpuset: "cpuset_zone_allowed_softwall (wm (rv roomy_slow_env)) 0 g" for g
    by (simp add: roomy_slow_env_def roomy_defs)
  from one_page_taken obtain t where
    "buffered_rmqueue 1 sample_env 0 0 (insert GFP_HARDWALL ?gfp) MIGRATE_UNMOVABLE one_page_state = Some (Some 5, t)"
    by blast
  then have "k__alloc_pages_nodemask 1 1 roomy_slow_env ?gfp 0 [0] (sample_vm one_page_state)
      = Some (Done (Some 5), (sample_vm one_page_state)\<lparr>vm_k := t\<rparr>)"
    using z mask env room cpuset
    by (simp add: k__alloc_pages_nodemask_def should_fail_alloc_page_def first_zones_zonelist_def request_page_def
        get_page_from_freelist_def sample_vm_def Let_def del: buffered_rmqueue.simps)
  moreover from this have "Done (Some (5 :: page_ptr)) \<noteq> Done None"
    by (rule nofail_never_null [rotated 3])
      (use z mask in \<open>simp_all add: insists_def roomy_slow_env_def roomy_defs slow_env_defs MAX_ORDER_def\<close>)
  ultimately show ?thesis by blast
qed

end
