(* ===== verification/Zone_Setup.thy ===== *)
theory Zone_Setup
  imports Kswapd
begin

text \<open>
  How \<open>Linux/page_alloc.c\<close> sets the zones up: the memory map and the zones of a node at boot
  (\<open>free_area_init_core\<close>), the per-CPU lists, the zonelists, the watermarks and the reserves of the
  low zones, and the handlers that set them again. The zones of a node are the list of its
  \<open>MAX_NR_ZONES\<close> zones. Shown are what boot establishes for every zone (the invariants of the other
  theories), the order and the sum of the watermarks, and the exact reserves.
\<close>

section \<open>State and environment\<close>

text \<open>
  The global variables of \<open>page_alloc.c\<close> used here. \<open>boot_pageset\<close> is shared by all zones until the
  per-CPU allocator is up; its lists are empty and it is copied.
\<close>

record setup_vars =
  min_free_kbytes :: int
  lowmem_reserve_ratio :: "nat \<Rightarrow> int"
  totalreserve_pages :: nat
  percpu_pagelist_fraction :: int
  highest_memmap_pfn :: ulong
  nr_kernel_pages :: ulong
  nr_all_pages :: ulong
  dma_reserve :: ulong
  boot_pageset :: "nat \<Rightarrow> per_cpu_pageset"

text \<open>
  Code outside the repository: which frames are valid, \<open>sizeof(struct page)\<close>, whether the wait
  table can be allocated, \<open>rounddown_pow_of_two\<close>, \<open>int_sqrt\<close>, the zone of \<open>GFP_USER\<close> and the CPUs.
\<close>

record setup_env =
  pfn_valid :: "page_ptr \<Rightarrow> bool"
  page_to_nid :: "page_ptr \<Rightarrow> nat"
  zone_to_nid :: "zone_ptr \<Rightarrow> nat"
  sizeof_page :: ulong
  wait_table_alloc :: "nat \<Rightarrow> bool"
  rounddown_pow_of_two :: "nat \<Rightarrow> nat"
  int_sqrt :: "nat \<Rightarrow> nat"
  gfp_zone_user :: nat
  cpus :: nat

text \<open>\<open>movable_zone\<close> is set by \<open>find_usable_zone_for_movable\<close>.\<close>

definition zone_movable_is_highmem :: "boot_state \<Rightarrow> bool" where
  "zone_movable_is_highmem b \<longleftrightarrow> b_movable_zone b = ZONE_HIGHMEM"

definition is_highmem_idx :: "boot_state \<Rightarrow> nat \<Rightarrow> bool" where
  "is_highmem_idx b idx \<longleftrightarrow> idx = ZONE_HIGHMEM \<or> idx = ZONE_MOVABLE \<and> zone_movable_is_highmem b"

section \<open>The wait table of a zone\<close>

definition PAGES_PER_WAITQUEUE :: nat where "PAGES_PER_WAITQUEUE = 256"

text \<open>\<open>size\<close> doubles until it reaches \<open>pages\<close>, which is below \<open>2 ^ 24\<close>.\<close>

function wait_table_size :: "nat \<Rightarrow> nat \<Rightarrow> nat" where
  "wait_table_size pages n = (if 0 < n \<and> n < pages then wait_table_size pages (2 * n) else n)"
  by pat_completeness auto
termination
  by (relation "measure (\<lambda>(pages, n). pages - n)") auto

declare wait_table_size.simps [simp del]

definition wait_table_hash_nr_entries :: "nat \<Rightarrow> nat" where
  "wait_table_hash_nr_entries pages =
     max (min (wait_table_size (pages div PAGES_PER_WAITQUEUE) 1) 4096) 4"

text \<open>\<open>ffz(~size)\<close>: the position of the lowest bit that is set.\<close>

definition wait_table_bits :: "nat \<Rightarrow> nat" where
  "wait_table_bits n = length (takeWhile (\<lambda>i. \<not> bit n i) [0 ..< 32])"

definition ENOMEM :: int where "ENOMEM = 12"

definition zone_wait_table_init :: "setup_env \<Rightarrow> nat \<Rightarrow> int" where
  "zone_wait_table_init N zone_size_pages =
     (if wait_table_alloc N (wait_table_hash_nr_entries zone_size_pages) then 0 else - ENOMEM)"

section \<open>Per-CPU lists\<close>

text \<open>\<open>batch * PAGE_SIZE\<close> is an \<open>unsigned long\<close>.\<close>

definition zone_batchsize :: "setup_env \<Rightarrow> zone \<Rightarrow> nat" where
  "zone_batchsize N zn =
     (let batch = z_present_pages zn div 1024;
          batch = (if ul (batch * 4096) > 512 * 1024 then 512 * 1024 div 4096 else batch);
          batch = batch div 4;
          batch = (if batch < 1 then 1 else batch)
      in rounddown_pow_of_two N (batch + batch div 2) - 1)"

definition setup_pageset :: "nat \<Rightarrow> per_cpu_pageset" where
  "setup_pageset batch =
     \<lparr>ps_pcp = \<lparr>pcp_count = 0, pcp_high = int (6 * batch), pcp_batch = int (max 1 batch), pcp_lists = (\<lambda>_. [])\<rparr>,
      ps_stat_threshold = 0, ps_vm_stat_diff = (\<lambda>_. 0)\<rparr>"

definition setup_pagelist_highmark :: "nat \<Rightarrow> per_cpu_pageset \<Rightarrow> per_cpu_pageset" where
  "setup_pagelist_highmark high ps = ps\<lparr>ps_pcp := (ps_pcp ps)\<lparr>pcp_high := int high,
     pcp_batch := (if high div 4 > 12 * 8 then 12 * 8 else int (max 1 (high div 4)))\<rparr>\<rparr>"

text \<open>The division by \<open>percpu_pagelist_fraction\<close> is one of \<open>unsigned long\<close>s.\<close>

definition setup_zone_pageset :: "setup_env \<Rightarrow> setup_vars \<Rightarrow> zone_ptr \<Rightarrow> kstate \<Rightarrow> kstate" where
  "setup_zone_pageset N m z s =
     upd_zone z (\<lambda>zn. zn\<lparr>z_pageset := \<lambda>cpu. if cpu < cpus N then
         (let ps = setup_pageset (zone_batchsize N zn)
          in if percpu_pagelist_fraction m \<noteq> 0
             then setup_pagelist_highmark
               (z_present_pages zn div nat (ulong_of (percpu_pagelist_fraction m))) ps
             else ps)
       else z_pageset zn cpu\<rparr>) s"

definition setup_per_cpu_pageset :: "setup_env \<Rightarrow> setup_vars \<Rightarrow> kenv \<Rightarrow> kstate \<Rightarrow> kstate" where
  "setup_per_cpu_pageset N m E s = fold (setup_zone_pageset N m) (for_each_populated_zone E s) s"

text \<open>\<open>stop_machine\<close> runs \<open>__zone_pcp_update\<close> with every other CPU stopped.\<close>

definition zone_pcp_update_cpu :: "kenv \<Rightarrow> zone_ptr \<Rightarrow> nat \<Rightarrow> nat \<Rightarrow> kstate \<Rightarrow> kstate option" where
  "zone_pcp_update_cpu E z batch cpu s = do {
     s \<leftarrow> free_pcppages_bulk E z (nat (pcp_count (ps_pcp (z_pageset (zone_at s z) cpu)))) cpu s;
     Some (upd_zone z (\<lambda>zn. zn\<lparr>z_pageset := (z_pageset zn)(cpu := setup_pageset batch)\<rparr>) s)
   }"

definition zone_pcp_update :: "setup_env \<Rightarrow> kenv \<Rightarrow> zone_ptr \<Rightarrow> kstate \<Rightarrow> kstate option" where
  "zone_pcp_update N E z s =
     forK (zone_pcp_update_cpu E z (zone_batchsize N (zone_at s z))) [0 ..< cpus N] s"

text \<open>
  The handler of the sysctl: the new value, \<open>write\<close> and the result of \<open>proc_dointvec_minmax\<close> are
  its arguments. It fails on a division by zero.
\<close>



definition percpu_pagelist_fraction_sysctl_handler ::
  "setup_env \<Rightarrow> kenv \<Rightarrow> bool \<Rightarrow> int \<Rightarrow> int \<Rightarrow> setup_vars \<Rightarrow> kstate \<Rightarrow> (int \<times> setup_vars \<times> kstate) option" where
  "percpu_pagelist_fraction_sysctl_handler N E write v ret m s =
     (let m = m\<lparr>percpu_pagelist_fraction := v\<rparr>
      in if \<not> write \<or> ret = - EINVAL then Some (ret, m, s)
      else do {
        s \<leftarrow> forK (\<lambda>z s. do {
            s \<leftarrow> guardK (0 < cpus N \<longrightarrow> ulong_of v \<noteq> 0) s;
            Some (upd_zone z (\<lambda>zn. zn\<lparr>z_pageset := \<lambda>cpu. if cpu < cpus N
              then setup_pagelist_highmark (z_present_pages zn div nat (ulong_of v)) (z_pageset zn cpu)
              else z_pageset zn cpu\<rparr>) s)
          }) (for_each_populated_zone E s) s;
        Some (0, m, s)
      })"

section \<open>The memory map\<close>

datatype memmap_context = MEMMAP_EARLY | MEMMAP_HOTPLUG

text \<open>
  One frame. \<open>set_page_links\<close> writes the zone of the page, which \<open>page_zone\<close> reads. The model has
  its final value as the parameter \<open>page_zone\<close>, so a call that would write another zone has no
  result here, and the theorems that say boot returns show that there is no such call. The page
  is on no list.
\<close>

definition init_page :: "kenv \<Rightarrow> zone_ptr \<Rightarrow> page_ptr \<Rightarrow> kstate \<Rightarrow> kstate option" where
  "init_page E z pfn s = do {
     s \<leftarrow> guardK (page_zone E pfn = z) s;
     let s = upd_page pfn (\<lambda>pg. pg\<lparr>pg_count := 1, pg_mapcount := - 1\<rparr>) s;
     let s = set_bit_k PG_reserved pfn s;
     if z_start_pfn (zone_at s z) \<le> pfn \<and> pfn < z_start_pfn (zone_at s z) + z_spanned_pages (zone_at s z)
        \<and> pfn AND (pageblock_nr_pages E - 1) = 0
     then set_pageblock_migratetype E pfn MIGRATE_MOVABLE s else Some s
   }"

definition memmap_init_zone ::
  "setup_env \<Rightarrow> kenv \<Rightarrow> boot_state \<Rightarrow> zone_ptr \<Rightarrow> ulong \<Rightarrow> nat \<Rightarrow> ulong \<Rightarrow> memmap_context \<Rightarrow> setup_vars \<Rightarrow> kstate \<Rightarrow>
     (setup_vars \<times> kstate) option" where
  "memmap_init_zone N E b z n nid start_pfn ctxt m s = do {
     let end_pfn = start_pfn + n;
     let m = (if highest_memmap_pfn m < end_pfn - 1 then m\<lparr>highest_memmap_pfn := end_pfn - 1\<rparr> else m);
     s \<leftarrow> forK (\<lambda>pfn s.
         if ctxt = MEMMAP_EARLY \<and> (\<not> pfn_valid N pfn \<or> \<not> early_pfn_in_nid b (of_nat pfn) (int nid)) then Some s
         else init_page E z pfn s)
       [unat start_pfn ..< unat end_pfn] s;
     Some (m, s)
   }"

section \<open>The zones of a node\<close>

definition zone_init_free_lists :: "zone \<Rightarrow> zone" where
  "zone_init_free_lists zn = zn\<lparr>z_free_area := \<lambda>order. if order < MAX_ORDER
     then \<lparr>fa_free_list = (\<lambda>t. if t < MIGRATE_TYPES then [] else fa_free_list (z_free_area zn order) t), fa_nr_free = 0\<rparr>
     else z_free_area zn order\<rparr>"

text \<open>The results are that of the allocation and \<open>nr_zones\<close> of the node.\<close>

definition init_currently_empty_zone ::
  "setup_env \<Rightarrow> zone_ptr \<Rightarrow> nat \<Rightarrow> ulong \<Rightarrow> ulong \<Rightarrow> nat \<times> kstate \<Rightarrow> int \<times> nat \<times> kstate" where
  "init_currently_empty_zone N z idx zone_start_pfn n ns =
     (let ret = zone_wait_table_init N (unat n)
      in if ret \<noteq> 0 then (ret, ns)
         else (0, idx + 1, upd_zone z (\<lambda>zn. zone_init_free_lists (zn\<lparr>z_start_pfn := unat zone_start_pfn\<rparr>)) (snd ns)))"

text \<open>
  \<open>usemap_size\<close> in bytes, and the map itself, NULL when it has no bytes (it is then empty, no bit
  of it is set) and otherwise zeroed, as it comes from \<open>alloc_bootmem_node\<close>.
\<close>

definition roundup :: "nat \<Rightarrow> nat \<Rightarrow> nat" where
  "roundup n d = (n + d - 1) div d * d"

definition usemap_size :: "kenv \<Rightarrow> nat \<Rightarrow> nat" where
  "usemap_size E zonesize =
     roundup (roundup zonesize (pageblock_nr_pages E) div 2 ^ pageblock_order E * NR_PAGEBLOCK_BITS E) 32 div 8"

definition setup_usemap :: "kenv \<Rightarrow> zone_ptr \<Rightarrow> nat \<Rightarrow> kstate \<Rightarrow> kstate" where
  "setup_usemap E z zonesize s =
     (let usemapsize = usemap_size E zonesize;
          s = s\<lparr>k_pageblock := (k_pageblock s)(z := \<lambda>_. False)\<rparr>
      in if usemapsize \<noteq> 0 then s\<lparr>k_pageblock := (k_pageblock s)(z := \<lambda>_. False)\<rparr> else s)"

text \<open>The frames left of a zone for use: without its part of the memory map and the DMA reserve.\<close>

definition zone_memory :: "setup_env \<Rightarrow> nat \<Rightarrow> ulong \<Rightarrow> ulong \<Rightarrow> ulong \<Rightarrow> ulong" where
  "zone_memory N j reserve n realsize =
     (let memmap_pages = drop_bit 12 ((n * sizeof_page N + 4095) AND NOT 4095);
          realsize = (if realsize \<ge> memmap_pages then realsize - memmap_pages else realsize)
      in if j = 0 \<and> realsize > reserve then realsize - reserve else realsize)"

text \<open>
  The zone's part of the loop. \<open>zone_pcp_init\<close> points the zone to \<open>boot_pageset\<close>, which all zones
  share until \<open>setup_per_cpu_pageset\<close> gives each its own. Here every zone has a copy: the functions
  of this theory read it and do not change it in between.
\<close>

definition reset_zone :: "setup_vars \<Rightarrow> ulong \<Rightarrow> ulong \<Rightarrow> zone \<Rightarrow> zone" where
  "reset_zone m n realsize zn = zn\<lparr>z_spanned_pages := unat n, z_present_pages := unat realsize,
     z_pageset := boot_pageset m,
     z_lru := (\<lambda>l. if l \<in> set for_each_lru then [] else z_lru zn l),
     z_reclaim_stat := \<lparr>recent_rotated = (recent_rotated (z_reclaim_stat zn))(0 := 0, 1 := 0),
       recent_scanned = (recent_scanned (z_reclaim_stat zn))(0 := 0, 1 := 0),
       nr_saved_scan = (\<lambda>l. if l \<in> set for_each_lru then 0 else nr_saved_scan (z_reclaim_stat zn) l)\<rparr>,
     z_vm_stat := (\<lambda>_. 0), z_flags := 0\<rparr>"

text \<open>One round: the first frame of the zone, \<open>nr_zones\<close>, the variables and the state.\<close>

definition init_zone ::
  "setup_env \<Rightarrow> kenv \<Rightarrow> boot_env \<Rightarrow> boot_state \<Rightarrow> nat \<Rightarrow> zone_ptr list \<Rightarrow> nat \<Rightarrow>
     ulong \<times> nat \<times> setup_vars \<times> kstate \<Rightarrow> (ulong \<times> nat \<times> setup_vars \<times> kstate) option" where
  "init_zone N E B b nid node j st = do {
     let (zone_start_pfn, nr_zones, m, s) = st;
     let n = zone_spanned_pages_in_node B b nid j;
     absent \<leftarrow> zone_absent_pages_in_node B b nid j;
     let realsize = zone_memory N j (dma_reserve m) n (n - absent);
     let m = (if \<not> is_highmem_idx b j then m\<lparr>nr_kernel_pages := nr_kernel_pages m + realsize\<rparr> else m);
     let m = m\<lparr>nr_all_pages := nr_all_pages m + realsize\<rparr>;
     let s = upd_zone (node ! j) (reset_zone m n realsize) s;
     if n = 0 then Some (zone_start_pfn, nr_zones, m, s)
     else do {
       let s = setup_usemap E (node ! j) (unat n) s;
       let (ret, nr_zones, s) = init_currently_empty_zone N (node ! j) j zone_start_pfn n (nr_zones, s);
       s \<leftarrow> guardK (ret = 0) s;
       (m, s) \<leftarrow> memmap_init_zone N E b (node ! j) n nid zone_start_pfn MEMMAP_EARLY m s;
       Some (zone_start_pfn + n, nr_zones, m, s)
     }
   }"

definition free_area_init_core ::
  "setup_env \<Rightarrow> kenv \<Rightarrow> boot_env \<Rightarrow> boot_state \<Rightarrow> nat \<Rightarrow> zone_ptr list \<Rightarrow> ulong \<Rightarrow> setup_vars \<Rightarrow> kstate \<Rightarrow>
     (nat \<times> setup_vars \<times> kstate) option" where
  "free_area_init_core N E B b nid node node_start_pfn m s = do {
     (start, nr_zones, m, s) \<leftarrow> forK (init_zone N E B b nid node) [0 ..< MAX_NR_ZONES] (node_start_pfn, 0, m, s);
     Some (nr_zones, m, s)
   }"

section \<open>Zonelists\<close>

text \<open>
  A zonelist is the list of its zones; the index that \<open>zoneref_set_zone\<close> stores is \<open>zone_idx\<close>.
  \<open>build_zonelists_node\<close> appends the populated zones of a node from a zone type down.
\<close>

fun build_zonelists_down :: "zone_ptr list \<Rightarrow> nat \<Rightarrow> zone_ptr list \<Rightarrow> kstate \<Rightarrow> zone_ptr list" where
  "build_zonelists_down node 0 zonelist s = zonelist"
| "build_zonelists_down node (Suc zone_type) zonelist s =
     build_zonelists_down node zone_type
       (if populated_zone (zone_at s (node ! zone_type)) then zonelist @ [node ! zone_type] else zonelist) s"

definition build_zonelists_node :: "zone_ptr list \<Rightarrow> zone_ptr list \<Rightarrow> nat \<Rightarrow> kstate \<Rightarrow> zone_ptr list option" where
  "build_zonelists_node node zonelist zone_type s =
     (if zone_type \<ge> MAX_NR_ZONES then None else Some (build_zonelists_down node (zone_type + 1) zonelist s))"

text \<open>Without NUMA lists: the zones of the node itself, of the nodes after it, of those before it.\<close>

definition build_zonelists ::
  "(nat \<Rightarrow> zone_ptr list) \<Rightarrow> (nat \<Rightarrow> bool) \<Rightarrow> nat \<Rightarrow> nat \<Rightarrow> kstate \<Rightarrow> zone_ptr list option" where
  "build_zonelists node_data node_online max_nodes local_node s =
     fold (\<lambda>nid zl. do {
         zl \<leftarrow> zl;
         build_zonelists_node (node_data nid) zl (MAX_NR_ZONES - 1) s
       })
       (local_node # filter node_online [local_node + 1 ..< max_nodes] @ filter node_online [0 ..< local_node])
       (Some [])"

section \<open>Watermarks and reserves\<close>

definition calculate_totalreserve_pages :: "zone_ptr list \<Rightarrow> setup_vars \<Rightarrow> kstate \<Rightarrow> setup_vars" where
  "calculate_totalreserve_pages node m s = m\<lparr>totalreserve_pages :=
     ul (\<Sum>i \<leftarrow> [0 ..< MAX_NR_ZONES].
       let zn = zone_at s (node ! i);
           mx = fold (\<lambda>j mx. if z_lowmem_reserve zn j > mx then z_lowmem_reserve zn j else mx) [i ..< MAX_NR_ZONES] 0;
           mx = nat (ulong_of (mx + z_watermark zn WMARK_HIGH))
       in if mx > z_present_pages zn then z_present_pages zn else mx)\<rparr>"

text \<open>The lower zones of zone \<open>j\<close>, from \<open>idx\<close> - 1 down; ratios below 1 are set to 1.\<close>

fun reserve_in_lower_zones :: "zone_ptr list \<Rightarrow> nat \<Rightarrow> nat \<Rightarrow> nat \<Rightarrow> setup_vars \<times> kstate \<Rightarrow> setup_vars \<times> kstate" where
  "reserve_in_lower_zones node j 0 present_pages ms = ms"
| "reserve_in_lower_zones node j (Suc idx) present_pages (m, s) =
     (let m = (if lowmem_reserve_ratio m idx < 1
               then m\<lparr>lowmem_reserve_ratio := (lowmem_reserve_ratio m)(idx := 1)\<rparr> else m);
          lower = node ! idx;
          s = upd_zone lower (\<lambda>zn. zn\<lparr>z_lowmem_reserve := (z_lowmem_reserve zn)
                (j := int (present_pages div nat (lowmem_reserve_ratio m idx)))\<rparr>) s
      in reserve_in_lower_zones node j idx (ul (present_pages + z_present_pages (zone_at s lower))) (m, s))"

definition setup_per_zone_lowmem_reserve :: "zone_ptr list \<Rightarrow> setup_vars \<times> kstate \<Rightarrow> setup_vars \<times> kstate" where
  "setup_per_zone_lowmem_reserve node ms =
     (let (m, s) = fold (\<lambda>j (m, s).
          let s = upd_zone (node ! j) (\<lambda>zn. zn\<lparr>z_lowmem_reserve := (z_lowmem_reserve zn)(j := 0)\<rparr>) s
          in reserve_in_lower_zones node j j (z_present_pages (zone_at s (node ! j))) (m, s))
        [0 ..< MAX_NR_ZONES] ms
      in (calculate_totalreserve_pages node m s, s))"

text \<open>The product is a \<open>u64\<close>, the sums are cut to an \<open>unsigned long\<close>.\<close>

definition zone_wmarks :: "bool \<Rightarrow> nat \<Rightarrow> nat \<Rightarrow> zone \<Rightarrow> zone" where
  "zone_wmarks highmem pages_min lowmem_pages zn =
     (let tmp = pages_min * z_present_pages zn mod 2 ^ 64 div lowmem_pages;
          min_pages = z_present_pages zn div 1024;
          min_pages = (if min_pages < SWAP_CLUSTER_MAX then SWAP_CLUSTER_MAX else min_pages);
          min_pages = (if min_pages > 128 then 128 else min_pages);
          wmin = (if highmem then min_pages else ul tmp)
      in zn\<lparr>z_watermark := (z_watermark zn)(WMARK_MIN := int wmin,
           WMARK_LOW := int (ul (wmin + tmp div 4)), WMARK_HIGH := int (ul (wmin + tmp div 2)))\<rparr>)"

definition setup_zone_wmarks ::
  "setup_env \<Rightarrow> kenv \<Rightarrow> boot_state \<Rightarrow> zone_ptr list \<Rightarrow> nat \<Rightarrow> nat \<Rightarrow> nat \<Rightarrow> kstate \<Rightarrow> kstate option" where
  "setup_zone_wmarks N E b node pages_min lowmem_pages j s = do {
     s \<leftarrow> spin_lock (ZoneLock (node ! j)) s;
     s \<leftarrow> guardK (lowmem_pages \<noteq> 0) s;
     let s = upd_zone (node ! j) (zone_wmarks (is_highmem_idx b j) pages_min lowmem_pages) s;
     s \<leftarrow> setup_zone_migrate_reserve E (pfn_valid N) (page_to_nid N) (zone_to_nid N) (node ! j) s;
     spin_unlock (ZoneLock (node ! j)) s
   }"

definition lowmem_zones :: "boot_state \<Rightarrow> nat list" where
  "lowmem_zones b = filter (\<lambda>j. \<not> is_highmem_idx b j) [0 ..< MAX_NR_ZONES]"

definition setup_per_zone_wmarks ::
  "setup_env \<Rightarrow> kenv \<Rightarrow> boot_state \<Rightarrow> zone_ptr list \<Rightarrow> setup_vars \<Rightarrow> kstate \<Rightarrow> (setup_vars \<times> kstate) option" where
  "setup_per_zone_wmarks N E b node m s = do {
     let pages_min = nat (ulong_of (min_free_kbytes m div 4));
     let lowmem_pages = ul (\<Sum>j \<leftarrow> lowmem_zones b. z_present_pages (zone_at s (node ! j)));
     s \<leftarrow> forK (setup_zone_wmarks N E b node pages_min lowmem_pages) [0 ..< MAX_NR_ZONES] s;
     Some (calculate_totalreserve_pages node m s, s)
   }"

text \<open>The zone size in gigabytes decides.\<close>

definition calculate_zone_inactive_ratio :: "setup_env \<Rightarrow> zone \<Rightarrow> zone" where
  "calculate_zone_inactive_ratio N zn =
     (let gb = z_present_pages zn div 2 ^ (30 - 12)
      in zn\<lparr>z_inactive_ratio := (if gb \<noteq> 0 then int_sqrt N (10 * gb) else 1)\<rparr>)"

definition setup_per_zone_inactive_ratio :: "setup_env \<Rightarrow> zone_ptr list \<Rightarrow> kstate \<Rightarrow> kstate" where
  "setup_per_zone_inactive_ratio N node s =
     fold (\<lambda>z. upd_zone z (calculate_zone_inactive_ratio N)) node s"

definition nr_free_buffer_pages :: "setup_env \<Rightarrow> alloc_env \<Rightarrow> zone_ptr list \<Rightarrow> kstate \<Rightarrow> int" where
  "nr_free_buffer_pages N W zonelist s = nr_free_zone_pages W zonelist (gfp_zone_user N) s"

definition init_per_zone_wmark_min ::
  "setup_env \<Rightarrow> kenv \<Rightarrow> alloc_env \<Rightarrow> boot_state \<Rightarrow> zone_ptr list \<Rightarrow> zone_ptr list \<Rightarrow> setup_vars \<Rightarrow> kstate \<Rightarrow>
     (setup_vars \<times> kstate) option" where
  "init_per_zone_wmark_min N E W b node zonelist m s = do {
     let lowmem_kbytes = ulong_of (nr_free_buffer_pages N W zonelist s * 4);
     let k = int (int_sqrt N (nat (ulong_of (lowmem_kbytes * 16))));
     let k = (if k < 128 then 128 else k);
     let k = (if k > 65536 then 65536 else k);
     (m, s) \<leftarrow> setup_per_zone_wmarks N E b node (m\<lparr>min_free_kbytes := k\<rparr>) s;
     let (m, s) = setup_per_zone_lowmem_reserve node (m, s);
     Some (m, setup_per_zone_inactive_ratio N node s)
   }"

text \<open>The handlers; the value that \<open>proc_dointvec\<close> leaves is an argument.\<close>

definition min_free_kbytes_sysctl_handler ::
  "setup_env \<Rightarrow> kenv \<Rightarrow> boot_state \<Rightarrow> zone_ptr list \<Rightarrow> bool \<Rightarrow> int \<Rightarrow> setup_vars \<Rightarrow> kstate \<Rightarrow>
     (setup_vars \<times> kstate) option" where
  "min_free_kbytes_sysctl_handler N E b node write v m s =
     (let m = m\<lparr>min_free_kbytes := v\<rparr>
      in if write then setup_per_zone_wmarks N E b node m s else Some (m, s))"

definition lowmem_reserve_ratio_sysctl_handler ::
  "zone_ptr list \<Rightarrow> (nat \<Rightarrow> int) \<Rightarrow> setup_vars \<times> kstate \<Rightarrow> setup_vars \<times> kstate" where
  "lowmem_reserve_ratio_sysctl_handler node v ms =
     setup_per_zone_lowmem_reserve node ((fst ms)\<lparr>lowmem_reserve_ratio := v\<rparr>, snd ms)"

section \<open>Moving blocks between lists keeps the rest of the zone\<close>

definition with_areas :: "zone \<Rightarrow> zone \<Rightarrow> zone" where
  "with_areas zn zn' = zn\<lparr>z_free_area := z_free_area zn'\<rparr>"

lemma with_areas_simps [simp]:
  "z_watermark (with_areas zn zn') = z_watermark zn" "z_present_pages (with_areas zn zn') = z_present_pages zn"
  "z_start_pfn (with_areas zn zn') = z_start_pfn zn" "z_spanned_pages (with_areas zn zn') = z_spanned_pages zn"
  "with_areas (with_areas zn zn') zn2 = with_areas zn zn2"
  by (simp_all add: with_areas_def)

definition lists_moved :: "zone_ptr \<Rightarrow> kstate \<Rightarrow> kstate \<Rightarrow> bool" where
  "lists_moved z s t \<longleftrightarrow> zone_at t z = with_areas (zone_at s z) (zone_at t z)
     \<and> (\<forall>y. y \<noteq> z \<longrightarrow> zone_at t y = zone_at s y) \<and> k_held t = k_held s \<and> k_pages t = k_pages s"

lemma lists_moved_refl [simp]: "lists_moved z s s"
  by (simp add: lists_moved_def with_areas_def)

lemma lists_moved_trans: "lists_moved z s t \<Longrightarrow> lists_moved z t u \<Longrightarrow> lists_moved z s u"
  unfolding lists_moved_def by (metis with_areas_simps(5))

lemma lists_moved_add: "lists_moved z s (free_list_add z order mt p s)"
  by (simp add: lists_moved_def with_areas_def free_list_add_def upd_area_def zone_at_upd_zone)

lemma lists_moved_del: "free_list_del z p s = Some t \<Longrightarrow> lists_moved z s t"
  by (auto simp: lists_moved_def with_areas_def free_list_del_def zone_at_upd_zone upd_zone_def zone_at_def split: if_splits)

lemma move_loop_moves:
  "move_freepages_loop E z page end_page mt moved s = Some (n, t) \<Longrightarrow> lists_moved z s t"
proof (induction E z page end_page mt moved s rule: move_freepages_loop.induct)
  case (1 E z page end_page mt moved s)
  note unfold = 1(4) [unfolded move_freepages_loop.simps [of E z page]]
  show ?case
  proof (cases "page \<le> end_page \<and> pfn_valid_within E page \<and> PageBuddy page s")
    case False
    with 1(1,2) unfold show ?thesis by (auto split: if_splits)
  next
    case True
    with unfold obtain u where u: "free_list_del z page s = Some u"
      and rest: "move_freepages_loop E z (page + 2 ^ page_order page s) end_page mt
        (moved + 2 ^ page_order page s) (free_list_add z (page_order page s) mt page u) = Some (n, t)"
      by (auto simp: Let_def split: option.splits)
    have "lists_moved z (free_list_add z (page_order page s) mt page u) t"
      using 1(3) [OF _ _ _ refl u] True rest by simp
    with lists_moved_del [OF u] lists_moved_add lists_moved_trans show ?thesis by blast
  qed
qed

lemma move_block_moves: "move_freepages_block E z page mt s = Some (n, t) \<Longrightarrow> lists_moved z s t"
  by (auto simp: move_freepages_block_def move_freepages_def Let_def split: if_splits dest: move_loop_moves)

lemma pageblock_moves: "set_pageblock_migratetype E p mt s = Some t \<Longrightarrow> lists_moved z s t"
  by (auto simp: lists_moved_def with_areas_def zone_at_def dest!: set_pageblock_cases)

section \<open>The reserve of page blocks\<close>

text \<open>A zone in order, and what setting up its reserve keeps.\<close>

definition zone_ready :: "kenv \<Rightarrow> zone_ptr \<Rightarrow> kstate \<Rightarrow> bool" where
  "zone_ready E z s \<longleftrightarrow> buddy_ok E z s \<and> zone_contiguous E z s"

definition reserve_set :: "zone_ptr \<Rightarrow> kstate \<Rightarrow> kstate \<Rightarrow> bool" where
  "reserve_set z s t \<longleftrightarrow> lists_moved z s t \<and> blocks z t = blocks z s"

lemma reserve_set_refl [simp]: "reserve_set z s s"
  by (simp add: reserve_set_def)

lemma reserve_set_trans: "reserve_set z s t \<Longrightarrow> reserve_set z t u \<Longrightarrow> reserve_set z s u"
  by (auto simp: reserve_set_def intro: lists_moved_trans)

lemma lists_moved_span: "lists_moved z s t \<Longrightarrow> zone_span y t = zone_span y s"
  unfolding lists_moved_def zone_span_def by (cases "y = z") (metis with_areas_simps(3,4), simp)

lemma retype_block:
  assumes "zone_ready E z s" and "z_start_pfn (zone_at s z) \<le> pfn"
    and "pfn < z_start_pfn (zone_at s z) + z_spanned_pages (zone_at s z)" and mt: "mt < MIGRATE_TYPES"
  shows "\<exists>n t u. set_pageblock_migratetype E pfn mt s = Some t \<and> move_freepages_block E z pfn mt t = Some (n, u)
    \<and> zone_ready E z u \<and> reserve_set z s u"
proof -
  have ok: "buddy_ok E z s" and cont: "zone_contiguous E z s" using assms(1) by (simp_all add: zone_ready_def)
  then have "page_zone E pfn = z" using assms(2,3) by (simp add: zone_contiguous_def)
  with assms(2,3) obtain t where t: "set_pageblock_migratetype E pfn mt s = Some t"
    by (simp add: set_pageblock_migratetype_def set_pageblock_flags_group_def Let_def split del: if_split)
  note fr = set_pageblock_frame [OF t]
  have eq: "zone_at t z = zone_at s z" "k_pages t = k_pages s"
    using fr by simp_all
  then have okt: "buddy_ok E z t" using ok buddy_ok_cong [OF eq, of E] by simp
  have contt: "zone_contiguous E z t" using cont eq(1) by (simp add: zone_contiguous_def)
  have "\<exists>n u. move_freepages_block E z pfn mt t = Some (n, u) \<and> relisted z t u"
    using buddy_okD(1,12) [OF okt] eq(1) assms(2) contt mt by (intro move_freepages_block_relists) auto
  then obtain n u where u: "move_freepages_block E z pfn mt t = Some (n, u)" "relisted z t u" by blast
  have m: "lists_moved z s u" using pageblock_moves [OF t] move_block_moves [OF u(1)] lists_moved_trans by blast
  have "buddy_ok E z u" by (rule relisted_buddy_ok [OF okt u(2)])
  moreover have "zone_contiguous E z u"
    using cont zone_contiguous_span [OF lists_moved_span [OF m], of E] by simp
  moreover have "blocks z u = blocks z s" using u(2) fr(1) by (simp add: relisted_def blocks_def)
  ultimately show ?thesis using t u(1) m by (auto simp: zone_ready_def reserve_set_def)
qed

lemma reserve_block_spec:
  assumes "zone_ready E z s" and "z_start_pfn (zone_at s z) \<le> pfn"
    and "pfn < z_start_pfn (zone_at s z) + z_spanned_pages (zone_at s z)"
  shows "\<exists>r' t. reserve_block E pv pn zn z pfn (r, s) = Some (r', t) \<and> zone_ready E z t \<and> reserve_set z s t"
proof -
  have mt: "MIGRATE_RESERVE < MIGRATE_TYPES" "MIGRATE_MOVABLE < MIGRATE_TYPES"
    by (simp_all add: migrate_defs)
  from retype_block [OF assms mt(1)] retype_block [OF assms mt(2)] assms(1) show ?thesis
    by (auto simp: reserve_block_def Let_def)
qed

lemma span_of_reserve: "reserve_set z s t \<Longrightarrow> z_start_pfn (zone_at t z) = z_start_pfn (zone_at s z)
    \<and> z_spanned_pages (zone_at t z) = z_spanned_pages (zone_at s z)"
  using lists_moved_span [of z s t z] by (simp add: reserve_set_def zone_span_def)

lemma setup_reserve_spec:
  assumes "zone_ready E z s"
  shows "\<exists>t. setup_zone_migrate_reserve E pv pn zn z s = Some t \<and> zone_ready E z t \<and> reserve_set z s t"
proof -
  let ?a = "z_start_pfn (zone_at s z)" and ?n = "pageblock_nr_pages E"
  let ?N = "z_spanned_pages (zone_at s z)"
  have n: "0 < ?n" by (simp add: pageblock_nr_pages_def)
  have inside: "?a + i * ?n < ?a + ?N" if "i < (?N + ?n - 1) div ?n" for i
  proof -
    have "Suc i \<le> (?N + ?n - 1) div ?n" using that by simp
    then have "Suc i * ?n \<le> (?N + ?n - 1) div ?n * ?n" by (rule mult_le_mono1)
    also have "\<dots> \<le> ?N + ?n - 1" by (rule div_times_less_eq_dividend)
    finally show ?thesis using n by simp
  qed
  define P where "P = (\<lambda>(r :: int, t). zone_ready E z t \<and> reserve_set z s t)"
  have "\<exists>rt. forK (reserve_block E pv pn zn z) (map (\<lambda>i. ?a + i * ?n) [0 ..< (?N + ?n - 1) div ?n]) (r, s) = Some rt \<and> P rt" for r
  proof (rule forK_total)
    show "P (r, s)" using assms by (simp add: P_def)
    fix pfn :: nat and rs
    assume "pfn \<in> set (map (\<lambda>i. ?a + i * ?n) [0 ..< (?N + ?n - 1) div ?n])" and P: "P rs"
    then have pfn: "?a \<le> pfn" "pfn < ?a + ?N" using inside by auto
    obtain r u where rs: "rs = (r, u)" by fastforce
    with P have u: "zone_ready E z u" "reserve_set z s u" by (simp_all add: P_def)
    from reserve_block_spec [OF u(1), of pfn pv pn zn r] span_of_reserve [OF u(2)] pfn
    show "\<exists>t. reserve_block E pv pn zn z pfn rs = Some t \<and> P t"
      using reserve_set_trans [OF u(2)] by (auto simp: rs P_def)
  qed
  then obtain r t where "forK (reserve_block E pv pn zn z) (map (\<lambda>i. ?a + i * ?n) [0 ..< (?N + ?n - 1) div ?n])
      (min 2 (sint (drop_bit (pageblock_order E) (((word_of_int (z_watermark (zone_at s z) WMARK_MIN) :: ulong)
        + (of_nat ?n - 1)) div of_nat ?n * of_nat ?n))), s) = Some (r, t)"
    "P (r, t)" by fastforce
  then show ?thesis
    by (simp add: setup_zone_migrate_reserve_def Let_def P_def)
qed

section \<open>Setting the watermarks\<close>

text \<open>One zone: nothing but its watermarks and the order of its free lists changes.\<close>

definition wmarks_set :: "(zone \<Rightarrow> zone) \<Rightarrow> zone_ptr \<Rightarrow> kstate \<Rightarrow> kstate \<Rightarrow> bool" where
  "wmarks_set f z s t \<longleftrightarrow> zone_at t z = with_areas (f (zone_at s z)) (zone_at t z) \<and> blocks z t = blocks z s
     \<and> (\<forall>y. y \<noteq> z \<longrightarrow> zone_at t y = zone_at s y) \<and> k_held t = k_held s \<and> k_pages t = k_pages s"

lemma zone_wmarks_simps [simp]:
  "z_free_area (zone_wmarks h pm lm zn) = z_free_area zn" "z_start_pfn (zone_wmarks h pm lm zn) = z_start_pfn zn"
  "z_spanned_pages (zone_wmarks h pm lm zn) = z_spanned_pages zn"
  "z_present_pages (zone_wmarks h pm lm zn) = z_present_pages zn"
  "z_lowmem_reserve (zone_wmarks h pm lm zn) = z_lowmem_reserve zn"
  by (simp_all add: zone_wmarks_def Let_def)

lemma zone_wmarks_areas:
  "zone_wmarks h pm lm (zn\<lparr>z_free_area := a\<rparr>) = (zone_wmarks h pm lm zn)\<lparr>z_free_area := a\<rparr>"
  by (cases zn) (simp only: zone_wmarks_def Let_def zone.update_convs zone.select_convs)

lemma buddy_ok_frame:
  assumes "z_free_area (zone_at t z) = z_free_area (zone_at s z)" and "zone_span z t = zone_span z s" and "k_pages t = k_pages s"
  shows "buddy_ok E z t = buddy_ok E z s" and "blocks z t = blocks z s"
proof -
  have "page_at t = page_at s" using assms(3) by (simp add: page_at_def fun_eq_iff)
  moreover have L: "free_list t z = free_list s z" "nr_free z t = nr_free z s"
    using assms(1) by (simp_all add: free_list_def nr_free_def fun_eq_iff)
  moreover have "in_zone E z t = in_zone E z s" by (rule in_zone_span [OF assms(2)])
  ultimately show "buddy_ok E z t = buddy_ok E z s" and "blocks z t = blocks z s"
    by (simp_all add: buddy_ok_def blocks_def free_frames_def PageBuddy_def page_order_def PageCompound_def test_bit_def)
qed

lemma setup_zone_wmarks_spec:
  fixes node j
  defines "z \<equiv> node ! j"
  assumes "zone_ready E z s" and "ZoneLock z \<notin> k_held s" and "lm \<noteq> 0"
  shows "\<exists>t. setup_zone_wmarks N E b node pm lm j s = Some t \<and> zone_ready E z t
    \<and> wmarks_set (zone_wmarks (is_highmem_idx b j) pm lm) z s t"
proof -
  let ?f = "zone_wmarks (is_highmem_idx b j) pm lm"
  define u where "u = (upd_zone z ?f s)\<lparr>k_held := insert (ZoneLock z) (k_held s)\<rparr>"
  have u: "zone_at u z = ?f (zone_at s z)" "\<And>y. y \<noteq> z \<Longrightarrow> zone_at u y = zone_at s y"
    "k_pages u = k_pages s" "k_held u = insert (ZoneLock z) (k_held s)"
    by (simp_all add: u_def upd_zone_def zone_at_def)
  have fa: "z_free_area (zone_at u z) = z_free_area (zone_at s z)" and sp: "zone_span z u = zone_span z s"
    by (simp_all add: u(1) zone_span_def)
  have B: "buddy_ok E z u = buddy_ok E z s" and B2: "blocks z u = blocks z s"
    using buddy_ok_frame [OF fa sp u(3)] by blast+
  have "zone_ready E z u"
    using assms(2) B zone_contiguous_span [OF sp, of E] by (simp add: zone_ready_def)
  then obtain v where v: "setup_zone_migrate_reserve E (pfn_valid N) (page_to_nid N) (zone_to_nid N) z u = Some v" "zone_ready E z v" "reserve_set z u v"
    using setup_reserve_spec by blast
  let ?t = "v\<lparr>k_held := k_held s\<rparr>"
  have z: "zone_at ?t = zone_at v" by (simp add: zone_at_def fun_eq_iff)
  have held: "k_held v = insert (ZoneLock z) (k_held s)" using v(3) u(4) by (simp add: reserve_set_def lists_moved_def)
  have run: "setup_zone_wmarks N E b node pm lm j s = Some ?t"
    using assms(3,4) v(1) held by (simp add: setup_zone_wmarks_def flip: z_def u_def)
  have "zone_ready E z ?t"
    using v(2) buddy_ok_cong [of ?t z v E] z by (simp add: zone_ready_def zone_contiguous_def)
  moreover have "blocks z ?t = blocks z s"
    using v(3) B2 z by (simp add: reserve_set_def blocks_def free_list_def)
  then have "wmarks_set ?f z s ?t"
    using v(3) u z by (simp add: wmarks_set_def reserve_set_def lists_moved_def)
  ultimately show ?thesis using run by blast
qed

text \<open>The zones of the node, after the first \<open>k\<close> of them.\<close>

lemma setup_wmarks_loop:
  assumes "distinct node" and "k \<le> length node" and "lm \<noteq> 0"
    and ready: "\<forall>z \<in> set node. zone_ready E z s \<and> ZoneLock z \<notin> k_held s"
  shows "\<exists>t. forK (setup_zone_wmarks N E b node pm lm) [0 ..< k] s = Some t
    \<and> (\<forall>i < length node. zone_ready E (node ! i) t \<and> blocks (node ! i) t = blocks (node ! i) s
        \<and> zone_at t (node ! i) = with_areas ((if i < k then zone_wmarks (is_highmem_idx b i) pm lm else id) (zone_at s (node ! i)))
            (zone_at t (node ! i)))
    \<and> k_held t = k_held s \<and> k_pages t = k_pages s"
  using assms(2)
proof (induction k)
  case 0
  with ready show ?case by (auto simp: with_areas_def)
next
  case (Suc k)
  let ?Z = "\<lambda>i t. zone_at t (node ! i)" and ?f = "\<lambda>i. zone_wmarks (is_highmem_idx b i) pm lm"
  from Suc.IH Suc.prems obtain t where t: "forK (setup_zone_wmarks N E b node pm lm) [0 ..< k] s = Some t"
    "k_held t = k_held s" "k_pages t = k_pages s"
    and rd: "\<And>i. i < length node \<Longrightarrow> zone_ready E (node ! i) t"
    and bl: "\<And>i. i < length node \<Longrightarrow> blocks (node ! i) t = blocks (node ! i) s"
    and za: "\<And>i. i < length node \<Longrightarrow> ?Z i t = with_areas ((if i < k then ?f i else id) (?Z i s)) (?Z i t)"
    by auto
  have k: "k < length node" using Suc.prems by simp
  then obtain u where u: "setup_zone_wmarks N E b node pm lm k t = Some u" "zone_ready E (node ! k) u"
    "wmarks_set (?f k) (node ! k) t u"
    using setup_zone_wmarks_spec [OF rd [OF k], of lm N b pm] ready t(2) assms(3) by auto
  have other: "?Z i u = ?Z i t" if "i < length node" "i \<noteq> k" for i
    using u(3) that k assms(1) by (simp add: wmarks_set_def nth_eq_iff_index_eq)
  have pages: "k_pages u = k_pages t" "k_held u = k_held t" using u(3) by (simp_all add: wmarks_set_def)
  have "zone_ready E (node ! i) u \<and> blocks (node ! i) u = blocks (node ! i) s
      \<and> ?Z i u = with_areas ((if i < Suc k then ?f i else id) (?Z i s)) (?Z i u)" if i: "i < length node" for i
  proof (cases "i = k")
    case True
    have "?Z k t = with_areas (?Z k s) (?Z k t)" using za [OF k] by simp
    then have "?f k (?Z k t) = with_areas (?f k (?Z k s)) (?Z k t)"
      by (metis with_areas_def zone_wmarks_areas)
    with u(2,3) bl [OF k] True show ?thesis by (simp add: wmarks_set_def with_areas_def)
  next
    case False
    then have "zone_ready E (node ! i) u = zone_ready E (node ! i) t" "blocks (node ! i) u = blocks (node ! i) t"
      using other [OF i] pages buddy_ok_cong [of u "node ! i" t E]
      by (simp_all add: zone_ready_def zone_contiguous_def blocks_def free_list_def)
    with False rd [OF i] bl [OF i] za [OF i] other [OF i] show ?thesis by auto
  qed
  then show ?case using t u(1) pages by (simp add: forK_append)
qed

lemma int_sum_list: "int (\<Sum>x \<leftarrow> xs. f x) = (\<Sum>x \<leftarrow> xs. int (f x))"
  by (induction xs) simp_all

lemma sum_div_le: "(\<Sum>x \<leftarrow> xs. f x div L) * L \<le> (\<Sum>x \<leftarrow> xs. f x)" for L :: nat
  by (induction xs) (auto simp: add_mult_distrib intro: add_mono)

lemma sum_less_div: "0 < L \<Longrightarrow> (\<Sum>x \<leftarrow> xs. f x) \<le> ((\<Sum>x \<leftarrow> xs. f x div L) + length xs) * L" for L :: nat
proof (induction xs)
  case (Cons x xs)
  have "f x \<le> (f x div L + 1) * L"
    using dividend_less_times_div [OF Cons.prems, of "f x"] by (simp add: algebra_simps)
  with Cons show ?case by (simp add: algebra_simps)
qed simp

text \<open>The pages of the low zones, over which \<open>min_free_kbytes\<close> is shared.\<close>

definition lowmem_present :: "boot_state \<Rightarrow> zone_ptr list \<Rightarrow> kstate \<Rightarrow> nat" where
  "lowmem_present b node s = (\<Sum>j \<leftarrow> lowmem_zones b. z_present_pages (zone_at s (node ! j)))"

lemma zone_wmarks_values:
  fixes h zn pm lm
  assumes "pm \<le> 2 ^ 14" and "z_present_pages zn < 2 ^ 32" and "z_present_pages zn \<le> 2 ^ 16 * lm" and "0 < lm"
    and w_def: "w = z_watermark (zone_wmarks h pm lm zn)"
  defines "tmp \<equiv> pm * z_present_pages zn div lm"
  shows "0 \<le> w WMARK_MIN" and "w WMARK_LOW = w WMARK_MIN + int (tmp div 4)" and "w WMARK_HIGH = w WMARK_MIN + int (tmp div 2)"
    and "\<not> h \<Longrightarrow> w WMARK_MIN = int tmp" and "h \<Longrightarrow> 32 \<le> w WMARK_MIN \<and> w WMARK_MIN \<le> 128"
proof -
  have "pm * z_present_pages zn \<le> 2 ^ 14 * (2 ^ 16 * lm)" using assms(1,3) by (rule mult_le_mono)
  then have "tmp \<le> 2 ^ 14 * (2 ^ 16 * lm) div lm" unfolding tmp_def by (rule div_le_mono)
  also have "\<dots> = 2 ^ 30" using assms(4) by simp
  finally have t: "tmp \<le> 2 ^ 30" .
  have "pm * z_present_pages zn \<le> 2 ^ 14 * 2 ^ 32" using assms(1,2) by (intro mult_le_mono) simp_all
  then have "pm * z_present_pages zn mod 2 ^ 64 div lm = tmp" by (simp add: tmp_def)
  note w = w_def [unfolded zone_wmarks_def Let_def this]
  show "0 \<le> w WMARK_MIN" "w WMARK_LOW = w WMARK_MIN + int (tmp div 4)" "w WMARK_HIGH = w WMARK_MIN + int (tmp div 2)"
    "\<not> h \<Longrightarrow> w WMARK_MIN = int tmp" "h \<Longrightarrow> 32 \<le> w WMARK_MIN \<and> w WMARK_MIN \<le> 128"
    using t by (simp_all add: w ul_def SWAP_CLUSTER_MAX_def)
qed

lemma totalreserve_bound:
  assumes "length node = MAX_NR_ZONES"
  shows "totalreserve_pages (calculate_totalreserve_pages node m s) \<le> present s node"
proof -
  have *: "sum_list (map f [0 ..< MAX_NR_ZONES]) \<le> present s node" (is "?l \<le> _")
    if "\<And>i. f i \<le> z_present_pages (zone_at s (node ! i))" for f
  proof -
    have "?l \<le> (\<Sum>i \<leftarrow> [0 ..< MAX_NR_ZONES]. z_present_pages (zone_at s (node ! i)))"
      using that by (intro sum_list_mono) simp
    also have "\<dots> = present s node"
      unfolding present_def by (subst (2) map_nth [symmetric]) (simp add: assms comp_def)
    finally show ?thesis .
  qed
  have ul: "ul n \<le> n" for n by (simp add: ul_def)
  show ?thesis
    unfolding calculate_totalreserve_pages_def Let_def setup_vars.select_convs setup_vars.update_convs setup_vars.surjective
    by (simp, rule le_trans [OF ul *]) simp
qed

text \<open>
  C39. \<open>setup_per_zone_wmarks\<close> returns and sets sound watermarks. For a node whose zones are in order
  and whose high memory is at most \<open>2 ^ 16\<close> times its low memory: every zone gets ordered watermarks,
  a high zone a minimum between 32 and 128 pages; the minima of the low zones together use up
  \<open>min_free_kbytes\<close>, up to the rounding of one page per zone; the total reserve is no more than
  what is present; and relisting the reserved blocks keeps every zone in order, with the same
  frames free.
\<close>

theorem setup_per_zone_wmarks_correct:
  assumes node: "distinct node" "length node = MAX_NR_ZONES"
    and ready: "\<forall>z \<in> set node. zone_ready E z s \<and> ZoneLock z \<notin> k_held s"
    and kb: "0 \<le> min_free_kbytes m" "min_free_kbytes m \<le> 65536"
    and low: "0 < lowmem_present b node s" "lowmem_present b node s < 2 ^ 32"
    and size: "\<forall>z \<in> set node. z_present_pages (zone_at s z) < 2 ^ 32
      \<and> z_present_pages (zone_at s z) \<le> 2 ^ 16 * lowmem_present b node s"
  shows "\<exists>m' t. setup_per_zone_wmarks N E b node m s = Some (m', t)
    \<and> (\<forall>j < MAX_NR_ZONES. let w = z_watermark (zone_at t (node ! j)) in
         0 \<le> w WMARK_MIN \<and> w WMARK_MIN \<le> w WMARK_LOW \<and> w WMARK_LOW \<le> w WMARK_HIGH
       \<and> (is_highmem_idx b j \<longrightarrow> 32 \<le> w WMARK_MIN \<and> w WMARK_MIN \<le> 128))
    \<and> (\<Sum>j \<leftarrow> lowmem_zones b. z_watermark (zone_at t (node ! j)) WMARK_MIN) \<in> {min_free_kbytes m div 4 - 4 .. min_free_kbytes m div 4}
    \<and> totalreserve_pages m' \<le> present s node
    \<and> (\<forall>z \<in> set node. zone_ready E z t \<and> free_frames z t = free_frames z s)"
proof -
  define L where "L = lowmem_present b node s"
  define pm where "pm = nat (min_free_kbytes m div 4)"
  let ?f = "\<lambda>j. zone_wmarks (is_highmem_idx b j) pm L" and ?p = "\<lambda>j. z_present_pages (zone_at s (node ! j))"
  have pm: "int pm = min_free_kbytes m div 4" "pm \<le> 2 ^ 14" using kb by (simp_all add: pm_def)
  have pm_eq: "nat (ulong_of (min_free_kbytes m div 4)) = pm"
    unfolding pm(1) [symmetric] using pm(2) by (simp add: ulong_of_def)
  have lm: "ul (\<Sum>j \<leftarrow> lowmem_zones b. ?p j) = L" "0 < L"
    using low by (simp_all add: L_def lowmem_present_def)
  have k: "MAX_NR_ZONES \<le> length node" "L \<noteq> 0" using node(2) lm(2) by simp_all
  from setup_wmarks_loop [OF node(1) k ready, of N b pm] obtain t
    where t: "forK (setup_zone_wmarks N E b node pm L) [0 ..< MAX_NR_ZONES] s = Some t"
      and Z: "\<forall>i < length node. zone_ready E (node ! i) t \<and> blocks (node ! i) t = blocks (node ! i) s
        \<and> zone_at t (node ! i) = with_areas ((if i < MAX_NR_ZONES then ?f i else id) (zone_at s (node ! i)))
            (zone_at t (node ! i))"
    by blast
  have zones: "zone_ready E (node ! i) t \<and> blocks (node ! i) t = blocks (node ! i) s" if "i < length node" for i
    using Z that by blast
  have za: "zone_at t (node ! i) = with_areas (?f i (zone_at s (node ! i))) (zone_at t (node ! i))"
    if "i < length node" for i
  proof -
    from Z that have "zone_at t (node ! i) = with_areas ((if i < length node then ?f i else id) (zone_at s (node ! i)))
        (zone_at t (node ! i))" unfolding node(2) by blast
    then show ?thesis unfolding if_P [OF that] .
  qed
  have W: "z_watermark (zone_at t (node ! i)) = z_watermark (?f i (zone_at s (node ! i)))"
    "z_present_pages (zone_at t (node ! i)) = ?p i" if "i < MAX_NR_ZONES" for i
    by (subst za, use that node(2) in simp, simp)+
  have run: "setup_per_zone_wmarks N E b node m s = Some (calculate_totalreserve_pages node m t, t)"
    using t lm(1) pm_eq by (simp add: setup_per_zone_wmarks_def Let_def)
  have sz: "?p i < 2 ^ 32" "?p i \<le> 2 ^ 16 * L" if "i < MAX_NR_ZONES" for i
    using size that node(2) by (simp_all add: L_def)
  note vals = zone_wmarks_values [OF pm(2) sz lm(2) refl]
  have "let w = z_watermark (zone_at t (node ! j)) in
         0 \<le> w WMARK_MIN \<and> w WMARK_MIN \<le> w WMARK_LOW \<and> w WMARK_LOW \<le> w WMARK_HIGH
       \<and> (is_highmem_idx b j \<longrightarrow> 32 \<le> w WMARK_MIN \<and> w WMARK_MIN \<le> 128)" if j: "j < MAX_NR_ZONES" for j
    using vals(1-3,5) [OF j j, of "is_highmem_idx b j"] by (simp add: Let_def W(1) [OF j] div_le_mono2)
  moreover have "(\<Sum>j \<leftarrow> lowmem_zones b. z_watermark (zone_at t (node ! j)) WMARK_MIN)
      = int (\<Sum>j \<leftarrow> lowmem_zones b. pm * ?p j div L)"
    unfolding int_sum_list
    by (rule arg_cong [where f = sum_list], rule map_cong [OF refl])
      (use W(1) vals(4) in \<open>auto simp: lowmem_zones_def\<close>)
  moreover have "(\<Sum>j \<leftarrow> lowmem_zones b. pm * ?p j) = pm * L"
    by (simp add: L_def lowmem_present_def sum_list_const_mult)
  with sum_div_le [of "\<lambda>j. pm * ?p j" L "lowmem_zones b"] lm(2)
    sum_less_div [OF lm(2), of "\<lambda>j. pm * ?p j" "lowmem_zones b"]
  have "(\<Sum>j \<leftarrow> lowmem_zones b. pm * ?p j div L) \<le> pm"
    "pm \<le> (\<Sum>j \<leftarrow> lowmem_zones b. pm * ?p j div L) + length (lowmem_zones b)"
    by simp_all
  moreover have "length (lowmem_zones b) \<le> 4"
    using length_filter_le [of _ "[0 ..< MAX_NR_ZONES]"] by (simp add: lowmem_zones_def MAX_NR_ZONES_def)
  moreover have "present t node = present s node"
    unfolding present_def by (rule arg_cong [where f = sum_list], rule map_cong [OF refl])
      (use W(2) node(2) in \<open>metis in_set_conv_nth\<close>)
  then have "totalreserve_pages (calculate_totalreserve_pages node m t) \<le> present s node"
    using totalreserve_bound [OF node(2), of m t] by simp
  moreover have "zone_ready E z t \<and> free_frames z t = free_frames z s" if "z \<in> set node" for z
    using zones that unfolding in_set_conv_nth by (auto simp: free_frames_def)
  ultimately show ?thesis using run pm(1) by auto
qed
section \<open>The reserves of the lower zones\<close>

definition fixed_ratio :: "setup_vars \<Rightarrow> nat \<Rightarrow> int" where
  "fixed_ratio m i = max 1 (lowmem_reserve_ratio m i)"

definition with_reserves :: "zone \<Rightarrow> (nat \<Rightarrow> int) \<Rightarrow> zone" where
  "with_reserves zn r = zn\<lparr>z_lowmem_reserve := r\<rparr>"

lemma with_reserves_simps [simp]:
  "z_lowmem_reserve (with_reserves zn r) = r" "z_present_pages (with_reserves zn r) = z_present_pages zn"
  "with_reserves (with_reserves zn r) r' = with_reserves zn r'" "with_reserves zn (z_lowmem_reserve zn) = zn"
  by (simp_all add: with_reserves_def)

text \<open>What the zones between two indices have.\<close>

definition present_between :: "zone_ptr list \<Rightarrow> kstate \<Rightarrow> nat \<Rightarrow> nat \<Rightarrow> nat" where
  "present_between node s i j = (\<Sum>k \<leftarrow> [Suc i ..< Suc j]. z_present_pages (zone_at s (node ! k)))"

lemma present_between_le: "present_between node s i j \<le> (\<Sum>k \<leftarrow> [0 ..< Suc j]. z_present_pages (zone_at s (node ! k)))"
proof (cases "i \<le> j")
  case True
  then have "[0 ..< Suc j] = [0 ..< Suc i] @ [Suc i ..< Suc j]" by (metis Suc_le_mono le0 upt_add_eq_append le_add_diff_inverse)
  then show ?thesis by (simp add: present_between_def del: upt_Suc)
qed (simp add: present_between_def)

text \<open>
  What the loop over the lower zones of zone \<open>j\<close> makes of a state: the entries \<open>j\<close> of the zones below
  \<open>idx\<close> and their ratios.
\<close>

definition reserved_below :: "zone_ptr list \<Rightarrow> nat \<Rightarrow> nat \<Rightarrow> nat \<Rightarrow> setup_vars \<times> kstate \<Rightarrow> setup_vars \<times> kstate \<Rightarrow> bool" where
  "reserved_below node j idx acc ms mt \<longleftrightarrow> (let (m, s) = ms; (m', t) = mt in
     m' = m\<lparr>lowmem_reserve_ratio := \<lambda>i. if i < idx then fixed_ratio m i else lowmem_reserve_ratio m i\<rparr>
     \<and> (\<exists>Z. t = s\<lparr>k_zones := Z\<rparr>)
     \<and> (\<forall>i < idx. zone_at t (node ! i) = with_reserves (zone_at s (node ! i)) ((z_lowmem_reserve (zone_at s (node ! i)))
          (j := int ((present_between node s i (idx - 1) + acc) div nat (fixed_ratio m i)))))
     \<and> (\<forall>y. y \<notin> (!) node ` {..<idx} \<longrightarrow> zone_at t y = zone_at s y))"

lemma reserve_in_lower_zones_spec:
  assumes "distinct node" and "idx \<le> length node"
    and "(\<Sum>k \<leftarrow> [0 ..< idx]. z_present_pages (zone_at s (node ! k))) + acc < 2 ^ 32"
  shows "reserved_below node j idx acc (m, s) (reserve_in_lower_zones node j idx acc (m, s))"
  using assms(2,3)
proof (induction idx arbitrary: acc m s)
  case 0
  then show ?case
    by (simp add: reserved_below_def) (rule exI [where x = "k_zones s"], simp)
next
  case (Suc idx)
  let ?m = "if lowmem_reserve_ratio m idx < 1 then m\<lparr>lowmem_reserve_ratio := (lowmem_reserve_ratio m)(idx := 1)\<rparr> else m"
  let ?y = "node ! idx"
  let ?s = "upd_zone ?y (\<lambda>zn. zn\<lparr>z_lowmem_reserve := (z_lowmem_reserve zn)
                (j := int (acc div nat (lowmem_reserve_ratio ?m idx)))\<rparr>) s"
  have ratio: "lowmem_reserve_ratio ?m idx = fixed_ratio m idx" "\<And>i. i \<noteq> idx \<Longrightarrow> lowmem_reserve_ratio ?m i = lowmem_reserve_ratio m i"
    "\<And>i. fixed_ratio ?m i = fixed_ratio m i"
    by (auto simp: fixed_ratio_def)
  have idx: "idx < length node" using Suc.prems by simp
  have y: "node ! i \<noteq> ?y" if "i < idx" for i
    using that idx assms(1) by (simp add: nth_eq_iff_index_eq)
  have za: "zone_at ?s z = (if z = ?y then with_reserves (zone_at s ?y) ((z_lowmem_reserve (zone_at s ?y))
      (j := int (acc div nat (fixed_ratio m idx)))) else zone_at s z)" for z
    by (simp add: zone_at_upd_zone with_reserves_def ratio(1))
  have pp: "z_present_pages (zone_at ?s z) = z_present_pages (zone_at s z)" for z by (simp add: za)
  have small: "ul (acc + z_present_pages (zone_at ?s ?y)) = acc + z_present_pages (zone_at s ?y)"
    unfolding pp using Suc.prems(2) by (simp add: ul_def)
  let ?r = "reserve_in_lower_zones node j idx (acc + z_present_pages (zone_at s ?y)) (?m, ?s)"
  have step: "reserve_in_lower_zones node j (Suc idx) acc (m, s) = ?r"
    using small by (simp add: Let_def)
  have "reserved_below node j idx (acc + z_present_pages (zone_at s ?y)) (?m, ?s) ?r"
    by (rule Suc.IH) (use Suc.prems in \<open>simp_all only: pp\<close>, simp_all)
  moreover obtain m' t where r: "?r = (m', t)" by fastforce
  ultimately have m': "m' = ?m\<lparr>lowmem_reserve_ratio := \<lambda>i. if i < idx then fixed_ratio ?m i else lowmem_reserve_ratio ?m i\<rparr>"
    and tz: "\<exists>Z. t = ?s\<lparr>k_zones := Z\<rparr>"
    and below: "\<And>i. i < idx \<Longrightarrow> zone_at t (node ! i) = with_reserves (zone_at ?s (node ! i)) ((z_lowmem_reserve (zone_at ?s (node ! i)))
          (j := int ((present_between node ?s i (idx - 1) + (acc + z_present_pages (zone_at s ?y))) div nat (fixed_ratio ?m i))))"
    and rest: "\<And>y. y \<notin> (!) node ` {..<idx} \<Longrightarrow> zone_at t y = zone_at ?s y"
    by (auto simp: reserved_below_def)
  have "m' = m\<lparr>lowmem_reserve_ratio := \<lambda>i. if i < Suc idx then fixed_ratio m i else lowmem_reserve_ratio m i\<rparr>"
    unfolding m' by (auto simp: fun_eq_iff fixed_ratio_def less_Suc_eq)
  moreover have "\<exists>Z. t = s\<lparr>k_zones := Z\<rparr>" using tz by (auto simp: upd_zone_def)
  moreover have "zone_at t (node ! i) = with_reserves (zone_at s (node ! i)) ((z_lowmem_reserve (zone_at s (node ! i)))
          (j := int ((present_between node s i idx + acc) div nat (fixed_ratio m i))))" if "i < Suc idx" for i
  proof (cases "i = idx")
    case True
    have "?y \<notin> (!) node ` {..<idx}" using y by (metis imageE lessThan_iff)
    with rest [OF this] True show ?thesis by (simp add: za present_between_def)
  next
    case False
    with that have i: "i < idx" by simp
    then have "[Suc i ..< Suc idx] = [Suc i ..< idx] @ [idx]" "Suc (idx - 1) = idx" by simp_all
    then have "present_between node s i idx = present_between node ?s i (idx - 1) + z_present_pages (zone_at s ?y)"
      by (simp add: present_between_def pp del: upt_Suc)
    with below [OF i] y [OF i] show ?thesis by (simp add: za ratio(3) add.assoc add.commute [of acc])
  qed
  moreover have "zone_at t y = zone_at s y" if "y \<notin> (!) node ` {..<Suc idx}" for y
    using rest [of y] that by (auto simp: za lessThan_Suc)
  ultimately show ?case unfolding step r by (simp add: reserved_below_def)
qed

text \<open>The reserve of zone \<open>i\<close> against allocations meant for zone \<open>j\<close>.\<close>

definition reserve_for :: "zone_ptr list \<Rightarrow> setup_vars \<Rightarrow> kstate \<Rightarrow> nat \<Rightarrow> nat \<Rightarrow> int" where
  "reserve_for node m s i j = (if i = j then 0 else int (present_between node s i j div nat (fixed_ratio m i)))"

definition reserves_upto :: "zone_ptr list \<Rightarrow> nat \<Rightarrow> setup_vars \<times> kstate \<Rightarrow> setup_vars \<times> kstate \<Rightarrow> bool" where
  "reserves_upto node k ms mt \<longleftrightarrow> (let (m, s) = ms; (m', t) = mt in
     (\<exists>R. m' = m\<lparr>lowmem_reserve_ratio := R\<rparr>) \<and> fixed_ratio m' = fixed_ratio m \<and> (\<exists>Z. t = s\<lparr>k_zones := Z\<rparr>)
     \<and> (\<forall>i < length node. zone_at t (node ! i) = with_reserves (zone_at s (node ! i))
          (\<lambda>j. if i \<le> j \<and> j < k then reserve_for node m s i j else z_lowmem_reserve (zone_at s (node ! i)) j))
     \<and> (\<forall>y. y \<notin> set node \<longrightarrow> zone_at t y = zone_at s y))"

lemma reserves_step:
  assumes node: "distinct node" and j: "j < length node" and small: "present s node < 2 ^ 32"
    and upto: "reserves_upto node j (m0, s) (m, u)"
  defines "v \<equiv> upd_zone (node ! j) (\<lambda>zn. zn\<lparr>z_lowmem_reserve := (z_lowmem_reserve zn)(j := 0)\<rparr>) u"
  shows "reserves_upto node (Suc j) (m0, s) (reserve_in_lower_zones node j j (z_present_pages (zone_at v (node ! j))) (m, v))"
proof -
  let ?R = "\<lambda>i j'. if i \<le> j' \<and> j' < j then reserve_for node m0 s i j' else z_lowmem_reserve (zone_at s (node ! i)) j'"
  obtain R Z where R: "m = m0\<lparr>lowmem_reserve_ratio := R\<rparr>" and Z: "u = s\<lparr>k_zones := Z\<rparr>"
    and ratio: "fixed_ratio m = fixed_ratio m0"
    and za: "\<And>i. i < length node \<Longrightarrow> zone_at u (node ! i) = with_reserves (zone_at s (node ! i)) (?R i)"
    and rest: "\<And>y. y \<notin> set node \<Longrightarrow> zone_at u y = zone_at s y"
    using upto by (auto simp: reserves_upto_def)
  have ne: "node ! i \<noteq> node ! j" if "i < length node" "i \<noteq> j" for i
    using that j node by (simp add: nth_eq_iff_index_eq)
  have zv: "zone_at v z = (if z = node ! j then with_reserves (zone_at s z) ((?R j)(j := 0)) else zone_at u z)" for z
    using za [OF j] by (simp add: v_def zone_at_upd_zone with_reserves_def)
  have pv: "z_present_pages (zone_at v (node ! i)) = z_present_pages (zone_at s (node ! i))" if "i < length node" for i
    using za [OF that] ne [OF that] by (cases "i = j") (simp_all add: zv)
  have pb: "(\<Sum>k \<leftarrow> [a ..< b]. z_present_pages (zone_at v (node ! k))) = (\<Sum>k \<leftarrow> [a ..< b]. z_present_pages (zone_at s (node ! k)))"
    if "b \<le> length node" for a b
    by (rule arg_cong [where f = sum_list], rule map_cong [OF refl]) (use pv that in auto)
  have "(\<Sum>k \<leftarrow> [0 ..< j]. z_present_pages (zone_at s (node ! k))) + z_present_pages (zone_at s (node ! j)) \<le> present s node"
  proof -
    have "(\<Sum>k \<leftarrow> [0 ..< Suc j]. z_present_pages (zone_at s (node ! k))) = present s (take (Suc j) node)"
      unfolding present_def by (rule arg_cong [where f = sum_list]) (use j in \<open>auto simp: list_eq_iff_nth_eq simp del: upt_Suc\<close>)
    with present_mono [of s "Suc j" node] show ?thesis by simp
  qed
  then have "(\<Sum>k \<leftarrow> [0 ..< j]. z_present_pages (zone_at v (node ! k))) + z_present_pages (zone_at v (node ! j)) < 2 ^ 32"
    using pb [of j 0] pv [OF j] j small by simp
  from reserve_in_lower_zones_spec [OF node less_imp_le [OF j] this, of j m] obtain m' t
    where run: "reserve_in_lower_zones node j j (z_present_pages (zone_at v (node ! j))) (m, v) = (m', t)"
      and m': "m' = m\<lparr>lowmem_reserve_ratio := \<lambda>i. if i < j then fixed_ratio m i else lowmem_reserve_ratio m i\<rparr>"
      and tz: "\<exists>Z. t = v\<lparr>k_zones := Z\<rparr>"
      and below: "\<And>i. i < j \<Longrightarrow> zone_at t (node ! i) = with_reserves (zone_at v (node ! i)) ((z_lowmem_reserve (zone_at v (node ! i)))
          (j := int ((present_between node v i (j - 1) + z_present_pages (zone_at v (node ! j))) div nat (fixed_ratio m i))))"
      and other: "\<And>y. y \<notin> (!) node ` {..<j} \<Longrightarrow> zone_at t y = zone_at v y"
    by (auto simp: reserved_below_def)
  have ratio': "fixed_ratio m' = fixed_ratio m0" by (simp add: m' fun_eq_iff flip: ratio) (simp add: fixed_ratio_def)
  have "zone_at t (node ! i) = with_reserves (zone_at s (node ! i))
      (\<lambda>j'. if i \<le> j' \<and> j' < Suc j then reserve_for node m0 s i j' else z_lowmem_reserve (zone_at s (node ! i)) j')"
    if i: "i < length node" for i
  proof (cases "i < j")
    case True
    have "[Suc i ..< Suc j] = [Suc i ..< j] @ [j]" "Suc (j - 1) = j" using True by simp_all
    then have "present_between node v i (j - 1) + z_present_pages (zone_at v (node ! j)) = present_between node s i j"
      using pb [of j "Suc i"] pv [OF j] j by (simp add: present_between_def del: upt_Suc)
    then have e: "int ((present_between node v i (j - 1) + z_present_pages (zone_at v (node ! j))) div nat (fixed_ratio m i))
        = reserve_for node m0 s i j"
      using True by (simp add: reserve_for_def ratio)
    show ?thesis
      unfolding below [OF True, unfolded e] zv using True ne [OF i] za [OF i]
      by (simp add: fun_eq_iff less_Suc_eq) (rule arg_cong [where f = "with_reserves _"], auto simp: fun_eq_iff)
  next
    case False
    then have "node ! i \<notin> (!) node ` {..<j}" using i j node by (auto simp: nth_eq_iff_index_eq)
    from other [OF this] show ?thesis
    proof (cases "i = j")
      case True
      with other [OF \<open>node ! i \<notin> _\<close>] show ?thesis
        by (simp add: zv) (rule arg_cong [where f = "with_reserves _"], auto simp: fun_eq_iff reserve_for_def less_Suc_eq)
    next
      case ij: False
      with other [OF \<open>node ! i \<notin> _\<close>] ne [OF i] za [OF i] False show ?thesis
        by (simp add: zv) (rule arg_cong [where f = "with_reserves _"], auto simp: fun_eq_iff less_Suc_eq)
    qed
  qed
  moreover have "zone_at t y = zone_at s y" if "y \<notin> set node" for y
  proof -
    have "y \<notin> (!) node ` {..<j}" "y \<noteq> node ! j" using that j by auto
    with other [of y] rest [OF that] show ?thesis by (simp add: zv)
  qed
  moreover have "\<exists>Z. t = s\<lparr>k_zones := Z\<rparr>" using tz Z by (auto simp: v_def upd_zone_def)
  moreover have "\<exists>R. m' = m0\<lparr>lowmem_reserve_ratio := R\<rparr>" using m' R by auto
  ultimately show ?thesis using ratio' unfolding run by (simp add: reserves_upto_def)
qed

text \<open>
  C40. \<open>setup_per_zone_lowmem_reserve\<close> gives zone \<open>i\<close>, against allocations that could also use the
  zones up to \<open>j\<close>, a reserve of exactly the pages present in the zones above it up to \<open>j\<close>, divided by
  its ratio (taken as 1 where it is below 1), no reserve for itself, and leaves the rest of every
  zone alone. No sum wraps around when the pages present fit an \<open>unsigned long\<close>.
\<close>

theorem lowmem_reserve_exact:
  assumes "distinct node" and "length node = MAX_NR_ZONES" and "present s node < 2 ^ 32"
    and "setup_per_zone_lowmem_reserve node (m, s) = (m', t)" and "i < MAX_NR_ZONES"
  shows "zone_at t (node ! i) = with_reserves (zone_at s (node ! i))
      (\<lambda>j. if i \<le> j \<and> j < MAX_NR_ZONES then reserve_for node m s i j else z_lowmem_reserve (zone_at s (node ! i)) j)"
proof -
  define F where "F = (\<lambda>j (m, s).
          let s = upd_zone (node ! j) (\<lambda>zn. zn\<lparr>z_lowmem_reserve := (z_lowmem_reserve zn)(j := 0)\<rparr>) s
          in reserve_in_lower_zones node j j (z_present_pages (zone_at s (node ! j))) (m, s))"
  have "reserves_upto node k (m, s) (fold F [0 ..< k] (m, s))" if "k \<le> length node" for k
    using that
  proof (induction k)
    case 0
    show ?case by (simp add: reserves_upto_def) (auto intro: exI [where x = "k_zones s"] exI [where x = "lowmem_reserve_ratio m"])
  next
    case (Suc k)
    obtain m1 u where mu: "fold F [0 ..< k] (m, s) = (m1, u)" by fastforce
    from Suc.IH Suc.prems have "reserves_upto node k (m, s) (m1, u)" by (simp add: mu)
    from reserves_step [OF assms(1) _ assms(3) this] Suc.prems
    have "reserves_upto node (Suc k) (m, s) (F k (m1, u))" by (simp only: F_def Let_def prod.case)
    then show ?case by (simp add: mu)
  qed
  from this [OF order_refl] assms(2,5) assms(4) show ?thesis
    by (auto simp: setup_per_zone_lowmem_reserve_def reserves_upto_def F_def split: prod.splits)
qed

section \<open>Boot\<close>

definition fresh_page :: "page \<Rightarrow> page" where
  "fresh_page pg = pg\<lparr>pg_count := 1, pg_mapcount := - 1, pg_flags := set_bit (pg_nr PG_reserved) (pg_flags pg)\<rparr>"

text \<open>The frames that \<open>memmap_init_zone\<close> initialises early.\<close>

definition mapped :: "setup_env \<Rightarrow> boot_state \<Rightarrow> nat \<Rightarrow> page_ptr \<Rightarrow> bool" where
  "mapped N b nid pfn \<longleftrightarrow> pfn_valid N pfn \<and> early_pfn_in_nid b (of_nat pfn) (int nid)"

text \<open>Only pages and the bitmaps of page blocks change.\<close>

definition pages_set :: "(page_ptr \<Rightarrow> bool) \<Rightarrow> kstate \<Rightarrow> kstate \<Rightarrow> bool" where
  "pages_set P s t \<longleftrightarrow> k_zones t = k_zones s \<and> k_held t = k_held s
     \<and> (\<forall>q. page_at t q = (if P q then fresh_page (page_at s q) else page_at s q))"

lemma init_page_spec:
  assumes "page_zone E pfn = z"
  shows "\<exists>t. init_page E z pfn s = Some t \<and> pages_set (\<lambda>q. q = pfn) s t"
proof -
  let ?u = "set_bit_k PG_reserved pfn (upd_page pfn (\<lambda>pg. pg\<lparr>pg_count := 1, pg_mapcount := - 1\<rparr>) s)"
  have zu: "zone_at ?u = zone_at s" "k_zones ?u = k_zones s" "k_held ?u = k_held s"
    by (simp_all add: zone_at_def fun_eq_iff set_bit_k_def upd_page_def)
  have u: "pages_set (\<lambda>q. q = pfn) s ?u"
    using zu by (auto simp: pages_set_def fresh_page_def set_bit_k_def upd_page_def page_at_def)
  show ?thesis
  proof (cases "z_start_pfn (zone_at s z) \<le> pfn \<and> pfn < z_start_pfn (zone_at s z) + z_spanned_pages (zone_at s z)
      \<and> pfn AND (pageblock_nr_pages E - 1) = 0")
    case True
    with assms have "page_zone E pfn = z" by simp
    with True zu(1) obtain v where v: "set_pageblock_migratetype E pfn MIGRATE_MOVABLE ?u = Some v"
      by (simp add: set_pageblock_migratetype_def set_pageblock_flags_group_def Let_def split del: if_split)
    with set_pageblock_cases [OF v] u have "pages_set (\<lambda>q. q = pfn) s v"
      by (auto simp: pages_set_def page_at_def)
    with True v zu(1) assms show ?thesis by (simp add: init_page_def Let_def)
  next
    case False
    with u zu(1) assms show ?thesis by (auto simp: init_page_def Let_def)
  qed
qed

lemma memmap_init_loop:
  assumes "\<And>pfn. pfn \<in> set xs \<Longrightarrow> mapped N b nid pfn \<Longrightarrow> page_zone E pfn = z" and "distinct xs"
  shows "\<exists>t. forK (\<lambda>pfn s. if MEMMAP_EARLY = MEMMAP_EARLY \<and> (\<not> pfn_valid N pfn \<or> \<not> early_pfn_in_nid b (of_nat pfn) (int nid))
      then Some s else init_page E z pfn s) xs s = Some t \<and> pages_set (\<lambda>q. q \<in> set xs \<and> mapped N b nid q) s t"
  using assms
proof (induction xs arbitrary: s)
  case Nil
  then show ?case by (simp add: pages_set_def)
next
  case (Cons x xs)
  obtain u where u: "(if MEMMAP_EARLY = MEMMAP_EARLY \<and> (\<not> pfn_valid N x \<or> \<not> early_pfn_in_nid b (of_nat x) (int nid))
      then Some s else init_page E z x s) = Some u" "pages_set (\<lambda>q. q = x \<and> mapped N b nid q) s u"
  proof (cases "mapped N b nid x")
    case True
    with Cons.prems(1) have "page_zone E x = z" by simp
    with init_page_spec [of E x z s] True that show thesis by (auto simp: mapped_def pages_set_def)
  next
    case False
    with that [of s] show thesis by (auto simp: mapped_def pages_set_def)
  qed
  obtain t where t: "forK (\<lambda>pfn s. if MEMMAP_EARLY = MEMMAP_EARLY \<and> (\<not> pfn_valid N pfn \<or> \<not> early_pfn_in_nid b (of_nat pfn) (int nid))
      then Some s else init_page E z pfn s) xs u = Some t" "pages_set (\<lambda>q. q \<in> set xs \<and> mapped N b nid q) u t"
    using Cons.IH [of u] Cons.prems by auto
  have "pages_set (\<lambda>q. q \<in> set (x # xs) \<and> mapped N b nid q) s t"
    using u(2) t(2) Cons.prems(2) by (auto simp: pages_set_def)
  with t(1) u(1) show ?case by auto
qed

text \<open>A zone as boot leaves it: its bounds, no free block, empty lists, counters at zero.\<close>

definition zone_booted :: "nat \<Rightarrow> nat \<Rightarrow> zone \<Rightarrow> bool" where
  "zone_booted start n zn \<longleftrightarrow> z_start_pfn zn = start \<and> z_spanned_pages zn = n
     \<and> (\<forall>order mt. fa_free_list (z_free_area zn order) mt = []) \<and> (\<forall>order. fa_nr_free (z_free_area zn order) = 0)
     \<and> (\<forall>l < NR_LRU_LISTS. z_lru zn l = []) \<and> z_vm_stat zn = (\<lambda>_. 0) \<and> z_flags zn = 0"

text \<open>Outside the bounds of the arrays of free lists there is nothing.\<close>

definition areas_bounded :: "zone \<Rightarrow> bool" where
  "areas_bounded zn \<longleftrightarrow> (\<forall>order mt. MAX_ORDER \<le> order \<or> MIGRATE_TYPES \<le> mt \<longrightarrow> fa_free_list (z_free_area zn order) mt = [])
     \<and> (\<forall>order. MAX_ORDER \<le> order \<longrightarrow> fa_nr_free (z_free_area zn order) = 0)"

lemma zone_booted_init:
  assumes "areas_bounded zn"
  shows "zone_booted a (unat n) (zone_init_free_lists ((reset_zone m n realsize zn)\<lparr>z_start_pfn := a\<rparr>))"
  using assms by (auto simp: zone_booted_def zone_init_free_lists_def reset_zone_def areas_bounded_def for_each_lru_def not_less)

lemma init_zone_spec:
  fixes node :: "zone_ptr list" and j nid :: nat and B b
  defines "z \<equiv> node ! j" and "n \<equiv> zone_spanned_pages_in_node B b nid j"
  assumes "zone_absent_pages_in_node B b nid j = Some absent" and wait: "\<And>k. wait_table_alloc N k"
    and wrap: "unat start + unat n < 2 ^ 32" and fresh: "areas_bounded (zone_at s z)"
    and links: "\<And>pfn. unat start \<le> pfn \<Longrightarrow> pfn < unat start + unat n \<Longrightarrow> mapped N b nid pfn \<Longrightarrow> page_zone E pfn = z"
  shows "\<exists>nr' m' t. init_zone N E B b nid node j (start, nr, m, s) = Some (start + n, nr', m', t)
    \<and> (if n = 0 then nr' = nr else nr' = Suc j \<and> zone_booted (unat start) (unat n) (zone_at t z))
    \<and> (\<forall>y. y \<noteq> z \<longrightarrow> zone_at t y = zone_at s y) \<and> k_held t = k_held s
    \<and> (\<forall>q. page_at t q = (if unat start \<le> q \<and> q < unat start + unat n \<and> mapped N b nid q then fresh_page (page_at s q) else page_at s q))"
proof (cases "n = 0")
  case True
  then show ?thesis
    using assms(3) by (auto simp: init_zone_def Let_def zone_at_def page_at_def upd_zone_def simp flip: n_def z_def)
next
  case False
  let ?R = "zone_memory N j (dma_reserve m) n (n - absent)"
  let ?m = "(if \<not> is_highmem_idx b j then m\<lparr>nr_kernel_pages := nr_kernel_pages m + ?R\<rparr> else m)"
  let ?m1 = "?m\<lparr>nr_all_pages := nr_all_pages ?m + ?R\<rparr>"
  let ?s1 = "setup_usemap E z (unat n) (upd_zone z (reset_zone ?m1 n ?R) s)"
  let ?u = "upd_zone z (\<lambda>zn. zone_init_free_lists (zn\<lparr>z_start_pfn := unat start\<rparr>)) ?s1"
  have zu: "zone_at ?u z = zone_init_free_lists ((reset_zone ?m1 n ?R (zone_at s z))\<lparr>z_start_pfn := unat start\<rparr>)"
    "\<And>y. y \<noteq> z \<Longrightarrow> zone_at ?u y = zone_at s y" "k_held ?u = k_held s" "k_pages ?u = k_pages s"
    by (simp_all add: setup_usemap_def Let_def upd_zone_def zone_at_def)
  have fin: "unat (start + n) = unat start + unat n" using wrap by (simp add: unat_plus_if')
  have "\<exists>t. forK (\<lambda>pfn s. if MEMMAP_EARLY = MEMMAP_EARLY \<and> (\<not> pfn_valid N pfn \<or> \<not> early_pfn_in_nid b (of_nat pfn) (int nid))
      then Some s else init_page E z pfn s) [unat start ..< unat (start + n)] ?u = Some t
    \<and> pages_set (\<lambda>q. q \<in> set [unat start ..< unat (start + n)] \<and> mapped N b nid q) ?u t"
    by (rule memmap_init_loop) (use links fin in auto)
  then obtain t m' where t: "memmap_init_zone N E b z n nid start MEMMAP_EARLY ?m1 ?u = Some (m', t)"
    and pt: "pages_set (\<lambda>q. q \<in> set [unat start ..< unat (start + n)] \<and> mapped N b nid q) ?u t"
    unfolding memmap_init_zone_def Let_def by auto
  have zt: "zone_at t = zone_at ?u" using pt by (simp add: pages_set_def zone_at_def fun_eq_iff)
  have "init_zone N E B b nid node j (start, nr, m, s) = Some (start + n, Suc j, m', t)"
    using assms(3) False t wait
    by (simp add: init_zone_def init_currently_empty_zone_def zone_wait_table_init_def Let_def flip: n_def z_def)
  moreover have "zone_booted (unat start) (unat n) (zone_at t z)"
    unfolding zt zu(1) by (rule zone_booted_init [OF fresh])
  ultimately show ?thesis
    using False zu(2-4) pt fin zt by (auto simp: pages_set_def page_at_def)
qed

text \<open>The first frame of zone \<open>j\<close>, and the frames it spans.\<close>

definition zone_size :: "boot_env \<Rightarrow> boot_state \<Rightarrow> nat \<Rightarrow> nat \<Rightarrow> nat" where
  "zone_size B b nid j = unat (zone_spanned_pages_in_node B b nid j)"

definition zone_start :: "boot_env \<Rightarrow> boot_state \<Rightarrow> nat \<Rightarrow> ulong \<Rightarrow> nat \<Rightarrow> nat" where
  "zone_start B b nid node_start_pfn j = unat node_start_pfn + (\<Sum>i \<leftarrow> [0 ..< j]. zone_size B b nid i)"

definition zone_range :: "boot_env \<Rightarrow> boot_state \<Rightarrow> nat \<Rightarrow> ulong \<Rightarrow> nat \<Rightarrow> nat set" where
  "zone_range B b nid a j = {zone_start B b nid a j ..< zone_start B b nid a (Suc j)}"

lemma zone_start_Suc: "zone_start B b nid a (Suc j) = zone_start B b nid a j + zone_size B b nid j"
  by (simp add: zone_start_def)

lemma zone_start_mono: "i \<le> j \<Longrightarrow> zone_start B b nid a i \<le> zone_start B b nid a j"
  by (induction j) (auto simp: le_Suc_eq zone_start_Suc)

text \<open>
  What the loader hands over: a fresh memory map, in which no page is marked as free, blank zones,
  the ranges of the node known, the frames of each zone linked to it.
\<close>

definition boot_ready ::
  "setup_env \<Rightarrow> kenv \<Rightarrow> boot_env \<Rightarrow> boot_state \<Rightarrow> nat \<Rightarrow> zone_ptr list \<Rightarrow> ulong \<Rightarrow> kstate \<Rightarrow> bool" where
  "boot_ready N E B b nid node a s \<longleftrightarrow> distinct node \<and> length node = MAX_NR_ZONES
     \<and> (\<forall>k. wait_table_alloc N k) \<and> (\<forall>q. \<not> PageBuddy q s) \<and> (\<forall>z \<in> set node. areas_bounded (zone_at s z))
     \<and> (\<forall>j < MAX_NR_ZONES. zone_absent_pages_in_node B b nid j \<noteq> None)
     \<and> zone_start B b nid a MAX_NR_ZONES < 2 ^ 32
     \<and> (\<forall>j < MAX_NR_ZONES. \<forall>pfn \<in> zone_range B b nid a j. mapped N b nid pfn \<longrightarrow> page_zone E pfn = node ! j)"

definition booted_upto ::
  "setup_env \<Rightarrow> boot_env \<Rightarrow> boot_state \<Rightarrow> nat \<Rightarrow> zone_ptr list \<Rightarrow> ulong \<Rightarrow> nat \<Rightarrow> kstate \<Rightarrow> ulong \<times> nat \<times> setup_vars \<times> kstate \<Rightarrow> bool" where
  "booted_upto N B b nid node a k s st \<longleftrightarrow> (let (start, nr, m, t) = st in
     unat start = zone_start B b nid a k \<and> nr \<le> k \<and> k_held t = k_held s
     \<and> (\<forall>j < k. zone_size B b nid j \<noteq> 0 \<longrightarrow> j < nr
          \<and> zone_booted (zone_start B b nid a j) (zone_size B b nid j) (zone_at t (node ! j)))
     \<and> (\<forall>y. y \<notin> (!) node ` {..<k} \<longrightarrow> zone_at t y = zone_at s y)
     \<and> (\<forall>q. page_at t q = (if zone_start B b nid a 0 \<le> q \<and> q < zone_start B b nid a k \<and> mapped N b nid q
          then fresh_page (page_at s q) else page_at s q)))"

lemma booted_step:
  assumes "boot_ready N E B b nid node a s" and k: "k < MAX_NR_ZONES" and upto: "booted_upto N B b nid node a k s st"
  shows "\<exists>st'. init_zone N E B b nid node k st = Some st' \<and> booted_upto N B b nid node a (Suc k) s st'"
proof -
  from assms(1) have node: "distinct node" "length node = MAX_NR_ZONES" and wait: "\<And>k. wait_table_alloc N k"
    and blank: "\<And>z. z \<in> set node \<Longrightarrow> areas_bounded (zone_at s z)"
    and absent: "\<And>j. j < MAX_NR_ZONES \<Longrightarrow> zone_absent_pages_in_node B b nid j \<noteq> None"
    and wrap: "zone_start B b nid a MAX_NR_ZONES < 2 ^ 32"
    and links: "\<And>j pfn. j < MAX_NR_ZONES \<Longrightarrow> pfn \<in> zone_range B b nid a j \<Longrightarrow> mapped N b nid pfn \<Longrightarrow> page_zone E pfn = node ! j"
    by (auto simp: boot_ready_def)
  obtain start nr m t where st: "st = (start, nr, m, t)" by (cases st) auto
  note up = upto [unfolded st booted_upto_def, simplified]
  let ?n = "zone_spanned_pages_in_node B b nid k"
  have ne: "node ! k \<notin> (!) node ` {..<k}" using k node by (auto simp: nth_eq_iff_index_eq)
  obtain hole where hole: "zone_absent_pages_in_node B b nid k = Some hole" using absent [OF k] by blast
  have z0: "zone_at t (node ! k) = zone_at s (node ! k)" using up ne by blast
  have S: "unat start = zone_start B b nid a k" and e: "unat start + unat ?n = zone_start B b nid a (Suc k)"
    using up by (simp_all add: zone_start_Suc zone_size_def)
  have w: "unat start + unat ?n < 2 ^ 32"
    unfolding e using wrap zone_start_mono [of "Suc k" MAX_NR_ZONES B b nid a] k by simp
  have "areas_bounded (zone_at t (node ! k))" using blank k node(2) z0 by simp
  moreover have "page_zone E pfn = node ! k"
    if "unat start \<le> pfn" "pfn < unat start + unat ?n" "mapped N b nid pfn" for pfn
    using links [OF k _ that(3)] that(1,2) unfolding S by (simp add: zone_range_def zone_start_Suc zone_size_def)
  ultimately obtain nr' m' u where run: "init_zone N E B b nid node k (start, nr, m, t) = Some (start + ?n, nr', m', u)"
    and z: "if ?n = 0 then nr' = nr else nr' = Suc k \<and> zone_booted (unat start) (unat ?n) (zone_at u (node ! k))"
    and other: "\<forall>y. y \<noteq> node ! k \<longrightarrow> zone_at u y = zone_at t y" and held: "k_held u = k_held t"
    and pages: "\<forall>q. page_at u q = (if unat start \<le> q \<and> q < unat start + unat ?n \<and> mapped N b nid q
      then fresh_page (page_at t q) else page_at t q)"
    using init_zone_spec [OF hole wait w, where s = t and node = node and E = E and nr = nr and m = m] by blast
  have S': "unat (start + ?n) = zone_start B b nid a (Suc k)" using w e by (simp add: unat_plus_if')
  have zk: "zone_size B b nid k = 0 \<longleftrightarrow> ?n = 0" by (simp add: zone_size_def unat_eq_0)
  have zones: "zone_size B b nid j \<noteq> 0 \<longrightarrow> j < nr' \<and> zone_booted (zone_start B b nid a j) (zone_size B b nid j) (zone_at u (node ! j))"
    if j: "j < Suc k" for j
  proof (cases "j = k")
    case True
    with z S zk show ?thesis by (auto simp: zone_size_def split: if_splits)
  next
    case False
    then have "j < k" "node ! j \<noteq> node ! k" using j k node by (auto simp: nth_eq_iff_index_eq)
    with up other z show ?thesis by (auto split: if_splits)
  qed
  have pg: "page_at u q = (if zone_start B b nid a 0 \<le> q \<and> q < zone_start B b nid a (Suc k) \<and> mapped N b nid q
          then fresh_page (page_at s q) else page_at s q)" for q
    using pages [rule_format, of q, unfolded e, unfolded S] up zone_start_mono [of 0 k B b nid a] zone_start_mono [of k "Suc k" B b nid a]
    by auto
  have "booted_upto N B b nid node a (Suc k) s (start + ?n, nr', m', u)"
    using S' held zones pg other up z unfolding booted_upto_def by (auto simp: lessThan_Suc split: if_splits)
  with run st show ?thesis by blast
qed

text \<open>
  C38. Boot establishes the invariants. From a fresh memory map \<open>free_area_init_core\<close> returns; every
  zone that spans frames starts where the zone before it ends, has the buddy system in order with
  no frame free yet, empty LRU lists and counters at zero; exactly the frames the node has in its
  zones are initialised, reserved and with one reference; and \<open>nr_zones\<close> is past every such zone.
\<close>

theorem free_area_init_core_ready:
  assumes "boot_ready N E B b nid node a s"
  shows "\<exists>nr m' t. free_area_init_core N E B b nid node a m s = Some (nr, m', t) \<and> nr \<le> MAX_NR_ZONES
    \<and> (\<forall>j < MAX_NR_ZONES. zone_size B b nid j \<noteq> 0 \<longrightarrow> j < nr
        \<and> zone_booted (zone_start B b nid a j) (zone_size B b nid j) (zone_at t (node ! j))
        \<and> buddy_ok E (node ! j) t \<and> free_frames (node ! j) t = {})
    \<and> (\<forall>q. page_at t q = (if zone_start B b nid a 0 \<le> q \<and> q < zone_start B b nid a MAX_NR_ZONES \<and> mapped N b nid q
        then fresh_page (page_at s q) else page_at s q))"
proof -
  have "\<exists>st. forK (init_zone N E B b nid node) [0 ..< k] (a, 0, m, s) = Some st \<and> booted_upto N B b nid node a k s st"
    if "k \<le> MAX_NR_ZONES" for k
    using that
  proof (induction k)
    case 0
    show ?case by (auto simp: booted_upto_def zone_start_def)
  next
    case (Suc k)
    then obtain st where st: "forK (init_zone N E B b nid node) [0 ..< k] (a, 0, m, s) = Some st"
      "booted_upto N B b nid node a k s st" by auto
    from booted_step [OF assms _ st(2)] Suc.prems st(1) show ?case by (auto simp: forK_append)
  qed
  from this [OF order_refl] obtain start nr m' t
    where run: "forK (init_zone N E B b nid node) [0 ..< MAX_NR_ZONES] (a, 0, m, s) = Some (start, nr, m', t)"
      and up: "booted_upto N B b nid node a MAX_NR_ZONES s (start, nr, m', t)" by (metis prod_cases4)
  have pages: "page_at t q = (if zone_start B b nid a 0 \<le> q \<and> q < zone_start B b nid a MAX_NR_ZONES \<and> mapped N b nid q
        then fresh_page (page_at s q) else page_at s q)" for q
    using up by (simp add: booted_upto_def)
  have nb: "\<not> PageBuddy q t" for q
    using assms pages [of q] by (auto simp: boot_ready_def PageBuddy_def fresh_page_def)
  have "buddy_ok E (node ! j) t \<and> free_frames (node ! j) t = {}"
    if "zone_booted x n (zone_at t (node ! j))" for x n j
  proof -
    have "free_list t (node ! j) = (\<lambda>_ _. [])" "nr_free (node ! j) t = (\<lambda>_. 0)"
      using that by (simp_all add: zone_booted_def free_list_def nr_free_def fun_eq_iff)
    with nb show ?thesis by (simp add: buddy_ok_def lists_ok_def blocks_def free_frames_def)
  qed
  with up run pages show ?thesis
    by (auto simp: free_area_init_core_def booted_upto_def)
qed

section \<open>Wait tables, batches and zonelists\<close>

lemma wait_table_size_power:
  assumes "pages \<le> 2 ^ b" and "a \<le> b"
  shows "\<exists>k. a \<le> k \<and> k \<le> b \<and> wait_table_size pages (2 ^ a) = 2 ^ k"
  using assms
proof (induction "b - a" arbitrary: a)
  case 0
  then show ?case by (subst wait_table_size.simps) auto
next
  case (Suc d)
  then have "d = b - Suc a" "Suc a \<le> b" by simp_all
  then obtain k where "Suc a \<le> k" "k \<le> b" "wait_table_size pages (2 ^ Suc a) = 2 ^ k"
    using Suc.hyps(1) [of "Suc a"] Suc.prems(1) by auto
  then show ?case
    using Suc.prems by (subst wait_table_size.simps) (auto intro: Suc_leD exI [where x = k] exI [where x = a])
qed

text \<open>The wait table has a power of two of entries, between 4 and 4096, and \<open>wait_table_bits\<close> is its logarithm.\<close>

lemma wait_table_sized:
  assumes "pages < 2 ^ 32"
  shows "\<exists>k. 2 \<le> k \<and> k \<le> 12 \<and> wait_table_hash_nr_entries pages = 2 ^ k
    \<and> wait_table_bits (wait_table_hash_nr_entries pages) = k"
proof -
  have "pages div PAGES_PER_WAITQUEUE \<le> 2 ^ 24" using assms by (simp add: PAGES_PER_WAITQUEUE_def)
  from wait_table_size_power [OF this, of 0] obtain k
    where "wait_table_size (pages div PAGES_PER_WAITQUEUE) 1 = 2 ^ k" by auto
  then have e: "wait_table_hash_nr_entries pages = max (min (2 ^ k) (2 ^ 12)) (2 ^ 2)"
    by (simp add: wait_table_hash_nr_entries_def)
  have "\<exists>k. 2 \<le> k \<and> k \<le> 12 \<and> wait_table_hash_nr_entries pages = 2 ^ k"
  proof -
    have mono: "(2 :: nat) ^ a \<le> 2 ^ b \<longleftrightarrow> a \<le> b" for a b by simp
    have "max (min (2 ^ k) (2 ^ 12)) (2 ^ 2) = (2 :: nat) ^ max (min k 12) 2"
      unfolding min_def max_def mono by (cases "k \<le> 12"; cases "k \<le> 2") (simp_all only: if_True if_False mono, simp_all)
    then show ?thesis unfolding e by (intro exI [where x = "max (min k 12) 2"]) auto
  qed
  then obtain j where j: "2 \<le> j" "j \<le> 12" "wait_table_hash_nr_entries pages = 2 ^ j" by blast
  have "takeWhile (\<lambda>i. \<not> bit (2 ^ j :: nat) i) [0 ..< 32] = [0 ..< j]"
  proof -
    have "[0 ..< 32] = [0 ..< j] @ [j ..< 32]" "[j ..< 32] = j # [Suc j ..< 32]"
      using upt_add_eq_append [of 0 j "32 - j"] upt_conv_Cons [of j 32] j(2) by simp_all
    then have "[0 ..< 32] = [0 ..< j] @ j # [Suc j ..< 32]" by simp
    moreover have "takeWhile (\<lambda>i. \<not> bit (2 ^ j :: nat) i) ([0 ..< j] @ j # [Suc j ..< 32]) = [0 ..< j]"
      by (subst takeWhile_append2) (auto simp: bit_exp_iff)
    ultimately show ?thesis by simp
  qed
  with j show ?thesis by (intro exI [where x = j]) (simp add: wait_table_bits_def)
qed

text \<open>The zonelist: the populated zones of the nodes in order, the highest zone of each first.\<close>

lemma build_zonelists_down_eq:
  "build_zonelists_down node n zonelist s = zonelist @ filter (\<lambda>z. populated_zone (zone_at s z)) (map ((!) node) (rev [0 ..< n]))"
  by (induction n arbitrary: zonelist) auto

lemma build_zonelists_eq:
  assumes "\<forall>nid. length (node_data nid) = MAX_NR_ZONES"
  shows "build_zonelists node_data node_online max_nodes local_node s = Some (concat (map
      (\<lambda>nid. filter (\<lambda>z. populated_zone (zone_at s z)) (rev (node_data nid)))
      (local_node # filter node_online [local_node + 1 ..< max_nodes] @ filter node_online [0 ..< local_node])))"
proof -
  have "build_zonelists_node (node_data nid) zl (MAX_NR_ZONES - 1) s =
      Some (zl @ filter (\<lambda>z. populated_zone (zone_at s z)) (rev (node_data nid)))" for nid zl
    using assms map_nth [of "node_data nid"]
    by (simp add: build_zonelists_node_def build_zonelists_down_eq MAX_NR_ZONES_def rev_map [symmetric] del: upt_Suc)
  then have "fold (\<lambda>nid zl. do {
         zl \<leftarrow> zl;
         build_zonelists_node (node_data nid) zl (MAX_NR_ZONES - 1) s
       }) nids (Some zl) = Some (zl @ concat (map (\<lambda>nid. filter (\<lambda>z. populated_zone (zone_at s z)) (rev (node_data nid))) nids))" for nids zl
    by (induction nids arbitrary: zl) simp_all
  from this [of _ "[]"] show ?thesis unfolding build_zonelists_def append_Nil .
qed

text \<open>
  A batch is one below a power of two, at most 31, whatever the zone; \<open>rounddown_pow_of_two\<close> is
  assumed to return the largest power of two that is not above its argument.
\<close>

lemma zone_batchsize_values:
  assumes "\<And>n. 0 < n \<Longrightarrow> \<exists>k. rounddown_pow_of_two N n = 2 ^ k \<and> 2 ^ k \<le> n \<and> n < 2 ^ Suc k"
    and "z_present_pages zn < 2 ^ 30"
  shows "\<exists>k \<le> 5. zone_batchsize N zn = 2 ^ k - 1"
proof -
  define batch where "batch = z_present_pages zn div 1024"
  define c where "c = max 1 ((if batch > 128 then 128 else batch) div 4)"
  have "batch < 2 ^ 20" using assms(2) by (simp add: batch_def less_mult_imp_div_less)
  then have "ul (batch * 4096) = batch * 4096" by (simp add: ul_def)
  then have e: "zone_batchsize N zn = rounddown_pow_of_two N (c + c div 2) - 1"
    by (auto simp: zone_batchsize_def c_def Let_def max_def simp flip: batch_def)
  have "c \<le> 32" "0 < c" by (auto simp: c_def)
  then have "0 < c + c div 2" "c + c div 2 \<le> 48" by simp_all
  with assms(1) [of "c + c div 2"] obtain k where k: "rounddown_pow_of_two N (c + c div 2) = 2 ^ k" "2 ^ k \<le> (48 :: nat)" by force
  have "k \<le> 5"
  proof (rule ccontr)
    assume "\<not> k \<le> 5"
    then have "(2 :: nat) ^ 6 \<le> 2 ^ k" by (intro power_increasing) simp_all
    with k(2) show False by simp
  qed
  with e k(1) show ?thesis by auto
qed

text \<open>
  Setting a page set up again, as \<open>zone_pcp_update\<close> does on a running system, throws away what its
  CPU has counted and not yet folded, besides its threshold.
\<close>

lemma setup_pageset_loses_counts:
  assumes "cpu < n"
  shows "zone_count n (upd_zone z (\<lambda>zn. zn\<lparr>z_pageset := (z_pageset zn)(cpu := setup_pageset batch)\<rparr>) s) z i
    = zone_count n s z i - cpu_diff s z cpu i"
proof -
  let ?t = "upd_zone z (\<lambda>zn. zn\<lparr>z_pageset := (z_pageset zn)(cpu := setup_pageset batch)\<rparr>) s"
  have d: "cpu_diff ?t z c i = (if c = cpu then 0 else cpu_diff s z c i)" for c
    by (simp add: cpu_diff_def zone_at_upd_zone setup_pageset_def)
  have "(\<Sum>c<n. cpu_diff ?t z c i) = (\<Sum>c \<in> {..<n} - {cpu}. cpu_diff s z c i)"
    using assms by (simp add: d sum.remove [of "{..<n}" cpu])
  also have "\<dots> = (\<Sum>c<n. cpu_diff s z c i) - cpu_diff s z cpu i"
    using assms by (simp add: sum_diff1)
  finally show ?thesis by (simp add: zone_count_def zone_at_upd_zone)
qed

section \<open>A small node\<close>

definition sample_setup :: setup_vars where
  "sample_setup = \<lparr>min_free_kbytes = 1024, lowmem_reserve_ratio = (\<lambda>_. 32), totalreserve_pages = 0,
     percpu_pagelist_fraction = 0, highest_memmap_pfn = 0, nr_kernel_pages = 0, nr_all_pages = 0, dma_reserve = 0,
     boot_pageset = (\<lambda>_. setup_pageset 0)\<rparr>"

definition sample_setup_env :: setup_env where
  "sample_setup_env = \<lparr>pfn_valid = (\<lambda>_. True), page_to_nid = (\<lambda>_. 0), zone_to_nid = (\<lambda>_. 0), sizeof_page = 32, wait_table_alloc = (\<lambda>_. True),
     rounddown_pow_of_two = (\<lambda>n. if n < 2 then 1 else if n < 4 then 2 else 4), int_sqrt = (\<lambda>n. n), gfp_zone_user = 1, cpus = 1\<rparr>"

text \<open>All memory in zone 0, of which frames 8 to 15 are free.\<close>

definition four_zones :: kstate where
  "four_zones = buddy_sample\<lparr>k_zones := \<lambda>z. if z = 0 then k_zones buddy_sample 0
     else sample_zone\<lparr>z_spanned_pages := 0, z_present_pages := 0\<rparr>\<rparr>"

lemma four_zones_at: "zone_at four_zones z = (if z = 0 then zone_at buddy_sample 0
     else sample_zone\<lparr>z_spanned_pages := 0, z_present_pages := 0\<rparr>)"
  by (simp add: four_zones_def zone_at_def)

lemma four_zones_ok: "zone_ready sample_env z four_zones \<and> ZoneLock z \<notin> k_held four_zones"
proof -
  have held: "k_held four_zones = {}" by (simp add: four_zones_def buddy_sample_def sample_state_def)
  have zone: "page_zone sample_env q = 0" for q by (simp add: sample_env_def)
  have "buddy_ok sample_env z four_zones"
  proof (cases "z = 0")
    case True
    have "buddy_ok sample_env 0 four_zones = buddy_ok sample_env 0 buddy_sample"
      by (rule buddy_ok_cong) (simp_all add: four_zones_at, simp add: four_zones_def)
    with True sample_buddy_ok show ?thesis by simp
  next
    case False
    then have "free_list four_zones z = (\<lambda>_ _. [])" "nr_free z four_zones = (\<lambda>_. 0)"
      by (simp_all add: free_list_def nr_free_def four_zones_at sample_zone_def fun_eq_iff)
    moreover have "PageBuddy q four_zones = PageBuddy q buddy_sample" for q
      by (simp add: PageBuddy_def page_at_def four_zones_def)
    moreover have "pg_count (page_at four_zones 8) = 0"
      by (simp add: page_at_def four_zones_def buddy_sample_def idle_page_def)
    ultimately show ?thesis
      using False by (simp add: buddy_ok_def blocks_def free_frames_def lists_ok_def sample_buddy zone)
  qed
  then show ?thesis
    using held zone by (auto simp: zone_ready_def zone_contiguous_def four_zones_at)
qed

theorem setup_per_zone_wmarks_correct_witness:
  "\<exists>m' t. setup_per_zone_wmarks sample_setup_env sample_env sample_boot [0, 1, 2, 3] sample_setup four_zones = Some (m', t)
     \<and> zone_ready sample_env 0 t \<and> totalreserve_pages m' \<le> 4096"
proof -
  have lz: "lowmem_zones sample_boot = [0, 1, 3]"
    by (simp add: lowmem_zones_def is_highmem_idx_def zone_movable_is_highmem_def zone_type_defs sample_boot_def upt_conv_Cons)
  have pp: "z_present_pages (zone_at four_zones z) = (if z = 0 then 4096 else 0)" for z
    by (simp add: four_zones_at) (simp add: buddy_sample_def zone_at_def sample_zone_def)
  have low: "lowmem_present sample_boot [0, 1, 2, 3] four_zones = 4096"
    by (simp add: lowmem_present_def lz pp)
  have node: "distinct [0, 1, 2, 3 :: nat]" "length [0, 1, 2, 3 :: nat] = MAX_NR_ZONES" by (simp_all add: MAX_NR_ZONES_def)
  have ready: "\<forall>z \<in> set [0, 1, 2, 3]. zone_ready sample_env z four_zones \<and> ZoneLock z \<notin> k_held four_zones"
    using four_zones_ok by blast
  have kb: "0 \<le> min_free_kbytes sample_setup" "min_free_kbytes sample_setup \<le> 65536" by (simp_all add: sample_setup_def)
  have lo: "0 < lowmem_present sample_boot [0, 1, 2, 3] four_zones" "lowmem_present sample_boot [0, 1, 2, 3] four_zones < 2 ^ 32"
    unfolding low by simp_all
  have sz: "\<forall>z \<in> set [0, 1, 2, 3]. z_present_pages (zone_at four_zones z) < 2 ^ 32
      \<and> z_present_pages (zone_at four_zones z) \<le> 2 ^ 16 * lowmem_present sample_boot [0, 1, 2, 3] four_zones"
    unfolding low by (simp add: pp)
  have total: "present four_zones [0, 1, 2, 3] = 4096" by (simp add: present_def pp)
  from setup_per_zone_wmarks_correct [OF node ready kb lo sz, of sample_setup_env] show ?thesis
    unfolding total by auto
qed

theorem lowmem_reserve_exact_witness:
  "z_lowmem_reserve (zone_at (snd (setup_per_zone_lowmem_reserve [0, 1, 2, 3] (sample_setup, sample_state))) 0) 2 = 256"
proof -
  obtain m' t where r: "setup_per_zone_lowmem_reserve [0, 1, 2, 3] (sample_setup, sample_state) = (m', t)" by fastforce
  have pp: "z_present_pages (zone_at sample_state z) = 4096" for z by (simp add: zone_at_def sample_defs)
  have "zone_at t ([0, 1, 2, 3] ! 0) = with_reserves (zone_at sample_state ([0, 1, 2, 3] ! 0))
      (\<lambda>j. if 0 \<le> j \<and> j < MAX_NR_ZONES then reserve_for [0, 1, 2, 3] sample_setup sample_state 0 j
         else z_lowmem_reserve (zone_at sample_state ([0, 1, 2, 3] ! 0)) j)"
    by (rule lowmem_reserve_exact [OF _ _ _ r]) (simp_all add: MAX_NR_ZONES_def present_def pp)
  then show ?thesis
    unfolding r snd_conv by (simp add: MAX_NR_ZONES_def reserve_for_def present_between_def pp fixed_ratio_def sample_setup_def upt_conv_Cons)
qed

text \<open>The node of the sample map: all of it is in zone 0.\<close>

lemma sample_node_ready: "node_ready sample_boot_env sample_boot 0"
  using sample_regions_ok unfolding node_ready_def sample_active
  by (auto simp: sample_boot_def zone_type_defs)

lemma sample_node_range: "get_pfn_range_for_nid sample_boot_env sample_boot 0 = (0x10, 0x400)"
proof -
  have r: "regions_ok (active_regions sample_boot_env (b_map sample_boot) 0)" "active_regions sample_boot_env (b_map sample_boot) 0 \<noteq> []"
    "rg_start (hd (active_regions sample_boot_env (b_map sample_boot) 0)) \<noteq> - 1"
    using sample_node_ready by (simp_all add: node_ready_def)
  from node_range [OF r] show ?thesis unfolding sample_active by (simp add: sample_boot_def)
qed

lemma sample_zone_bounds:
  "b_lowest sample_boot j = 0" "b_highest sample_boot j = (if j = 0 then 0x1000 else 0)" "b_zone_movable_pfn sample_boot nid = 0"
  by (simp_all add: sample_boot_def)

lemma sample_zone_size: "zone_size sample_boot_env sample_boot 0 j = (if j = 0 then 0x3f0 else 0)"
  by (simp add: zone_size_def zone_spanned_pages_in_node_def sample_node_range adjust_zone_range_for_zone_movable_def
      sample_zone_bounds word_less_nat_alt)

theorem free_area_init_core_ready_witness:
  "\<exists>nr m' t. free_area_init_core sample_setup_env sample_env sample_boot_env sample_boot 0 [0, 1, 2, 3] 0x10 sample_setup sample_state
     = Some (nr, m', t) \<and> buddy_ok sample_env 0 t \<and> pg_count (page_at t 0x200) = 1"
proof -
  have start: "zone_start sample_boot_env sample_boot 0 0x10 j = (if j = 0 then 0x10 else 0x400)" for j
    by (induction j) (auto simp: zone_start_def sample_zone_size)
  have ready: "boot_ready sample_setup_env sample_env sample_boot_env sample_boot 0 [0, 1, 2, 3] 0x10 sample_state"
    using zone_sizes [OF sample_node_ready]
    by (fastforce simp: boot_ready_def MAX_NR_ZONES_def sample_setup_env_def PageBuddy_def page_at_def areas_bounded_def
        zone_at_def sample_defs start zone_range_def nth_Cons')
  have "zone_size sample_boot_env sample_boot 0 0 \<noteq> 0" "0 < MAX_NR_ZONES" by (simp_all add: sample_zone_size MAX_NR_ZONES_def)
  moreover have "mapped sample_setup_env sample_boot 0 0x200"
    by (simp add: mapped_def sample_setup_env_def early_pfn_in_nid_def k__early_pfn_to_nid_def sample_boot_def word_le_nat_alt)
  ultimately show ?thesis
    using free_area_init_core_ready [OF ready, of sample_setup] by (fastforce simp: start fresh_page_def MAX_NR_ZONES_def)
qed
end
