(* ===== verification/Spec2Isabelle.thy ===== *)
theory Spec2Isabelle
  imports Alloc_Slow Zone_Setup
begin

text \<open>
  A development for the memory chains of the MCPQ kernel (\<open>Linux/\<close>, a patch to Linux 2.6.38 for
  i386) and for the parts of the memory manager the patch changes or rests on.

  \<^bold>\<open>The program.\<close> A task groups pages it uses together into memory chains, by system calls
  (\<open>Linux/mchain.c\<close>): \<open>new_mem_chain\<close>, \<open>link_addr_rng\<close>, \<open>anchor\<close>, \<open>brk_mem_chain\<close>, \<open>rls_mem_chain\<close>;
  \<open>hate\<close> (\<open>Linux/mhint.c\<close>) instead offers pages for eviction. A page points to its chain, a
  chain lists its pages and counts the referenced ones; the chains of a task are the slots of its
  collection \<open>tsk->mcc\<close>. Reclaim is to treat the pages of a chain alike, so the referenced bit of
  \<open>Linux/page-flags.h\<close> is overridden to answer for the chain, the LRU lists (\<open>Linux/mm_inline.h\<close>)
  have lists of their own for linked pages, marking and releasing a page (\<open>Linux/swap.c\<close>) and
  freeing it (\<open>Linux/page_alloc.c\<close>) maintain its chain, and exit and fork
  (\<open>Linux/exit.c\<close>, \<open>Linux/fork.c\<close>) tear the collection down and reset the pointer.

  \<^bold>\<open>The model.\<close> One state record \<open>kstate\<close> (theory \<open>Mm_Types\<close>) holds what these files share: pages,
  chains, collections, tasks, zones, page vectors, counters and the spinlocks held. Pointers are
  numbers, \<open>struct page *\<close> is the page frame number; objects that are freed live in partial maps.
  A list node is represented by the list it is on. A routine is a function of the state; one that
  can fail returns an option, and \<open>None\<close> means that the call does not come back: a BUG, a NULL or
  dangling pointer, a spinlock taken twice, a \<open>list_del\<close> of a node that is on no list, or an
  endless loop. \<open>kenv\<close> (theory \<open>Kernel_Prims\<close>) is what the code calls outside this repository
  (page tables, faults, allocation of objects, the configuration); the definitions fix nothing
  about it, and what a theorem needs of it is a hypothesis (\<open>env_ok\<close>). A C routine \<open>__x\<close> is \<open>k__x\<close>,
  a system call \<open>x\<close> is \<open>sys_x\<close>, and other names are those of the source.

  Configuration: i386 with 32-bit words, SMP, an MMU, swap, high memory and a DMA zone,
  \<open>CONFIG_DEBUG_VM\<close> (so \<open>VM_BUG_ON\<close> checks), flat memory, no memory controller, no NUMA (the node
  map keeps node numbers), no transparent huge pages (\<open>hpage_nr_pages\<close> stays a parameter).

  \<^bold>\<open>The theories.\<close>
  \<^item> \<open>Mcpq_Prelude\<close>: theorem collections, facts on lists, options and bits, and the locale
    \<open>stable_system\<close> (an invariant of a step relation holds along every run).
  \<^item> \<open>Mm_Types\<close>, \<open>Kernel_Prims\<close>: the data (\<open>mm_types.h\<close>, \<open>mmzone.h\<close>, \<open>page-flags.h\<close>) and the
    primitives; a small machine on which the theorems are run.
  \<^item> \<open>Page_Flags\<close>: the flag macros, the check masks, the overridden referenced bit.
  \<^item> \<open>Vm_Stat\<close> (\<open>vmstat.c\<close>): per-CPU counters and their folding; locale \<open>zone_counter\<close>, interpreted
    by the code's counters. Sums are exact whatever the interleaving of CPUs, drift is bounded.
  \<^item> \<open>Lru_Lists\<close> (\<open>mm_inline.h\<close>): which list a page belongs on, lists against counters.
  \<^item> \<open>Chain_Ops\<close> (\<open>mchain.c\<close>, static routines, and \<open>unlink_chain_fast\<close> of \<open>exit.c\<close>): linking, unlinking
    and tearing down, each a refinement of an operation on an abstract view of chains
    (\<open>chain_view\<close>), and the invariant \<open>chains_ok\<close>; locale \<open>owner_map\<close> (every item has at most one
    owner, and the owners list their items), interpreted by the chains.
  \<^item> \<open>Buddy\<close> (\<open>page_alloc.c\<close>): compound pages, per-CPU lists, freeing and allocating pages.
    \<open>Buddy_Inv\<close>: the invariant of the buddy lists; freeing with merging and taking with splitting
    are exact on the set of free frames and undo each other. \<open>Buddy_Fallback\<close>: taking from the
    lists of other mobilities. \<open>Watermark\<close>: watermarks and the choice of a zone.
  \<^item> \<open>Page_Blocks\<close> (\<open>page_alloc.c\<close>): mobility bits of page blocks, their isolation, movability.
  \<^item> \<open>Swap\<close> (\<open>swap.c\<close>): dropping pages, page vectors, activation, \<open>mark_page_accessed\<close>.
  \<^item> \<open>Mchain\<close>, \<open>Mhint\<close>, \<open>Task_Chains\<close>: the system calls, exit and fork.
  \<^item> \<open>Chain_Tables\<close>: the system calls as operations on a table of descriptors (\<open>table\<close>) and the
    invariant \<open>system_ok\<close>. A fork copies the collection pointer and resets it in the child later: the
    two halves are separate steps, and \<open>window_ok W\<close> is the invariant while the children in \<open>W\<close> are
    in between. It is kept along every sequence of calls, faults, frees, exits and forks in which
    such a child does not use the copied pointer (\<open>mcpq_step\<close>; \<open>stable_system\<close> interpreted by it);
    what happens when one does is a theorem of its own (\<open>fork_window_use_after_free\<close>).
  \<^item> \<open>Link_Range\<close>: the loops over addresses and areas end and are walks over finite lists, and the
    effect of linking a range, page by page, when the pages are present; looking a page up may mark
    it as accessed, as \<open>follow_page\<close> does for \<open>FOLL_TOUCH\<close>.
  \<^item> \<open>Isolate\<close>, \<open>Shrink\<close>, \<open>Reclaim\<close>, \<open>Kswapd\<close> (\<open>vmscan.c\<close>): taking pages off the lists and putting
    them back; the fate of each page (references of its chain included); lists, scan balance,
    zones, slabs and direct reclaim; balancing a node and the sleep of its thread.
  \<^item> \<open>Node_Map\<close> (\<open>page_alloc.c\<close>, boot): the table of memory ranges, sizes and holes of zones, the
    movable zone. \<open>Zone_Setup\<close>: the memory map, zones, per-CPU lists and zonelists at boot, which
    establish the invariants of the other theories; the watermarks and the reserves of low zones.

  \<^bold>\<open>Loops and bounds.\<close> Loops over lists and arrays are structural recursion or \<open>function\<close> with a
  measure. Loops that may run forever are \<open>partial_function\<close>s, for which \<open>None\<close> is no result: the
  loops over user addresses and areas, on 32-bit addresses that can wrap (\<open>Link_Range\<close> proves that
  they return for every range that ends below the last page); putting a page back while its
  evictability changes, waiting for isolated pages, the restart of \<open>shrink_zone\<close>, \<open>goto loop_again\<close>
  of \<open>balance_pgdat\<close>, the endless loop of \<open>kswapd\<close> and the scan of a mapping, whose ends depend on
  code outside the repository. Fuel is used twice: \<open>buffered_rmqueue\<close> retries after a bad page,
  once per unit, and each retry takes pages away from the free ones; \<open>shrink_loop\<close> of \<open>Node_Map\<close>
  walks a table that may grow, and the size of the table is proved to be enough. Word
  arithmetic is kept where a wrap-around can matter (addresses, frame numbers, flag words, the
  signed bytes of the counters, watermarks, the sums of \<open>get_scan_count\<close>); counts of objects that
  exist in memory are numbers. The 32-bit atomics that are only added to (\<open>ref_counter\<close> of a chain, the
  statistics of a zone) are kept as exact sums and read through \<open>atomic_read\<close>, which takes the low 32
  bits as a signed number; since adding commutes with that, the values read are those of a counter
  that wraps at every update. \<open>ref_counter\<close> has no bound (\<open>ref_counter_wraps\<close>), so properties that rest
  on its value name the bound they need.

  \<^bold>\<open>Not modelled.\<close> Output (\<open>printk\<close>, \<open>DEBUG_PRINT\<close>, \<open>/proc\<close>, tracing), interrupts and preemption
  (the operations are steps of a sequential state, interleaved as whole steps), page contents, the
  contents of unused hardware and NUMA configurations (zone reclaim and the cache of full zones
  among them), the memory controller, the slow path of the allocator with its out-of-memory
  killing and compaction, memory hot-plug callbacks, the start and stop of the \<open>kswapd\<close> threads and
  their placement on CPUs, sysctl handlers that only pass values on, the stock parts of \<open>exit.c\<close>,
  \<open>fork.c\<close> and \<open>sched.h\<close> that know nothing of pages, system call tables (declarations), the
  benchmark programs and the Java simulators.
\<close>

end
